(* ===== verification/DST_Prelude.thy ===== *)
theory DST_Prelude
  imports Main "HOL-Library.Monad_Syntax" "HOL-Library.Word" "HOL-Library.Sublist"
begin

text \<open>
  Shared vocabulary of the development.

  \<^item> \<open>verify(e)\<close> stops the process when \<open>e\<close> is false. Code that can stop in this way returns an
    option, and \<^term>\<open>None\<close> is the stopped run. The builds of \<open>rococo-dst\<close> define \<open>NDEBUG\<close>, so
    \<open>assert\<close> does nothing there; where a model keeps an assertion it is shown never to fail.
  \<^item> \<open>uint64_t\<close> values that serve as timestamps, versions or request ids are 64-bit words, so
    that the wrap-around of \<open>++\<close> and the \<open>-1\<close> sentinels are the ones of the code. Counters that
    always equal the length of a list held in memory are integers.
  \<^item> A callback (\<open>std::function\<close>) handed to an asynchronous component is an event of the trace the
    component returns; the environment reacts to it after the call.
\<close>

type_synonym u64 = "64 word"
type_synonym u32 = "32 word"
type_synonym i64 = int
type_synonym i32 = int

named_theorems verify_simps \<open>unfolding of checked code\<close>

definition verify :: "bool \<Rightarrow> unit option" where
  "verify b = (if b then Some () else None)"

lemma verify_True [simp]: "verify True = Some ()"
  by (simp add: verify_def)

lemma verify_eq_Some [simp]: "verify b = Some u \<longleftrightarrow> b"
  by (simp add: verify_def)

lemma bind_verify [verify_simps]:
  "Option.bind (verify b) f = (if b then f () else None)"
  by (simp add: verify_def)

subsection \<open>Lists\<close>

lemma takeWhile_append_all [simp]:
  "\<forall>x \<in> set xs. P x \<Longrightarrow> takeWhile P (xs @ ys) = xs @ takeWhile P ys"
  by (induction xs) auto

lemma dropWhile_append_all [simp]:
  "\<forall>x \<in> set xs. P x \<Longrightarrow> dropWhile P (xs @ ys) = dropWhile P ys"
  by (induction xs) auto

lemma dropWhile_hd_not:
  "dropWhile P xs = y # ys \<Longrightarrow> \<not> P y"
  by (induction xs) (auto split: if_splits)

lemma dropWhile_Cons_split:
  "dropWhile P xs = y # ys \<Longrightarrow> xs = takeWhile P xs @ y # ys"
  by (metis takeWhile_dropWhile_id)

lemma sorted_wrt_remove:
  "sorted_wrt P (xs @ y # ys) \<Longrightarrow> sorted_wrt P (xs @ ys)"
  by (auto simp: sorted_wrt_append)

lemma sorted_wrt_subseq: "subseq xs ys \<Longrightarrow> sorted_wrt P ys \<Longrightarrow> sorted_wrt P xs"
  by (induction rule: list_emb.induct) (auto dest: list_emb_set)

subsection \<open>64-bit words\<close>

lemma u64_unat_minus_1: "unat (- 1 :: u64) = 2 ^ 64 - 1"
  by (simp add: unsigned_minus_1_eq_mask mask_eq_exp_minus_1)

lemma u64_unat_Suc:
  assumes "(w :: u64) \<noteq> - 1"
  shows "unat (w + 1) = Suc (unat w)"
proof -
  have "unat w \<noteq> unat (- 1 :: u64)"
    using assms by (metis unsigned_word_eqI)
  then have "unat w + 1 < 2 ^ 64"
    using unsigned_less[of w, where ?'a = nat] by (simp add: u64_unat_minus_1)
  then show ?thesis
    by (simp add: unat_word_ariths(1))
qed

lemma u64_less_Suc: "(w :: u64) \<noteq> - 1 \<Longrightarrow> v < w + 1 \<longleftrightarrow> v \<le> w"
  by (simp add: word_less_nat_alt word_le_nat_alt u64_unat_Suc less_Suc_eq_le)

lemma u64_not_above_max [simp]: "\<not> (- 1 :: u64) < w"
  by (simp add: not_less)

lemma u64_Suc_not_max:
  assumes "(w :: u64) \<noteq> - 2"
  shows "w + 1 \<noteq> - 1"
proof
  assume "w + 1 = - 1"
  then have "w = - 1 - 1"
    by (simp only: eq_diff_eq)
  then show False
    using assms by simp
qed

lemma u64_unat_exp: "n < 64 \<Longrightarrow> unat (2 ^ n :: u64) = 2 ^ n"
  using unsigned_of_nat[of "2 ^ n", where 'a = nat and 'b = 64] by simp

lemma u64_bit_less:
  assumes "(x :: u64) < 2 ^ n" "n < 64" "bit x i"
  shows "i < n"
proof -
  have "unat x < 2 ^ n"
    using assms(1,2) by (simp add: word_less_nat_alt u64_unat_exp)
  then have "take_bit n (unat x) = unat x"
    by (rule take_bit_nat_eq_self)
  moreover have "bit (unat x) i"
    using assms(3) by (simp add: bit_unsigned_iff)
  ultimately show ?thesis
    by (metis bit_take_bit_iff)
qed

subsection \<open>Runs of a component\<close>

text \<open>
  A component whose calls arrive in some order is a step function; \<open>run_steps\<close> performs a list of
  calls and collects the outputs. The contract \<open>step_system\<close> says that the checks inside the code
  never fire from a well-formed state and that every call keeps the state well-formed.
\<close>

fun run_steps :: "('op \<Rightarrow> 's \<Rightarrow> ('out \<times> 's) option) \<Rightarrow> 'op list \<Rightarrow> 's \<Rightarrow> ('out list \<times> 's) option" where
  "run_steps step [] s = Some ([], s)"
| "run_steps step (a # as) s = do {
     (out, s1) \<leftarrow> step a s;
     (outs, s2) \<leftarrow> run_steps step as s1;
     Some (out # outs, s2)
   }"

locale step_system =
  fixes init :: 's
    and step :: "'op \<Rightarrow> 's \<Rightarrow> ('out \<times> 's) option"
    and inv :: "'s \<Rightarrow> bool"
  assumes inv_init: "inv init"
    and step_total: "inv s \<Longrightarrow> step a s \<noteq> None"
    and step_inv: "inv s \<Longrightarrow> step a s = Some (out, s') \<Longrightarrow> inv s'"
begin

lemma run_from_inv: "inv s \<Longrightarrow> \<exists>outs s'. run_steps step as s = Some (outs, s') \<and> inv s'"
proof (induction as arbitrary: s)
  case (Cons a as)
  obtain out s1 where s1: "step a s = Some (out, s1)"
    using step_total[OF Cons.prems, of a] by (cases "step a s") auto
  from Cons.IH[OF step_inv[OF Cons.prems s1]] show ?case
    using s1 by auto
qed simp

lemma run_total: "\<exists>outs s'. run_steps step as init = Some (outs, s')"
  using run_from_inv[OF inv_init] by blast

lemma run_inv: "run_steps step as init = Some (outs, s) \<Longrightarrow> inv s"
  using run_from_inv[OF inv_init, of as] by auto

end

text \<open>Locks: at most one writer, and no reader beside it.\<close>

definition mutex :: "'a list \<Rightarrow> 'a list \<Rightarrow> bool" where
  "mutex ws rs \<longleftrightarrow> length ws \<le> 1 \<and> (ws = [] \<or> rs = [])"

locale lock_system = step_system init step inv
  for init :: 's and step :: "'op \<Rightarrow> 's \<Rightarrow> ('out \<times> 's) option" and inv :: "'s \<Rightarrow> bool" +
  fixes writers :: "'s \<Rightarrow> 'a list"
    and readers :: "'s \<Rightarrow> 'a list"
  assumes inv_mutex: "inv s \<Longrightarrow> mutex (writers s) (readers s)"
begin

lemma run_mutex:
  "\<exists>outs s. run_steps step as init = Some (outs, s) \<and> mutex (writers s) (readers s)"
  using run_from_inv[OF inv_init, of as] inv_mutex by blast

end

end
