(* ===== verification/RWLock.thy ===== *)
theory RWLock
  imports DST_Prelude
begin

text \<open>
  The read/write lock of rows in \<open>memdb/locking.h\<close>. Owners are \<open>i64\<close> transaction ids that the
  code only compares. The unordered set of readers is a list without duplicates.
\<close>

record rwlock =
  wlocked :: bool
  w_owner :: i64
  r_owners :: "i64 list"

definition rwlock_init :: rwlock where
  "rwlock_init = \<lparr>wlocked = False, w_owner = 0, r_owners = []\<rparr>"

definition is_wlocked :: "rwlock \<Rightarrow> bool option" where
  "is_wlocked l = do { verify (\<not> wlocked l \<or> r_owners l = []); Some (wlocked l) }"

definition is_rlocked :: "rwlock \<Rightarrow> bool option" where
  "is_rlocked l = do { verify (\<not> wlocked l \<or> r_owners l = []); Some (r_owners l \<noteq> []) }"

definition wlock_by :: "i64 \<Rightarrow> rwlock \<Rightarrow> bool \<times> rwlock" where
  "wlock_by ow l =
    (if wlocked l then (ow = w_owner l, l)
     else if r_owners l = [] then (True, l\<lparr>wlocked := True, w_owner := ow\<rparr>)
     else if ow \<in> set (r_owners l) \<and> length (r_owners l) = 1
       then (True, l\<lparr>r_owners := removeAll ow (r_owners l), wlocked := True, w_owner := ow\<rparr>)
     else (False, l))"

definition rlock_by :: "i64 \<Rightarrow> rwlock \<Rightarrow> bool \<times> rwlock" where
  "rlock_by ow l =
    (if wlocked l then (ow = w_owner l, l)
     else (True, l\<lparr>r_owners := List.insert ow (r_owners l)\<rparr>))"

definition unlock_by :: "i64 \<Rightarrow> rwlock \<Rightarrow> (bool \<times> rwlock) option" where
  "unlock_by ow l = do {
     let mine = (wlocked l \<and> ow = w_owner l);
     verify (mine \<longrightarrow> ow \<notin> set (r_owners l));
     let l1 = (if mine then l\<lparr>wlocked := False\<rparr> else l);
     Some (mine \<or> ow \<in> set (r_owners l1), l1\<lparr>r_owners := removeAll ow (r_owners l1)\<rparr>)
   }"

definition wlock_owner :: "rwlock \<Rightarrow> i64 option" where
  "wlock_owner l = do { verify (wlocked l); Some (w_owner l) }"

definition rlock_owner :: "rwlock \<Rightarrow> i64 list" where
  "rlock_owner l = r_owners l"

text \<open>The calls of a client and the invariant the assertions of the code state.\<close>

datatype rwlock_op = WLockBy i64 | RLockBy i64 | UnlockBy i64

fun rwlock_step :: "rwlock_op \<Rightarrow> rwlock \<Rightarrow> (bool \<times> rwlock) option" where
  "rwlock_step (WLockBy ow) l = Some (wlock_by ow l)"
| "rwlock_step (RLockBy ow) l = Some (rlock_by ow l)"
| "rwlock_step (UnlockBy ow) l = unlock_by ow l"

definition rwlock_inv :: "rwlock \<Rightarrow> bool" where
  "rwlock_inv l \<longleftrightarrow> (wlocked l \<longrightarrow> r_owners l = []) \<and> distinct (r_owners l)"

definition rw_writers :: "rwlock \<Rightarrow> i64 list" where
  "rw_writers l = (if wlocked l then [w_owner l] else [])"

lemmas rwlock_defs = rwlock_init_def wlock_by_def rlock_by_def unlock_by_def rwlock_inv_def
  rw_writers_def rlock_owner_def is_wlocked_def is_rlocked_def wlock_owner_def

lemma removeAll_singleton: "length xs = 1 \<Longrightarrow> x \<in> set xs \<Longrightarrow> removeAll x xs = []"
  by (cases xs) auto

interpretation rw: lock_system rwlock_init rwlock_step rwlock_inv rw_writers rlock_owner
proof (unfold_locales, goal_cases)
  case 1 show ?case by (simp add: rwlock_defs)
next
  case (2 s a) then show ?case by (cases a) (auto simp: rwlock_defs verify_simps Let_def)
next
  case (3 s a out s') then show ?case
    by (cases a) (auto simp: rwlock_defs verify_simps Let_def distinct_removeAll removeAll_singleton
        split: if_splits)
next
  case (4 s) then show ?case by (simp add: rwlock_defs mutex_def)
qed

lemma wlock_by_granted_iff:
  assumes "rwlock_inv l"
  shows "fst (wlock_by ow l) \<longleftrightarrow> set (rw_writers l) \<union> set (rlock_owner l) \<subseteq> {ow}"
proof (cases "r_owners l")
  case (Cons a list)
  then show ?thesis
    using assms by (cases list) (auto simp: rwlock_defs)
qed (use assms in \<open>auto simp: rwlock_defs\<close>)

lemma rlock_by_granted_iff: "fst (rlock_by ow l) \<longleftrightarrow> set (rw_writers l) \<subseteq> {ow}"
  by (auto simp: rwlock_defs)

lemma wlock_by_holds:
  "fst (wlock_by ow l) \<Longrightarrow> rw_writers (snd (wlock_by ow l)) = [ow]"
  by (auto simp: rwlock_defs split: if_splits)

lemma wlock_by_denied: "\<not> fst (wlock_by ow l) \<Longrightarrow> snd (wlock_by ow l) = l"
  by (auto simp: rwlock_defs)

lemma rlock_by_holds:
  "fst (rlock_by ow l) \<Longrightarrow> ow \<in> set (rlock_owner (snd (rlock_by ow l))) \<union> set (rw_writers (snd (rlock_by ow l)))"
  by (auto simp: rwlock_defs)

lemma unlock_by_effect:
  assumes "rwlock_inv l" "unlock_by ow l = Some (b, l')"
  shows "b \<longleftrightarrow> ow \<in> set (rw_writers l) \<union> set (rlock_owner l)"
    and "set (rw_writers l') = set (rw_writers l) - {ow}"
    and "set (rlock_owner l') = set (rlock_owner l) - {ow}"
  using assms by (auto simp: rwlock_defs verify_simps Let_def split: if_splits)

end
