(* ===== verification/ALock.thy ===== *)
theory ALock
  imports DST_Prelude
begin

text \<open>
  The base class of the asynchronous queued locks, \<open>rrr/misc/alock.hpp\<close>, and the trigger counter
  \<open>DragonBall\<close> of \<open>rrr/misc/dball.hpp\<close>. The three subclasses extend the record below. A request
  hands over callbacks; firing one is an event of the trace that carries the id of the request.
\<close>

datatype type_t = RLOCK | WLOCK

datatype status_t = FREE | WLOCKED | RLOCKED

datatype lock_ev = Yes u64 | No u64 | Wound u64

record alock =
  al_next_id :: u64
  al_status :: status_t
  al_n_rlock :: i64
  al_done :: bool

definition get_next_id :: "'a alock_scheme \<Rightarrow> u64 \<times> 'a alock_scheme" where
  "get_next_id l = (al_next_id l, l\<lparr>al_next_id := al_next_id l + 1\<rparr>)"

subsection \<open>DragonBall\<close>

text \<open>
  \<open>trigger\<close> counts one more collected ball; the call that collects the last one fires the wish and
  deletes the object. The first component of the result says whether the wish fired.
\<close>

record dragon_ball =
  db_n_wait :: i64
  db_n_ready :: i64
  db_called :: bool

definition db_new :: "i64 \<Rightarrow> dragon_ball" where
  "db_new n = \<lparr>db_n_wait = n, db_n_ready = 0, db_called = False\<rparr>"

definition db_trigger :: "dragon_ball \<Rightarrow> (bool \<times> dragon_ball) option" where
  "db_trigger b = do {
     let b1 = b\<lparr>db_n_ready := db_n_ready b + 1\<rparr>;
     verify (db_n_ready b1 \<le> db_n_wait b1);
     let ready = (db_n_ready b1 = db_n_wait b1);
     if ready then do { verify (\<not> db_called b1); Some (True, b1\<lparr>db_called := True\<rparr>) }
     else Some (False, b1)
   }"

fun db_trigger_n :: "nat \<Rightarrow> dragon_ball \<Rightarrow> (bool list \<times> dragon_ball) option" where
  "db_trigger_n 0 b = Some ([], b)"
| "db_trigger_n (Suc n) b = do {
     (r, b1) \<leftarrow> db_trigger b;
     (rs, b2) \<leftarrow> db_trigger_n n b1;
     Some (r # rs, b2)
   }"

lemma db_trigger_n_run:
  assumes "db_n_ready b + int n < db_n_wait b"
  shows "db_trigger_n n b = Some (replicate n False, b\<lparr>db_n_ready := db_n_ready b + int n\<rparr>)"
  using assms
  by (induction n arbitrary: b) (auto simp: db_trigger_def Let_def verify_simps algebra_simps)

lemma db_trigger_last:
  assumes "db_n_ready b + 1 = db_n_wait b" "\<not> db_called b"
  shows "db_trigger b = Some (True, b\<lparr>db_n_ready := db_n_wait b, db_called := True\<rparr>)"
  using assms by (simp add: db_trigger_def Let_def verify_simps)

lemma db_trigger_too_many:
  "db_n_wait b \<le> db_n_ready b \<Longrightarrow> db_trigger b = None"
  by (simp add: db_trigger_def Let_def verify_simps)

end
