(* ===== verification/WaitDie.thy ===== *)
theory WaitDie
  imports ALock
begin

text \<open>
  \<open>WaitDieALock\<close> of \<open>rrr/misc/alock.{hpp,cpp}\<close>: a request that cannot be granted waits only if it
  is older (a smaller priority value) than every conflicting request in the queue, and dies
  otherwise. A reference \<open>lock_req_t &\<close> into the queue is a position of the list. The queue and the
  operations that grant its requests are the ones the wound-die lock has as well.
\<close>

datatype wd_req_status = WAIT | LOCK

record wd_req =
  wd_id :: u64
  wd_priority :: i64
  wd_type :: type_t
  wd_rstatus :: wd_req_status

datatype wd_status_t = WD_WAIT | WD_DIE

record wd_queue = alock +
  wd_requests :: "wd_req list"

record wd_lock = wd_queue +
  wd_n_r_in_queue :: int
  wd_n_w_in_queue :: int

definition wd_init :: wd_lock where
  "wd_init = \<lparr>al_next_id = 1, al_status = FREE, al_n_rlock = 0, al_done = False,
     wd_requests = [], wd_n_r_in_queue = 0, wd_n_w_in_queue = 0\<rparr>"

definition wd_emplace_back :: "u64 \<Rightarrow> i64 \<Rightarrow> type_t \<Rightarrow> wd_lock \<Rightarrow> wd_lock" where
  "wd_emplace_back i p t s = s\<lparr>wd_requests := wd_requests s @
     [\<lparr>wd_id = i, wd_priority = p, wd_type = t, wd_rstatus = WAIT\<rparr>]\<rparr>"

definition wd_count_in_queue :: "type_t \<Rightarrow> int \<Rightarrow> wd_lock \<Rightarrow> wd_lock" where
  "wd_count_in_queue t d s = (if t = RLOCK
     then s\<lparr>wd_n_r_in_queue := wd_n_r_in_queue s + d\<rparr>
     else s\<lparr>wd_n_w_in_queue := wd_n_w_in_queue s + d\<rparr>)"

definition wd_write_acquire :: "nat \<Rightarrow> 'a wd_queue_scheme \<Rightarrow> (lock_ev list \<times> 'a wd_queue_scheme) option" where
  "wd_write_acquire k s = do {
     let r = wd_requests s ! k;
     verify (wd_type r = WLOCK \<and> wd_rstatus r = WAIT);
     Some ([Yes (wd_id r)],
       s\<lparr>al_status := WLOCKED, wd_requests := (wd_requests s)[k := r\<lparr>wd_rstatus := LOCK\<rparr>]\<rparr>)
   }"

definition wd_read_acquire :: "nat \<Rightarrow> 'a wd_queue_scheme \<Rightarrow> (lock_ev list \<times> 'a wd_queue_scheme) option" where
  "wd_read_acquire k s = do {
     let r = wd_requests s ! k;
     verify (wd_type r = RLOCK \<and> wd_rstatus r = WAIT);
     let s1 = (if al_n_rlock s = 0 then s\<lparr>al_status := RLOCKED\<rparr> else s);
     Some ([Yes (wd_id r)],
       s1\<lparr>al_n_rlock := al_n_rlock s1 + 1,
          wd_requests := (wd_requests s1)[k := r\<lparr>wd_rstatus := LOCK\<rparr>]\<rparr>)
   }"

fun wd_lock_reads :: "nat list \<Rightarrow> wd_req list \<Rightarrow> (lock_ev list \<times> wd_req list) option" where
  "wd_lock_reads [] q = Some ([], q)"
| "wd_lock_reads (k # ks) q = do {
     let r = q ! k;
     verify (wd_type r = RLOCK \<and> wd_rstatus r = WAIT);
     (evs, q1) \<leftarrow> wd_lock_reads ks (q[k := r\<lparr>wd_rstatus := LOCK\<rparr>]);
     Some (Yes (wd_id r) # evs, q1)
   }"

definition wd_read_acquire_all :: "nat list \<Rightarrow> 'a wd_queue_scheme \<Rightarrow> (lock_ev list \<times> 'a wd_queue_scheme) option" where
  "wd_read_acquire_all ks s =
    (if ks = [] then Some ([], s)
     else do {
       let s1 = (if al_n_rlock s = 0 then s\<lparr>al_status := RLOCKED\<rparr> else s);
       let s2 = s1\<lparr>al_n_rlock := al_n_rlock s1 + int (length ks)\<rparr>;
       (evs, q) \<leftarrow> wd_lock_reads ks (wd_requests s2);
       Some (evs, s2\<lparr>wd_requests := q\<rparr>)
     })"

text \<open>The two reverse scans of \<open>wait_die\<close>; the argument is the queue from the back.\<close>

fun wd_wait_die_w :: "i64 \<Rightarrow> wd_req list \<Rightarrow> wd_status_t" where
  "wd_wait_die_w p [] = WD_WAIT"
| "wd_wait_die_w p (r # rs) =
    (if p \<ge> wd_priority r then WD_DIE
     else if wd_type r = WLOCK then WD_WAIT
     else wd_wait_die_w p rs)"

fun wd_wait_die_r :: "i64 \<Rightarrow> wd_req list \<Rightarrow> wd_status_t option" where
  "wd_wait_die_r p [] = None"
| "wd_wait_die_r p (r # rs) =
    (if wd_type r = WLOCK then Some (if p < wd_priority r then WD_WAIT else WD_DIE)
     else wd_wait_die_r p rs)"

definition wd_wait_die :: "type_t \<Rightarrow> i64 \<Rightarrow> wd_lock \<Rightarrow> wd_status_t option" where
  "wd_wait_die t p s = (case t of
     WLOCK \<Rightarrow> Some (wd_wait_die_w p (rev (wd_requests s)))
   | RLOCK \<Rightarrow> wd_wait_die_r p (rev (wd_requests s)))"

definition wd_vlock :: "type_t \<Rightarrow> i64 \<Rightarrow> wd_lock \<Rightarrow> (u64 \<times> lock_ev list \<times> wd_lock) option" where
  "wd_vlock t p s0 = (case get_next_id s0 of (i, s) \<Rightarrow>
     if al_done s then Some (i, [No i], s)
     else if al_status s = FREE \<or> (al_status s = RLOCKED \<and> t = RLOCK \<and> wd_n_w_in_queue s = 0)
     then do {
       let s1 = wd_count_in_queue t 1 (wd_emplace_back i p t s);
       let k = length (wd_requests s1) - 1;
       (evs, s2) \<leftarrow> (if t = RLOCK then wd_read_acquire k s1 else wd_write_acquire k s1);
       Some (i, evs, s2)
     }
     else do {
       wd \<leftarrow> wd_wait_die t p s;
       if wd = WD_WAIT then Some (i, [], wd_count_in_queue t 1 (wd_emplace_back i p t s))
       else Some (i, [No i], s)
     })"

text \<open>
  \<open>abort\<close> splits the queue at the request: \<open>before\<close> is what the search loop passed, \<open>it\<close> the
  request, and \<open>after\<close> starts at the iterator that \<open>erase\<close> returns.
\<close>

definition wd_abort_waiting ::
  "wd_req list \<Rightarrow> wd_req \<Rightarrow> wd_req list \<Rightarrow> wd_lock \<Rightarrow> (lock_ev list \<times> wd_lock) option" where
  "wd_abort_waiting before it after s = do {
     let n_w_before_this = length (filter (\<lambda>r. wd_type r = WLOCK) before);
     let s1 = wd_count_in_queue (wd_type it) (- 1) (s\<lparr>wd_requests := before @ after\<rparr>);
     (evs, s2) \<leftarrow>
       (if wd_type it = WLOCK \<and> n_w_before_this = 0
        then do {
          verify (al_status s1 = RLOCKED);
          let m = length (takeWhile (\<lambda>r. wd_type r = RLOCK) after);
          wd_read_acquire_all [length before ..< length before + m] s1
        }
        else Some ([], s1));
     Some (evs @ [No (wd_id it)], s2)
   }"

definition wd_unlock ::
  "wd_req list \<Rightarrow> wd_req \<Rightarrow> wd_req list \<Rightarrow> wd_lock \<Rightarrow> (lock_ev list \<times> wd_lock) option" where
  "wd_unlock before it after s = (let s1 = wd_count_in_queue (wd_type it) (- 1) s in
    if wd_type it = RLOCK
    then do {
      let s2 = s1\<lparr>al_n_rlock := al_n_rlock s1 - 1, wd_requests := before @ after\<rparr>;
      if al_n_rlock s2 = 0
      then (if after = []
            then do { verify (wd_requests s2 = []); Some ([], s2\<lparr>al_status := FREE\<rparr>) }
            else wd_write_acquire (length before) s2)
      else Some ([], s2)
    }
    else do {
      let s2 = s1\<lparr>wd_requests := before @ after\<rparr>;
      if after = []
      then do { verify (wd_requests s2 = []); Some ([], s2\<lparr>al_status := FREE\<rparr>) }
      else if wd_type (hd after) = WLOCK then wd_write_acquire (length before) s2
      else do {
        let m = length (takeWhile (\<lambda>r. wd_type r \<noteq> WLOCK) after);
        (evs, s3) \<leftarrow> wd_read_acquire_all [length before ..< length before + m] s2;
        verify (al_status s3 = RLOCKED);
        Some (evs, s3)
      }
    })"

definition wd_abort :: "u64 \<Rightarrow> wd_lock \<Rightarrow> (lock_ev list \<times> wd_lock) option" where
  "wd_abort i s =
    (if al_done s then Some ([], s)
     else case dropWhile (\<lambda>r. wd_id r \<noteq> i) (wd_requests s) of
       [] \<Rightarrow> Some ([], s)
     | it # after \<Rightarrow>
         (let before = takeWhile (\<lambda>r. wd_id r \<noteq> i) (wd_requests s) in
          if wd_rstatus it = WAIT then wd_abort_waiting before it after s
          else wd_unlock before it after s))"

definition wd_destroy :: "wd_lock \<Rightarrow> (lock_ev list \<times> wd_lock) option" where
  "wd_destroy s = do {
     verify (\<not> al_done s);
     verify (al_status s \<noteq> RLOCKED);
     Some (map (\<lambda>r. No (wd_id r)) (filter (\<lambda>r. wd_rstatus r = WAIT) (wd_requests s)),
           s\<lparr>al_done := True, wd_requests := []\<rparr>)
   }"

text \<open>
  The debugging check of the class. The loop state is (\<open>acquired_check\<close>, \<open>big\<close>, \<open>tmp_big\<close>,
  \<open>n_r_locked\<close>, \<open>num_w\<close>, \<open>num_r\<close>); the flag \<open>at_begin\<close> is the test \<open>it == requests_.begin()\<close>.
\<close>

record wd_scan =
  acquired_check :: bool
  big :: int
  tmp_big :: int
  n_r_locked :: int
  num_w :: int
  num_r :: int

definition int64_max :: int where
  "int64_max = 9223372036854775807"

definition wd_check_holder :: "bool \<Rightarrow> wd_lock \<Rightarrow> wd_req \<Rightarrow> wd_scan \<Rightarrow> wd_scan option" where
  "wd_check_holder at_begin s r c =
    (if \<not> acquired_check c
     then (if al_status s = WLOCKED
           then do {
             verify at_begin;
             verify (wd_type r = WLOCK);
             verify (wd_rstatus r = LOCK);
             Some (c\<lparr>acquired_check := True\<rparr>)
           }
           else do {
             verify (al_status s = RLOCKED);
             if wd_type r = RLOCK
             then do { verify (wd_rstatus r = LOCK); Some (c\<lparr>n_r_locked := n_r_locked c + 1\<rparr>) }
             else do {
               verify (wd_rstatus r = WAIT);
               verify (n_r_locked c = al_n_rlock s);
               Some (c\<lparr>acquired_check := True\<rparr>)
             }
           })
     else do { verify (wd_rstatus r = WAIT); Some c })"

definition wd_check_priority :: "wd_req \<Rightarrow> wd_scan \<Rightarrow> wd_scan option" where
  "wd_check_priority r c = do {
     verify (big c > wd_priority r);
     if wd_type r = RLOCK
     then Some (c\<lparr>num_r := num_r c + 1,
            tmp_big := (if tmp_big c = - 1 then wd_priority r
                        else if tmp_big c > wd_priority r then wd_priority r else tmp_big c)\<rparr>)
     else (let c1 = c\<lparr>num_w := num_w c + 1\<rparr> in
           if tmp_big c1 = - 1 then Some (c1\<lparr>big := wd_priority r\<rparr>)
           else do {
             let c2 = c1\<lparr>big := tmp_big c1\<rparr>;
             verify (big c2 > wd_priority r);
             Some (c2\<lparr>tmp_big := - 1\<rparr>)
           })
   }"

fun wd_check_loop :: "bool \<Rightarrow> wd_lock \<Rightarrow> wd_req list \<Rightarrow> wd_scan \<Rightarrow> wd_scan option" where
  "wd_check_loop at_begin s [] c = Some c"
| "wd_check_loop at_begin s (r # rs) c = do {
     c1 \<leftarrow> wd_check_holder at_begin s r c;
     c2 \<leftarrow> wd_check_priority r c1;
     wd_check_loop False s rs c2
   }"

definition wd_sanity_check :: "wd_lock \<Rightarrow> unit option" where
  "wd_sanity_check s = do {
     verify (al_status s = FREE \<longrightarrow> wd_requests s = []);
     c \<leftarrow> wd_check_loop True s (wd_requests s)
       \<lparr>acquired_check = False, big = int64_max, tmp_big = - 1, n_r_locked = 0, num_w = 0, num_r = 0\<rparr>;
     verify (num_w c = wd_n_w_in_queue s);
     verify (num_r c = wd_n_r_in_queue s)
   }"

subsection \<open>Well-formed queues\<close>

definition wd_key :: "wd_req \<Rightarrow> type_t \<times> i64" where
  "wd_key r = (wd_type r, wd_priority r)"

definition wd_before :: "type_t \<times> i64 \<Rightarrow> type_t \<times> i64 \<Rightarrow> bool" where
  "wd_before a b \<longleftrightarrow> (fst a = WLOCK \<or> fst b = WLOCK \<longrightarrow> snd b < snd a)"

definition wd_ordered :: "wd_req list \<Rightarrow> bool" where
  "wd_ordered q \<longleftrightarrow> sorted_wrt wd_before (map wd_key q)"

definition wd_queue_ok :: "status_t \<Rightarrow> int \<Rightarrow> wd_req list \<Rightarrow> bool" where
  "wd_queue_ok st n q = (let rs = takeWhile (\<lambda>r. wd_type r = RLOCK) q;
      rest = dropWhile (\<lambda>r. wd_type r = RLOCK) q in case st of
     FREE \<Rightarrow> q = [] \<and> n = 0
   | WLOCKED \<Rightarrow> n = 0 \<and> rs = [] \<and> q \<noteq> [] \<and> wd_rstatus (hd q) = LOCK
       \<and> list_all (\<lambda>r. wd_rstatus r = WAIT) (tl q)
   | RLOCKED \<Rightarrow> rs \<noteq> [] \<and> n = int (length rs) \<and> list_all (\<lambda>r. wd_rstatus r = LOCK) rs
       \<and> list_all (\<lambda>r. wd_rstatus r = WAIT) rest)"

definition wd_count :: "type_t \<Rightarrow> wd_req list \<Rightarrow> int" where
  "wd_count t q = int (length (filter (\<lambda>r. wd_type r = t) q))"

definition wd_inv :: "wd_lock \<Rightarrow> bool" where
  "wd_inv s \<longleftrightarrow> (\<not> al_done s \<longrightarrow>
     wd_queue_ok (al_status s) (al_n_rlock s) (wd_requests s) \<and> wd_ordered (wd_requests s)
     \<and> wd_n_r_in_queue s = wd_count RLOCK (wd_requests s)
     \<and> wd_n_w_in_queue s = wd_count WLOCK (wd_requests s))"

definition wd_grant :: "wd_req \<Rightarrow> wd_req" where
  "wd_grant r = r\<lparr>wd_rstatus := LOCK\<rparr>"

lemma wd_grant_sel [simp]:
  "wd_id (wd_grant r) = wd_id r" "wd_type (wd_grant r) = wd_type r"
  "wd_priority (wd_grant r) = wd_priority r" "wd_rstatus (wd_grant r) = LOCK"
  "wd_key (wd_grant r) = wd_key r"
  by (simp_all add: wd_grant_def wd_key_def)

lemma type_t_not_W [simp]: "(t \<noteq> WLOCK) = (t = RLOCK)"
  by (cases t) simp_all

lemma wd_queue_ok_FREE [simp]: "wd_queue_ok FREE n q \<longleftrightarrow> q = [] \<and> n = 0"
  by (simp add: wd_queue_ok_def)

lemma wd_queue_ok_WLOCKED [simp]:
  "wd_queue_ok WLOCKED n q \<longleftrightarrow> n = 0 \<and> (\<exists>w rest. q = w # rest \<and> wd_type w = WLOCK \<and>
     wd_rstatus w = LOCK \<and> (\<forall>r \<in> set rest. wd_rstatus r = WAIT))"
  by (cases q; cases "wd_type (hd q)") (auto simp: wd_queue_ok_def list_all_iff)

lemma wd_queue_ok_RLOCKED:
  "wd_queue_ok RLOCKED n q \<longleftrightarrow> (\<exists>rs rest. q = rs @ rest \<and> rs \<noteq> [] \<and> n = int (length rs)
     \<and> (\<forall>r \<in> set rs. wd_type r = RLOCK \<and> wd_rstatus r = LOCK)
     \<and> (\<forall>r \<in> set rest. wd_rstatus r = WAIT) \<and> (rest = [] \<or> wd_type (hd rest) = WLOCK))"
  (is "?l \<longleftrightarrow> ?r")
proof
  assume l: ?l
  have "rest = [] \<or> wd_type (hd rest) = WLOCK" if "rest = dropWhile (\<lambda>r. wd_type r = RLOCK) q" for rest
    using that hd_dropWhile[of "\<lambda>r. wd_type r = RLOCK" q] by (cases "wd_type (hd rest)") auto
  moreover have "q = takeWhile (\<lambda>r. wd_type r = RLOCK) q @ dropWhile (\<lambda>r. wd_type r = RLOCK) q"
    by simp
  moreover have "\<forall>r \<in> set (takeWhile (\<lambda>r. wd_type r = RLOCK) q). wd_type r = RLOCK"
    by (auto dest: set_takeWhileD)
  moreover have "takeWhile (\<lambda>r. wd_type r = RLOCK) q \<noteq> []" 
    "n = int (length (takeWhile (\<lambda>r. wd_type r = RLOCK) q))"
    "\<forall>r \<in> set (takeWhile (\<lambda>r. wd_type r = RLOCK) q). wd_rstatus r = LOCK"
    "\<forall>r \<in> set (dropWhile (\<lambda>r. wd_type r = RLOCK) q). wd_rstatus r = WAIT"
    using l by (simp_all add: wd_queue_ok_def list_all_iff Let_def)
  ultimately show ?r
    by blast
next
  assume ?r
  then obtain rs rest where q: "q = rs @ rest" "rs \<noteq> []" "n = int (length rs)"
    "\<forall>r \<in> set rs. wd_type r = RLOCK \<and> wd_rstatus r = LOCK"
    "\<forall>r \<in> set rest. wd_rstatus r = WAIT" "rest = [] \<or> wd_type (hd rest) = WLOCK"
    by blast
  then have "takeWhile (\<lambda>r. wd_type r = RLOCK) rest = []" "dropWhile (\<lambda>r. wd_type r = RLOCK) rest = rest"
    by (cases rest; simp)+
  with q show ?l
    by (simp add: wd_queue_ok_def list_all_iff)
qed

lemma wd_ordered_simps [simp]:
  "wd_ordered []" "wd_ordered [r]"
  "wd_ordered (xs @ ys) \<longleftrightarrow> wd_ordered xs \<and> wd_ordered ys \<and>
     (\<forall>x \<in> set xs. \<forall>y \<in> set ys. wd_before (wd_key x) (wd_key y))"
  "wd_ordered (map wd_grant xs) = wd_ordered xs"
  by (auto simp: wd_ordered_def sorted_wrt_append comp_def)

lemma wd_ordered_Cons:
  "wd_ordered (x # ys) \<longleftrightarrow> wd_ordered ys \<and> (\<forall>y \<in> set ys. wd_before (wd_key x) (wd_key y))"
  using wd_ordered_simps(3)[of "[x]" ys] by auto

lemma wd_count_simps [simp]:
  "wd_count t [] = 0"
  "wd_count t (r # q) = (if wd_type r = t then 1 else 0) + wd_count t q"
  "wd_count t (xs @ ys) = wd_count t xs + wd_count t ys"
  "wd_count t (map wd_grant xs) = wd_count t xs"
  by (auto simp: wd_count_def filter_map comp_def)

lemma wd_count_take_drop [simp]:
  "wd_count t (takeWhile P a) + wd_count t (dropWhile P a) = wd_count t a"
  using wd_count_simps(3)[of t "takeWhile P a" "dropWhile P a"] by simp

lemma wd_ordered_grant_prefix:
  "wd_ordered (b @ map wd_grant (takeWhile P a) @ dropWhile P a) = wd_ordered (b @ a)"
proof -
  have "map wd_key a = map wd_key (takeWhile P a) @ map wd_key (dropWhile P a)"
    using map_append[of wd_key "takeWhile P a" "dropWhile P a"] by simp
  then show ?thesis
    unfolding wd_ordered_def by (simp add: comp_def)
qed

lemma wd_count_zero: "wd_count t q = 0 \<longleftrightarrow> (\<forall>r \<in> set q. wd_type r \<noteq> t)"
  by (auto simp: wd_count_def filter_empty_conv)

lemma wd_count_nonneg [simp]: "0 \<le> wd_count t q"
  by (simp add: wd_count_def)

lemma wd_count_in_queue_sel [simp]:
  "wd_requests (wd_count_in_queue t d s) = wd_requests s"
  "al_status (wd_count_in_queue t d s) = al_status s"
  "al_n_rlock (wd_count_in_queue t d s) = al_n_rlock s"
  "al_done (wd_count_in_queue t d s) = al_done s"
  "wd_n_r_in_queue (wd_count_in_queue t d s) = wd_n_r_in_queue s + (if t = RLOCK then d else 0)"
  "wd_n_w_in_queue (wd_count_in_queue t d s) = wd_n_w_in_queue s + (if t = WLOCK then d else 0)"
  by (cases t; simp add: wd_count_in_queue_def)+

subsection \<open>Granting\<close>

lemma wd_lock_reads_segment:
  assumes "\<forall>r \<in> set rs. wd_type r = RLOCK \<and> wd_rstatus r = WAIT"
  shows "wd_lock_reads [length b ..< length b + length rs] (b @ rs @ a)
    = Some (map (\<lambda>r. Yes (wd_id r)) rs, b @ map wd_grant rs @ a)"
  using assms
proof (induction rs arbitrary: b)
  case (Cons r rs)
  have "[length b ..< length b + length (r # rs)]
      = length b # [length (b @ [wd_grant r]) ..< length (b @ [wd_grant r]) + length rs]"
    by (simp del: upt_Suc add: upt_conv_Cons)
  moreover have "(b @ (r # rs) @ a)[length b := wd_grant r] = (b @ [wd_grant r]) @ rs @ a"
    by simp
  ultimately show ?case
    using Cons.prems Cons.IH[of "b @ [wd_grant r]"]
    by (simp del: upt_Suc add: verify_simps wd_grant_def[symmetric])
qed simp

lemma wd_read_acquire_all_segment:
  assumes "wd_requests s = b @ rs @ a" "\<forall>r \<in> set rs. wd_type r = RLOCK \<and> wd_rstatus r = WAIT"
    "m = length b + length rs"
  shows "wd_read_acquire_all [length b ..< m] s = Some (map (\<lambda>r. Yes (wd_id r)) rs,
    s\<lparr>al_status := (if rs \<noteq> [] \<and> al_n_rlock s = 0 then RLOCKED else al_status s),
      al_n_rlock := al_n_rlock s + int (length rs), wd_requests := b @ map wd_grant rs @ a\<rparr>)"
proof (cases "rs = []")
  case False
  then show ?thesis
    using assms wd_lock_reads_segment[of rs b a]
    by (auto simp: wd_read_acquire_all_def Let_def)
qed (use assms in \<open>simp add: wd_read_acquire_all_def\<close>)

lemma wd_write_acquire_at:
  assumes "wd_requests s = b @ r # a" "wd_type r = WLOCK" "wd_rstatus r = WAIT" "k = length b"
  shows "wd_write_acquire k s = Some ([Yes (wd_id r)],
    s\<lparr>al_status := WLOCKED, wd_requests := b @ wd_grant r # a\<rparr>)"
  using assms by (simp add: wd_write_acquire_def verify_simps wd_grant_def)

lemma wd_read_acquire_at:
  assumes "wd_requests s = b @ r # a" "wd_type r = RLOCK" "wd_rstatus r = WAIT" "k = length b"
  shows "wd_read_acquire k s = Some ([Yes (wd_id r)],
    s\<lparr>al_status := (if al_n_rlock s = 0 then RLOCKED else al_status s),
      al_n_rlock := al_n_rlock s + 1, wd_requests := b @ wd_grant r # a\<rparr>)"
  using assms by (simp add: wd_read_acquire_def verify_simps wd_grant_def)

subsection \<open>The wait-die decision\<close>

lemma wd_wait_die_w_older:
  assumes "wd_ordered q" "wd_wait_die_w p (rev q) = WD_WAIT"
  shows "\<forall>r \<in> set q. p < wd_priority r"
  using assms
proof (induction q rule: rev_induct)
  case (snoc x q)
  then have "wd_type x = WLOCK \<Longrightarrow> \<forall>r \<in> set q. wd_priority x < wd_priority r"
    by (simp add: wd_before_def wd_key_def)
  with snoc show ?case
    by (auto split: if_splits intro: less_trans)
qed simp

lemma wd_wait_die_r_older:
  assumes "wd_ordered q" "wd_wait_die_r p (rev q) = Some WD_WAIT"
  shows "\<forall>r \<in> set q. wd_type r = WLOCK \<longrightarrow> p < wd_priority r"
  using assms
proof (induction q rule: rev_induct)
  case (snoc x q)
  then have "wd_type x = WLOCK \<Longrightarrow> \<forall>r \<in> set q. wd_priority x < wd_priority r"
    by (simp add: wd_before_def wd_key_def)
  with snoc show ?case
    by (auto split: if_splits intro: less_trans)
qed simp

lemma wd_wait_die_r_None: "wd_wait_die_r p q = None \<longleftrightarrow> wd_count WLOCK q = 0"
  by (induction q) (auto simp: wd_count_zero wd_count_nonneg add_nonneg_eq_0_iff)

lemma wd_count_rev [simp]: "wd_count t (rev q) = wd_count t q"
  by (simp add: wd_count_def rev_filter[symmetric])

subsection \<open>Preservation\<close>

lemma wd_queue_ok_snoc_wait:
  assumes "wd_queue_ok st n q" "st \<noteq> FREE" "wd_rstatus r = WAIT"
    "st = RLOCKED \<Longrightarrow> wd_type r = RLOCK \<Longrightarrow> wd_count WLOCK q \<noteq> 0"
  shows "wd_queue_ok st n (q @ [r])"
proof (cases st)
  case RLOCKED
  with assms(1) obtain rs rest where q: "q = rs @ rest" "rs \<noteq> []" "n = int (length rs)"
    "\<forall>r \<in> set rs. wd_type r = RLOCK \<and> wd_rstatus r = LOCK"
    "\<forall>r \<in> set rest. wd_rstatus r = WAIT" "rest = [] \<or> wd_type (hd rest) = WLOCK"
    by (auto simp: wd_queue_ok_RLOCKED)
  have "rest = [] \<Longrightarrow> wd_type r = WLOCK"
    using assms(4) RLOCKED q by (cases "wd_type r") (auto simp: wd_count_zero)
  with q assms(3) have "wd_queue_ok RLOCKED n (rs @ (rest @ [r]))"
    unfolding wd_queue_ok_RLOCKED by (intro exI[of _ rs] exI[of _ "rest @ [r]"]) (auto simp: hd_append)
  then show ?thesis
    using RLOCKED q(1) by simp
qed (use assms in auto)

lemma wd_RLOCKED_at_waiting:
  assumes "wd_queue_ok RLOCKED n (b @ it # a)" "wd_rstatus it = WAIT"
  obtains rs b' where "b = rs @ b'" "rs \<noteq> []" "n = int (length rs)"
    "\<forall>r \<in> set rs. wd_type r = RLOCK \<and> wd_rstatus r = LOCK"
    "\<forall>r \<in> set b'. wd_rstatus r = WAIT" "\<forall>r \<in> set a. wd_rstatus r = WAIT"
    "wd_type (hd (b' @ [it])) = WLOCK"
proof -
  obtain rs rest where q: "b @ it # a = rs @ rest" "rs \<noteq> []" "n = int (length rs)"
    "\<forall>r \<in> set rs. wd_type r = RLOCK \<and> wd_rstatus r = LOCK"
    "\<forall>r \<in> set rest. wd_rstatus r = WAIT" "rest = [] \<or> wd_type (hd rest) = WLOCK"
    using assms(1) by (auto simp: wd_queue_ok_RLOCKED)
  from q(1) have "\<exists>b'. b = rs @ b' \<and> rest = b' @ it # a"
    using q(4) assms(2) by (auto simp: append_eq_append_conv2 Cons_eq_append_conv)
  then obtain b' where "b = rs @ b'" "rest = b' @ it # a"
    by blast
  with q show thesis
    by (intro that[of rs b']) (auto simp: hd_append)
qed

lemma wd_RLOCKED_at_locked:
  assumes "wd_queue_ok RLOCKED n (b @ it # a)" "wd_rstatus it = LOCK"
  obtains rs rest where "a = rs @ rest" "n = int (length (b @ rs)) + 1" "wd_type it = RLOCK"
    "\<forall>r \<in> set (b @ rs). wd_type r = RLOCK \<and> wd_rstatus r = LOCK"
    "\<forall>r \<in> set rest. wd_rstatus r = WAIT" "rest = [] \<or> wd_type (hd rest) = WLOCK"
proof -
  obtain rs rest where q: "b @ it # a = rs @ rest" "rs \<noteq> []" "n = int (length rs)"
    "\<forall>r \<in> set rs. wd_type r = RLOCK \<and> wd_rstatus r = LOCK"
    "\<forall>r \<in> set rest. wd_rstatus r = WAIT" "rest = [] \<or> wd_type (hd rest) = WLOCK"
    using assms(1) by (auto simp: wd_queue_ok_RLOCKED)
  from q(1) have "\<exists>rs'. rs = b @ it # rs' \<and> a = rs' @ rest"
    using q(5) assms(2) by (auto simp: append_eq_append_conv2 Cons_eq_append_conv)
  then obtain rs' where "rs = b @ it # rs'" "a = rs' @ rest"
    by blast
  with q show thesis
    by (intro that[of rs' rest]) auto
qed

lemma wd_WLOCKED_at_locked:
  assumes "wd_queue_ok WLOCKED n (b @ it # a)" "wd_rstatus it = LOCK"
  shows "n = 0" "b = []" "wd_type it = WLOCK" "\<forall>r \<in> set a. wd_rstatus r = WAIT"
  using assms by (simp_all add: append_eq_Cons_conv) auto

lemma wd_WLOCKED_at_waiting:
  assumes "wd_queue_ok WLOCKED n (b @ it # a)" "wd_rstatus it = WAIT"
  shows "wd_count WLOCK b \<noteq> 0"
  using assms by (auto simp: append_eq_Cons_conv simp del: wd_count_simps simp: wd_count_zero)

lemma wd_queue_ok_remove_wait:
  assumes "wd_queue_ok st n (b @ it # a)" "wd_rstatus it = WAIT"
    "wd_type it = RLOCK \<or> wd_count WLOCK b \<noteq> 0"
  shows "wd_queue_ok st n (b @ a)"
proof (cases st)
  case WLOCKED
  with assms show ?thesis by (cases b) auto
next
  case RLOCKED
  with assms obtain rs b' where q: "b = rs @ b'" "rs \<noteq> []" "n = int (length rs)"
    "\<forall>r \<in> set rs. wd_type r = RLOCK \<and> wd_rstatus r = LOCK"
    "\<forall>r \<in> set b'. wd_rstatus r = WAIT" "\<forall>r \<in> set a. wd_rstatus r = WAIT"
    "wd_type (hd (b' @ [it])) = WLOCK"
    by (auto elim: wd_RLOCKED_at_waiting)
  then have "b' \<noteq> []"
    using assms(3) by (auto simp: wd_count_zero)
  with q have "wd_queue_ok RLOCKED n (rs @ (b' @ a))"
    unfolding wd_queue_ok_RLOCKED by (intro exI[of _ rs] exI[of _ "b' @ a"]) auto
  then show ?thesis
    using RLOCKED q(1) by simp
qed (use assms in auto)

lemma wd_queue_ok_reads:
  assumes "\<forall>r \<in> set rs. wd_type r = RLOCK \<and> wd_rstatus r = LOCK" "\<forall>r \<in> set a. wd_rstatus r = WAIT"
    "ws = takeWhile (\<lambda>r. wd_type r = RLOCK) a" "rs @ ws \<noteq> []"
  shows "wd_queue_ok RLOCKED (int (length (rs @ ws)))
    (rs @ map wd_grant ws @ dropWhile (\<lambda>r. wd_type r = RLOCK) a)"
proof -
  let ?d = "dropWhile (\<lambda>r. wd_type r = RLOCK) a"
  have "?d = [] \<or> wd_type (hd ?d) = WLOCK"
    using hd_dropWhile[of "\<lambda>r. wd_type r = RLOCK" a] by (cases "wd_type (hd ?d)") auto
  moreover have "\<forall>r \<in> set ws. wd_type r = RLOCK"
    using assms(3) by (auto dest: set_takeWhileD)
  moreover have "\<forall>r \<in> set ?d. wd_rstatus r = WAIT"
    using assms(2) by (auto dest: set_dropWhileD)
  ultimately show ?thesis
    unfolding wd_queue_ok_RLOCKED using assms(1,4)
    by (intro exI[of _ "rs @ map wd_grant ws"] exI[of _ ?d]) auto
qed

lemma wd_vlock_granted:
  assumes "wd_queue_ok (al_status s) (al_n_rlock s) (wd_requests s)"
    and "al_status s = FREE \<or> (al_status s = RLOCKED \<and> t = RLOCK \<and> wd_count WLOCK (wd_requests s) = 0)"
    and "wd_rstatus r = WAIT" "wd_type r = t" "wd_requests s' = wd_requests s @ [r]"
    and "al_status s' = al_status s" "al_n_rlock s' = al_n_rlock s" "k = length (wd_requests s)"
  shows "\<exists>s''. (if t = RLOCK then wd_read_acquire k s' else wd_write_acquire k s') = Some ([Yes (wd_id r)], s'')
    \<and> wd_requests s'' = wd_requests s @ [wd_grant r]
    \<and> wd_queue_ok (al_status s'') (al_n_rlock s'') (wd_requests s'') \<and> al_done s'' = al_done s'
    \<and> wd_n_r_in_queue s'' = wd_n_r_in_queue s' \<and> wd_n_w_in_queue s'' = wd_n_w_in_queue s'"
proof (cases "al_status s = FREE")
  case True
  then show ?thesis
    using assms by (cases t)
      (auto simp: wd_write_acquire_at[where b = "[]"] wd_read_acquire_at[where b = "[]"]
        wd_queue_ok_def)
next
  case False
  with assms(2) have st: "al_status s = RLOCKED" "t = RLOCK" "\<forall>r \<in> set (wd_requests s). wd_type r = RLOCK"
    by (auto simp: wd_count_zero)
  with assms(1) have q: "wd_requests s \<noteq> []" "al_n_rlock s = int (length (wd_requests s))"
      "\<forall>r \<in> set (wd_requests s). wd_rstatus r = LOCK"
    by (simp_all add: wd_queue_ok_def list_all_iff Let_def takeWhile_eq_all_conv[THEN iffD2])
  then have "wd_queue_ok RLOCKED (int (length (wd_requests s)) + 1) (wd_requests s @ [wd_grant r])"
    unfolding wd_queue_ok_RLOCKED using st assms(4)
    by (intro exI[of _ "wd_requests s @ [wd_grant r]"] exI[of _ "[]"]) auto
  then show ?thesis
    using st q assms(3-) by (auto simp: wd_read_acquire_at[where b = "wd_requests s"])
qed

lemma wd_wait_die_ordered:
  assumes "wd_ordered (wd_requests s)" "wd_wait_die t p s = Some WD_WAIT" "wd_key r = (t, p)"
  shows "wd_ordered (wd_requests s @ [r])"
proof (cases t)
  case WLOCK
  then show ?thesis
    using assms wd_wait_die_w_older[of "wd_requests s" p]
    by (auto simp: wd_wait_die_def wd_before_def wd_key_def)
next
  case RLOCK
  then show ?thesis
    using assms wd_wait_die_r_older[of "wd_requests s" p]
    by (auto simp: wd_wait_die_def wd_before_def wd_key_def)
qed

lemma wd_wait_die_total:
  "t = RLOCK \<longrightarrow> wd_count WLOCK (wd_requests s) \<noteq> 0 \<Longrightarrow> \<exists>d. wd_wait_die t p s = Some d"
  using wd_wait_die_r_None[of p "rev (wd_requests s)"] by (cases t) (auto simp: wd_wait_die_def)

lemma wd_WLOCKED_has_writer: "wd_queue_ok WLOCKED n q \<Longrightarrow> wd_count WLOCK q \<noteq> 0"
  by (auto simp: wd_count_zero simp del: wd_count_simps)

lemma wd_inv_waiting:
  assumes "wd_queue_ok (al_status s) (al_n_rlock s) (wd_requests s)" "wd_ordered (wd_requests s)"
    and cnt: "wd_n_r_in_queue s = wd_count RLOCK (wd_requests s)" "wd_n_w_in_queue s = wd_count WLOCK (wd_requests s)"
    and "al_status s \<noteq> FREE" "t = RLOCK \<longrightarrow> wd_count WLOCK (wd_requests s) \<noteq> 0"
    and "wd_wait_die t p s = Some WD_WAIT"
  shows "wd_inv (wd_count_in_queue t 1 (wd_emplace_back i p t s))"
proof -
  let ?r = "\<lparr>wd_id = i, wd_priority = p, wd_type = t, wd_rstatus = WAIT\<rparr>"
  have "wd_queue_ok (al_status s) (al_n_rlock s) (wd_requests s @ [?r])"
    using assms by (intro wd_queue_ok_snoc_wait) auto
  moreover have "wd_ordered (wd_requests s @ [?r])"
    using assms by (intro wd_wait_die_ordered[of s t p]) (auto simp: wd_key_def)
  ultimately show ?thesis
    using cnt by (cases t) (simp_all add: wd_inv_def wd_emplace_back_def)
qed

lemma wd_vlock_ok:
  assumes "wd_inv s"
  shows "\<exists>i evs s'. wd_vlock t p s = Some (i, evs, s') \<and> wd_inv s'"
proof (cases "al_done s")
  case True
  then show ?thesis
    using assms by (simp add: wd_vlock_def get_next_id_def wd_inv_def)
next
  case False
  let ?s = "s\<lparr>al_next_id := al_next_id s + 1\<rparr>" and ?q = "wd_requests s"
  let ?r = "\<lparr>wd_id = al_next_id s, wd_priority = p, wd_type = t, wd_rstatus = WAIT\<rparr>"
  let ?s1 = "wd_count_in_queue t 1 (wd_emplace_back (al_next_id s) p t ?s)"
  have ok: "wd_queue_ok (al_status s) (al_n_rlock s) ?q" and ord: "wd_ordered ?q"
    and cnt: "wd_n_r_in_queue s = wd_count RLOCK ?q" "wd_n_w_in_queue s = wd_count WLOCK ?q"
    using assms False by (simp_all add: wd_inv_def)
  show ?thesis
  proof (cases "al_status s = FREE \<or> (al_status s = RLOCKED \<and> t = RLOCK \<and> wd_count WLOCK ?q = 0)")
    case True
    from wd_vlock_granted[OF ok this, of ?r ?s1 "length ?q"] obtain s'' where
      s'': "(if t = RLOCK then wd_read_acquire (length ?q) ?s1 else wd_write_acquire (length ?q) ?s1)
          = Some ([Yes (wd_id ?r)], s'')" "wd_requests s'' = ?q @ [wd_grant ?r]"
        "wd_queue_ok (al_status s'') (al_n_rlock s'') (wd_requests s'')"
        "wd_n_r_in_queue s'' = wd_n_r_in_queue ?s1" "wd_n_w_in_queue s'' = wd_n_w_in_queue ?s1"
      by (auto simp: wd_emplace_back_def)
    moreover have "wd_ordered (?q @ [wd_grant ?r])"
      using True ok ord by (auto simp: wd_before_def wd_key_def wd_count_zero)
    ultimately have "wd_inv s''"
      using cnt by (cases t) (auto simp: wd_inv_def wd_emplace_back_def)
    then show ?thesis
      using s''(1) True False cnt by (auto simp: wd_vlock_def get_next_id_def wd_emplace_back_def Let_def)
  next
    case nog: False
    then have w: "t = RLOCK \<longrightarrow> wd_count WLOCK ?q \<noteq> 0"
      using ok wd_WLOCKED_has_writer by (cases "al_status s") auto
    then obtain d where d: "wd_wait_die t p ?s = Some d"
      using wd_wait_die_total[of t ?s p] by auto
    have "d = WD_WAIT \<Longrightarrow> wd_inv ?s1"
      using ok ord cnt nog w d by (intro wd_inv_waiting) auto
    moreover have "wd_inv ?s"
      using assms by (simp add: wd_inv_def)
    ultimately show ?thesis
      using nog False cnt d by (cases d) (auto simp: wd_vlock_def get_next_id_def)
  qed
qed

lemma wd_abort_waiting_ok:
  assumes ok: "wd_queue_ok (al_status s) (al_n_rlock s) (b @ it # a)" and wait: "wd_rstatus it = WAIT"
    and ord: "wd_ordered (b @ it # a)"
    and cnt: "wd_n_r_in_queue s = wd_count RLOCK (b @ it # a)" "wd_n_w_in_queue s = wd_count WLOCK (b @ it # a)"
  shows "\<exists>evs s'. wd_abort_waiting b it a s = Some (evs, s') \<and> wd_inv s'"
proof (cases "wd_type it = RLOCK \<or> wd_count WLOCK b \<noteq> 0")
  case True
  with wd_queue_ok_remove_wait[OF ok wait] ord cnt show ?thesis
    by (auto simp: wd_abort_waiting_def Let_def wd_inv_def wd_ordered_Cons wd_count_def)
next
  case False
  then have it: "wd_type it = WLOCK" and b0: "wd_count WLOCK b = 0"
    by (cases "wd_type it"; simp)+
  have st: "al_status s = RLOCKED"
    using ok wait b0 wd_WLOCKED_at_waiting by (cases "al_status s") auto
  obtain rs b' where q: "b = rs @ b'" "rs \<noteq> []" "al_n_rlock s = int (length rs)"
    "\<forall>r \<in> set rs. wd_type r = RLOCK \<and> wd_rstatus r = LOCK"
    "\<forall>r \<in> set a. wd_rstatus r = WAIT" "wd_type (hd (b' @ [it])) = WLOCK"
    using wd_RLOCKED_at_waiting[OF ok[unfolded st] wait] by metis
  have "b' = []"
    using q(1,6) b0 by (cases b') (auto simp: wd_count_zero simp del: wd_count_simps)
  let ?ws = "takeWhile (\<lambda>r. wd_type r = RLOCK) a" and ?d = "dropWhile (\<lambda>r. wd_type r = RLOCK) a"
  let ?s1 = "wd_count_in_queue WLOCK (- 1) (s\<lparr>wd_requests := b @ a\<rparr>)"
  have acq: "wd_read_acquire_all [length b ..< length b + length ?ws] ?s1 = Some (map (\<lambda>r. Yes (wd_id r)) ?ws,
      ?s1\<lparr>al_status := RLOCKED, al_n_rlock := al_n_rlock s + int (length ?ws),
        wd_requests := b @ map wd_grant ?ws @ ?d\<rparr>)"
    using st q by (subst wd_read_acquire_all_segment[where rs = ?ws and a = ?d])
      (auto dest: set_takeWhileD)
  have "wd_queue_ok RLOCKED (int (length (rs @ ?ws))) (rs @ map wd_grant ?ws @ ?d)"
    using q by (intro wd_queue_ok_reads) auto
  moreover have "wd_ordered (b @ map wd_grant ?ws @ ?d)"
    using ord by (simp only: wd_ordered_grant_prefix) (simp add: wd_ordered_Cons)
  moreover have "filter (\<lambda>r. wd_type r = WLOCK) b = []"
    using b0 by (simp add: wd_count_def)
  ultimately show ?thesis
    using acq it st cnt q \<open>b' = []\<close>
    by (auto simp: wd_abort_waiting_def Let_def verify_simps wd_inv_def)
qed

lemma wd_unlock_read_ok:
  assumes ok: "wd_queue_ok (al_status s) (al_n_rlock s) (b @ it # a)" and lck: "wd_rstatus it = LOCK"
    and type: "wd_type it = RLOCK" and ord: "wd_ordered (b @ it # a)"
    and cnt: "wd_n_r_in_queue s = wd_count RLOCK (b @ it # a)" "wd_n_w_in_queue s = wd_count WLOCK (b @ it # a)"
  shows "\<exists>evs s'. wd_unlock b it a s = Some (evs, s') \<and> wd_inv s'"
proof -
  have st: "al_status s = RLOCKED"
    using ok lck type wd_WLOCKED_at_locked(3) by (cases "al_status s") auto
  obtain rs rest where q: "a = rs @ rest" "al_n_rlock s = int (length (b @ rs)) + 1"
    "\<forall>r \<in> set (b @ rs). wd_type r = RLOCK \<and> wd_rstatus r = LOCK"
    "\<forall>r \<in> set rest. wd_rstatus r = WAIT" "rest = [] \<or> wd_type (hd rest) = WLOCK"
    using wd_RLOCKED_at_locked[OF ok[unfolded st] lck] by metis
  have ord': "wd_ordered (b @ a)"
    using ord by (simp add: wd_ordered_Cons)
  show ?thesis
  proof (cases "b @ rs = []")
    case True
    then show ?thesis
      using q st type cnt ord' by (cases rest)
        (auto simp: wd_unlock_def Let_def verify_simps wd_inv_def wd_ordered_Cons
          wd_write_acquire_at[where b = "[]" and a = "tl a" and r = "hd a"])
  next
    case False
    then have "wd_queue_ok RLOCKED (int (length (b @ rs))) ((b @ rs) @ rest)"
      unfolding wd_queue_ok_RLOCKED using q by blast
    moreover have "int (length b) + int (length rs) \<noteq> 0"
      using False by (cases b; cases rs) auto
    ultimately show ?thesis
      using q st type cnt ord' by (auto simp: wd_unlock_def Let_def wd_inv_def)
  qed
qed

lemma wd_unlock_write_ok:
  assumes ok: "wd_queue_ok (al_status s) (al_n_rlock s) (b @ it # a)" and lck: "wd_rstatus it = LOCK"
    and type: "wd_type it = WLOCK" and ord: "wd_ordered (b @ it # a)"
    and cnt: "wd_n_r_in_queue s = wd_count RLOCK (b @ it # a)" "wd_n_w_in_queue s = wd_count WLOCK (b @ it # a)"
  shows "\<exists>evs s'. wd_unlock b it a s = Some (evs, s') \<and> wd_inv s'"
proof -
  have st: "al_status s = WLOCKED"
  proof (cases "al_status s")
    case RLOCKED
    with ok lck type show ?thesis
      by (metis type_t.distinct(1) wd_RLOCKED_at_locked)
  qed (use ok in auto)
  have q: "al_n_rlock s = 0" "b = []" "\<forall>r \<in> set a. wd_rstatus r = WAIT"
    using wd_WLOCKED_at_locked[OF ok[unfolded st] lck] by auto
  have ord': "wd_ordered a"
    using ord by (simp add: wd_ordered_Cons)
  consider "a = []" | w rest where "a = w # rest" "wd_type w = WLOCK" | "a \<noteq> []" "wd_type (hd a) = RLOCK"
    by (cases a; cases "wd_type (hd a)") auto
  then show ?thesis
  proof cases
    case 3
    let ?ws = "takeWhile (\<lambda>r. wd_type r = RLOCK) a" and ?d = "dropWhile (\<lambda>r. wd_type r = RLOCK) a"
    let ?s2 = "(wd_count_in_queue WLOCK (- 1) s)\<lparr>wd_requests := a\<rparr>"
    have ws: "?ws \<noteq> []"
      using 3 by (cases a) auto
    have "wd_read_acquire_all [0 ..< length ?ws] ?s2 = Some (map (\<lambda>r. Yes (wd_id r)) ?ws,
        ?s2\<lparr>al_status := RLOCKED, al_n_rlock := int (length ?ws),
          wd_requests := map wd_grant ?ws @ ?d\<rparr>)"
      using st q ws wd_read_acquire_all_segment[where s = ?s2 and b = "[]" and rs = ?ws and a = ?d]
      by (auto dest: set_takeWhileD)
    moreover have "wd_queue_ok RLOCKED (int (length ?ws)) (map wd_grant ?ws @ ?d)"
      using q ws wd_queue_ok_reads[of "[]" a ?ws] by simp
    moreover have "wd_ordered (map wd_grant ?ws @ ?d)"
      using ord' wd_ordered_grant_prefix[of "[]" "\<lambda>r. wd_type r = RLOCK" a] by simp
    ultimately show ?thesis
      using 3 q type cnt by (auto simp: wd_unlock_def Let_def verify_simps wd_inv_def)
  qed (use q type cnt ord' in \<open>auto simp: wd_unlock_def Let_def verify_simps wd_inv_def wd_ordered_Cons
      wd_write_acquire_at[where b = "[]"]\<close>)
qed

lemma wd_abort_ok:
  assumes "wd_inv s"
  shows "\<exists>evs s'. wd_abort i s = Some (evs, s') \<and> wd_inv s'"
proof (cases "al_done s \<or> dropWhile (\<lambda>r. wd_id r \<noteq> i) (wd_requests s) = []")
  case True
  then show ?thesis
    using assms by (auto simp: wd_abort_def simp del: dropWhile_eq_Nil_conv)
next
  case False
  then obtain it a where it: "dropWhile (\<lambda>r. wd_id r \<noteq> i) (wd_requests s) = it # a"
    by (cases "dropWhile (\<lambda>r. wd_id r \<noteq> i) (wd_requests s)") (auto simp del: dropWhile_eq_Nil_conv)
  define b where "b = takeWhile (\<lambda>r. wd_id r \<noteq> i) (wd_requests s)"
  have "wd_requests s = b @ it # a"
    using dropWhile_Cons_split[OF it] by (simp add: b_def)
  with assms False have *: "wd_queue_ok (al_status s) (al_n_rlock s) (b @ it # a)" "wd_ordered (b @ it # a)"
    "wd_n_r_in_queue s = wd_count RLOCK (b @ it # a)" "wd_n_w_in_queue s = wd_count WLOCK (b @ it # a)"
    by (simp_all add: wd_inv_def)
  have "wd_abort i s = (if wd_rstatus it = WAIT then wd_abort_waiting b it a s else wd_unlock b it a s)"
    using False it by (simp add: wd_abort_def b_def)
  then show ?thesis
    using wd_abort_waiting_ok[OF *(1) _ *(2-)] wd_unlock_read_ok[OF *(1) _ _ *(2-)]
      wd_unlock_write_ok[OF *(1) _ _ *(2-)]
    by (cases "wd_rstatus it"; cases "wd_type it") auto
qed

subsection \<open>The lock as a step system\<close>

datatype wd_op = WdLock type_t i64 | WdAbort u64

fun wd_step :: "wd_op \<Rightarrow> wd_lock \<Rightarrow> (lock_ev list \<times> wd_lock) option" where
  "wd_step (WdLock t p) s = map_option snd (wd_vlock t p s)"
| "wd_step (WdAbort i) s = wd_abort i s"

definition wd_holders :: "type_t \<Rightarrow> wd_lock \<Rightarrow> wd_req list" where
  "wd_holders t s = filter (\<lambda>r. wd_type r = t \<and> wd_rstatus r = LOCK)
     (if al_done s then [] else wd_requests s)"

lemma wd_inv_mutex:
  assumes "wd_inv s"
  shows "mutex (wd_holders WLOCK s) (wd_holders RLOCK s)"
proof (cases "al_done s")
  case False
  then have ok: "wd_queue_ok (al_status s) (al_n_rlock s) (wd_requests s)"
    using assms by (simp add: wd_inv_def)
  show ?thesis
  proof (cases "al_status s")
    case RLOCKED
    with ok False show ?thesis
      by (auto simp: mutex_def wd_holders_def wd_queue_ok_RLOCKED filter_empty_conv filter_False)
  next
    case WLOCKED
    with ok False show ?thesis
      by (auto simp: mutex_def wd_holders_def filter_False)
  qed (use ok False in \<open>auto simp: mutex_def wd_holders_def\<close>)
qed (simp add: mutex_def wd_holders_def)

lemma wd_step_ok:
  assumes "wd_inv s"
  shows "\<exists>evs s'. wd_step a s = Some (evs, s') \<and> wd_inv s'"
proof (cases a)
  case (WdLock t p)
  then show ?thesis
    using wd_vlock_ok[OF assms, of t p] by auto
next
  case (WdAbort i)
  then show ?thesis
    using wd_abort_ok[OF assms, of i] by auto
qed

interpretation wd: lock_system wd_init wd_step wd_inv "wd_holders WLOCK" "wd_holders RLOCK"
proof (unfold_locales, goal_cases)
  case 1 show ?case by (simp add: wd_inv_def wd_init_def)
next
  case (2 s a) then show ?case using wd_step_ok[of s a] by auto
next
  case (3 s a out s') then show ?case using wd_step_ok[of s a] by auto
next
  case (4 s) then show ?case by (rule wd_inv_mutex)
qed

lemma wd_step_done: "wd_step a s = Some (evs, s') \<Longrightarrow> al_done s' = al_done s"
  by (cases a) (auto simp: wd_vlock_def get_next_id_def wd_abort_def wd_abort_waiting_def wd_unlock_def
      wd_write_acquire_def wd_read_acquire_def wd_read_acquire_all_def wd_emplace_back_def Let_def
      verify_simps bind_eq_Some_conv split: if_splits list.splits)

lemma wd_run_done: "run_steps wd_step as s = Some (outs, s') \<Longrightarrow> al_done s' = al_done s"
  by (induction as arbitrary: s outs) (auto simp: bind_eq_Some_conv dest: wd_step_done)

lemma wd_run_init:
  assumes "run_steps wd_step as wd_init = Some (outs, s)"
  shows "\<not> al_done s" "wd_inv s"
  using wd_run_done[OF assms] wd.run_inv[OF assms] by (simp_all add: wd_init_def)

subsection \<open>The sanity check of the class\<close>

definition wd_prio_ok :: "wd_scan \<Rightarrow> wd_req list \<Rightarrow> bool" where
  "wd_prio_ok c q \<longleftrightarrow> (\<forall>r \<in> set q. wd_priority r < big c) \<and>
     (tmp_big c \<noteq> - 1 \<longrightarrow> (\<forall>r \<in> set q. wd_type r = WLOCK \<longrightarrow> wd_priority r < tmp_big c))"

lemma wd_check_priority_ok:
  assumes "wd_ordered (r # q)" "wd_prio_ok c (r # q)"
  shows "\<exists>b tb. wd_check_priority r c = Some (c\<lparr>big := b, tmp_big := tb,
      num_w := num_w c + wd_count WLOCK [r], num_r := num_r c + wd_count RLOCK [r]\<rparr>)
    \<and> wd_prio_ok (c\<lparr>big := b, tmp_big := tb, num_w := nw, num_r := nr\<rparr>) q"
proof (cases "wd_type r")
  case RLOCK
  then show ?thesis
    using assms
    by (intro exI[of _ "big c"] exI[of _ "if tmp_big c = - 1 then wd_priority r
                        else if tmp_big c > wd_priority r then wd_priority r else tmp_big c"])
      (auto simp: wd_check_priority_def wd_prio_ok_def verify_simps wd_ordered_Cons wd_before_def wd_key_def)
next
  case WLOCK
  then have "\<forall>x \<in> set q. wd_priority x < wd_priority r"
    using assms by (auto simp: wd_ordered_Cons wd_before_def wd_key_def)
  then show ?thesis
    using assms WLOCK
    by (intro exI[of _ "if tmp_big c = - 1 then wd_priority r else tmp_big c"] exI[of _ "- 1"])
      (auto simp: wd_check_priority_def wd_prio_ok_def verify_simps Let_def)
qed

definition wd_holder_ok :: "bool \<Rightarrow> wd_lock \<Rightarrow> wd_scan \<Rightarrow> wd_req list \<Rightarrow> bool" where
  "wd_holder_ok at_begin s c q \<longleftrightarrow>
    (if acquired_check c then \<forall>r \<in> set q. wd_rstatus r = WAIT
     else q = [] \<or> (case al_status s of
        FREE \<Rightarrow> False
      | WLOCKED \<Rightarrow> at_begin \<and> wd_queue_ok WLOCKED 0 q
      | RLOCKED \<Rightarrow> \<exists>rs rest. q = rs @ rest \<and> al_n_rlock s = n_r_locked c + int (length rs)
          \<and> (\<forall>r \<in> set rs. wd_type r = RLOCK \<and> wd_rstatus r = LOCK)
          \<and> (\<forall>r \<in> set rest. wd_rstatus r = WAIT) \<and> (rest = [] \<or> wd_type (hd rest) = WLOCK)))"

lemma wd_check_holder_ok:
  assumes "wd_holder_ok at_begin s c (r # q)"
  shows "\<exists>ac n. wd_check_holder at_begin s r c = Some (c\<lparr>acquired_check := ac, n_r_locked := n\<rparr>)
    \<and> wd_holder_ok False s (c\<lparr>acquired_check := ac, n_r_locked := n\<rparr>) q"
proof (cases "acquired_check c \<or> al_status s \<noteq> RLOCKED")
  case True
  then show ?thesis
    using assms
    by (intro exI[of _ True] exI[of _ "n_r_locked c"])
      (cases "al_status s"; cases c; auto simp: wd_check_holder_def wd_holder_ok_def verify_simps split: if_splits)
next
  case False
  with assms obtain rs rest where q: "r # q = rs @ rest" "al_n_rlock s = n_r_locked c + int (length rs)"
    "\<forall>r \<in> set rs. wd_type r = RLOCK \<and> wd_rstatus r = LOCK"
    "\<forall>r \<in> set rest. wd_rstatus r = WAIT" "rest = [] \<or> wd_type (hd rest) = WLOCK"
    by (auto simp: wd_holder_ok_def)
  show ?thesis
  proof (cases rs)
    case Nil
    then show ?thesis
      using q False by (intro exI[of _ True] exI[of _ "n_r_locked c"])
        (cases rest; cases c; auto simp: wd_check_holder_def wd_holder_ok_def verify_simps)
  next
    case (Cons a rs')
    then have "q = rs' @ rest \<and> al_n_rlock s = n_r_locked c + 1 + int (length rs')
        \<and> (\<forall>r \<in> set rs'. wd_type r = RLOCK \<and> wd_rstatus r = LOCK)"
      using q by auto
    then have "wd_holder_ok False s (c\<lparr>acquired_check := False, n_r_locked := n_r_locked c + 1\<rparr>) q"
      using q(4,5) False by (auto simp: wd_holder_ok_def)
    then show ?thesis
      using q False Cons by (intro exI[of _ False] exI[of _ "n_r_locked c + 1"])
        (cases c; auto simp: wd_check_holder_def verify_simps)
  qed
qed

lemma wd_holder_ok_cong:
  "acquired_check c = acquired_check c' \<Longrightarrow> n_r_locked c = n_r_locked c' \<Longrightarrow>
    wd_holder_ok bg s c q = wd_holder_ok bg s c' q"
  by (simp add: wd_holder_ok_def split: status_t.split)

lemma wd_check_loop_ok:
  assumes "wd_ordered q" "wd_prio_ok c q" "wd_holder_ok at_begin s c q"
  shows "\<exists>c'. wd_check_loop at_begin s q c = Some c' \<and>
    num_w c' = num_w c + wd_count WLOCK q \<and> num_r c' = num_r c + wd_count RLOCK q"
  using assms
proof (induction q arbitrary: c at_begin)
  case (Cons r q)
  from wd_check_holder_ok[OF Cons.prems(3)] obtain ac n where
    h: "wd_check_holder at_begin s r c = Some (c\<lparr>acquired_check := ac, n_r_locked := n\<rparr>)"
      "wd_holder_ok False s (c\<lparr>acquired_check := ac, n_r_locked := n\<rparr>) q"
    by blast
  let ?c1 = "c\<lparr>acquired_check := ac, n_r_locked := n\<rparr>"
  have "wd_prio_ok ?c1 (r # q)"
    using Cons.prems(2) by (simp add: wd_prio_ok_def)
  from wd_check_priority_ok[OF Cons.prems(1) this, where nw = "num_w c + wd_count WLOCK [r]"
      and nr = "num_r c + wd_count RLOCK [r]"] obtain c2 where
    p: "wd_check_priority r ?c1 = Some c2" "wd_prio_ok c2 q"
      "acquired_check c2 = ac" "n_r_locked c2 = n"
      "num_w c2 = num_w c + wd_count WLOCK [r]" "num_r c2 = num_r c + wd_count RLOCK [r]"
    by auto
  have "wd_holder_ok False s c2 q"
    using h(2) p by (subst wd_holder_ok_cong[of c2 ?c1]) simp_all
  from Cons.IH[OF _ p(2) this] show ?case
    using h(1) p Cons.prems(1) by (auto simp: wd_ordered_Cons)
qed simp

lemma wd_sanity_check_ok:
  assumes "wd_inv s" "\<not> al_done s" "\<forall>r \<in> set (wd_requests s). wd_priority r < int64_max"
  shows "wd_sanity_check s = Some ()"
proof -
  let ?c = "\<lparr>acquired_check = False, big = int64_max, tmp_big = - 1, n_r_locked = 0, num_w = 0, num_r = 0\<rparr>"
  have ok: "wd_queue_ok (al_status s) (al_n_rlock s) (wd_requests s)"
    using assms by (simp add: wd_inv_def)
  then have "wd_holder_ok True s ?c (wd_requests s)"
    by (cases "al_status s") (auto simp: wd_holder_ok_def wd_queue_ok_RLOCKED)
  moreover have "wd_prio_ok ?c (wd_requests s)"
    using assms by (simp add: wd_prio_ok_def)
  ultimately show ?thesis
    using wd_check_loop_ok[of "wd_requests s" ?c True s] assms ok
    by (auto simp: wd_sanity_check_def wd_inv_def verify_simps)
qed

subsection \<open>Properties\<close>

definition wd_conflict :: "type_t \<Rightarrow> wd_req \<Rightarrow> bool" where
  "wd_conflict t r \<longleftrightarrow> t = WLOCK \<or> wd_type r = WLOCK"

definition wd_waits_for :: "wd_lock \<Rightarrow> (i64 \<times> i64) list" where
  "wd_waits_for s = (let q = wd_requests s in
     [(wd_priority (q ! j), wd_priority (q ! i)). j \<leftarrow> [0 ..< length q], i \<leftarrow> [0 ..< j],
       wd_rstatus (q ! j) = WAIT \<and> wd_conflict (wd_type (q ! j)) (q ! i)])"

lemma wd_waits_for_older:
  assumes "wd_ordered (wd_requests s)" "(a, b) \<in> set (wd_waits_for s)"
  shows "a < b"
  using assms
  by (auto simp: wd_waits_for_def wd_ordered_def wd_conflict_def wd_before_def wd_key_def sorted_wrt_iff_nth_less Let_def
      split: if_splits)

lemma wd_wait_die_w_die: "wd_wait_die_w p q = WD_DIE \<Longrightarrow> \<exists>r \<in> set q. wd_priority r \<le> p"
  by (induction q) (auto split: if_splits)

lemma wd_wait_die_r_die:
  "wd_wait_die_r p q = Some WD_DIE \<Longrightarrow> \<exists>r \<in> set q. wd_type r = WLOCK \<and> wd_priority r \<le> p"
  by (induction q) (auto split: if_splits)

lemma wd_wait_die_iff:
  assumes "wd_ordered (wd_requests s)" "wd_wait_die t p s = Some d"
  shows "d = WD_WAIT \<longleftrightarrow> (\<forall>r \<in> set (wd_requests s). wd_conflict t r \<longrightarrow> p < wd_priority r)"
proof (cases t)
  case RLOCK
  then show ?thesis
    using assms wd_wait_die_r_older[of "wd_requests s" p] wd_wait_die_r_die[of p "rev (wd_requests s)"]
    by (cases d) (auto simp: wd_wait_die_def wd_conflict_def)
next
  case WLOCK
  then show ?thesis
    using assms wd_wait_die_w_older[of "wd_requests s" p] wd_wait_die_w_die[of p "rev (wd_requests s)"]
    by (cases d) (auto simp: wd_wait_die_def wd_conflict_def not_less)
qed

lemma wd_grantable_iff:
  assumes "wd_inv s" "\<not> al_done s"
  shows "al_status s = FREE \<or> (al_status s = RLOCKED \<and> t = RLOCK \<and> wd_n_w_in_queue s = 0) \<longleftrightarrow>
    (\<forall>r \<in> set (wd_requests s). \<not> wd_conflict t r)"
  using assms
  by (cases "al_status s"; cases t)
    (auto simp: wd_inv_def wd_conflict_def wd_count_zero wd_queue_ok_RLOCKED simp del: wd_count_simps)

lemma wd_vlock_events:
  assumes "wd_inv s" "\<not> al_done s" "wd_vlock t p s = Some (i, evs, s')"
  shows "i = al_next_id s \<and> evs = (if \<forall>r \<in> set (wd_requests s). \<not> wd_conflict t r then [Yes i]
    else if \<forall>r \<in> set (wd_requests s). wd_conflict t r \<longrightarrow> p < wd_priority r then [] else [No i])"
proof -
  have ord: "wd_ordered (wd_requests (s\<lparr>al_next_id := al_next_id s + 1\<rparr>))"
    using assms by (simp add: wd_inv_def)
  show ?thesis
    using assms wd_grantable_iff[OF assms(1,2), of t] wd_wait_die_iff[OF ord, of t p]
    by (auto simp: wd_vlock_def get_next_id_def Let_def bind_eq_Some_conv wd_read_acquire_def
        wd_write_acquire_def wd_emplace_back_def verify_simps nth_append split: if_splits)
qed

text \<open>C11: Wait-die locks do not deadlock. For any set of locks, each reached by any sequence of lock
  and abort calls, the relation between the priority of a waiting request and the priorities of the
  conflicting requests queued before it on the same lock has no cycle.\<close>

theorem wd_deadlock_free:
  assumes "\<forall>l \<in> set ls. \<exists>as outs. run_steps wd_step as wd_init = Some (outs, l)"
  shows "acyclic (\<Union>l \<in> set ls. set (wd_waits_for l))"
proof -
  have "wd_ordered (wd_requests l)" if "l \<in> set ls" for l
    using assms that wd_run_init by (auto simp: wd_inv_def)
  then have "(\<Union>l \<in> set ls. set (wd_waits_for l)) \<subseteq> {(a, b). a < b}"
    using wd_waits_for_older by fastforce
  moreover have "acyclic {(a, b). a < (b :: i64)}"
    by (rule acyclicI_order[of _ "\<lambda>x. - x"]) auto
  ultimately show ?thesis
    by (rule acyclic_subset[rotated])
qed

definition wd_example :: "wd_lock" where
  "wd_example = snd (the (run_steps wd_step [WdLock WLOCK 5, WdLock RLOCK 3, WdLock WLOCK 2] wd_init))"

theorem wd_deadlock_free_witness:
  "wd_waits_for wd_example = [(3, 5), (2, 5), (2, 3)] \<and> acyclic (set (wd_waits_for wd_example))"
proof
  show "wd_waits_for wd_example = [(3, 5), (2, 5), (2, 3)]"
    by code_simp
  obtain outs s where "run_steps wd_step [WdLock WLOCK 5, WdLock RLOCK 3, WdLock WLOCK 2] wd_init = Some (outs, s)"
    using wd.run_total by blast
  then have "\<exists>as outs. run_steps wd_step as wd_init = Some (outs, wd_example)"
    by (auto simp: wd_example_def simp del: run_steps.simps)
  then show "acyclic (set (wd_waits_for wd_example))"
    using wd_deadlock_free[of "[wd_example]"] by simp
qed

text \<open>The decision of \<open>vlock\<close> in every reachable state: a request is granted at once when nothing
  in the queue conflicts with it, waits when it is older than every conflicting request, and dies
  otherwise, although the scan of the code stops at the last write request.\<close>

theorem wd_vlock_decision:
  assumes "run_steps wd_step as wd_init = Some (outs, s)" "wd_vlock t p s = Some (i, evs, s')"
  shows "evs = (if \<forall>r \<in> set (wd_requests s). \<not> wd_conflict t r then [Yes i]
    else if \<forall>r \<in> set (wd_requests s). wd_conflict t r \<longrightarrow> p < wd_priority r then [] else [No i])"
  using wd_vlock_events[OF _ _ assms(2)] wd_run_init[OF assms(1)] by blast

theorem wd_vlock_decision_witness:
  "\<exists>outs s i s'. run_steps wd_step [WdLock WLOCK 5, WdLock RLOCK 3, WdLock WLOCK 2] wd_init = Some (outs, s)
    \<and> wd_vlock RLOCK 4 s = Some (i, [No i], s') \<and> (\<exists>r \<in> set (wd_requests s). wd_conflict RLOCK r)"
proof -
  obtain outs s where s: "run_steps wd_step [WdLock WLOCK 5, WdLock RLOCK 3, WdLock WLOCK 2] wd_init = Some (outs, s)"
    using wd.run_total by blast
  then have ex: "s = wd_example"
    by (simp add: wd_example_def)
  obtain i evs s' where v: "wd_vlock RLOCK 4 s = Some (i, evs, s')"
    using wd_vlock_ok[OF wd_run_init(2)[OF s]] by blast
  have "\<exists>r \<in> set (wd_requests wd_example). wd_conflict RLOCK r"
    "\<not> (\<forall>r \<in> set (wd_requests wd_example). wd_conflict RLOCK r \<longrightarrow> 4 < wd_priority r)"
    by code_simp+
  then show ?thesis
    using wd_vlock_decision[OF s v] s v ex by auto
qed

text \<open>The sanity check of the class passes after any sequence of lock and abort calls, as long as no
  queued priority is the largest \<open>int64_t\<close>, which the check uses as its initial bound.\<close>

theorem wd_sanity_check_passes:
  assumes "run_steps wd_step as wd_init = Some (outs, s)"
    "\<forall>r \<in> set (wd_requests s). wd_priority r < int64_max"
  shows "wd_sanity_check s = Some ()"
  using wd_sanity_check_ok wd_run_init[OF assms(1)] assms(2) by blast

theorem wd_sanity_check_passes_witness: "wd_sanity_check wd_example = Some ()"
proof -
  obtain outs s where s: "run_steps wd_step [WdLock WLOCK 5, WdLock RLOCK 3, WdLock WLOCK 2] wd_init = Some (outs, s)"
    using wd.run_total by blast
  moreover have "\<forall>r \<in> set (wd_requests wd_example). wd_priority r < int64_max"
    by code_simp
  ultimately show ?thesis
    using wd_sanity_check_passes[OF s] by (simp add: wd_example_def)
qed


end
