(* ===== verification/WoundDie.thy ===== *)
theory WoundDie
  imports WaitDie
begin

text \<open>
  \<open>WoundDieALock\<close> of \<open>rrr/misc/alock.{hpp,cpp}\<close>: an arriving request removes (wounds) the younger
  conflicting requests at the back of the queue. A waiting request is told to fail; the holder of a
  lock is asked through its \<open>wound_callback\<close>, whose answer comes from the environment: the argument
  \<open>ans\<close> gives, per request id, whether the holder lets itself be wounded (returns 0). The request
  struct and the three acquire functions are those of the wait-die lock.
\<close>

type_synonym wo_lock = wd_queue

definition wo_init :: wo_lock where
  "wo_init = \<lparr>al_next_id = 1, al_status = FREE, al_n_rlock = 0, al_done = False, wd_requests = []\<rparr>"

definition wo_wound :: "(u64 \<Rightarrow> bool) \<Rightarrow> wd_req \<Rightarrow> wo_lock \<Rightarrow> (bool \<times> lock_ev list \<times> wo_lock) option" where
  "wo_wound ans r s =
    (if wd_rstatus r = WAIT then Some (True, [No (wd_id r)], s)
     else if \<not> ans (wd_id r) then Some (False, [Wound (wd_id r)], s)
     else if wd_type r = WLOCK
     then do {
       verify (al_status s = WLOCKED);
       Some (True, [Wound (wd_id r)], s\<lparr>al_status := FREE\<rparr>)
     }
     else do {
       verify (al_status s = RLOCKED);
       let s1 = s\<lparr>al_n_rlock := al_n_rlock s - 1\<rparr>;
       Some (True, [Wound (wd_id r)], if al_n_rlock s1 = 0 then s1\<lparr>al_status := FREE\<rparr> else s1)
     })"

text \<open>
  The reverse scans of \<open>wound_die\<close>. The list argument is the queue from the back; the result holds
  what stays of it, again from the back.
\<close>

fun wo_wound_die_w :: "(u64 \<Rightarrow> bool) \<Rightarrow> i64 \<Rightarrow> wd_req list \<Rightarrow> wo_lock \<Rightarrow>
    (lock_ev list \<times> wd_req list \<times> wo_lock) option" where
  "wo_wound_die_w ans p [] s = Some ([], [], s)"
| "wo_wound_die_w ans p (r # rs) s =
    (if wd_priority r \<ge> p
     then do {
       (wounded, ev, s1) \<leftarrow> wo_wound ans r s;
       (evs, kept, s2) \<leftarrow> wo_wound_die_w ans p rs s1;
       Some (ev @ evs, if wounded then kept else r # kept, s2)
     }
     else if wd_type r = WLOCK then Some ([], r # rs, s)
     else do {
       (evs, kept, s2) \<leftarrow> wo_wound_die_w ans p rs s;
       Some (evs, r # kept, s2)
     })"

fun wo_wound_die_r :: "(u64 \<Rightarrow> bool) \<Rightarrow> i64 \<Rightarrow> wd_req list \<Rightarrow> wo_lock \<Rightarrow>
    (lock_ev list \<times> wd_req list \<times> wo_lock) option" where
  "wo_wound_die_r ans p [] s = Some ([], [], s)"
| "wo_wound_die_r ans p (r # rs) s =
    (if wd_priority r < p then Some ([], r # rs, s)
     else if wd_type r = WLOCK
     then do {
       (wounded, ev, s1) \<leftarrow> wo_wound ans r s;
       (evs, kept, s2) \<leftarrow> wo_wound_die_r ans p rs s1;
       Some (ev @ evs, if wounded then kept else r # kept, s2)
     }
     else do {
       (evs, kept, s2) \<leftarrow> wo_wound_die_r ans p rs s;
       Some (evs, r # kept, s2)
     })"

definition wo_wound_die :: "(u64 \<Rightarrow> bool) \<Rightarrow> type_t \<Rightarrow> i64 \<Rightarrow> wo_lock \<Rightarrow> (lock_ev list \<times> wo_lock) option" where
  "wo_wound_die ans t p s = do {
     (evs, kept, s1) \<leftarrow> (if t = WLOCK then wo_wound_die_w ans p (rev (wd_requests s)) s
                         else wo_wound_die_r ans p (rev (wd_requests s)) s);
     Some (evs, s1\<lparr>wd_requests := rev kept\<rparr>)
   }"

text \<open>The loop of the \<open>RLOCKED\<close> case of \<open>vlock\<close>: the positions of the reads to grant.\<close>

fun wo_collect_reads :: "nat \<Rightarrow> bool \<Rightarrow> wd_req list \<Rightarrow> nat list option" where
  "wo_collect_reads k new_acquired [] = Some []"
| "wo_collect_reads k new_acquired (r # rs) =
    (if wd_rstatus r = LOCK
     then do { verify (wd_type r = RLOCK \<and> \<not> new_acquired); wo_collect_reads (k + 1) new_acquired rs }
     else if wd_type r = RLOCK
     then do { ks \<leftarrow> wo_collect_reads (k + 1) True rs; Some (k # ks) }
     else Some [])"

definition wo_acquire :: "wo_lock \<Rightarrow> (lock_ev list \<times> wo_lock) option" where
  "wo_acquire s = (let front = hd (wd_requests s) in case al_status s of
     FREE \<Rightarrow>
       (if wd_type front = WLOCK then wd_write_acquire 0 s
        else wd_read_acquire_all [0 ..< length (takeWhile (\<lambda>r. wd_type r = RLOCK) (wd_requests s))] s)
   | RLOCKED \<Rightarrow> do {
       verify (wd_type front = RLOCK \<and> wd_rstatus front = LOCK);
       ks \<leftarrow> wo_collect_reads 0 False (wd_requests s);
       wd_read_acquire_all ks s
     }
   | WLOCKED \<Rightarrow> do {
       verify (wd_type front = WLOCK \<and> wd_rstatus front = LOCK);
       Some ([], s)
     })"

definition wo_vlock :: "(u64 \<Rightarrow> bool) \<Rightarrow> type_t \<Rightarrow> i64 \<Rightarrow> wo_lock \<Rightarrow> (u64 \<times> lock_ev list \<times> wo_lock) option" where
  "wo_vlock ans t p s0 = (case get_next_id s0 of (i, s) \<Rightarrow>
     if al_done s then Some (i, [No i], s)
     else do {
       (evs, s1) \<leftarrow> wo_wound_die ans t p s;
       let s2 = s1\<lparr>wd_requests := wd_requests s1 @
         [\<lparr>wd_id = i, wd_priority = p, wd_type = t, wd_rstatus = WAIT\<rparr>]\<rparr>;
       (evs', s3) \<leftarrow> wo_acquire s2;
       Some (i, evs @ evs', s3)
     })"

definition wo_abort_waiting ::
  "wd_req list \<Rightarrow> wd_req \<Rightarrow> wd_req list \<Rightarrow> wo_lock \<Rightarrow> (lock_ev list \<times> wo_lock) option" where
  "wo_abort_waiting before it after s = do {
     let n_w_before_this = length (filter (\<lambda>r. wd_type r = WLOCK) before);
     let s1 = s\<lparr>wd_requests := before @ after\<rparr>;
     (evs, s2) \<leftarrow>
       (if wd_type it = WLOCK \<and> n_w_before_this = 0
        then do {
          verify (al_status s1 = RLOCKED);
          let m = length (takeWhile (\<lambda>r. wd_type r = RLOCK) after);
          wd_read_acquire_all [length before ..< length before + m] s1
        }
        else Some ([], s1));
     Some (evs @ [No (wd_id it)], s2)
   }"

definition wo_unlock ::
  "wd_req list \<Rightarrow> wd_req \<Rightarrow> wd_req list \<Rightarrow> wo_lock \<Rightarrow> (lock_ev list \<times> wo_lock) option" where
  "wo_unlock before it after s =
    (if wd_type it = RLOCK
     then do {
       let s1 = s\<lparr>al_n_rlock := al_n_rlock s - 1, wd_requests := before @ after\<rparr>;
       if al_n_rlock s1 = 0
       then (if after = []
             then do { verify (wd_requests s1 = []); Some ([], s1\<lparr>al_status := FREE\<rparr>) }
             else wd_write_acquire (length before) s1)
       else Some ([], s1)
     }
     else do {
       let s1 = s\<lparr>wd_requests := before @ after\<rparr>;
       if after = []
       then do { verify (wd_requests s1 = []); Some ([], s1\<lparr>al_status := FREE\<rparr>) }
       else if wd_type (hd after) = WLOCK then wd_write_acquire (length before) s1
       else do {
         let m = length (takeWhile (\<lambda>r. wd_type r \<noteq> WLOCK) after);
         (evs, s2) \<leftarrow> wd_read_acquire_all [length before ..< length before + m] s1;
         verify (al_status s2 = RLOCKED);
         Some (evs, s2)
       }
     })"

definition wo_abort :: "u64 \<Rightarrow> wo_lock \<Rightarrow> (lock_ev list \<times> wo_lock) option" where
  "wo_abort i s =
    (if al_done s then Some ([], s)
     else case dropWhile (\<lambda>r. wd_id r \<noteq> i) (wd_requests s) of
       [] \<Rightarrow> Some ([], s)
     | it # after \<Rightarrow>
         (let before = takeWhile (\<lambda>r. wd_id r \<noteq> i) (wd_requests s) in
          if wd_rstatus it = WAIT then wo_abort_waiting before it after s
          else wo_unlock before it after s))"

definition wo_destroy :: "wo_lock \<Rightarrow> (lock_ev list \<times> wo_lock) option" where
  "wo_destroy s = do {
     verify (\<not> al_done s);
     verify (al_status s \<noteq> RLOCKED);
     Some (map (\<lambda>r. No (wd_id r)) (filter (\<lambda>r. wd_rstatus r = WAIT) (wd_requests s)),
           s\<lparr>al_done := True, wd_requests := []\<rparr>)
   }"

subsection \<open>Invariant\<close>

text \<open>
  \<open>U\<close> stands for the requests that have refused to be wounded. Of two conflicting requests in the
  queue the earlier one is older, or it holds the lock and has refused.
\<close>

definition wo_before :: "u64 set \<Rightarrow> wd_req \<Rightarrow> wd_req \<Rightarrow> bool" where
  "wo_before U a b \<longleftrightarrow> (wd_type a = WLOCK \<or> wd_type b = WLOCK \<longrightarrow>
     wd_priority a < wd_priority b \<or> wd_rstatus a = LOCK \<and> wd_id a \<in> U)"

definition wo_inv :: "u64 set \<Rightarrow> wo_lock \<Rightarrow> bool" where
  "wo_inv U s \<longleftrightarrow> (\<not> al_done s \<longrightarrow>
     wd_queue_ok (al_status s) (al_n_rlock s) (wd_requests s) \<and> sorted_wrt (wo_before U) (wd_requests s))"

text \<open>While \<open>vlock\<close> runs the lock may be free with requests waiting, and reads may wait behind reads.\<close>

fun wo_held :: "status_t \<Rightarrow> int \<Rightarrow> wd_req list \<Rightarrow> bool" where
  "wo_held FREE n rs = (rs = [] \<and> n = 0)"
| "wo_held WLOCKED n rs = (n = 0 \<and> length rs = 1 \<and> wd_type (hd rs) = WLOCK)"
| "wo_held RLOCKED n rs = (rs \<noteq> [] \<and> n = int (length rs) \<and> (\<forall>r \<in> set rs. wd_type r = RLOCK))"

definition wo_pre :: "status_t \<Rightarrow> int \<Rightarrow> wd_req list \<Rightarrow> bool" where
  "wo_pre st n q \<longleftrightarrow> (\<exists>rs rest. q = rs @ rest \<and> (\<forall>r \<in> set rs. wd_rstatus r = LOCK)
     \<and> (\<forall>r \<in> set rest. wd_rstatus r = WAIT) \<and> wo_held st n rs)"

lemma wo_preI:
  assumes "q = rs @ rest" "\<forall>r \<in> set rs. wd_rstatus r = LOCK" "\<forall>r \<in> set rest. wd_rstatus r = WAIT"
    "wo_held st n rs"
  shows "wo_pre st n q"
  using assms unfolding wo_pre_def by blast

lemma wo_preE:
  assumes "wo_pre st n q"
  obtains rs rest where "q = rs @ rest" "\<forall>r \<in> set rs. wd_rstatus r = LOCK"
    "\<forall>r \<in> set rest. wd_rstatus r = WAIT" "wo_held st n rs"
  using assms unfolding wo_pre_def by blast

lemma wo_pre_queue_ok:
  assumes "wd_queue_ok st n q"
  shows "wo_pre st n q"
proof (cases st)
  case FREE
  with assms show ?thesis
    by (intro wo_preI[of _ "[]" "[]"]) auto
next
  case WLOCKED
  with assms show ?thesis
    by (intro wo_preI[of _ "[hd q]" "tl q"]) auto
next
  case RLOCKED
  obtain rs rest where "q = rs @ rest" "rs \<noteq> []" "n = int (length rs)"
     "\<forall>r \<in> set rs. wd_type r = RLOCK \<and> wd_rstatus r = LOCK" "\<forall>r \<in> set rest. wd_rstatus r = WAIT"
    using assms[unfolded RLOCKED wd_queue_ok_RLOCKED] by blast
  with RLOCKED show ?thesis
    by (intro wo_preI[of _ rs rest]) auto
qed

lemma wo_pre_snoc:
  assumes "wo_pre st n q" "wd_rstatus r = WAIT"
  shows "wo_pre st n (q @ [r])"
proof -
  from assms(1) obtain rs rest where "q = rs @ rest" "\<forall>r \<in> set rs. wd_rstatus r = LOCK"
    "\<forall>r \<in> set rest. wd_rstatus r = WAIT" "wo_held st n rs"
    by (rule wo_preE)
  with assms(2) show ?thesis
    by (intro wo_preI[of _ rs "rest @ [r]"]) auto
qed

lemma wo_split_locked:
  assumes "b @ r # k = rs @ rest" "wd_rstatus r = LOCK" "\<forall>x \<in> set rest. wd_rstatus x = WAIT"
  shows "\<exists>rs'. rs = b @ r # rs' \<and> k = rs' @ rest"
  using assms by (auto simp: append_eq_append_conv2 Cons_eq_append_conv)

lemma wo_split_waiting:
  assumes "b @ r # k = rs @ rest" "wd_rstatus r = WAIT" "\<forall>x \<in> set rs. wd_rstatus x = LOCK"
  shows "\<exists>b'. b = rs @ b' \<and> rest = b' @ r # k"
  using assms by (auto simp: append_eq_append_conv2 Cons_eq_append_conv)

lemma wo_pre_remove_waiting:
  assumes "wo_pre st n (b @ r # k)" "wd_rstatus r = WAIT"
  shows "wo_pre st n (b @ k)"
proof -
  obtain rs rest where q: "b @ r # k = rs @ rest" "\<forall>r \<in> set rs. wd_rstatus r = LOCK"
    "\<forall>r \<in> set rest. wd_rstatus r = WAIT" "wo_held st n rs"
    using assms(1) by (rule wo_preE)
  from wo_split_waiting[OF q(1) assms(2) q(2)] obtain b' where "b = rs @ b'" "rest = b' @ r # k"
    by blast
  then show ?thesis
    using q by (intro wo_preI[of _ rs "b' @ k"]) auto
qed

lemma wo_wound_ok:
  assumes "wo_pre (al_status s) (al_n_rlock s) (b @ r # k)"
  shows "\<exists>ok ev s'. wo_wound ans r s = Some (ok, ev, s') \<and> al_done s' = al_done s
    \<and> al_next_id s' = al_next_id s \<and> wd_requests s' = wd_requests s
    \<and> (\<not> ok \<longrightarrow> wd_rstatus r = LOCK \<and> \<not> ans (wd_id r))
    \<and> wo_pre (al_status s') (al_n_rlock s') (b @ (if ok then k else r # k))"
proof (cases "wd_rstatus r = WAIT \<or> \<not> ans (wd_id r)")
  case True
  then show ?thesis
    using assms wo_pre_remove_waiting[OF assms] by (cases "wd_rstatus r") (auto simp: wo_wound_def)
next
  case False
  then have lck: "wd_rstatus r = LOCK"
    by (cases "wd_rstatus r") auto
  obtain rs rest where q: "b @ r # k = rs @ rest" "\<forall>r \<in> set rs. wd_rstatus r = LOCK"
    "\<forall>r \<in> set rest. wd_rstatus r = WAIT" and st: "wo_held (al_status s) (al_n_rlock s) rs"
    using assms by (rule wo_preE)
  from wo_split_locked[OF q(1) lck q(3)] obtain rs' where rs': "rs = b @ r # rs'" "k = rs' @ rest"
    by blast
  show ?thesis
  proof (cases "al_status s")
    case WLOCKED
    with st rs' have *: "b = []" "rs' = []" "wd_type r = WLOCK" "al_n_rlock s = 0"
      by (auto simp: length_Suc_conv)
    then have "wo_pre FREE 0 k"
      using rs' q(3) by (intro wo_preI[of _ "[]" k]) auto
    then show ?thesis
      using WLOCKED False * by (auto simp: wo_wound_def verify_simps)
  next
    case RLOCKED
    with st rs' have t: "wd_type r = RLOCK" "al_n_rlock s = int (length (b @ rs')) + 1"
      "\<forall>r \<in> set (b @ rs'). wd_type r = RLOCK"
      by auto
    have pre: "wo_pre (if b @ rs' = [] then FREE else RLOCKED) (int (length (b @ rs'))) (b @ k)"
      using t(3) q(2,3) rs' by (intro wo_preI[of _ "b @ rs'" rest]) simp_all
    define s' where "s' = s\<lparr>al_n_rlock := int (length (b @ rs')),
      al_status := (if b @ rs' = [] then FREE else RLOCKED)\<rparr>"
    have "int (length (b @ rs')) = 0 \<longleftrightarrow> b @ rs' = []"
      by (metis length_0_conv of_nat_eq_0_iff)
    then have "wo_wound ans r s = Some (True, [Wound (wd_id r)], s')"
      using RLOCKED False lck t(1,2) unfolding wo_wound_def s'_def by (simp add: verify_simps Let_def)
    moreover have "wo_pre (al_status s') (al_n_rlock s') (b @ k)"
      using pre by (simp add: s'_def)
    moreover have "al_done s' = al_done s" "al_next_id s' = al_next_id s" "wd_requests s' = wd_requests s"
      by (simp_all add: s'_def)
    ultimately show ?thesis
      by auto
  qed (use st rs' in auto)
qed

subsection \<open>Wounding\<close>

text \<open>\<open>k\<close> is the part of the queue that the reverse scan has already passed and kept.\<close>

definition wo_scan_ok :: "u64 set \<Rightarrow> wd_req list \<Rightarrow> wd_req list \<Rightarrow> wo_lock \<Rightarrow> wd_req list \<Rightarrow> wo_lock \<Rightarrow> bool" where
  "wo_scan_ok U rs k s kept s' \<longleftrightarrow> subseq kept rs \<and> al_done s' = al_done s \<and> al_next_id s' = al_next_id s
     \<and> wo_pre (al_status s') (al_n_rlock s') (rev kept @ k)"

lemma wo_wound_die_w_ok:
  assumes "wo_pre (al_status s) (al_n_rlock s) (rev rs @ k)" "sorted_wrt (wo_before U) (rev rs)"
    and "\<forall>i. \<not> ans i \<longrightarrow> i \<in> U"
  shows "\<exists>evs kept s'. wo_wound_die_w ans p rs s = Some (evs, kept, s') \<and> wo_scan_ok U rs k s kept s'
    \<and> (\<forall>r \<in> set kept. wd_priority r < p \<or> wd_rstatus r = LOCK \<and> wd_id r \<in> U)"
  using assms
proof (induction rs arbitrary: s k)
  case (Cons r rs)
  have sub: "sorted_wrt (wo_before U) (rev rs)"
    using Cons.prems(2) by (simp add: sorted_wrt_append)
  consider "wd_priority r \<ge> p" | "wd_priority r < p" "wd_type r = WLOCK" | "wd_priority r < p" "wd_type r = RLOCK"
    by (cases "wd_type r"; cases "wd_priority r < p") auto
  then show ?case
  proof cases
    case 1
    from wo_wound_ok[of s "rev rs" r k ans] Cons.prems(1) obtain ok ev s1 where
      w: "wo_wound ans r s = Some (ok, ev, s1)" "al_done s1 = al_done s" "al_next_id s1 = al_next_id s"
        "\<not> ok \<longrightarrow> wd_rstatus r = LOCK \<and> \<not> ans (wd_id r)"
        "wo_pre (al_status s1) (al_n_rlock s1) (rev rs @ (if ok then k else r # k))"
      by auto
    from Cons.IH[OF w(5) sub Cons.prems(3)] obtain evs kept s2 where
      IH: "wo_wound_die_w ans p rs s1 = Some (evs, kept, s2)" "wo_scan_ok U rs (if ok then k else r # k) s1 kept s2"
        "\<forall>r \<in> set kept. wd_priority r < p \<or> wd_rstatus r = LOCK \<and> wd_id r \<in> U"
      by blast
    have "wo_scan_ok U (r # rs) k s (if ok then kept else r # kept) s2"
      using IH(2) w(2,3) by (auto simp: wo_scan_ok_def split: if_splits)
    moreover have "\<not> ok \<longrightarrow> wd_id r \<in> U"
      using w(4) Cons.prems(3) by blast
    ultimately show ?thesis
      using 1 w(1,4) IH(1,3) by auto
  next
    case 2
    have "\<forall>x \<in> set rs. wd_priority x < p \<or> wd_rstatus x = LOCK \<and> wd_id x \<in> U"
      using 2 Cons.prems(2) by (fastforce simp: sorted_wrt_append wo_before_def)
    then show ?thesis
      using 2 Cons.prems(1) by (auto simp: wo_scan_ok_def)
  next
    case 3
    have "wo_pre (al_status s) (al_n_rlock s) (rev rs @ r # k)"
      using Cons.prems(1) by simp
    from Cons.IH[OF this sub Cons.prems(3)] obtain evs kept s2 where
      IH: "wo_wound_die_w ans p rs s = Some (evs, kept, s2)" "wo_scan_ok U rs (r # k) s kept s2" "\<forall>r \<in> set kept. wd_priority r < p \<or> wd_rstatus r = LOCK \<and> wd_id r \<in> U"
      by blast
    then have "wo_scan_ok U (r # rs) k s (r # kept) s2"
      by (simp add: wo_scan_ok_def)
    then show ?thesis
      using 3 IH(1,3) by auto
  qed
qed (auto simp: wo_scan_ok_def)

lemma wo_wound_die_r_ok:
  assumes "wo_pre (al_status s) (al_n_rlock s) (rev rs @ k)" "sorted_wrt (wo_before U) (rev rs)"
    and "\<forall>i. \<not> ans i \<longrightarrow> i \<in> U"
  shows "\<exists>evs kept s'. wo_wound_die_r ans p rs s = Some (evs, kept, s') \<and> wo_scan_ok U rs k s kept s'
    \<and> (\<forall>r \<in> set kept. wd_type r = WLOCK \<longrightarrow> wd_priority r < p \<or> wd_rstatus r = LOCK \<and> wd_id r \<in> U)"
  using assms
proof (induction rs arbitrary: s k)
  case (Cons r rs)
  have sub: "sorted_wrt (wo_before U) (rev rs)"
    using Cons.prems(2) by (simp add: sorted_wrt_append)
  consider "wd_priority r \<ge> p" "wd_type r = WLOCK" | "wd_priority r < p" | "wd_priority r \<ge> p" "wd_type r = RLOCK"
    by (cases "wd_type r"; cases "wd_priority r < p") auto
  then show ?case
  proof cases
    case 1
    from wo_wound_ok[of s "rev rs" r k ans] Cons.prems(1) obtain ok ev s1 where
      w: "wo_wound ans r s = Some (ok, ev, s1)" "al_done s1 = al_done s" "al_next_id s1 = al_next_id s"
        "\<not> ok \<longrightarrow> wd_rstatus r = LOCK \<and> \<not> ans (wd_id r)"
        "wo_pre (al_status s1) (al_n_rlock s1) (rev rs @ (if ok then k else r # k))"
      by auto
    from Cons.IH[OF w(5) sub Cons.prems(3)] obtain evs kept s2 where
      IH: "wo_wound_die_r ans p rs s1 = Some (evs, kept, s2)" "wo_scan_ok U rs (if ok then k else r # k) s1 kept s2"
        "\<forall>r \<in> set kept. wd_type r = WLOCK \<longrightarrow> wd_priority r < p \<or> wd_rstatus r = LOCK \<and> wd_id r \<in> U"
      by blast
    have "wo_scan_ok U (r # rs) k s (if ok then kept else r # kept) s2"
      using IH(2) w(2,3) by (auto simp: wo_scan_ok_def split: if_splits)
    moreover have "\<not> ok \<longrightarrow> wd_id r \<in> U"
      using w(4) Cons.prems(3) by blast
    ultimately show ?thesis
      using 1 w(1,4) IH(1,3) by auto
  next
    case 2
    have "\<forall>x \<in> set rs. wd_type x = WLOCK \<longrightarrow> wd_priority x < p \<or> wd_rstatus x = LOCK \<and> wd_id x \<in> U"
      using 2 Cons.prems(2) by (fastforce simp: sorted_wrt_append wo_before_def)
    then show ?thesis
      using 2 Cons.prems(1) by (auto simp: wo_scan_ok_def)
  next
    case 3
    have "wo_pre (al_status s) (al_n_rlock s) (rev rs @ r # k)"
      using Cons.prems(1) by simp
    from Cons.IH[OF this sub Cons.prems(3)] obtain evs kept s2 where
      IH: "wo_wound_die_r ans p rs s = Some (evs, kept, s2)" "wo_scan_ok U rs (r # k) s kept s2" "\<forall>r \<in> set kept. wd_type r = WLOCK \<longrightarrow> wd_priority r < p \<or> wd_rstatus r = LOCK \<and> wd_id r \<in> U"
      by blast
    then have "wo_scan_ok U (r # rs) k s (r # kept) s2"
      by (simp add: wo_scan_ok_def)
    then show ?thesis
      using 3 IH(1,3) by auto
  qed
qed (auto simp: wo_scan_ok_def)

lemma wo_wound_die_ok:
  assumes "wd_queue_ok (al_status s) (al_n_rlock s) (wd_requests s)" "sorted_wrt (wo_before U) (wd_requests s)"
    and "\<forall>i. \<not> ans i \<longrightarrow> i \<in> U"
    and "wd_type r = t" "wd_priority r = p" "wd_rstatus r = WAIT"
  shows "\<exists>evs s'. wo_wound_die ans t p s = Some (evs, s') \<and> al_done s' = al_done s
    \<and> wo_pre (al_status s') (al_n_rlock s') (wd_requests s') \<and> sorted_wrt (wo_before U) (wd_requests s' @ [r])"
proof -
  have pre: "wo_pre (al_status s) (al_n_rlock s) (rev (rev (wd_requests s)) @ [])"
    using wo_pre_queue_ok[OF assms(1)] by simp
  have ord: "sorted_wrt (wo_before U) (rev (rev (wd_requests s)))"
    using assms(2) by simp
  have sub: "sorted_wrt (wo_before U) (rev kept)" if "subseq kept (rev (wd_requests s))" for kept
    using sorted_wrt_subseq[OF that, of "\<lambda>x y. wo_before U y x"] assms(2) by (simp add: sorted_wrt_rev)
  show ?thesis
  proof (cases t)
    case WLOCK
    from wo_wound_die_w_ok[OF pre ord assms(3), of p] show ?thesis
      using WLOCK assms(4-) sub
      by (auto simp: wo_wound_die_def wo_scan_ok_def sorted_wrt_append wo_before_def)
  next
    case RLOCK
    from wo_wound_die_r_ok[OF pre ord assms(3), of p] show ?thesis
      using RLOCK assms(4-) sub
      by (auto simp: wo_wound_die_def wo_scan_ok_def sorted_wrt_append wo_before_def)
  qed
qed

subsection \<open>Granting\<close>

lemma wo_before_grant: "wo_before U a b \<Longrightarrow> wo_before U (wd_grant a) b" "wo_before U a (wd_grant b) = wo_before U a b"
  by (auto simp: wo_before_def)

lemma wo_sorted_grant:
  "sorted_wrt (wo_before U) (b @ ws @ d) \<Longrightarrow> sorted_wrt (wo_before U) (b @ map wd_grant ws @ d)"
  by (auto simp: sorted_wrt_append sorted_wrt_map wo_before_grant intro: sorted_wrt_mono_rel[rotated])

lemma wo_sorted_grant_reads:
  "sorted_wrt (wo_before U) (b @ a) \<Longrightarrow>
    sorted_wrt (wo_before U) (b @ map wd_grant (takeWhile P a) @ dropWhile P a)"
  by (rule wo_sorted_grant) simp

lemma wo_collect_reads_locked:
  assumes "\<forall>r \<in> set rs. wd_type r = RLOCK \<and> wd_rstatus r = LOCK"
  shows "wo_collect_reads k False (rs @ rest) = wo_collect_reads (k + length rs) False rest"
  using assms by (induction rs arbitrary: k) (auto simp: verify_simps)

lemma wo_collect_reads_waiting:
  assumes "\<forall>r \<in> set rest. wd_rstatus r = WAIT"
  shows "wo_collect_reads k na rest = Some [k ..< k + length (takeWhile (\<lambda>r. wd_type r = RLOCK) rest)]"
  using assms
proof (induction rest arbitrary: k na)
  case (Cons r rest)
  then show ?case
    by (simp del: upt_Suc add: upt_conv_Cons)
qed simp

lemma wo_acquire_ok:
  assumes pre: "wo_pre (al_status s) (al_n_rlock s) (wd_requests s)" and ne: "wd_requests s \<noteq> []"
    and ord: "sorted_wrt (wo_before U) (wd_requests s)"
  shows "\<exists>evs s'. wo_acquire s = Some (evs, s') \<and> wo_inv U s'"
proof -
  obtain rs rest where q: "wd_requests s = rs @ rest" "\<forall>r \<in> set rs. wd_rstatus r = LOCK"
    "\<forall>r \<in> set rest. wd_rstatus r = WAIT" and st: "wo_held (al_status s) (al_n_rlock s) rs"
    using pre by (rule wo_preE)
  let ?ws = "takeWhile (\<lambda>r. wd_type r = RLOCK) rest" and ?d = "dropWhile (\<lambda>r. wd_type r = RLOCK) rest"
  have acq: "wd_read_acquire_all [length rs ..< length rs + length ?ws] s = Some (map (\<lambda>r. Yes (wd_id r)) ?ws,
      s\<lparr>al_status := (if ?ws \<noteq> [] \<and> al_n_rlock s = 0 then RLOCKED else al_status s),
        al_n_rlock := al_n_rlock s + int (length ?ws), wd_requests := rs @ map wd_grant ?ws @ ?d\<rparr>)"
    using q by (intro wd_read_acquire_all_segment) (auto dest: set_takeWhileD)
  have ord': "sorted_wrt (wo_before U) (rs @ map wd_grant ?ws @ ?d)"
    using ord q(1) by (intro wo_sorted_grant_reads) simp
  show ?thesis
  proof (cases "al_status s")
    case FREE
    then have rs: "rs = []" "al_n_rlock s = 0"
      using st by auto
    show ?thesis
    proof (cases "wd_type (hd rest)")
      case WLOCK
      then obtain w a where "rest = w # a"
        using ne q rs by (cases rest) auto
      then show ?thesis
        using WLOCK FREE q rs ord wo_sorted_grant[of U "[]" "[w]" a]
        by (simp add: wo_acquire_def wd_write_acquire_at[where b = "[]"] wo_inv_def)
    next
      case RLOCK
      then have "?ws \<noteq> []"
        using ne q rs by (cases rest) auto
      moreover from this have "wd_queue_ok RLOCKED (int (length ([] @ ?ws))) ([] @ map wd_grant ?ws @ ?d)"
        using q by (intro wd_queue_ok_reads) auto
      ultimately show ?thesis
        using RLOCK FREE q rs acq ord' by (simp add: wo_acquire_def wo_inv_def)
    qed
  next
    case RLOCKED
    then have rs: "rs \<noteq> []" "al_n_rlock s = int (length rs)" "\<forall>r \<in> set rs. wd_type r = RLOCK \<and> wd_rstatus r = LOCK"
      using st q by auto
    then have "wo_collect_reads 0 False (wd_requests s) = Some [length rs ..< length rs + length ?ws]"
      using q wo_collect_reads_locked[of rs 0 rest] wo_collect_reads_waiting[of rest] by simp
    moreover have "wd_queue_ok RLOCKED (int (length (rs @ ?ws))) (rs @ map wd_grant ?ws @ ?d)"
      using q rs by (intro wd_queue_ok_reads) auto
    moreover have "wd_type (hd (wd_requests s)) = RLOCK" "wd_rstatus (hd (wd_requests s)) = LOCK"
      using rs q by auto
    ultimately show ?thesis
      using RLOCKED acq rs(1,2) ord' by (simp add: wo_acquire_def wo_inv_def verify_simps)
  next
    case WLOCKED
    then obtain w where "rs = [w]" "wd_type w = WLOCK" "al_n_rlock s = 0" "wd_rstatus w = LOCK"
      using st q by (auto simp: length_Suc_conv)
    then show ?thesis
      using WLOCKED q ord by (simp add: wo_acquire_def wo_inv_def verify_simps)
  qed
qed

lemma wo_vlock_ok:
  assumes "wo_inv U s" "\<forall>i. \<not> ans i \<longrightarrow> i \<in> U"
  shows "\<exists>i evs s'. wo_vlock ans t p s = Some (i, evs, s') \<and> wo_inv U s'"
proof (cases "al_done s")
  case True
  then show ?thesis
    using assms by (simp add: wo_vlock_def get_next_id_def wo_inv_def)
next
  case False
  let ?s = "s\<lparr>al_next_id := al_next_id s + 1\<rparr>"
  let ?r = "\<lparr>wd_id = al_next_id s, wd_priority = p, wd_type = t, wd_rstatus = WAIT\<rparr>"
  from wo_wound_die_ok[of ?s U ans ?r t p] assms False obtain evs s1 where
    w: "wo_wound_die ans t p ?s = Some (evs, s1)" "wo_pre (al_status s1) (al_n_rlock s1) (wd_requests s1)"
      "sorted_wrt (wo_before U) (wd_requests s1 @ [?r])"
    by (auto simp: wo_inv_def)
  let ?s2 = "s1\<lparr>wd_requests := wd_requests s1 @ [?r]\<rparr>"
  have "\<exists>evs s'. wo_acquire ?s2 = Some (evs, s') \<and> wo_inv U s'"
    using w wo_pre_snoc[OF w(2), of ?r] by (intro wo_acquire_ok) simp_all
  then show ?thesis
    using w(1) False by (auto simp: wo_vlock_def get_next_id_def Let_def)
qed

subsection \<open>Abort and unlock\<close>

lemma wo_abort_waiting_ok:
  assumes ok: "wd_queue_ok (al_status s) (al_n_rlock s) (b @ it # a)" and wait: "wd_rstatus it = WAIT"
    and ord: "sorted_wrt (wo_before U) (b @ it # a)"
  shows "\<exists>evs s'. wo_abort_waiting b it a s = Some (evs, s') \<and> wo_inv U s'"
proof (cases "wd_type it = RLOCK \<or> wd_count WLOCK b \<noteq> 0")
  case True
  with wd_queue_ok_remove_wait[OF ok wait] sorted_wrt_remove[OF ord] show ?thesis
    by (auto simp: wo_abort_waiting_def Let_def wo_inv_def wd_count_def)
next
  case False
  then have it: "wd_type it = WLOCK" and b0: "wd_count WLOCK b = 0"
    by (cases "wd_type it"; simp)+
  have st: "al_status s = RLOCKED"
    using ok wait b0 wd_WLOCKED_at_waiting by (cases "al_status s") auto
  obtain rs b' where q: "b = rs @ b'" "rs \<noteq> []" "al_n_rlock s = int (length rs)"
    "\<forall>r \<in> set rs. wd_type r = RLOCK \<and> wd_rstatus r = LOCK"
    "\<forall>r \<in> set a. wd_rstatus r = WAIT" "wd_type (hd (b' @ [it])) = WLOCK"
    using wd_RLOCKED_at_waiting[OF ok[unfolded st] wait] by metis
  have "b' = []"
    using q(1,6) b0 by (cases b') (auto simp: wd_count_zero simp del: wd_count_simps)
  let ?ws = "takeWhile (\<lambda>r. wd_type r = RLOCK) a" and ?d = "dropWhile (\<lambda>r. wd_type r = RLOCK) a"
  have acq: "wd_read_acquire_all [length b ..< length b + length ?ws] (s\<lparr>wd_requests := b @ a\<rparr>)
      = Some (map (\<lambda>r. Yes (wd_id r)) ?ws, s\<lparr>al_status := RLOCKED,
        al_n_rlock := al_n_rlock s + int (length ?ws), wd_requests := b @ map wd_grant ?ws @ ?d\<rparr>)"
    using st q by (subst wd_read_acquire_all_segment[where rs = ?ws and a = ?d])
      (auto dest: set_takeWhileD)
  have "wd_queue_ok RLOCKED (int (length (rs @ ?ws))) (rs @ map wd_grant ?ws @ ?d)"
    using q by (intro wd_queue_ok_reads) auto
  moreover have "sorted_wrt (wo_before U) (b @ map wd_grant ?ws @ ?d)"
    using sorted_wrt_remove[OF ord] by (rule wo_sorted_grant_reads)
  moreover have "filter (\<lambda>r. wd_type r = WLOCK) b = []"
    using b0 by (simp add: wd_count_def)
  ultimately show ?thesis
    using acq it st q \<open>b' = []\<close>
    by (auto simp: wo_abort_waiting_def Let_def verify_simps wo_inv_def)
qed

lemma wo_unlock_read_ok:
  assumes ok: "wd_queue_ok (al_status s) (al_n_rlock s) (b @ it # a)" and lck: "wd_rstatus it = LOCK"
    and type: "wd_type it = RLOCK" and ord: "sorted_wrt (wo_before U) (b @ it # a)"
  shows "\<exists>evs s'. wo_unlock b it a s = Some (evs, s') \<and> wo_inv U s'"
proof -
  have st: "al_status s = RLOCKED"
    using ok lck type wd_WLOCKED_at_locked(3) by (cases "al_status s") auto
  obtain rs rest where q: "a = rs @ rest" "al_n_rlock s = int (length (b @ rs)) + 1"
    "\<forall>r \<in> set (b @ rs). wd_type r = RLOCK \<and> wd_rstatus r = LOCK"
    "\<forall>r \<in> set rest. wd_rstatus r = WAIT" "rest = [] \<or> wd_type (hd rest) = WLOCK"
    using wd_RLOCKED_at_locked[OF ok[unfolded st] lck] by metis
  note ord' = sorted_wrt_remove[OF ord]
  show ?thesis
  proof (cases "b @ rs = []")
    case True
    then show ?thesis
      using q st type ord' wo_sorted_grant[of U "[]" "[hd a]" "tl a"] by (cases rest)
        (auto simp: wo_unlock_def Let_def verify_simps wo_inv_def
          wd_write_acquire_at[where b = "[]" and a = "tl a" and r = "hd a"])
  next
    case False
    then have "wd_queue_ok RLOCKED (int (length (b @ rs))) ((b @ rs) @ rest)"
      unfolding wd_queue_ok_RLOCKED using q by blast
    moreover have "int (length b) + int (length rs) \<noteq> 0"
      using False by (cases b; cases rs) auto
    ultimately show ?thesis
      using q st type ord' by (auto simp: wo_unlock_def Let_def wo_inv_def)
  qed
qed

lemma wo_unlock_write_ok:
  assumes ok: "wd_queue_ok (al_status s) (al_n_rlock s) (b @ it # a)" and lck: "wd_rstatus it = LOCK"
    and type: "wd_type it = WLOCK" and ord: "sorted_wrt (wo_before U) (b @ it # a)"
  shows "\<exists>evs s'. wo_unlock b it a s = Some (evs, s') \<and> wo_inv U s'"
proof -
  have st: "al_status s = WLOCKED"
  proof (cases "al_status s")
    case RLOCKED
    with ok lck type show ?thesis
      by (metis type_t.distinct(1) wd_RLOCKED_at_locked)
  qed (use ok in auto)
  have q: "al_n_rlock s = 0" "b = []" "\<forall>r \<in> set a. wd_rstatus r = WAIT"
    using wd_WLOCKED_at_locked[OF ok[unfolded st] lck] by auto
  have ord': "sorted_wrt (wo_before U) a"
    using ord by (simp add: sorted_wrt_append)
  consider "a = []" | w rest where "a = w # rest" "wd_type w = WLOCK" | "a \<noteq> []" "wd_type (hd a) = RLOCK"
    by (cases a; cases "wd_type (hd a)") auto
  then show ?thesis
  proof cases
    case 3
    let ?ws = "takeWhile (\<lambda>r. wd_type r = RLOCK) a" and ?d = "dropWhile (\<lambda>r. wd_type r = RLOCK) a"
    let ?s2 = "s\<lparr>wd_requests := a\<rparr>"
    have ws: "?ws \<noteq> []"
      using 3 by (cases a) auto
    have "wd_read_acquire_all [0 ..< length ?ws] ?s2 = Some (map (\<lambda>r. Yes (wd_id r)) ?ws,
        ?s2\<lparr>al_status := RLOCKED, al_n_rlock := int (length ?ws),
          wd_requests := map wd_grant ?ws @ ?d\<rparr>)"
      using st q ws wd_read_acquire_all_segment[where s = ?s2 and b = "[]" and rs = ?ws and a = ?d]
      by (auto dest: set_takeWhileD)
    moreover have "wd_queue_ok RLOCKED (int (length ?ws)) (map wd_grant ?ws @ ?d)"
      using q ws wd_queue_ok_reads[of "[]" a ?ws] by simp
    moreover have "sorted_wrt (wo_before U) (map wd_grant ?ws @ ?d)"
      using ord' wo_sorted_grant_reads[of U "[]" a] by simp
    ultimately show ?thesis
      using 3 q type by (auto simp: wo_unlock_def Let_def verify_simps wo_inv_def)
  next
    case 2
    then show ?thesis
      using q type ord' wo_sorted_grant[of U "[]" "[w]" rest]
      by (auto simp: wo_unlock_def Let_def wo_inv_def wd_write_acquire_at[where b = "[]"])
  qed (use q type in \<open>auto simp: wo_unlock_def Let_def verify_simps wo_inv_def\<close>)
qed

lemma wo_abort_ok:
  assumes "wo_inv U s"
  shows "\<exists>evs s'. wo_abort i s = Some (evs, s') \<and> wo_inv U s'"
proof (cases "al_done s \<or> dropWhile (\<lambda>r. wd_id r \<noteq> i) (wd_requests s) = []")
  case True
  then show ?thesis
    using assms by (auto simp: wo_abort_def simp del: dropWhile_eq_Nil_conv)
next
  case False
  then obtain it a where it: "dropWhile (\<lambda>r. wd_id r \<noteq> i) (wd_requests s) = it # a"
    by (cases "dropWhile (\<lambda>r. wd_id r \<noteq> i) (wd_requests s)") (auto simp del: dropWhile_eq_Nil_conv)
  define b where "b = takeWhile (\<lambda>r. wd_id r \<noteq> i) (wd_requests s)"
  have "wd_requests s = b @ it # a"
    using dropWhile_Cons_split[OF it] by (simp add: b_def)
  with assms False have *: "wd_queue_ok (al_status s) (al_n_rlock s) (b @ it # a)"
    "sorted_wrt (wo_before U) (b @ it # a)"
    by (simp_all add: wo_inv_def)
  have "wo_abort i s = (if wd_rstatus it = WAIT then wo_abort_waiting b it a s else wo_unlock b it a s)"
    using False it by (simp add: wo_abort_def b_def)
  then show ?thesis
    using wo_abort_waiting_ok[OF *(1) _ *(2)] wo_unlock_read_ok[OF *(1) _ _ *(2)]
      wo_unlock_write_ok[OF *(1) _ _ *(2)]
    by (cases "wd_rstatus it"; cases "wd_type it") auto
qed

subsection \<open>The lock as a step system\<close>

datatype wo_op = WoLock "u64 \<Rightarrow> bool" type_t i64 | WoAbort u64

fun wo_step :: "wo_op \<Rightarrow> wo_lock \<Rightarrow> (lock_ev list \<times> wo_lock) option" where
  "wo_step (WoLock ans t p) s = map_option snd (wo_vlock ans t p s)"
| "wo_step (WoAbort i) s = wo_abort i s"

definition wo_holders :: "type_t \<Rightarrow> wo_lock \<Rightarrow> wd_req list" where
  "wo_holders t s = filter (\<lambda>r. wd_type r = t \<and> wd_rstatus r = LOCK)
     (if al_done s then [] else wd_requests s)"

fun wo_refusals :: "wo_op \<Rightarrow> u64 set" where
  "wo_refusals (WoLock ans t p) = {i. \<not> ans i}"
| "wo_refusals (WoAbort i) = {}"

lemma wo_step_ok:
  assumes "wo_inv U s" "wo_refusals a \<subseteq> U"
  shows "\<exists>evs s'. wo_step a s = Some (evs, s') \<and> wo_inv U s'"
proof (cases a)
  case (WoLock ans t p)
  with assms(2) have "\<forall>i. \<not> ans i \<longrightarrow> i \<in> U"
    by auto
  then show ?thesis
    using wo_vlock_ok[OF assms(1), of ans t p] WoLock by auto
next
  case (WoAbort i)
  then show ?thesis
    using wo_abort_ok[OF assms(1), of i] by auto
qed

lemma wo_inv_mutex:
  assumes "wo_inv U s"
  shows "mutex (wo_holders WLOCK s) (wo_holders RLOCK s)"
proof (cases "al_done s")
  case False
  then have ok: "wd_queue_ok (al_status s) (al_n_rlock s) (wd_requests s)"
    using assms by (simp add: wo_inv_def)
  show ?thesis
  proof (cases "al_status s")
    case RLOCKED
    with ok False show ?thesis
      by (auto simp: mutex_def wo_holders_def wd_queue_ok_RLOCKED filter_empty_conv filter_False)
  next
    case WLOCKED
    with ok False show ?thesis
      by (auto simp: mutex_def wo_holders_def filter_False)
  qed (use ok False in \<open>auto simp: mutex_def wo_holders_def\<close>)
qed (simp add: mutex_def wo_holders_def)

interpretation wo: lock_system wo_init wo_step "wo_inv UNIV" "wo_holders WLOCK" "wo_holders RLOCK"
proof (unfold_locales, goal_cases)
  case 1 show ?case by (simp add: wo_inv_def wo_init_def)
next
  case (2 s a) then show ?case using wo_step_ok[of UNIV s a] by auto
next
  case (3 s a out s') then show ?case using wo_step_ok[of UNIV s a] by auto
next
  case (4 s) then show ?case by (rule wo_inv_mutex)
qed

lemma wo_run_inv:
  assumes "wo_inv U s" "\<forall>a \<in> set as. wo_refusals a \<subseteq> U" "run_steps wo_step as s = Some (outs, s')"
  shows "wo_inv U s'"
  using assms
proof (induction as arbitrary: s outs)
  case (Cons a as)
  then show ?case
    using wo_step_ok[of U s a] by (fastforce simp: bind_eq_Some_conv)
qed simp

lemma wo_wound_done: "wo_wound ans r s = Some (ok, ev, s') \<Longrightarrow> al_done s' = al_done s"
  by (auto simp: wo_wound_def verify_simps Let_def split: if_splits)

lemma wo_wound_die_w_done: "wo_wound_die_w ans p rs s = Some (evs, kept, s') \<Longrightarrow> al_done s' = al_done s"
  by (induction rs arbitrary: s evs kept) (auto simp: bind_eq_Some_conv split: if_splits dest!: wo_wound_done)

lemma wo_wound_die_r_done: "wo_wound_die_r ans p rs s = Some (evs, kept, s') \<Longrightarrow> al_done s' = al_done s"
  by (induction rs arbitrary: s evs kept) (auto simp: bind_eq_Some_conv split: if_splits dest!: wo_wound_done)

lemma wd_acquire_done:
  "wd_read_acquire_all ks s = Some (evs, s') \<Longrightarrow> al_done s' = al_done s"
  "wd_write_acquire k s = Some (evs, s') \<Longrightarrow> al_done s' = al_done s"
  by (auto simp: wd_read_acquire_all_def wd_write_acquire_def Let_def bind_eq_Some_conv split: if_splits)

lemma wo_step_done: "wo_step a s = Some (evs, s') \<Longrightarrow> al_done s' = al_done s"
  by (cases a) (auto simp: wo_vlock_def get_next_id_def wo_abort_def wo_abort_waiting_def wo_unlock_def
      wo_wound_die_def wo_acquire_def Let_def verify_simps bind_eq_Some_conv
      split: if_splits list.splits status_t.splits
      dest!: wo_wound_die_w_done wo_wound_die_r_done wd_acquire_done)

lemma wo_run_init:
  assumes "run_steps wo_step as wo_init = Some (outs, s)"
  shows "\<not> al_done s" "wo_inv (\<Union>a \<in> set as. wo_refusals a) s"
proof -
  have "run_steps wo_step as s0 = Some (outs, s) \<Longrightarrow> al_done s = al_done s0" for s0
    by (induction as arbitrary: s0 outs) (auto simp: bind_eq_Some_conv dest: wo_step_done)
  then show "\<not> al_done s"
    using assms by (auto simp: wo_init_def)
  show "wo_inv (\<Union>a \<in> set as. wo_refusals a) s"
    by (rule wo_run_inv[OF _ _ assms]) (auto simp: wo_inv_def wo_init_def)
qed

subsection \<open>Properties\<close>


text \<open>C19: Waiting on a wound-die lock goes from younger to older. Of two conflicting requests in the
  queue, the one in front is older, unless it holds the lock and has refused to be wounded.\<close>

theorem wo_waits_for_older:
  assumes "run_steps wo_step as wo_init = Some (outs, s)"
    and "i < j" "j < length (wd_requests s)"
    and "wd_type (wd_requests s ! i) = WLOCK \<or> wd_type (wd_requests s ! j) = WLOCK"
  shows "wd_priority (wd_requests s ! i) < wd_priority (wd_requests s ! j) \<or>
    (wd_rstatus (wd_requests s ! i) = LOCK \<and> (\<exists>a \<in> set as. wd_id (wd_requests s ! i) \<in> wo_refusals a))"
  using wo_run_init[OF assms(1)] assms(2-) by (auto simp: wo_inv_def sorted_wrt_iff_nth_less wo_before_def)

definition wo_example_ops :: "wo_op list" where
  "wo_example_ops = [WoLock (\<lambda>_. True) WLOCK 5, WoLock (\<lambda>i. i \<noteq> 1) WLOCK 3, WoLock (\<lambda>_. True) RLOCK 7]"

definition wo_example :: wo_lock where
  "wo_example = snd (the (run_steps wo_step wo_example_ops wo_init))"

theorem wo_waits_for_older_witness:
  "map wd_priority (wd_requests wo_example) = [5, 3, 7] \<and>
   (wd_priority (wd_requests wo_example ! 0) < wd_priority (wd_requests wo_example ! 1) \<or>
    (wd_rstatus (wd_requests wo_example ! 0) = LOCK \<and>
      (\<exists>a \<in> set wo_example_ops. wd_id (wd_requests wo_example ! 0) \<in> wo_refusals a)))"
proof
  show "map wd_priority (wd_requests wo_example) = [5, 3, 7]"
    by code_simp
  obtain outs s where "run_steps wo_step wo_example_ops wo_init = Some (outs, s)"
    using wo.run_total by blast
  then have r: "run_steps wo_step wo_example_ops wo_init = Some (outs, wo_example)"
    by (simp add: wo_example_def)
  have "1 < length (wd_requests wo_example)" "wd_type (wd_requests wo_example ! 0) = WLOCK"
    by code_simp+
  then show "wd_priority (wd_requests wo_example ! 0) < wd_priority (wd_requests wo_example ! 1) \<or>
    (wd_rstatus (wd_requests wo_example ! 0) = LOCK \<and>
      (\<exists>a \<in> set wo_example_ops. wd_id (wd_requests wo_example ! 0) \<in> wo_refusals a))"
    using wo_waits_for_older[OF r, of 0 1] by simp
qed

end
