(* ===== verification/TimeoutLock.thy ===== *)
theory TimeoutLock
  imports ALock
begin

text \<open>
  \<open>TimeoutALock\<close> of \<open>rrr/misc/alock.{hpp,cpp}\<close>: a request that cannot be granted waits until it is
  granted, aborted or timed out by an alarm. Adding and removing an alarm are events of the trace;
  the firing of an alarm is a call \<open>do_timeout\<close> that the environment may make at any time.
\<close>

datatype to_req_status = TO_WAIT | TO_LOCK | TO_UNLOCK | TO_ABORT | TO_TIMEOUT

datatype to_ev = ToYes u64 | ToNo u64 | AlarmAdd u64 | AlarmRemove u64

record to_req =
  to_id :: u64
  to_type :: type_t
  to_rstatus :: to_req_status

record to_lock = alock +
  to_requests :: "to_req list"
  to_tm_wait :: u64

definition to_init :: "u64 \<Rightarrow> to_lock" where
  "to_init tm = \<lparr>al_next_id = 1, al_status = FREE, al_n_rlock = 0, al_done = False,
     to_requests = [], to_tm_wait = tm\<rparr>"

definition to_cas_status :: "to_req_status \<Rightarrow> to_req_status \<Rightarrow> to_req \<Rightarrow> bool \<times> to_req" where
  "to_cas_status c x r = (if to_rstatus r = c then (True, r\<lparr>to_rstatus := x\<rparr>) else (False, r))"

definition to_vlock :: "type_t \<Rightarrow> to_lock \<Rightarrow> u64 \<times> to_ev list \<times> to_lock" where
  "to_vlock t s0 = (case get_next_id s0 of (i, s) \<Rightarrow>
     let req = \<lparr>to_id = i, to_type = t, to_rstatus = TO_WAIT\<rparr>;
         lockable = (al_status s = FREE \<or> (al_status s = RLOCKED \<and> t = RLOCK)) in
     if lockable
     then (let s1 = (if t = RLOCK then s\<lparr>al_status := RLOCKED, al_n_rlock := al_n_rlock s + 1\<rparr>
                     else s\<lparr>al_status := WLOCKED\<rparr>) in
           (i, [ToYes i], s1\<lparr>to_requests := to_requests s @ [req\<lparr>to_rstatus := TO_LOCK\<rparr>]\<rparr>))
     else if to_tm_wait s > 0
     then (i, [AlarmAdd i], s\<lparr>to_requests := to_requests s @ [req]\<rparr>)
     else (i, [ToNo i], s))"

text \<open>
  The two loops of \<open>lock_all\<close>: \<open>to_lock_reads\<close> grants every waiting read of the remaining queue,
  \<open>to_lock_next\<close> grants the first waiting request, followed by all waiting reads if it is a read.
  The results are the granted requests, the queue, and the new lock status and reader count.
\<close>

fun to_lock_reads :: "to_req list \<Rightarrow> to_req list \<times> to_req list" where
  "to_lock_reads [] = ([], [])"
| "to_lock_reads (r # rs) = (case to_lock_reads rs of (g, q) \<Rightarrow>
     if to_type r = RLOCK \<and> fst (to_cas_status TO_WAIT TO_LOCK r)
     then (snd (to_cas_status TO_WAIT TO_LOCK r) # g, snd (to_cas_status TO_WAIT TO_LOCK r) # q)
     else (g, r # q))"

fun to_lock_next :: "to_req list \<Rightarrow> to_req list \<times> to_req list \<times> status_t \<times> int" where
  "to_lock_next [] = ([], [], FREE, 0)"
| "to_lock_next (r # rs) = (case to_cas_status TO_WAIT TO_LOCK r of
     (True, r') \<Rightarrow>
       if to_type r = RLOCK
       then (case to_lock_reads rs of (g, q) \<Rightarrow> (r' # g, r' # q, RLOCKED, 1 + int (length g)))
       else ([r'], r' # rs, WLOCKED, 0)
   | (False, r') \<Rightarrow> (case to_lock_next rs of (g, q, st, n) \<Rightarrow> (g, r' # q, st, n)))"

definition to_lock_all :: "to_lock \<Rightarrow> (to_req list \<times> to_lock) option" where
  "to_lock_all s = do {
     verify (al_status s = FREE \<and> al_n_rlock s = 0);
     let (g, q, st, n) = to_lock_next (to_requests s);
     Some (g, s\<lparr>to_requests := q, al_status := st, al_n_rlock := n\<rparr>)
   }"

definition to_abort_at ::
  "to_req list \<Rightarrow> to_req \<Rightarrow> to_req list \<Rightarrow> to_lock \<Rightarrow> (to_ev list \<times> to_lock) option" where
  "to_abort_at before req after s = (case to_rstatus req of
     TO_LOCK \<Rightarrow> do {
       let s1 = (if to_type req = RLOCK then s\<lparr>al_n_rlock := al_n_rlock s - 1\<rparr> else s);
       let s2 = (if al_n_rlock s1 = 0 then s1\<lparr>al_status := FREE\<rparr> else s1);
       let s3 = s2\<lparr>to_requests := before @ after\<rparr>;
       (g, s4) \<leftarrow> (if al_status s3 = FREE then to_lock_all s3 else Some ([], s3));
       Some (map (\<lambda>r. AlarmRemove (to_id r)) g @ map (\<lambda>r. ToYes (to_id r)) g, s4)
     }
   | TO_WAIT \<Rightarrow> Some ([AlarmRemove (to_id req)], s\<lparr>to_requests := before @ after\<rparr>)
   | TO_TIMEOUT \<Rightarrow> Some ([], s\<lparr>to_requests := before @ after\<rparr>)
   | TO_UNLOCK \<Rightarrow> None
   | TO_ABORT \<Rightarrow> None)"

definition to_abort :: "u64 \<Rightarrow> to_lock \<Rightarrow> (to_ev list \<times> to_lock) option" where
  "to_abort i s = (case dropWhile (\<lambda>r. to_id r \<noteq> i) (to_requests s) of
     [] \<Rightarrow> Some ([], s)
   | req # after \<Rightarrow> to_abort_at (takeWhile (\<lambda>r. to_id r \<noteq> i) (to_requests s)) req after s)"

text \<open>The alarm of the request at position \<open>k\<close> fires; the closure holds a reference to the request.\<close>

definition to_do_timeout :: "nat \<Rightarrow> to_lock \<Rightarrow> to_ev list \<times> to_lock" where
  "to_do_timeout k s =
    (if k < length (to_requests s) then
       (case to_cas_status TO_WAIT TO_TIMEOUT (to_requests s ! k) of (call, r) \<Rightarrow>
          (if call then [ToNo (to_id r)] else [], s\<lparr>to_requests := (to_requests s)[k := r]\<rparr>))
     else ([], s))"

fun to_destroy_loop :: "to_req list \<Rightarrow> to_ev list option" where
  "to_destroy_loop [] = Some []"
| "to_destroy_loop (r # rs) = (case to_rstatus r of
     TO_LOCK \<Rightarrow> to_destroy_loop rs
   | TO_WAIT \<Rightarrow> map_option (\<lambda>evs. AlarmRemove (to_id r) # ToNo (to_id r) # evs) (to_destroy_loop rs)
   | TO_TIMEOUT \<Rightarrow> to_destroy_loop rs
   | _ \<Rightarrow> None)"

definition to_destroy :: "to_lock \<Rightarrow> (to_ev list \<times> to_lock) option" where
  "to_destroy s = map_option (\<lambda>evs. (evs, s\<lparr>to_requests := []\<rparr>)) (to_destroy_loop (to_requests s))"

subsection \<open>Invariant\<close>

definition to_locked :: "to_req list \<Rightarrow> to_req list" where
  "to_locked q = filter (\<lambda>r. to_rstatus r = TO_LOCK) q"

definition to_waiting :: "to_req list \<Rightarrow> to_req list" where
  "to_waiting q = filter (\<lambda>r. to_rstatus r = TO_WAIT) q"

fun to_held :: "status_t \<Rightarrow> int \<Rightarrow> to_req list \<Rightarrow> to_req list \<Rightarrow> bool" where
  "to_held FREE n ls ws = (n = 0 \<and> ls = [] \<and> ws = [])"
| "to_held WLOCKED n ls ws = (n = 0 \<and> length ls = 1 \<and> to_type (hd ls) = WLOCK)"
| "to_held RLOCKED n ls ws = (ls \<noteq> [] \<and> n = int (length ls) \<and> (\<forall>r \<in> set ls. to_type r = RLOCK)
     \<and> (\<forall>r \<in> set ws. to_type r = WLOCK))"

definition to_inv :: "to_lock \<Rightarrow> bool" where
  "to_inv s \<longleftrightarrow> to_held (al_status s) (al_n_rlock s) (to_locked (to_requests s)) (to_waiting (to_requests s))
     \<and> (\<forall>r \<in> set (to_requests s). to_rstatus r \<in> {TO_WAIT, TO_LOCK, TO_TIMEOUT})"

lemma to_filter_simps [simp]:
  "to_locked [] = []" "to_waiting [] = []"
  "to_locked (r # q) = (if to_rstatus r = TO_LOCK then r # to_locked q else to_locked q)"
  "to_waiting (r # q) = (if to_rstatus r = TO_WAIT then r # to_waiting q else to_waiting q)"
  "to_locked (p @ q) = to_locked p @ to_locked q" "to_waiting (p @ q) = to_waiting p @ to_waiting q"
  by (simp_all add: to_locked_def to_waiting_def)

lemma to_locked_status: "r \<in> set (to_locked q) \<Longrightarrow> to_rstatus r = TO_LOCK"
  by (simp add: to_locked_def)

lemma to_type_not_W: "(t \<noteq> WLOCK) = (t = RLOCK)"
  by (cases t) simp_all

lemma to_lock_reads_grants: "length (to_locked (snd (to_lock_reads q))) = length (to_locked q) + length (fst (to_lock_reads q))"
  by (induction q) (auto simp: to_cas_status_def split: prod.splits)

lemma to_lock_reads_types:
  "\<forall>r \<in> set (to_locked q). to_type r = RLOCK \<Longrightarrow> \<forall>r \<in> set (to_locked (snd (to_lock_reads q))). to_type r = RLOCK"
  by (induction q) (auto simp: to_cas_status_def split: prod.splits if_splits)

lemma to_lock_reads_waiting: "\<forall>r \<in> set (to_waiting (snd (to_lock_reads q))). to_type r = WLOCK"
proof (induction q)
  case (Cons r q)
  then show ?case
    by (cases "to_type r") (auto simp: to_cas_status_def split: prod.splits)
qed simp

lemma to_lock_reads_status:
  "TO_LOCK \<in> S \<Longrightarrow> \<forall>r \<in> set q. to_rstatus r \<in> S \<Longrightarrow> \<forall>r \<in> set (snd (to_lock_reads q)). to_rstatus r \<in> S"
  by (induction q) (auto simp: to_cas_status_def split: prod.splits if_splits)

lemma to_lock_next_held:
  assumes "to_lock_next q = (g, q', st, n)" "to_locked q = []"
  shows "to_held st n (to_locked q') (to_waiting q')"
  using assms
proof (induction q arbitrary: g q' st n)
  case (Cons r q)
  obtain g1 q1 where q1: "to_lock_reads q = (g1, q1)" by force
  obtain g2 q2 st2 n2 where q2: "to_lock_next q = (g2, q2, st2, n2)" by (cases "to_lock_next q") auto
  have lq: "to_locked q = []" "to_rstatus r \<noteq> TO_LOCK"
    using Cons.prems(2) by (auto split: if_splits)
  show ?case
  proof (cases "to_rstatus r = TO_WAIT")
    case True
    then show ?thesis
      using Cons.prems(1) q1 to_lock_reads_grants[of q] to_lock_reads_types[of q] to_lock_reads_waiting[of q] lq
      by (cases "to_type r") (auto simp: to_cas_status_def)
  next
    case False
    then show ?thesis
      using Cons.prems(1) q2 lq Cons.IH[OF q2 lq(1)] by (auto simp: to_cas_status_def)
  qed
qed simp

lemma to_lock_next_status:
  "TO_LOCK \<in> S \<Longrightarrow> \<forall>r \<in> set q. to_rstatus r \<in> S \<Longrightarrow> \<forall>r \<in> set (fst (snd (to_lock_next q))). to_rstatus r \<in> S"
proof (induction q)
  case (Cons r q)
  then show ?case
    using to_lock_reads_status[of S q]
    by (auto simp: to_cas_status_def split: prod.splits)
qed simp

lemma to_vlock_inv:
  assumes "to_inv s" "to_vlock t s = (i, evs, s')"
  shows "to_inv s'"
proof (cases "al_status s")
  case FREE
  with assms show ?thesis
    by (cases t) (auto simp: to_inv_def to_vlock_def get_next_id_def)
next
  case WLOCKED
  with assms show ?thesis
    by (cases "to_tm_wait s > 0") (auto simp: to_inv_def to_vlock_def get_next_id_def)
next
  case RLOCKED
  with assms show ?thesis
    by (cases t; cases "to_tm_wait s > 0") (auto simp: to_inv_def to_vlock_def get_next_id_def)
qed

lemma to_do_timeout_inv:
  assumes "to_inv s" "to_do_timeout k s = (evs, s')"
  shows "to_inv s'"
proof (cases "k < length (to_requests s) \<and> to_rstatus (to_requests s ! k) = TO_WAIT")
  case True
  define r b a where "r = to_requests s ! k" and "b = take k (to_requests s)" and "a = drop (Suc k) (to_requests s)"
  define r' where "r' = r\<lparr>to_rstatus := TO_TIMEOUT\<rparr>"
  have q: "to_requests s = b @ r # a"
    using True id_take_nth_drop[of k "to_requests s"] by (simp add: b_def a_def r_def)
  have w: "to_rstatus r = TO_WAIT"
    using True by (simp add: r_def)
  have s': "s' = s\<lparr>to_requests := b @ r' # a\<rparr>"
    using True assms(2) by (simp add: to_do_timeout_def to_cas_status_def r_def r'_def b_def a_def upd_conv_take_nth_drop)
  have held: "to_held (al_status s) (al_n_rlock s) (to_locked (b @ r # a)) (to_waiting (b @ r # a))"
      and sts: "\<forall>r \<in> set (b @ r # a). to_rstatus r \<in> {TO_WAIT, TO_LOCK, TO_TIMEOUT}"
    using assms(1) unfolding to_inv_def q by auto
  from held w have "to_held (al_status s) (al_n_rlock s) (to_locked (b @ r' # a)) (to_waiting (b @ r' # a))"
    by (cases "al_status s") (simp_all add: r'_def)
  then show ?thesis
    using sts unfolding to_inv_def s' by (simp add: r'_def)
next
  case False
  then have "s' = s"
    using assms(2) by (auto simp: to_do_timeout_def to_cas_status_def split: if_splits)
  then show ?thesis
    using assms(1) by simp
qed

lemma to_abort_at_ok:
  assumes "to_inv s" "to_requests s = b @ r # a"
  shows "\<exists>evs s'. to_abort_at b r a s = Some (evs, s') \<and> to_inv s'"
proof -
  have held: "to_held (al_status s) (al_n_rlock s) (to_locked (b @ r # a)) (to_waiting (b @ r # a))"
    and sts: "\<forall>r \<in> set (b @ r # a). to_rstatus r \<in> {TO_WAIT, TO_LOCK, TO_TIMEOUT}"
    using assms by (simp_all add: to_inv_def)
  consider "to_rstatus r = TO_LOCK" "al_status s = RLOCKED" "al_n_rlock s \<noteq> 1"
    | "to_rstatus r = TO_LOCK" "al_status s = RLOCKED \<longrightarrow> al_n_rlock s = 1"
    | "to_rstatus r \<in> {TO_WAIT, TO_TIMEOUT}"
    using sts by auto
  then show ?thesis
  proof cases
    case 1
    with held have "to_type r = RLOCK" "al_n_rlock s - 1 = int (length (to_locked (b @ a)))"
      "\<forall>r \<in> set (to_locked (b @ a)). to_type r = RLOCK" "\<forall>r \<in> set (to_waiting (b @ a)). to_type r = WLOCK"
      by auto
    moreover from this have "to_locked (b @ a) \<noteq> []"
      using 1(3) by auto
    ultimately show ?thesis
      using 1 sts by (simp add: to_abort_at_def to_inv_def Let_def)
  next
    case 2
    define s1 where "s1 = (if to_type r = RLOCK then s\<lparr>al_n_rlock := al_n_rlock s - 1\<rparr> else s)"
    define s3 where "s3 = s1\<lparr>al_status := FREE, to_requests := b @ a\<rparr>"
    have n0: "al_n_rlock s1 = 0" and free: "to_locked (b @ a) = []"
      using 2 held by (cases "al_status s"; auto simp: s1_def append_eq_Cons_conv length_Suc_conv add_nonneg_eq_0_iff)+
    obtain g q st n where q: "to_lock_next (b @ a) = (g, q, st, n)"
      by (cases "to_lock_next (b @ a)") auto
    have "to_lock_all s3 = Some (g, s3\<lparr>to_requests := q, al_status := st, al_n_rlock := n\<rparr>)"
      using n0 by (simp add: to_lock_all_def verify_simps q s3_def)
    then have "to_abort_at b r a s = Some (map (\<lambda>r. AlarmRemove (to_id r)) g @ map (\<lambda>r. ToYes (to_id r)) g,
        s3\<lparr>to_requests := q, al_status := st, al_n_rlock := n\<rparr>)"
      using 2 n0 unfolding to_abort_at_def s1_def[symmetric] s3_def by simp
    then show ?thesis
      using to_lock_next_held[OF q free] to_lock_next_status[of "{TO_WAIT, TO_LOCK, TO_TIMEOUT}" "b @ a"] sts q
      by (simp add: to_inv_def)
  next
    case 3
    then show ?thesis
      using held sts by (cases "al_status s") (auto simp: to_abort_at_def to_inv_def)
  qed
qed

lemma to_abort_ok:
  assumes "to_inv s"
  shows "\<exists>evs s'. to_abort i s = Some (evs, s') \<and> to_inv s'"
proof (cases "dropWhile (\<lambda>r. to_id r \<noteq> i) (to_requests s)")
  case Nil
  then show ?thesis
    using assms by (simp add: to_abort_def del: dropWhile_eq_Nil_conv)
next
  case (Cons r a)
  from to_abort_at_ok[OF assms dropWhile_Cons_split[OF Cons]] Cons show ?thesis
    by (simp add: to_abort_def)
qed

subsection \<open>The lock as a step system\<close>

datatype to_op = ToLock type_t | ToAbort u64 | ToAlarm nat

fun to_step :: "to_op \<Rightarrow> to_lock \<Rightarrow> (to_ev list \<times> to_lock) option" where
  "to_step (ToLock t) s = Some (snd (to_vlock t s))"
| "to_step (ToAbort i) s = to_abort i s"
| "to_step (ToAlarm k) s = Some (to_do_timeout k s)"

definition to_holders :: "type_t \<Rightarrow> to_lock \<Rightarrow> to_req list" where
  "to_holders t s = filter (\<lambda>r. to_type r = t) (to_locked (to_requests s))"

lemma to_step_ok:
  assumes "to_inv s"
  shows "\<exists>evs s'. to_step a s = Some (evs, s') \<and> to_inv s'"
proof (cases a)
  case (ToLock t)
  then show ?thesis
    using to_vlock_inv[OF assms, of t] by (cases "to_vlock t s") auto
next
  case (ToAbort i)
  then show ?thesis
    using to_abort_ok[OF assms, of i] by auto
next
  case (ToAlarm k)
  then show ?thesis
    using to_do_timeout_inv[OF assms, of k] by (cases "to_do_timeout k s") auto
qed

lemma to_inv_mutex:
  assumes "to_inv s"
  shows "mutex (to_holders WLOCK s) (to_holders RLOCK s)"
  using assms
  by (cases "al_status s") (auto simp: to_inv_def mutex_def to_holders_def length_Suc_conv filter_empty_conv)

interpretation to: lock_system "to_init tm" to_step to_inv "to_holders WLOCK" "to_holders RLOCK" for tm
proof (unfold_locales, goal_cases)
  case 1 show ?case by (simp add: to_inv_def to_init_def)
next
  case (2 s a) then show ?case using to_step_ok[of s a] by auto
next
  case (3 s a out s') then show ?case using to_step_ok[of s a] by auto
next
  case (4 s) then show ?case by (rule to_inv_mutex)
qed

lemma to_inv_blocked:
  assumes "to_inv s" "r \<in> set (to_waiting (to_requests s))"
  shows "\<exists>h \<in> set (to_locked (to_requests s)). to_type r = WLOCK \<or> to_type h = WLOCK"
proof (cases "al_status s")
  case WLOCKED
  then show ?thesis
    using assms by (auto simp: to_inv_def length_Suc_conv)
next
  case RLOCKED
  then have "to_type r = WLOCK" "to_locked (to_requests s) \<noteq> []"
    using assms by (auto simp: to_inv_def)
  then show ?thesis
    by (auto simp: neq_Nil_conv)
qed (use assms in \<open>auto simp: to_inv_def\<close>)

subsection \<open>Properties\<close>

text \<open>C20: Any sequence of lock calls, aborts and alarms on a fresh timeout lock runs without a failed
  \<open>verify\<close> and leaves at most one writer holding the lock, with no reader beside it.\<close>

theorem to_mutual_exclusion:
  "\<exists>outs s. run_steps to_step as (to_init tm) = Some (outs, s) \<and>
    mutex (to_holders WLOCK s) (to_holders RLOCK s)"
  by (rule to.run_mutex)

text \<open>C14: No wakeup of a timeout lock is lost. After any sequence of lock calls, aborts and alarms, a
  request that is still waiting conflicts with a request that holds the lock.\<close>

theorem to_no_lost_wakeup:
  assumes "run_steps to_step as (to_init tm) = Some (outs, s)" "r \<in> set (to_waiting (to_requests s))"
  shows "\<exists>h \<in> set (to_locked (to_requests s)). to_type r = WLOCK \<or> to_type h = WLOCK"
  using to_inv_blocked[OF to.run_inv[OF assms(1)] assms(2)] .

definition to_example :: to_lock where
  "to_example = snd (the (run_steps to_step [ToLock RLOCK, ToLock WLOCK, ToLock RLOCK, ToAbort 1, ToAbort 3,
     ToLock RLOCK] (to_init 200000)))"

theorem to_no_lost_wakeup_witness:
  "map to_id (to_waiting (to_requests to_example)) = [4] \<and>
   (\<exists>h \<in> set (to_locked (to_requests to_example)). to_type (hd (to_waiting (to_requests to_example))) = WLOCK
      \<or> to_type h = WLOCK)"
proof
  show w: "map to_id (to_waiting (to_requests to_example)) = [4]"
    by code_simp
  obtain outs s where "run_steps to_step [ToLock RLOCK, ToLock WLOCK, ToLock RLOCK, ToAbort 1, ToAbort 3,
     ToLock RLOCK] (to_init 200000) = Some (outs, s)"
    using to.run_total by blast
  moreover from this have "s = to_example"
    by (simp add: to_example_def)
  moreover have "hd (to_waiting (to_requests to_example)) \<in> set (to_waiting (to_requests to_example))"
    using w by (intro hd_in_set) auto
  ultimately show "\<exists>h \<in> set (to_locked (to_requests to_example)).
      to_type (hd (to_waiting (to_requests to_example))) = WLOCK \<or> to_type h = WLOCK"
    using to_no_lost_wakeup by blast
qed

end
