(* ===== verification/Std_Map.thy ===== *)
theory Std_Map
  imports DST_Prelude
begin

text \<open>
  The ordered containers of the C++ standard library that the code uses. A \<open>std::map\<close> is an
  association list with strictly increasing keys and a \<open>std::multimap\<close> one with increasing keys in
  which a new entry goes behind the entries of the same key, as the standard requires. Iteration
  order is list order.
\<close>

subsection \<open>\<open>std::map\<close>\<close>

type_synonym ('k, 'v) smap = "('k \<times> 'v) list"

fun smap_put :: "'k :: linorder \<Rightarrow> 'v \<Rightarrow> ('k, 'v) smap \<Rightarrow> ('k, 'v) smap" where
  "smap_put k v [] = [(k, v)]"
| "smap_put k v ((k', v') # m) =
    (if k < k' then (k, v) # (k', v') # m
     else if k = k' then (k, v) # m
     else (k', v') # smap_put k v m)"

definition smap_erase :: "'k \<Rightarrow> ('k, 'v) smap \<Rightarrow> ('k, 'v) smap" where
  "smap_erase k m = filter (\<lambda>e. fst e \<noteq> k) m"

definition smap_inv :: "('k :: linorder, 'v) smap \<Rightarrow> bool" where
  "smap_inv m \<longleftrightarrow> sorted_wrt (<) (map fst m)"

text \<open>The contract of a map towards its clients.\<close>

locale finite_map =
  fixes empty :: 'm
    and put :: "'k \<Rightarrow> 'v \<Rightarrow> 'm \<Rightarrow> 'm"
    and erase :: "'k \<Rightarrow> 'm \<Rightarrow> 'm"
    and lookup :: "'m \<Rightarrow> 'k \<rightharpoonup> 'v"
    and inv :: "'m \<Rightarrow> bool"
  assumes inv_empty: "inv empty"
    and inv_put: "inv m \<Longrightarrow> inv (put k v m)"
    and inv_erase: "inv m \<Longrightarrow> inv (erase k m)"
    and lookup_empty: "lookup empty = Map.empty"
    and lookup_put: "inv m \<Longrightarrow> lookup (put k v m) = (lookup m)(k \<mapsto> v)"
    and lookup_erase: "inv m \<Longrightarrow> lookup (erase k m) = (lookup m)(k := None)"
begin

lemma put_many:
  assumes "inv m"
  shows "inv (fold (\<lambda>(k, v). put k v) kvs m)"
    and "lookup (fold (\<lambda>(k, v). put k v) kvs m) = lookup m ++ map_of (rev kvs)"
  using assms
proof (induction kvs arbitrary: m)
  case (Cons kv kvs)
  obtain k v where kv: "kv = (k, v)" by force
  { case 1 then show ?case using Cons.IH(1)[of "put k v m"] inv_put kv by simp }
  { case 2 then show ?case using Cons.IH(2)[of "put k v m"] inv_put[of m k v] lookup_put[of m k v] kv
      by (simp del: fun_upd_apply) }
qed auto

lemma put_put_same: "inv m \<Longrightarrow> lookup (put k v (put k w m)) = lookup (put k v m)"
  by (simp add: lookup_put inv_put)

lemma erase_put: "inv m \<Longrightarrow> lookup m k = None \<Longrightarrow> lookup (erase k (put k v m)) = lookup m"
  by (auto simp: lookup_put lookup_erase inv_put)

end

lemma smap_put_keys: "fst ` set (smap_put k v m) = insert k (fst ` set m)"
proof (induction m)
  case (Cons e m)
  then show ?case by (cases e) (simp add: insert_commute)
qed simp

lemma smap_inv_put: "smap_inv m \<Longrightarrow> smap_inv (smap_put k v m)"
  unfolding smap_inv_def
proof (induction m)
  case (Cons e m)
  obtain k' v' where e: "e = (k', v')" by force
  have "set (map fst (smap_put k v m)) = insert k (set (map fst m))"
    using smap_put_keys[of k v m] by simp
  then show ?case
    using Cons e by (auto simp del: set_map)
qed simp

lemma smap_inv_erase: "smap_inv m \<Longrightarrow> smap_inv (smap_erase k m)"
  by (induction m) (auto simp: smap_inv_def smap_erase_def)

lemma smap_lookup_put: "smap_inv m \<Longrightarrow> map_of (smap_put k v m) = (map_of m)(k \<mapsto> v)"
  by (induction m) (auto simp: smap_inv_def fun_eq_iff)

lemma smap_lookup_erase: "map_of (smap_erase k m) = (map_of m)(k := None)"
  by (induction m) (auto simp: smap_erase_def fun_eq_iff)

interpretation smap: finite_map "[]" smap_put smap_erase map_of smap_inv
proof (unfold_locales, goal_cases)
  case 1 show ?case by (simp add: smap_inv_def)
qed (auto simp: smap_inv_put smap_inv_erase smap_lookup_put smap_lookup_erase)

lemma smap_put_absent_length:
  "map_of m k = None \<Longrightarrow> length (smap_put k v m) = Suc (length m)"
  by (induction m) (auto split: if_splits)

lemma smap_inv_distinct: "smap_inv m \<Longrightarrow> distinct (map fst m)"
  by (simp add: smap_inv_def strict_sorted_iff)

subsection \<open>\<open>std::multimap\<close>\<close>

fun mmap_insert :: "'k :: linorder \<Rightarrow> 'v \<Rightarrow> ('k \<times> 'v) list \<Rightarrow> ('k \<times> 'v) list" where
  "mmap_insert k v [] = [(k, v)]"
| "mmap_insert k v ((k', v') # m) =
    (if k < k' then (k, v) # (k', v') # m else (k', v') # mmap_insert k v m)"

definition mmap_inv :: "('k :: linorder \<times> 'v) list \<Rightarrow> bool" where
  "mmap_inv m \<longleftrightarrow> sorted (map fst m)"

lemma mmap_insert_set: "set (mmap_insert k v m) = insert (k, v) (set m)"
proof (induction m)
  case (Cons e m)
  then show ?case by (cases e) (simp add: insert_commute)
qed simp

lemma mmap_insert_keys: "fst ` set (mmap_insert k v m) = insert k (fst ` set m)"
  by (simp add: mmap_insert_set)

lemma mmap_inv_insert: "mmap_inv m \<Longrightarrow> mmap_inv (mmap_insert k v m)"
  unfolding mmap_inv_def
proof (induction m)
  case (Cons e m)
  obtain k' v' where e: "e = (k', v')" by force
  have "set (map fst (mmap_insert k v m)) = insert k (set (map fst m))"
    using mmap_insert_keys[of k v m] by simp
  then show ?case
    using Cons e by (auto simp del: set_map)
qed simp

lemma mmap_inv_filter: "mmap_inv m \<Longrightarrow> mmap_inv (filter P m)"
  by (induction m) (auto simp: mmap_inv_def)

lemma mmap_insert_filter:
  "filter P (mmap_insert k v m) = (if P (k, v) then mmap_insert k v (filter P m) else filter P m)"
  if "mmap_inv m"
  using that
proof (induction m)
  case (Cons e m)
  obtain k' v' where e: "e = (k', v')" by force
  have "mmap_insert k v (filter P m) = (k, v) # filter P m" if "k < k'"
  proof -
    have "\<forall>x \<in> set (filter P m). k < fst x"
      using Cons.prems that e by (fastforce simp: mmap_inv_def)
    then show ?thesis
      by (cases "filter P m") auto
  qed
  then show ?case
    using Cons e by (auto simp: mmap_inv_def)
qed simp

lemma mmap_insert_mset: "filter Q (mmap_insert k v m) = filter Q m" if "\<not> Q (k, v)"
  using that by (induction m) auto

lemma mmap_insert_count:
  "Q (k, v) \<Longrightarrow> length (filter Q (mmap_insert k v m)) = Suc (length (filter Q m))"
  by (induction m) auto

end
