(* ===== verification/LockGroup.thy ===== *)
theory LockGroup
  imports ALock Std_Map
begin

text \<open>
  \<open>ALockGroup\<close> of \<open>rrr/misc/alock.{hpp,cpp}\<close>: a transaction acquires a set of asynchronous locks
  together. A lock object is identified by a number (its address). Calls of the locks and of the
  client's callbacks are events; each lock answers its request by one of the two callbacks, which
  are the steps \<open>gr_yes\<close> and \<open>gr_no\<close>.
\<close>

datatype gr_status_t = GR_INIT | GR_WAIT | GR_LOCK | GR_TIMEOUT | GR_UNLOCK

datatype gr_ev = GrLock nat type_t i64 | GrAbort nat u64 | GrYes | GrNo

record lock_group =
  gr_locked :: "(nat, u64) smap"
  gr_tolock :: "(nat, type_t) smap"
  gr_priority :: i64
  gr_status :: gr_status_t
  gr_db :: "dragon_ball option"

definition gr_new :: "i64 \<Rightarrow> lock_group" where
  "gr_new p = \<lparr>gr_locked = [], gr_tolock = [], gr_priority = p, gr_status = GR_INIT, gr_db = None\<rparr>"

definition gr_cas_status :: "gr_status_t \<Rightarrow> gr_status_t \<Rightarrow> lock_group \<Rightarrow> bool \<times> lock_group" where
  "gr_cas_status c x g = (if gr_status g = c then (True, g\<lparr>gr_status := x\<rparr>) else (False, g))"

definition gr_add :: "nat \<Rightarrow> type_t \<Rightarrow> lock_group \<Rightarrow> lock_group option" where
  "gr_add l t g = do {
     verify (gr_status g = GR_INIT \<or> gr_status g = GR_LOCK);
     Some (g\<lparr>gr_tolock := smap_put l t (gr_tolock g)\<rparr>)
   }"

definition gr_abort_all_locked :: "lock_group \<Rightarrow> gr_ev list" where
  "gr_abort_all_locked g = [GrAbort l i. (l, i) \<leftarrow> gr_locked g, i \<noteq> 0]"

definition gr_abort_all :: "lock_group \<Rightarrow> (gr_ev list \<times> lock_group) option" where
  "gr_abort_all g = (case gr_cas_status GR_LOCK GR_UNLOCK g of
     (True, g1) \<Rightarrow> Some (gr_abort_all_locked g1, g1)
   | (False, g1) \<Rightarrow> None)"

definition gr_unlock_all :: "lock_group \<Rightarrow> (gr_ev list \<times> lock_group) option" where
  "gr_unlock_all g = (case gr_cas_status GR_LOCK GR_UNLOCK g of (b, g1) \<Rightarrow> do {
     verify b;
     Some (gr_abort_all_locked g1, g1)
   })"

definition gr_wish :: "lock_group \<Rightarrow> (gr_ev list \<times> lock_group) option" where
  "gr_wish g = (case gr_cas_status GR_WAIT GR_LOCK g of
     (True, g1) \<Rightarrow> Some ([GrYes], g1)
   | (False, g1) \<Rightarrow> do {
       verify (gr_status g1 = GR_TIMEOUT);
       Some (GrNo # gr_abort_all_locked g1, g1)
     })"

text \<open>\<open>db_->trigger()\<close>; the ball deletes itself after the wish.\<close>

definition gr_trigger :: "lock_group \<Rightarrow> (gr_ev list \<times> lock_group) option" where
  "gr_trigger g = do {
     b \<leftarrow> gr_db g;
     (ready, b1) \<leftarrow> db_trigger b;
     if ready then do { (evs, g1) \<leftarrow> gr_wish g; Some (evs, g1\<lparr>gr_db := None\<rparr>) }
     else Some ([], g\<lparr>gr_db := Some b1\<rparr>)
   }"

definition gr_yes :: "nat \<Rightarrow> u64 \<Rightarrow> lock_group \<Rightarrow> (gr_ev list \<times> lock_group) option" where
  "gr_yes l i g = gr_trigger (g\<lparr>gr_locked := smap_put l i (gr_locked g)\<rparr>)"

definition gr_no :: "lock_group \<Rightarrow> (gr_ev list \<times> lock_group) option" where
  "gr_no g = gr_trigger (g\<lparr>gr_status := GR_TIMEOUT\<rparr>)"

text \<open>\<open>ret\<close> is what the transaction's own wound callback returns.\<close>

definition gr_wound :: "int \<Rightarrow> nat \<Rightarrow> lock_group \<Rightarrow> int \<times> lock_group" where
  "gr_wound ret l g = (ret, if ret = 0 then g\<lparr>gr_locked := smap_erase l (gr_locked g)\<rparr> else g)"

definition gr_lock_all :: "lock_group \<Rightarrow> (gr_ev list \<times> lock_group) option" where
  "gr_lock_all g = do {
     verify (gr_status g = GR_INIT \<or> gr_status g = GR_LOCK);
     let g1 = g\<lparr>gr_status := GR_WAIT, gr_db := Some (db_new (int (length (gr_tolock g)))), gr_tolock := []\<rparr>;
     Some (map (\<lambda>(l, t). GrLock l t (gr_priority g)) (gr_tolock g), g1)
   }"

subsection \<open>Answers of the locks\<close>

datatype gr_reply = GrantedBy nat u64 | Refused

fun gr_reply_step :: "gr_reply \<Rightarrow> lock_group \<Rightarrow> (gr_ev list \<times> lock_group) option" where
  "gr_reply_step (GrantedBy l i) g = gr_yes l i g"
| "gr_reply_step Refused g = gr_no g"

fun granted_by :: "gr_reply list \<Rightarrow> (nat \<times> u64) list" where
  "granted_by [] = []"
| "granted_by (GrantedBy l i # rs) = (l, i) # granted_by rs"
| "granted_by (Refused # rs) = granted_by rs"

definition gr_collect :: "gr_reply list \<Rightarrow> lock_group \<Rightarrow> lock_group" where
  "gr_collect rs g = g\<lparr>gr_locked := fold (\<lambda>(l, i). smap_put l i) (granted_by rs) (gr_locked g),
     gr_status := (if Refused \<in> set rs then GR_TIMEOUT else gr_status g)\<rparr>"

lemma gr_collect_simps [simp]:
  "gr_collect [] g = g"
  "gr_collect (GrantedBy l i # rs) g = gr_collect rs (g\<lparr>gr_locked := smap_put l i (gr_locked g)\<rparr>)"
  "gr_collect (Refused # rs) g = gr_collect rs (g\<lparr>gr_status := GR_TIMEOUT\<rparr>)"
  by (simp_all add: gr_collect_def)

lemma gr_collect_db [simp]: "gr_db (gr_collect rs g) = gr_db g"
  by (simp add: gr_collect_def)

lemma gr_collect_db_upd [simp]: "gr_collect rs (g\<lparr>gr_db := d\<rparr>) = (gr_collect rs g)\<lparr>gr_db := d\<rparr>"
  by (simp add: gr_collect_def)

lemma gr_trigger_not_last:
  assumes "gr_db g = Some b" "db_n_ready b + 1 < db_n_wait b"
  shows "gr_trigger g = Some ([], g\<lparr>gr_db := Some (b\<lparr>db_n_ready := db_n_ready b + 1\<rparr>)\<rparr>)"
  using assms by (simp add: gr_trigger_def db_trigger_def Let_def verify_simps)

lemma gr_trigger_last:
  assumes "gr_db g = Some b" "db_n_ready b + 1 = db_n_wait b" "\<not> db_called b"
    "gr_status g = GR_WAIT \<or> gr_status g = GR_TIMEOUT"
  shows "gr_trigger g = Some (if gr_status g = GR_WAIT then [GrYes] else GrNo # gr_abort_all_locked g,
    g\<lparr>gr_status := (if gr_status g = GR_WAIT then GR_LOCK else GR_TIMEOUT), gr_db := None\<rparr>)"
  using assms by (auto simp: gr_trigger_def db_trigger_last gr_wish_def gr_cas_status_def verify_simps)

lemma gr_replies_run:
  assumes "gr_db g = Some b" "db_n_ready b + int (length rs) = db_n_wait b" "\<not> db_called b" "rs \<noteq> []"
    "gr_status g = GR_WAIT \<or> gr_status g = GR_TIMEOUT"
  shows "\<exists>outs. run_steps gr_reply_step rs g = Some (outs, (gr_collect rs g)\<lparr>gr_status :=
      (if gr_status (gr_collect rs g) = GR_WAIT then GR_LOCK else GR_TIMEOUT), gr_db := None\<rparr>)
    \<and> concat outs = (if gr_status (gr_collect rs g) = GR_WAIT then [GrYes]
        else GrNo # gr_abort_all_locked (gr_collect rs g))"
  using assms
proof (induction rs arbitrary: g b)
  case (Cons r rs)
  define g1 where "g1 = gr_collect [r] g"
  have step: "gr_reply_step r g = gr_trigger g1" and db: "gr_db g1 = Some b"
    and st: "gr_status g1 = GR_WAIT \<or> gr_status g1 = GR_TIMEOUT" and col: "gr_collect (r # rs) g = gr_collect rs g1"
    using Cons.prems(1,5) by (cases r; auto simp: g1_def gr_yes_def gr_no_def)+
  show ?case
  proof (cases "rs = []")
    case True
    then show ?thesis
      using gr_trigger_last[OF db _ Cons.prems(3) st] Cons.prems(2) step col by auto
  next
    case False
    let ?b = "b\<lparr>db_n_ready := db_n_ready b + 1\<rparr>"
    have "db_n_ready b + 1 < db_n_wait b"
      using False Cons.prems(2) by (cases rs) auto
    from gr_trigger_not_last[OF db this] Cons.IH[of "g1\<lparr>gr_db := Some ?b\<rparr>" ?b] show ?thesis
      using False Cons.prems(2,3) st step col by (auto simp: gr_abort_all_locked_def)
  qed
qed simp

subsection \<open>Properties\<close>

text \<open>C16: A lock group is all or nothing. After \<open>lock_all\<close> on a group with at least one lock to take,
  whatever the order in which the locks answer, the client gets exactly one callback, on the last
  answer: the success callback if every lock was granted, and otherwise the failure callback followed
  by an abort for every lock that was granted.\<close>

theorem gr_all_or_nothing:
  assumes "gr_lock_all g = Some (calls, g1)" "length rs = length calls" "calls \<noteq> []" "smap_inv (gr_locked g)"
  shows "\<exists>outs g2. run_steps gr_reply_step rs g1 = Some (outs, g2)
    \<and> concat outs = (if Refused \<in> set rs then GrNo # gr_abort_all_locked g2 else [GrYes])
    \<and> gr_status g2 = (if Refused \<in> set rs then GR_TIMEOUT else GR_LOCK)
    \<and> map_of (gr_locked g2) = map_of (gr_locked g) ++ map_of (rev (granted_by rs))"
proof -
  define b where "b = db_new (int (length (gr_tolock g)))"
  have g1: "g1 = g\<lparr>gr_status := GR_WAIT, gr_db := Some b, gr_tolock := []\<rparr>" "length calls = length (gr_tolock g)"
    using assms(1) by (auto simp: gr_lock_all_def verify_simps Let_def b_def split: if_splits)
  have pre: "gr_db g1 = Some b" "db_n_ready b + int (length rs) = db_n_wait b" "\<not> db_called b" "rs \<noteq> []"
      "gr_status g1 = GR_WAIT \<or> gr_status g1 = GR_TIMEOUT"
    using assms(2,3) g1 by (auto simp: b_def db_new_def)
  from gr_replies_run[OF pre] obtain outs where
    run: "run_steps gr_reply_step rs g1 = Some (outs, (gr_collect rs g1)\<lparr>gr_status :=
      (if gr_status (gr_collect rs g1) = GR_WAIT then GR_LOCK else GR_TIMEOUT), gr_db := None\<rparr>)"
     "concat outs = (if gr_status (gr_collect rs g1) = GR_WAIT then [GrYes]
        else GrNo # gr_abort_all_locked (gr_collect rs g1))"
    by blast
  then show ?thesis
    using smap.put_many(2)[OF assms(4), of "granted_by rs"] g1
    by (auto simp: gr_collect_def gr_abort_all_locked_def)
qed

definition gr_example :: lock_group where
  "gr_example = the (Option.bind (gr_add 7 WLOCK (gr_new 3)) (gr_add 4 RLOCK))"

theorem gr_all_or_nothing_witness:
  "\<exists>outs g2. run_steps gr_reply_step [GrantedBy 7 9, Refused] (snd (the (gr_lock_all gr_example))) = Some (outs, g2)
    \<and> concat outs = GrNo # gr_abort_all_locked g2 \<and> gr_status g2 = GR_TIMEOUT \<and> map_of (gr_locked g2) = [7 \<mapsto> 9]"
proof -
  have "gr_lock_all gr_example = Some ([GrLock 4 RLOCK 3, GrLock 7 WLOCK 3],
      \<lparr>gr_locked = [], gr_tolock = [], gr_priority = 3, gr_status = GR_WAIT, gr_db = Some (db_new 2)\<rparr>)"
    by code_simp
  moreover have "smap_inv (gr_locked gr_example)" "gr_locked gr_example = []"
    by code_simp+
  ultimately show ?thesis
    using gr_all_or_nothing[of gr_example _ _ "[GrantedBy 7 9, Refused]"] by simp
qed

end
