(* ===== verification/Snapshot.thy ===== *)
theory Snapshot
  imports Std_Map
begin

text \<open>
  \<open>memdb/snapshot.h\<close>: a sorted multimap with cheap read-only snapshots. All snapshots of a group
  share one multimap of versioned values; at most one member, the writer, may change it.

  The circular doubly linked list of the members is a list that starts after its largest version, so
  the writer, if there is one, is its last element; a member is a pair of its identity and version.
  \<open>version_t\<close> is a 64-bit word and \<open>-1\<close> is its largest value. The builds define \<open>NDEBUG\<close>, so the
  \<open>assert\<close>s of this file are not part of the behaviour.
\<close>

type_synonym version_t = u64

record 'v versioned =
  created_at :: version_t
  removed_at :: version_t
  vval :: 'v

definition vv_new :: "version_t \<Rightarrow> 'v \<Rightarrow> 'v versioned" where
  "vv_new created v = \<lparr>created_at = created, removed_at = - 1, vval = v\<rparr>"

definition valid_at :: "'v versioned \<Rightarrow> version_t \<Rightarrow> bool" where
  "valid_at x v \<longleftrightarrow> created_at x \<le> v \<and> (removed_at x = - 1 \<or> v < removed_at x)"

definition vv_remove :: "version_t \<Rightarrow> 'v versioned \<Rightarrow> 'v versioned" where
  "vv_remove v x = x\<lparr>removed_at := v\<rparr>"

type_synonym ('k, 'v) vmap = "('k \<times> 'v versioned) list"

record ('k, 'v) ssg =
  sg_data :: "('k, 'v) vmap"
  sg_members :: "(nat \<times> version_t) list"
  sg_writer :: "nat option"
  gc_insert_counter :: u64
  gc_erase_counter :: u64

subsection \<open>Members of a group\<close>

definition sn_version :: "nat \<Rightarrow> ('k, 'v) ssg \<Rightarrow> version_t" where
  "sn_version s g = the (map_of (sg_members g) s)"

definition set_ver :: "nat \<Rightarrow> version_t \<Rightarrow> ('k, 'v) ssg \<Rightarrow> ('k, 'v) ssg" where
  "set_ver s v g = g\<lparr>sg_members := map (\<lambda>(s', v'). (s', if s' = s then v else v')) (sg_members g)\<rparr>"

definition readonly :: "nat \<Rightarrow> ('k, 'v) ssg \<Rightarrow> bool" where
  "readonly s g \<longleftrightarrow> sg_writer g \<noteq> Some s"

definition writable :: "nat \<Rightarrow> ('k, 'v) ssg \<Rightarrow> bool" where
  "writable s g \<longleftrightarrow> sg_writer g = Some s"

fun ring_prev :: "nat \<Rightarrow> nat \<Rightarrow> (nat \<times> version_t) list \<Rightarrow> nat" where
  "ring_prev s p [] = p"
| "ring_prev s p ((s', v) # ms) = (if s' = s then p else ring_prev s s' ms)"

definition sn_prev :: "nat \<Rightarrow> ('k, 'v) ssg \<Rightarrow> nat" where
  "sn_prev s g = ring_prev s (fst (last (sg_members g))) (sg_members g)"

definition has_readonly_snapshot :: "nat \<Rightarrow> ('k, 'v) ssg \<Rightarrow> bool" where
  "has_readonly_snapshot s g \<longleftrightarrow> (if readonly s g then True else readonly (sn_prev s g) g)"

definition has_writable_snapshot :: "('k, 'v) ssg \<Rightarrow> bool" where
  "has_writable_snapshot g \<longleftrightarrow> sg_writer g \<noteq> None"

definition snapshot_count :: "('k, 'v) ssg \<Rightarrow> nat" where
  "snapshot_count g = length (sg_members g)"

definition sn_new :: "nat \<Rightarrow> ('k, 'v) ssg" where
  "sn_new s = \<lparr>sg_data = [], sg_members = [(s, 0)], sg_writer = Some s,
     gc_insert_counter = 0, gc_erase_counter = 0\<rparr>"

text \<open>\<open>make_me_snapshot_of\<close>: the new member \<open>s\<close> joins to the left of \<open>src\<close> with its version.\<close>

fun ring_insert_left :: "nat \<Rightarrow> nat \<Rightarrow> (nat \<times> version_t) list \<Rightarrow> (nat \<times> version_t) list" where
  "ring_insert_left s src [] = []"
| "ring_insert_left s src ((s', v) # ms) =
    (if s' = src then (s, v) # (s', v) # ms else (s', v) # ring_insert_left s src ms)"

definition make_me_snapshot_of :: "nat \<Rightarrow> nat \<Rightarrow> ('k, 'v) ssg \<Rightarrow> ('k, 'v) ssg" where
  "make_me_snapshot_of s src g =
    (let g1 = g\<lparr>sg_members := ring_insert_left s src (sg_members g)\<rparr> in
     if writable src g then g1\<lparr>gc_insert_counter := 0, gc_erase_counter := 0\<rparr> else g1)"

subsection \<open>Writing\<close>

definition sn_insert :: "nat \<Rightarrow> 'k :: linorder \<Rightarrow> 'v \<Rightarrow> ('k, 'v) ssg \<Rightarrow> ('k, 'v) ssg option" where
  "sn_insert s k v g = do {
     verify (writable s g);
     let ver = sn_version s g + 1;
     let g1 = set_ver s ver g;
     Some (g1\<lparr>sg_data := mmap_insert k (vv_new ver v) (sg_data g1),
              gc_insert_counter := gc_insert_counter g1 + 1\<rparr>)
   }"

text \<open>The two bulk inserts: one version for all the pairs.\<close>

definition sn_insert_many :: "nat \<Rightarrow> ('k :: linorder \<times> 'v) list \<Rightarrow> ('k, 'v) ssg \<Rightarrow> ('k, 'v) ssg option" where
  "sn_insert_many s kvs g = do {
     verify (writable s g);
     let ver = sn_version s g + 1;
     let g1 = set_ver s ver g;
     Some (fold (\<lambda>(k, v) g. g\<lparr>sg_data := mmap_insert k (vv_new ver v) (sg_data g),
              gc_insert_counter := gc_insert_counter g + 1\<rparr>) kvs g1)
   }"

text \<open>
  The loops of the erase functions in a group with readers: the entries that satisfy \<open>P\<close> and are
  visible are marked as removed at \<open>ver\<close>, only the first of them if \<open>first\<close> is set. The second
  component counts them.
\<close>

fun mark_removed :: "bool \<Rightarrow> ('k \<times> 'v versioned \<Rightarrow> bool) \<Rightarrow> version_t \<Rightarrow> version_t \<Rightarrow> ('k, 'v) vmap
    \<Rightarrow> ('k, 'v) vmap \<times> nat" where
  "mark_removed first P orig ver [] = ([], 0)"
| "mark_removed first P orig ver (e # m) =
    (if valid_at (snd e) orig \<and> P e
     then (if first then ((fst e, vv_remove ver (snd e)) # m, 1)
           else (case mark_removed first P orig ver m of (m', n) \<Rightarrow>
             ((fst e, vv_remove ver (snd e)) # m', n + 1)))
     else (case mark_removed first P orig ver m of (m', n) \<Rightarrow> (e # m', n)))"

text \<open>Physical removal: the first entry that satisfies \<open>P\<close>, or all of them.\<close>

fun drop_first :: "('a \<Rightarrow> bool) \<Rightarrow> 'a list \<Rightarrow> 'a list" where
  "drop_first P [] = []"
| "drop_first P (x # xs) = (if P x then xs else x # drop_first P xs)"

definition sn_erase_key :: "nat \<Rightarrow> 'k :: linorder \<Rightarrow> bool \<Rightarrow> ('k, 'v) ssg \<Rightarrow> ('k, 'v) ssg option" where
  "sn_erase_key s k first_match_only g = do {
     verify (writable s g);
     let orig_ver = sn_version s g;
     let ver = orig_ver + 1;
     let g1 = set_ver s ver g;
     if has_readonly_snapshot s g1
     then (case mark_removed first_match_only (\<lambda>e. fst e = k) orig_ver ver (sg_data g1) of (m, n) \<Rightarrow>
             Some (g1\<lparr>sg_data := m, gc_erase_counter := gc_erase_counter g1 + of_nat n\<rparr>))
     else if first_match_only
     then (case dropWhile (\<lambda>e. fst e < k) (sg_data g1) of
             [] \<Rightarrow> None
           | e # m \<Rightarrow> Some (g1\<lparr>sg_data := takeWhile (\<lambda>e. fst e < k) (sg_data g1) @ m\<rparr>))
     else Some (g1\<lparr>sg_data := filter (\<lambda>e. fst e \<noteq> k) (sg_data g1)\<rparr>)
   }"

definition sn_erase_kv :: "nat \<Rightarrow> 'k :: linorder \<Rightarrow> 'v \<Rightarrow> bool \<Rightarrow> ('k, 'v) ssg \<Rightarrow> ('k, 'v) ssg option" where
  "sn_erase_kv s k v first_match_only g = do {
     verify (writable s g);
     let orig_ver = sn_version s g;
     let ver = orig_ver + 1;
     let g1 = set_ver s ver g;
     let P = (\<lambda>e. fst e = k \<and> vval (snd e) = v);
     if has_readonly_snapshot s g1
     then (case mark_removed first_match_only P orig_ver ver (sg_data g1) of (m, n) \<Rightarrow>
             Some (g1\<lparr>sg_data := m, gc_erase_counter := gc_erase_counter g1 + of_nat n\<rparr>))
     else if first_match_only then Some (g1\<lparr>sg_data := drop_first P (sg_data g1)\<rparr>)
     else Some (g1\<lparr>sg_data := filter (\<lambda>e. \<not> P e) (sg_data g1)\<rparr>)
   }"

text \<open>
  A range is a pair of positions \<open>(b, e)\<close> of its iterators in the multimap. Erasing a range and
  erasing a reverse range, whose iterators are converted by \<open>base()\<close>, treat the same positions. A
  range whose begin lies behind its end is undefined behaviour in C++ and fails here.
\<close>

definition sn_erase_range :: "nat \<Rightarrow> nat \<times> nat \<Rightarrow> ('k :: linorder, 'v) ssg \<Rightarrow> ('k, 'v) ssg option" where
  "sn_erase_range s r g = do {
     verify (writable s g);
     let orig_ver = sn_version s g;
     let ver = orig_ver + 1;
     let g1 = set_ver s ver g;
     let m = sg_data g1;
     let b = fst r;
     let e = snd r;
     verify (b \<le> e);
     if has_readonly_snapshot s g1
     then Some (g1\<lparr>sg_data := take b m @
            fst (mark_removed False (\<lambda>_. True) orig_ver ver (take (e - b) (drop b m))) @ drop e m\<rparr>)
     else Some (g1\<lparr>sg_data := take b m @ drop e m\<rparr>)
   }"

subsection \<open>Queries\<close>

definition lower_bound :: "'k :: linorder \<Rightarrow> ('k, 'v) vmap \<Rightarrow> nat" where
  "lower_bound k m = length (takeWhile (\<lambda>e. fst e < k) m)"

definition upper_bound :: "'k :: linorder \<Rightarrow> ('k, 'v) vmap \<Rightarrow> nat" where
  "upper_bound k m = length (takeWhile (\<lambda>e. fst e \<le> k) m)"

definition q_all :: "('k :: linorder, 'v) ssg \<Rightarrow> nat \<times> nat" where
  "q_all g = (0, length (sg_data g))"

definition q_eq :: "'k :: linorder \<Rightarrow> ('k, 'v) ssg \<Rightarrow> nat \<times> nat" where
  "q_eq k g = (lower_bound k (sg_data g), upper_bound k (sg_data g))"

definition q_lt :: "'k :: linorder \<Rightarrow> ('k, 'v) ssg \<Rightarrow> nat \<times> nat" where
  "q_lt k g = (0, lower_bound k (sg_data g))"

definition q_gt :: "'k :: linorder \<Rightarrow> ('k, 'v) ssg \<Rightarrow> nat \<times> nat" where
  "q_gt k g = (upper_bound k (sg_data g), length (sg_data g))"

definition q_in :: "'k :: linorder \<Rightarrow> 'k \<Rightarrow> ('k, 'v) ssg \<Rightarrow> nat \<times> nat" where
  "q_in low high g = (upper_bound low (sg_data g), lower_bound high (sg_data g))"

definition range_items :: "nat \<times> nat \<Rightarrow> ('k, 'v) ssg \<Rightarrow> ('k, 'v) vmap" where
  "range_items r g = take (snd r - fst r) (drop (fst r) (sg_data g))"

text \<open>The items a reverse range walks over.\<close>

definition reverse_range_items :: "nat \<times> nat \<Rightarrow> ('k, 'v) ssg \<Rightarrow> ('k, 'v) vmap" where
  "reverse_range_items r g = rev (range_items r g)"

text \<open>\<open>snapshot_range\<close>: a cursor over the items between two iterators at a fixed version.\<close>

record ('k, 'v) snapshot_range =
  rg_version :: version_t
  rg_items :: "('k, 'v) vmap"
  rg_next :: nat
  rg_cached :: "('k \<times> 'v) option"
  rg_count :: int

definition rg_new :: "version_t \<Rightarrow> ('k, 'v) vmap \<Rightarrow> ('k, 'v) snapshot_range" where
  "rg_new ver items = \<lparr>rg_version = ver, rg_items = items, rg_next = 0, rg_cached = None, rg_count = - 1\<rparr>"

function rg_prefetch_next :: "('k, 'v) snapshot_range \<Rightarrow> bool \<times> ('k, 'v) snapshot_range" where
  "rg_prefetch_next c =
    (if rg_cached c = None \<and> rg_next c < length (rg_items c)
     then (let e = rg_items c ! rg_next c in
           rg_prefetch_next (c\<lparr>rg_cached := (if valid_at (snd e) (rg_version c)
               then Some (fst e, vval (snd e)) else None), rg_next := rg_next c + 1\<rparr>))
     else (rg_cached c \<noteq> None, c))"
  by pat_completeness auto
termination
  by (relation "measure (\<lambda>c. length (rg_items c) - rg_next c)") auto

definition rg_has_next :: "('k, 'v) snapshot_range \<Rightarrow> bool \<times> ('k, 'v) snapshot_range" where
  "rg_has_next c = (if rg_cached c \<noteq> None then (True, c) else rg_prefetch_next c)"

definition rg_next_item :: "('k, 'v) snapshot_range \<Rightarrow> (('k \<times> 'v) \<times> ('k, 'v) snapshot_range) option" where
  "rg_next_item c = (case (if rg_cached c = None then rg_prefetch_next c else (True, c)) of (ok, c1) \<Rightarrow> do {
     verify ok;
     x \<leftarrow> rg_cached c1;
     Some (x, c1\<lparr>rg_cached := None\<rparr>)
   })"

definition rg_count_items :: "('k, 'v) snapshot_range \<Rightarrow> int \<times> ('k, 'v) snapshot_range" where
  "rg_count_items c =
    (if rg_count c \<ge> 0 then (rg_count c, c)
     else (let n = int (length (filter (\<lambda>e. valid_at (snd e) (rg_version c)) (rg_items c))) in
           (n, c\<lparr>rg_count := n\<rparr>)))"

subsection \<open>Garbage collection and destruction\<close>

definition gc_size :: "('k, 'v) ssg \<Rightarrow> u64" where
  "gc_size g = of_nat (length (sg_data g))"

definition gc_counter :: "('k, 'v) ssg \<Rightarrow> u64" where
  "gc_counter g = gc_insert_counter g + gc_erase_counter g"

definition gc_bounds :: "nat \<Rightarrow> ('k, 'v) ssg \<Rightarrow> version_t \<times> version_t" where
  "gc_bounds s g = fold (\<lambda>(s', v) (low, high). (if v < low then v else low, if v > high then v else high))
     (sg_members g) (sn_version s g, - 1)"

definition gc_run :: "nat \<Rightarrow> ('k, 'v) ssg \<Rightarrow> ('k, 'v) ssg" where
  "gc_run s g = (case gc_bounds s g of (low, high) \<Rightarrow>
     g\<lparr>sg_data := filter (\<lambda>e. \<not> (created_at (snd e) > high \<or>
          (removed_at (snd e) \<noteq> - 1 \<and> removed_at (snd e) < low))) (sg_data g),
       gc_insert_counter := 0, gc_erase_counter := 0\<rparr>)"

fun ring_next :: "nat \<Rightarrow> nat \<Rightarrow> (nat \<times> version_t) list \<Rightarrow> nat" where
  "ring_next s p [] = p"
| "ring_next s p [(s', v)] = p"
| "ring_next s p ((s', v) # (s'', v') # ms) = (if s' = s then s'' else ring_next s p ((s'', v') # ms))"

definition sn_next :: "nat \<Rightarrow> ('k, 'v) ssg \<Rightarrow> nat" where
  "sn_next s g = ring_next s (fst (hd (sg_members g))) (sg_members g)"

text \<open>\<open>destroy_me\<close>; the group goes away with its last member (\<open>None\<close> in the result).\<close>

definition destroy_me :: "nat \<Rightarrow> ('k, 'v) ssg \<Rightarrow> ('k, 'v) ssg option" where
  "destroy_me s g =
    (let auto_gc = (sg_writer g = Some s \<and> gc_counter g \<ge> 16 \<and> gc_counter g \<ge> gc_size g div 2);
         g1 = (if sg_writer g = Some s then g\<lparr>sg_writer := None\<rparr> else g) in
     if sn_prev s g \<noteq> s
     then (let g2 = g1\<lparr>sg_members := filter (\<lambda>m. fst m \<noteq> s) (sg_members g1)\<rparr> in
           Some (if auto_gc then gc_run (sn_next s g) g2 else g2))
     else None)"

text \<open>
  The copy constructor: a copy of a read-only snapshot joins its group; a copy of a writer becomes the
  writer of its group if the group has no writer, and otherwise gets a group of its own with the
  visible pairs of the source. \<open>Inl\<close> is the source's group with the new member, \<open>Inr\<close> a new group
  together with the source's group, in which the temporary range has reset the counters.
\<close>

definition sn_view :: "version_t \<Rightarrow> ('k, 'v) vmap \<Rightarrow> ('k \<times> 'v) list" where
  "sn_view v m = map (\<lambda>(k, x). (k, vval x)) (filter (\<lambda>e. valid_at (snd e) v) m)"

definition sn_copy :: "nat \<Rightarrow> nat \<Rightarrow> ('k :: linorder, 'v) ssg \<Rightarrow> (('k, 'v) ssg + ('k, 'v) ssg \<times> ('k, 'v) ssg) option" where
  "sn_copy s src g =
    (if readonly src g then Some (Inl (make_me_snapshot_of s src g))
     else if \<not> has_writable_snapshot g \<and> sn_version src g > sn_version (sn_next src g) g
     then Some (Inl (g\<lparr>sg_members := sg_members g @ [(s, sn_version src g)]\<rparr>))
     else map_option (\<lambda>n. Inr (n, g\<lparr>gc_insert_counter := 0, gc_erase_counter := 0\<rparr>))
            (sn_insert_many s (sn_view (sn_version src g) (sg_data g)) (sn_new s)))"

text \<open>
  \<open>operator=\<close> on a member \<open>s\<close> that has already left its old group through \<open>destroy_me\<close>; \<open>g\<close> is the
  group of the source after that.
\<close>

definition sn_assign :: "nat \<Rightarrow> nat \<Rightarrow> ('k :: linorder, 'v) ssg \<Rightarrow> (('k, 'v) ssg + ('k, 'v) ssg \<times> ('k, 'v) ssg) option" where
  "sn_assign s src g =
    (if readonly src g then Some (Inl (make_me_snapshot_of s src g))
     else map_option (\<lambda>n. Inr (n, g\<lparr>gc_insert_counter := 0, gc_erase_counter := 0\<rparr>))
            (sn_insert_many s (sn_view (sn_version src g) (sg_data g)) (sn_new s)))"

fun order_flips :: "version_t \<Rightarrow> (nat \<times> version_t) list \<Rightarrow> nat" where
  "order_flips v0 [] = 0"
| "order_flips v0 [(s, v)] = (if v > v0 then 1 else 0)"
| "order_flips v0 ((s, v) # (s', v') # ms) = (if v > v' then 1 else 0) + order_flips v0 ((s', v') # ms)"

definition debug_group_sanity_check :: "('k, 'v) ssg \<Rightarrow> unit option" where
  "debug_group_sanity_check g = do {
     verify (order_flips (snd (hd (sg_members g))) (sg_members g) < 2);
     case sg_writer g of
       None \<Rightarrow> Some ()
     | Some w \<Rightarrow> do {
         verify (w \<in> fst ` set (sg_members g));
         verify (sn_version w g \<ge> sn_version (sn_prev w g) g);
         verify (sn_version w g \<ge> sn_version (sn_next w g) g)
       }
   }"

subsection \<open>Invariant\<close>

definition vv_bounded :: "version_t \<Rightarrow> 'v versioned \<Rightarrow> bool" where
  "vv_bounded v x \<longleftrightarrow> created_at x \<le> v \<and> (removed_at x = - 1 \<or> removed_at x \<le> v)"

definition sg_inv :: "('k :: linorder, 'v) ssg \<Rightarrow> bool" where
  "sg_inv g \<longleftrightarrow> sg_members g \<noteq> [] \<and> distinct (map fst (sg_members g)) \<and> sorted (map snd (sg_members g))
     \<and> mmap_inv (sg_data g)
     \<and> (case sg_writer g of None \<Rightarrow> True | Some w \<Rightarrow> fst (last (sg_members g)) = w \<and>
          (\<forall>e \<in> set (sg_data g). vv_bounded (snd (last (sg_members g))) (snd e)))"

lemma sg_inv_writerD:
  assumes "sg_inv g" "sg_writer g = Some w"
  obtains ms v where "sg_members g = ms @ [(w, v)]" "sn_version w g = v" "w \<notin> fst ` set ms"
    "\<forall>e \<in> set (sg_data g). vv_bounded v (snd e)" "\<forall>m \<in> set ms. snd m \<le> v"
    "distinct (map fst ms)" "sorted (map snd ms)"
proof -
  obtain ms m where m: "sg_members g = ms @ [m]"
    using assms by (cases "sg_members g" rule: rev_cases) (auto simp: sg_inv_def)
  moreover obtain v where v: "m = (w, v)"
    using assms m by (cases m) (auto simp: sg_inv_def)
  moreover have "w \<notin> fst ` set ms" "distinct (map fst ms)" "sorted (map snd ms)" "\<forall>m \<in> set ms. snd m \<le> v"
    using assms m v by (auto simp: sg_inv_def sorted_append)
  moreover from this have "sn_version w g = v"
    using m v by (simp add: sn_version_def map_of_append map_add_def map_of_eq_None_iff[THEN iffD2])
  ultimately show thesis
    using that[of ms v] assms by (auto simp: sg_inv_def)
qed

lemma ring_prev_last:
  "w \<notin> fst ` set ms \<Longrightarrow> ring_prev w p (ms @ [(w, v)]) = (if ms = [] then p else fst (last ms))"
  by (induction ms arbitrary: p) auto

lemma has_readonly_iff:
  assumes "sg_inv g" "sg_writer g = Some w"
  shows "has_readonly_snapshot w g \<longleftrightarrow> length (sg_members g) \<noteq> 1"
proof -
  obtain ms v where ms: "sg_members g = ms @ [(w, v)]" "w \<notin> fst ` set ms"
    using assms by (rule sg_inv_writerD)
  have "ms \<noteq> [] \<Longrightarrow> fst (last ms) \<noteq> w"
    using ms(2) last_in_set[of ms] by force
  then show ?thesis
    using ms assms(2) ring_prev_last[of w ms "fst (last (sg_members g))" v]
    by (auto simp: has_readonly_snapshot_def readonly_def sn_prev_def)
qed

lemma set_ver_writer:
  assumes "sg_members g = ms @ [(w, v)]" "w \<notin> fst ` set ms"
  shows "sg_members (set_ver w v' g) = ms @ [(w, v')]"
proof -
  have "map (\<lambda>(s', x). (s', if s' = w then v' else x)) ms = ms"
    using assms(2) by (intro map_idI) force
  then show ?thesis
    using assms(1) by (simp add: set_ver_def)
qed

lemma set_ver_sel [simp]:
  "sg_data (set_ver s v g) = sg_data g" "sg_writer (set_ver s v g) = sg_writer g"
  by (simp_all add: set_ver_def)

subsection \<open>Visibility\<close>

lemma sn_view_append [simp]: "sn_view v (a @ b) = sn_view v a @ sn_view v b"
  by (simp add: sn_view_def)

lemma sn_view_simps [simp]:
  "sn_view v [] = []"
  "sn_view v (e # m) = (if valid_at (snd e) v then [(fst e, vval (snd e))] else []) @ sn_view v m"
  by (auto simp: sn_view_def split: prod.split)

lemma valid_at_next:
  assumes "vv_bounded v x" "v \<noteq> - 1"
  shows "valid_at x (v + 1) \<longleftrightarrow> valid_at x v"
proof -
  have "v < v + 1"
    using u64_less_Suc[OF assms(2), of v] by simp
  then show ?thesis
    using assms(1) by (auto simp: valid_at_def vv_bounded_def)
qed

lemma sn_view_next:
  assumes "\<forall>e \<in> set m. vv_bounded v (snd e)" "v \<noteq> - 1"
  shows "sn_view (v + 1) m = sn_view v m"
  using assms by (induction m) (auto simp: valid_at_next)

lemma mmap_insert_map:
  "map (\<lambda>(k, x). (k, f x)) (mmap_insert k x m) = mmap_insert k (f x) (map (\<lambda>(k, x). (k, f x)) m)"
  by (induction m) (auto split: prod.splits)

lemma sn_view_insert_old:
  assumes "u < v"
  shows "sn_view u (mmap_insert k (vv_new v x) m) = sn_view u m"
proof -
  have "\<not> valid_at (vv_new v x) u"
    using assms by (simp add: valid_at_def vv_new_def)
  then show ?thesis
    unfolding sn_view_def by (simp add: mmap_insert_mset)
qed

lemma sn_view_insert_new:
  assumes "mmap_inv m"
  shows "sn_view v (mmap_insert k (vv_new v x) m) = mmap_insert k x (sn_view v m)"
  using assms by (simp add: sn_view_def mmap_insert_filter mmap_insert_map valid_at_def vv_new_def)

lemma vv_bounded_new: "vv_bounded v (vv_new v x)"
  by (simp add: vv_bounded_def vv_new_def)

lemma vv_bounded_mono: "vv_bounded u x \<Longrightarrow> u \<le> v \<Longrightarrow> vv_bounded v x"
  by (auto simp: vv_bounded_def)

lemma u64_le_Suc: "(v :: u64) \<noteq> - 1 \<Longrightarrow> v \<le> v + 1"
  using u64_less_Suc[of v v] by simp

text \<open>Marking entries as removed keeps every older version.\<close>

lemma sn_view_mark_old:
  assumes "u \<le> v" "v \<noteq> - 1"
  shows "sn_view u (fst (mark_removed first P v (v + 1) m)) = sn_view u m"
proof (induction m)
  case (Cons e m)
  have "valid_at (vv_remove (v + 1) (snd e)) u = valid_at (snd e) u" if "valid_at (snd e) v"
    using that assms u64_less_Suc[OF assms(2), of u] by (auto simp: valid_at_def vv_remove_def)
  with Cons show ?case
    by (auto simp: vv_remove_def split: prod.splits)
qed simp

lemma mark_removed_keys: "map fst (fst (mark_removed first P v v' m)) = map fst m"
  by (induction m) (auto split: prod.splits)

lemma mark_removed_bounded:
  assumes "\<forall>e \<in> set m. vv_bounded v (snd e)" "v \<noteq> - 1"
  shows "\<forall>e \<in> set (fst (mark_removed first P v (v + 1) m)). vv_bounded (v + 1) (snd e)"
  using assms(1)
proof (induction m)
  case (Cons e m)
  have "vv_bounded (v + 1) (snd e)" "\<forall>e \<in> set m. vv_bounded (v + 1) (snd e)"
    using Cons.prems u64_le_Suc[OF assms(2)] by (auto intro: vv_bounded_mono)
  moreover from this(1) have "vv_bounded (v + 1) (vv_remove (v + 1) (snd e))"
    by (simp add: vv_bounded_def vv_remove_def)
  ultimately show ?case
    using Cons by (auto split: prod.splits)
qed simp

lemma sn_view_mark_new:
  assumes "\<forall>e \<in> set m. vv_bounded v (snd e)" "v \<noteq> - 1" "v \<noteq> - 2"
    and "\<And>e. P e \<longleftrightarrow> Q (fst e, vval (snd e))"
  shows "sn_view (v + 1) (fst (mark_removed False P v (v + 1) m)) = filter (\<lambda>x. \<not> Q x) (sn_view v m)"
  using assms(1)
proof (induction m)
  case (Cons e m)
  have "\<not> valid_at (vv_remove (v + 1) (snd e)) (v + 1)"
    using u64_Suc_not_max[OF assms(3)] by (simp add: valid_at_def vv_remove_def)
  moreover have "valid_at (snd e) (v + 1) = valid_at (snd e) v"
    using Cons.prems assms(2) by (simp add: valid_at_next)
  ultimately show ?case
    using Cons assms(4)[of e] by (auto simp: vv_remove_def split: prod.splits)
qed simp

subsection \<open>Abstract specification\<close>

text \<open>
  What a client sees: every member of the group has a sorted multimap of its own, and at most one of
  them is writable.
\<close>

record ('k, 'v) sn_spec =
  sp_writer :: "nat option"
  sp_content :: "nat \<rightharpoonup> ('k \<times> 'v) list"

definition sn_abs :: "('k, 'v) ssg \<Rightarrow> ('k, 'v) sn_spec" where
  "sn_abs g = \<lparr>sp_writer = sg_writer g,
     sp_content = (\<lambda>s. map_option (\<lambda>v. sn_view v (sg_data g)) (map_of (sg_members g) s))\<rparr>"

datatype 'k qrange = QAll | QEq 'k | QLt 'k | QGt 'k | QIn 'k 'k

fun q_pos :: "'k :: linorder qrange \<Rightarrow> ('k, 'v) ssg \<Rightarrow> nat \<times> nat" where
  "q_pos QAll g = q_all g"
| "q_pos (QEq k) g = q_eq k g"
| "q_pos (QLt k) g = q_lt k g"
| "q_pos (QGt k) g = q_gt k g"
| "q_pos (QIn low high) g = q_in low high g"

fun in_range :: "'k :: linorder qrange \<Rightarrow> 'k \<Rightarrow> bool" where
  "in_range QAll x = True"
| "in_range (QEq k) x = (x = k)"
| "in_range (QLt k) x = (x < k)"
| "in_range (QGt k) x = (x > k)"
| "in_range (QIn low high) x = (low < x \<and> x < high)"

datatype ('k, 'v) sn_op =
    SnInsert nat 'k 'v
  | SnInsertMany nat "('k \<times> 'v) list"
  | SnErase nat 'k
  | SnEraseKV nat 'k 'v
  | SnEraseRange nat "'k qrange"
  | SnSnapshot nat nat
  | SnGc nat
  | SnDestroy nat

text \<open>
  One call on the group. A call on an object that is not a member, a snapshot under the identity of a
  living member and the destruction of the last member (which ends the group) are no steps.
\<close>

definition sn_member :: "nat \<Rightarrow> ('k, 'v) ssg \<Rightarrow> bool" where
  "sn_member s g \<longleftrightarrow> s \<in> fst ` set (sg_members g)"

fun sn_step :: "('k :: linorder, 'v) sn_op \<Rightarrow> ('k, 'v) ssg \<Rightarrow> ('k, 'v) ssg option" where
  "sn_step (SnInsert s k v) g = sn_insert s k v g"
| "sn_step (SnInsertMany s kvs) g = sn_insert_many s kvs g"
| "sn_step (SnErase s k) g = sn_erase_key s k False g"
| "sn_step (SnEraseKV s k v) g = sn_erase_kv s k v False g"
| "sn_step (SnEraseRange s q) g = sn_erase_range s (q_pos q g) g"
| "sn_step (SnSnapshot s src) g =
    (if sn_member src g \<and> \<not> sn_member s g then Some (make_me_snapshot_of s src g) else None)"
| "sn_step (SnGc s) g = (if sn_member s g then Some (gc_run s g) else None)"
| "sn_step (SnDestroy s) g = (if sn_member s g then destroy_me s g else None)"

definition spec_write :: "nat \<Rightarrow> (('k \<times> 'v) list \<Rightarrow> ('k \<times> 'v) list) \<Rightarrow> ('k, 'v) sn_spec \<Rightarrow> ('k, 'v) sn_spec option" where
  "spec_write s f a = (if sp_writer a = Some s
     then Some (a\<lparr>sp_content := (sp_content a)(s := map_option f (sp_content a s))\<rparr>) else None)"

fun spec_step :: "('k :: linorder, 'v) sn_op \<Rightarrow> ('k, 'v) sn_spec \<Rightarrow> ('k, 'v) sn_spec option" where
  "spec_step (SnInsert s k v) a = spec_write s (mmap_insert k v) a"
| "spec_step (SnInsertMany s kvs) a = spec_write s (fold (\<lambda>(k, v). mmap_insert k v) kvs) a"
| "spec_step (SnErase s k) a = spec_write s (filter (\<lambda>x. fst x \<noteq> k)) a"
| "spec_step (SnEraseKV s k v) a = spec_write s (filter (\<lambda>x. x \<noteq> (k, v))) a"
| "spec_step (SnEraseRange s q) a = spec_write s (filter (\<lambda>x. \<not> in_range q (fst x))) a"
| "spec_step (SnSnapshot s src) a =
    (if sp_content a src \<noteq> None \<and> sp_content a s = None
     then Some (a\<lparr>sp_content := (sp_content a)(s := sp_content a src)\<rparr>) else None)"
| "spec_step (SnGc s) a = (if sp_content a s \<noteq> None then Some a else None)"
| "spec_step (SnDestroy s) a =
    (if sp_content a s \<noteq> None \<and> dom (sp_content a) \<noteq> {s}
     then Some (a\<lparr>sp_content := (sp_content a)(s := None),
                  sp_writer := (if sp_writer a = Some s then None else sp_writer a)\<rparr>) else None)"

lemma sn_member_iff: "sn_member s g \<longleftrightarrow> sp_content (sn_abs g) s \<noteq> None"
  by (simp add: sn_member_def sn_abs_def map_of_eq_None_iff)

text \<open>A write by the writer that keeps every older version changes only what the writer sees.\<close>

lemma sn_abs_write:
  assumes "sg_members g = ms @ [(w, v)]" "w \<notin> fst ` set ms" "\<forall>m \<in> set ms. snd m \<le> v"
    and "sg_members g' = ms @ [(w, v')]" "sg_writer g' = sg_writer g" "sg_writer g = Some w"
    and "\<And>u. u \<le> v \<Longrightarrow> sn_view u (sg_data g') = sn_view u (sg_data g)"
    and "sn_view v' (sg_data g') = f (sn_view v (sg_data g))"
  shows "Some (sn_abs g') = spec_write w f (sn_abs g)"
proof -
  have "sn_view u (sg_data g') = sn_view u (sg_data g)" if "map_of ms t = Some u" for t u
    using assms(3,7) map_of_SomeD[OF that] by force
  moreover have "map_of ms w = None"
    using assms(2) by (simp add: map_of_eq_None_iff)
  ultimately show ?thesis
    using assms by (auto simp: spec_write_def sn_abs_def map_add_def fun_eq_iff split: option.split)
qed

lemma sg_inv_write:
  assumes "sg_members g = ms @ [(w, v)]" "sg_inv g" "sg_writer g = Some w"
    and "sg_members g' = ms @ [(w, v')]" "sg_writer g' = Some w" "v \<le> v'"
    and "mmap_inv (sg_data g')" "\<forall>e \<in> set (sg_data g'). vv_bounded v' (snd e)"
  shows "sg_inv g'"
  using assms by (auto simp: sg_inv_def sorted_append intro: order_trans)

definition sn_room :: "('k, 'v) ssg \<Rightarrow> bool" where
  "sn_room g \<longleftrightarrow> (\<forall>w. sg_writer g = Some w \<longrightarrow> sn_version w g \<noteq> - 1 \<and> sn_version w g \<noteq> - 2)"

text \<open>The shape of every write: verified, a new version, and new data that keep the old versions.\<close>

definition sn_refines :: "nat \<Rightarrow> (('k \<times> 'v) list \<Rightarrow> ('k \<times> 'v) list) \<Rightarrow> ('k :: linorder, 'v) ssg \<Rightarrow> ('k, 'v) ssg option \<Rightarrow> bool" where
  "sn_refines s f g step \<longleftrightarrow> map_option sn_abs step = spec_write s f (sn_abs g) \<and> (\<forall>g'. step = Some g' \<longrightarrow> sg_inv g')"

lemma sn_write_refines:
  fixes g :: "('k :: linorder, 'v) ssg" and h :: "('k, 'v) ssg \<Rightarrow> ('k, 'v) ssg"
  assumes inv: "sg_inv g" and room: "sn_room g"
    and step: "step = (if writable s g then Some (h (set_ver s (sn_version s g + 1) g)) else None)"
    and mem: "\<And>x. sg_members (h x) = sg_members x" and wr: "\<And>x. sg_writer (h x) = sg_writer x"
    and ok: "\<And>ms v. \<lbrakk>sg_members g = ms @ [(s, v)]; s \<notin> fst ` set ms; v \<noteq> - 1; v \<noteq> - 2;
       \<forall>e \<in> set (sg_data g). vv_bounded v (snd e); mmap_inv (sg_data g); sg_writer g = Some s;
       sg_inv (set_ver s (v + 1) g)\<rbrakk> \<Longrightarrow>
       mmap_inv (sg_data (h (set_ver s (v + 1) g))) \<and>
       (\<forall>e \<in> set (sg_data (h (set_ver s (v + 1) g))). vv_bounded (v + 1) (snd e)) \<and>
       (\<forall>u \<le> v. ms = [] \<or> sn_view u (sg_data (h (set_ver s (v + 1) g))) = sn_view u (sg_data g)) \<and>
       sn_view (v + 1) (sg_data (h (set_ver s (v + 1) g))) = f (sn_view v (sg_data g))"
  shows "sn_refines s f g step"
proof -
  have "map_option sn_abs step = spec_write s f (sn_abs g) \<and> (\<forall>g'. step = Some g' \<longrightarrow> sg_inv g')"
  proof (cases "writable s g")
    case False
    then show ?thesis
      using step by (simp add: spec_write_def sn_abs_def writable_def)
  next
    case True
    then have w: "sg_writer g = Some s"
      by (simp add: writable_def)
    from inv w obtain ms v where ms: "sg_members g = ms @ [(s, v)]" "sn_version s g = v" "s \<notin> fst ` set ms"
      "\<forall>e \<in> set (sg_data g). vv_bounded v (snd e)" "\<forall>m \<in> set ms. snd m \<le> v"
      by (rule sg_inv_writerD)
    have v: "v \<noteq> - 1" "v \<noteq> - 2" and m: "mmap_inv (sg_data g)"
      using room w ms(2) inv by (auto simp: sn_room_def sg_inv_def)
    let ?g1 = "set_ver s (v + 1) g"
    have mem1: "sg_members ?g1 = ms @ [(s, v + 1)]" "sg_members (h ?g1) = ms @ [(s, v + 1)]"
      using set_ver_writer[OF ms(1,3)] mem by simp_all
    have bnd: "\<forall>e \<in> set (sg_data ?g1). vv_bounded (v + 1) (snd e)"
      using ms(4) u64_le_Suc[OF v(1)] by (auto intro: vv_bounded_mono)
    have inv1: "sg_inv ?g1"
      using sg_inv_write[OF ms(1) inv w mem1(1)] m w u64_le_Suc[OF v(1)] bnd by simp
    note * = ok[OF ms(1) ms(3) v ms(4) m w inv1]
    have "Some (sn_abs (h ?g1)) = spec_write s f (sn_abs g)"
    proof (cases "ms = []")
      case True
      then show ?thesis
        using ms(1) mem1(2) w wr * by (auto simp: spec_write_def sn_abs_def fun_eq_iff)
    next
      case False
      then show ?thesis
        using * wr w by (intro sn_abs_write[OF ms(1,3,5) mem1(2)]) auto
    qed
    moreover have "sg_inv (h ?g1)"
      using * sg_inv_write[OF ms(1) inv w mem1(2)] u64_le_Suc[OF v(1)] wr w by simp
    ultimately show ?thesis
      using step True ms(2) by auto
  qed
  then show ?thesis
    by (simp add: sn_refines_def)
qed

lemma fold_insert_sel:
  "sg_members (fold (\<lambda>(k, v) g. g\<lparr>sg_data := mmap_insert k (F v) (sg_data g), gc_insert_counter := gc_insert_counter g + 1\<rparr>) kvs g)
    = sg_members g"
  "sg_writer (fold (\<lambda>(k, v) g. g\<lparr>sg_data := mmap_insert k (F v) (sg_data g), gc_insert_counter := gc_insert_counter g + 1\<rparr>) kvs g)
    = sg_writer g"
  "sg_data (fold (\<lambda>(k, v) g. g\<lparr>sg_data := mmap_insert k (F v) (sg_data g), gc_insert_counter := gc_insert_counter g + 1\<rparr>) kvs g)
    = fold (\<lambda>(k, v). mmap_insert k (F v)) kvs (sg_data g)"
  by (induction kvs arbitrary: g) (auto split: prod.splits)

lemma fold_insert_view:
  assumes "mmap_inv m" "\<forall>e \<in> set m. vv_bounded v' (snd e)"
  shows "mmap_inv (fold (\<lambda>(k, v). mmap_insert k (vv_new v' v)) kvs m)"
    and "\<forall>e \<in> set (fold (\<lambda>(k, v). mmap_insert k (vv_new v' v)) kvs m). vv_bounded v' (snd e)"
    and "u < v' \<Longrightarrow> sn_view u (fold (\<lambda>(k, v). mmap_insert k (vv_new v' v)) kvs m) = sn_view u m"
    and "sn_view v' (fold (\<lambda>(k, v). mmap_insert k (vv_new v' v)) kvs m)
      = fold (\<lambda>(k, v). mmap_insert k v) kvs (sn_view v' m)"
  using assms
proof (induction kvs arbitrary: m)
  case (Cons kv kvs)
  obtain k x where kv: "kv = (k, x)" by force
  have ins: "mmap_inv (mmap_insert k (vv_new v' x) m)"
      "\<forall>e \<in> set (mmap_insert k (vv_new v' x) m). vv_bounded v' (snd e)"
    if "mmap_inv m" "\<forall>e \<in> set m. vv_bounded v' (snd e)" for m
    using that by (auto simp: mmap_inv_insert mmap_insert_set vv_bounded_new)
  { case 1 from Cons.IH(1)[OF ins[OF 1]] show ?case by (simp add: kv) }
  { case 2 from Cons.IH(2)[OF ins[OF 2]] show ?case by (simp add: kv) }
  { case 3 from Cons.IH(3)[OF 3(1) ins[OF 3(2,3)]] show ?case using 3 by (simp add: kv sn_view_insert_old) }
  { case 4 from Cons.IH(4)[OF ins[OF 4]] show ?case using 4 by (simp add: kv sn_view_insert_new) }
qed simp_all

lemma sn_version_last:
  "sg_members g = ms @ [(s, v)] \<Longrightarrow> s \<notin> fst ` set ms \<Longrightarrow> sn_version s g = v"
  by (simp add: sn_version_def map_of_append map_add_def map_of_eq_None_iff[THEN iffD2])

lemmas sn_write_simps = set_ver_sel mmap_inv_insert mmap_insert_set vv_bounded_new sn_view_insert_old
  sn_view_insert_new sn_view_next u64_less_Suc

lemma bounded_Suc: "\<forall>e \<in> set m. vv_bounded v (snd e) \<Longrightarrow> v \<noteq> - 1 \<Longrightarrow> \<forall>e \<in> set m. vv_bounded (v + 1) (snd e)"
  using u64_le_Suc[of v] by (auto intro: vv_bounded_mono)

lemma sn_insert_refines:
  fixes g :: "('k :: linorder, 'v) ssg"
  assumes "sg_inv g" "sn_room g"
  shows "sn_refines s (mmap_insert k x) g (sn_insert s k x g)"
proof -
  define h :: "('k, 'v) ssg \<Rightarrow> ('k, 'v) ssg" where
    "h g1 = g1\<lparr>sg_data := mmap_insert k (vv_new (sn_version s g + 1) x) (sg_data g1),
      gc_insert_counter := gc_insert_counter g1 + 1\<rparr>" for g1
  show ?thesis
  proof (rule sn_write_refines[OF assms, where h = h], goal_cases)
    case 1 show ?case by (simp add: sn_insert_def verify_simps Let_def h_def)
  next
    case (4 ms v)
    then show ?case
      using bounded_Suc[OF 4(5,3)] by (simp add: h_def sn_version_last[OF 4(1,2)] sn_write_simps)
  qed (simp_all add: h_def)
qed

lemma sn_insert_many_refines:
  fixes g :: "('k :: linorder, 'v) ssg"
  assumes "sg_inv g" "sn_room g"
  shows "sn_refines s (fold (\<lambda>(k, v). mmap_insert k v) kvs) g (sn_insert_many s kvs g)"
proof -
  define h :: "('k, 'v) ssg \<Rightarrow> ('k, 'v) ssg" where
    "h g1 = fold (\<lambda>(k, v) g. g\<lparr>sg_data := mmap_insert k (vv_new (sn_version s g1) v) (sg_data g),
      gc_insert_counter := gc_insert_counter g + 1\<rparr>) kvs g1" for g1
  have ver: "sn_version s (set_ver s v' g) = v'" if "sg_writer g = Some s" for v'
    using assms(1) that by (rule sg_inv_writerD) (simp add: set_ver_writer sn_version_last)
  show ?thesis
  proof (rule sn_write_refines[OF assms, where h = h], goal_cases)
    case 1 then show ?case
      using ver by (simp add: sn_insert_many_def verify_simps Let_def h_def writable_def)
  next
    case (4 ms v)
    then show ?case
      using bounded_Suc[OF 4(5,3)] fold_insert_view[where m = "sg_data g" and v' = "v + 1" and kvs = kvs]
      by (simp add: h_def fold_insert_sel ver sn_write_simps)
  qed (simp_all add: h_def fold_insert_sel)
qed

lemma mmap_inv_keys: "map fst m = map fst m' \<Longrightarrow> mmap_inv m = mmap_inv m'"
  by (simp add: mmap_inv_def)

lemma sn_erase_where_refines:
  fixes g :: "('k :: linorder, 'v) ssg"
  assumes "sg_inv g" "sn_room g"
    and PQ: "\<And>e. P e \<longleftrightarrow> Q (fst e, vval (snd e))"
    and step: "step = (if writable s g then (let v = sn_version s g; g1 = set_ver s (v + 1) g in
       if has_readonly_snapshot s g1
       then (case mark_removed False P v (v + 1) (sg_data g1) of (m, n) \<Rightarrow>
             Some (g1\<lparr>sg_data := m, gc_erase_counter := gc_erase_counter g1 + of_nat n\<rparr>))
       else Some (g1\<lparr>sg_data := filter (\<lambda>e. \<not> P e) (sg_data g1)\<rparr>)) else None)"
  shows "sn_refines s (filter (\<lambda>x. \<not> Q x)) g step"
proof -
  define h :: "('k, 'v) ssg \<Rightarrow> ('k, 'v) ssg" where
    "h g1 = (if has_readonly_snapshot s g1
       then (case mark_removed False P (sn_version s g) (sn_version s g + 1) (sg_data g1) of (m, n) \<Rightarrow>
             g1\<lparr>sg_data := m, gc_erase_counter := gc_erase_counter g1 + of_nat n\<rparr>)
       else g1\<lparr>sg_data := filter (\<lambda>e. \<not> P e) (sg_data g1)\<rparr>)" for g1
  have view: "sn_view v (filter (\<lambda>e. \<not> P e) m) = filter (\<lambda>x. \<not> Q x) (sn_view v m)" for v m
    by (induction m) (auto simp: PQ)
  show ?thesis
  proof (rule sn_write_refines[OF assms(1,2), where h = h], goal_cases)
    case 1 then show ?case
      by (simp add: step h_def Let_def split: prod.split)
  next
    case (4 ms v)
    let ?m = "sg_data g"
    have v: "sn_version s g = v"
      using 4 by (simp add: sn_version_last)
    have one: "\<not> has_readonly_snapshot s (set_ver s (v + 1) g) \<Longrightarrow> ms = []"
      using has_readonly_iff[OF 4(8)] 4(1,2,7) by (simp add: set_ver_writer)
    have "mmap_inv (fst (mark_removed False P v (v + 1) ?m))"
      using 4(6) mmap_inv_keys[OF mark_removed_keys] by blast
    then show ?case
      using 4 one bounded_Suc[OF 4(5,3)] mark_removed_bounded[OF 4(5,3), of False P]
        sn_view_mark_old[OF _ 4(3), of _ False P ?m] sn_view_mark_new[OF 4(5,3,4), of P Q, OF PQ]
      by (auto simp: h_def v view mmap_inv_filter sn_view_next split: prod.split)
  qed (simp_all add: h_def split: prod.split)
qed

lemma sn_erase_key_refines:
  assumes "sg_inv g" "sn_room g"
  shows "sn_refines s (filter (\<lambda>x. fst x \<noteq> k)) g (sn_erase_key s k False g)"
  by (rule sn_erase_where_refines[OF assms, of "\<lambda>e. fst e = k" "\<lambda>x. fst x = k"])
    (simp_all add: sn_erase_key_def verify_simps Let_def)

lemma sn_erase_kv_refines:
  assumes "sg_inv g" "sn_room g"
  shows "sn_refines s (filter (\<lambda>x. x \<noteq> (k, v))) g (sn_erase_kv s k v False g)"
  by (rule sn_erase_where_refines[OF assms, of "\<lambda>e. fst e = k \<and> vval (snd e) = v" "\<lambda>x. x = (k, v)"])
    (simp_all add: sn_erase_kv_def verify_simps Let_def)

subsection \<open>Ranges\<close>

text \<open>In a sorted multimap the positions of a query delimit exactly the keys it asks for.\<close>

lemma sorted_takeWhile_filter:
  assumes "mmap_inv m" "\<And>x y. x \<le> y \<Longrightarrow> A y \<Longrightarrow> A x"
  shows "takeWhile (\<lambda>e. A (fst e)) m = filter (\<lambda>e. A (fst e)) m"
    and "dropWhile (\<lambda>e. A (fst e)) m = filter (\<lambda>e. \<not> A (fst e)) m"
proof -
  have *: "takeWhile (\<lambda>e. A (fst e)) m = filter (\<lambda>e. A (fst e)) m \<and>
      dropWhile (\<lambda>e. A (fst e)) m = filter (\<lambda>e. \<not> A (fst e)) m"
    using assms(1)
  proof (induction m)
    case (Cons e m)
    have "\<not> A (fst e) \<Longrightarrow> \<forall>x \<in> set m. \<not> A (fst x)"
      using Cons.prems assms(2) by (fastforce simp: mmap_inv_def)
    with Cons show ?case
      by (auto simp: mmap_inv_def filter_empty_conv filter_id_conv)
  qed simp
  then show "takeWhile (\<lambda>e. A (fst e)) m = filter (\<lambda>e. A (fst e)) m"
    "dropWhile (\<lambda>e. A (fst e)) m = filter (\<lambda>e. \<not> A (fst e)) m"
    by simp_all
qed

definition low_of :: "'k :: linorder qrange \<Rightarrow> 'k \<Rightarrow> bool" where
  "low_of q x = (case q of QAll \<Rightarrow> False | QEq k \<Rightarrow> x < k | QLt k \<Rightarrow> False | QGt k \<Rightarrow> x \<le> k | QIn l h \<Rightarrow> x \<le> l)"

definition upto_of :: "'k :: linorder qrange \<Rightarrow> 'k \<Rightarrow> bool" where
  "upto_of q x = (case q of QAll \<Rightarrow> True | QEq k \<Rightarrow> x \<le> k | QLt k \<Rightarrow> x < k | QGt k \<Rightarrow> True | QIn l h \<Rightarrow> x < h)"

lemma low_upto_closed:
  "x \<le> y \<Longrightarrow> low_of q y \<Longrightarrow> low_of q x" "x \<le> y \<Longrightarrow> upto_of q y \<Longrightarrow> upto_of q x"
  by (cases q; auto simp: low_of_def upto_of_def)+

lemma in_range_low_upto: "in_range q x \<longleftrightarrow> \<not> low_of q x \<and> upto_of q x"
  by (cases q) (auto simp: low_of_def upto_of_def)

lemma takeWhile_True: "takeWhile (\<lambda>e. True) m = m" "takeWhile (\<lambda>e. False) m = []"
  by (induction m) auto

lemma q_pos_takeWhile:
  "q_pos q g = (length (takeWhile (\<lambda>e. low_of q (fst e)) (sg_data g)),
    length (takeWhile (\<lambda>e. upto_of q (fst e)) (sg_data g)))"
  by (cases q) (simp_all add: q_all_def q_eq_def q_lt_def q_gt_def q_in_def low_of_def upto_of_def
      lower_bound_def upper_bound_def takeWhile_True)

lemma q_pos_parts:
  assumes "mmap_inv (sg_data g)" "q_pos q g = (b, e)" "b \<le> e"
  shows "take b (sg_data g) = filter (\<lambda>x. low_of q (fst x)) (sg_data g)"
    and "drop e (sg_data g) = filter (\<lambda>x. \<not> upto_of q (fst x)) (sg_data g)"
    and "take (e - b) (drop b (sg_data g)) = filter (\<lambda>x. in_range q (fst x)) (sg_data g)"
proof -
  let ?m = "sg_data g"
  have b: "b = length (takeWhile (\<lambda>e. low_of q (fst e)) ?m)" and e: "e = length (takeWhile (\<lambda>e. upto_of q (fst e)) ?m)"
    using assms(2) by (simp_all add: q_pos_takeWhile)
  have L: "takeWhile (\<lambda>e. low_of q (fst e)) ?m = filter (\<lambda>e. low_of q (fst e)) ?m"
      "dropWhile (\<lambda>e. low_of q (fst e)) ?m = filter (\<lambda>e. \<not> low_of q (fst e)) ?m"
    by (rule sorted_takeWhile_filter[OF assms(1)], erule (1) low_upto_closed)+
  have U: "takeWhile (\<lambda>e. upto_of q (fst e)) ?m = filter (\<lambda>e. upto_of q (fst e)) ?m"
      "dropWhile (\<lambda>e. upto_of q (fst e)) ?m = filter (\<lambda>e. \<not> upto_of q (fst e)) ?m"
    by (rule sorted_takeWhile_filter[OF assms(1)], erule (1) low_upto_closed)+
  show take: "take b ?m = filter (\<lambda>x. low_of q (fst x)) ?m"
    using takeWhile_eq_take[of "\<lambda>e. low_of q (fst e)" ?m] b L(1) by simp
  show drop: "drop e ?m = filter (\<lambda>x. \<not> upto_of q (fst x)) ?m"
    using dropWhile_eq_drop[of "\<lambda>e. upto_of q (fst e)" ?m] e U(2) by simp
  have "drop b ?m = filter (\<lambda>x. \<not> low_of q (fst x)) ?m"
    using dropWhile_eq_drop[of "\<lambda>e. low_of q (fst e)" ?m] b L(2) by simp
  moreover have "take e ?m = filter (\<lambda>x. upto_of q (fst x)) ?m"
    using takeWhile_eq_take[of "\<lambda>e. upto_of q (fst e)" ?m] e U(1) by simp
  moreover have "set (take (e - b) (drop b ?m)) \<subseteq> set (drop b ?m)" "set (take (e - b) (drop b ?m)) \<subseteq> set (take e ?m)"
    using set_take_subset[of "e - b" "drop b ?m"] set_drop_subset[of b "take e ?m"] by (auto simp: drop_take)
  ultimately have "filter (\<lambda>x. in_range q (fst x)) (take (e - b) (drop b ?m)) = take (e - b) (drop b ?m)"
    by (auto simp: filter_id_conv in_range_low_upto)
  moreover have "filter (\<lambda>x. in_range q (fst x)) (take b ?m) = []" "filter (\<lambda>x. in_range q (fst x)) (drop e ?m) = []"
    using take drop by (auto simp: filter_empty_conv in_range_low_upto)
  moreover have "?m = take b ?m @ take (e - b) (drop b ?m) @ drop e ?m"
    using assms(3) append_take_drop_id[of "e - b" "drop b ?m"] append_take_drop_id[of b ?m] by simp
  ultimately show "take (e - b) (drop b ?m) = filter (\<lambda>x. in_range q (fst x)) ?m"
    using filter_append[of "\<lambda>x. in_range q (fst x)" "take b ?m" "take (e - b) (drop b ?m) @ drop e ?m"]
    by simp
qed

lemma view_parts:
  assumes "m = a @ x @ c" "\<forall>e \<in> set a. \<not> Q (fst e)" "\<forall>e \<in> set x. Q (fst e)" "\<forall>e \<in> set c. \<not> Q (fst e)"
  shows "sn_view v a @ sn_view v c = filter (\<lambda>z. \<not> Q (fst z)) (sn_view v m)"
proof -
  have keep: "filter (\<lambda>z. \<not> Q (fst z)) (sn_view v y) = sn_view v y" if "\<forall>e \<in> set y. \<not> Q (fst e)" for y
    using that by (induction y) auto
  have drop: "filter (\<lambda>z. \<not> Q (fst z)) (sn_view v x) = []"
    using assms(3) by (induction x) auto
  show ?thesis
    unfolding assms(1) by (simp add: keep assms(2,4) drop)
qed

lemma sn_erase_range_refines:
  fixes g :: "('k :: linorder, 'v) ssg"
  assumes "sg_inv g" "sn_room g" "fst (q_pos q g) \<le> snd (q_pos q g)"
  shows "sn_refines s (filter (\<lambda>x. \<not> in_range q (fst x))) g (sn_erase_range s (q_pos q g) g)"
proof -
  obtain b e where be: "q_pos q g = (b, e)" "b \<le> e"
    using assms(3) by (cases "q_pos q g") simp
  define h :: "('k, 'v) ssg \<Rightarrow> ('k, 'v) ssg" where
    "h g1 = g1\<lparr>sg_data := take b (sg_data g1) @
      (if has_readonly_snapshot s g1 then fst (mark_removed False (\<lambda>_. True) (sn_version s g) (sn_version s g + 1)
         (take (e - b) (drop b (sg_data g1)))) else []) @ drop e (sg_data g1)\<rparr>" for g1
  show ?thesis
  proof (rule sn_write_refines[OF assms(1,2), where h = h], goal_cases)
    case 1 then show ?case
      using be by (simp add: sn_erase_range_def verify_simps Let_def h_def)
  next
    case (4 ms v)
    let ?m = "sg_data g"
    define A X C where "A = take b ?m" and "X = take (e - b) (drop b ?m)" and "C = drop e ?m"
    define X' where "X' = (if has_readonly_snapshot s (set_ver s (v + 1) g)
       then fst (mark_removed False (\<lambda>_. True) v (v + 1) X) else [])"
    have m: "?m = A @ X @ C"
      using be(2) append_take_drop_id[of "e - b" "drop b ?m"] append_take_drop_id[of b ?m]
      by (simp add: A_def X_def C_def)
    have h: "sg_data (h (set_ver s (v + 1) g)) = A @ X' @ C"
      using 4 by (simp add: h_def sn_version_last A_def X_def C_def X'_def)
    note parts = q_pos_parts[OF 4(6) be]
    have one: "\<not> has_readonly_snapshot s (set_ver s (v + 1) g) \<Longrightarrow> ms = []"
      using has_readonly_iff[OF 4(8)] 4(1,2,7) by (simp add: set_ver_writer)
    have bX: "\<forall>e \<in> set X. vv_bounded v (snd e)" and bAC: "\<forall>e \<in> set A \<union> set C. vv_bounded v (snd e)"
      using 4(5) unfolding m by auto
    have new: "sn_view (v + 1) X' = []"
      using sn_view_mark_new[OF bX 4(3,4), of "\<lambda>_. True" "\<lambda>_. True"] by (simp add: X'_def)
    have old: "ms = [] \<or> sn_view u X' = sn_view u X" if "u \<le> v" for u
      using sn_view_mark_old[OF that 4(3), of False "\<lambda>_. True" X] one by (auto simp: X'_def)
    have "subseq (map fst X') (map fst X)"
      by (simp add: X'_def mark_removed_keys)
    then have "subseq (map fst (A @ X' @ C)) (map fst ?m)"
      unfolding m by (simp add: list_emb_append_mono)
    then have "mmap_inv (A @ X' @ C)"
      using 4(6) sorted_wrt_subseq by (force simp: mmap_inv_def)
    moreover have "\<forall>e \<in> set (A @ X' @ C). vv_bounded (v + 1) (snd e)"
      using bounded_Suc[OF 4(5,3)] mark_removed_bounded[OF bX 4(3), of False "\<lambda>_. True"] unfolding m
      by (auto simp: X'_def)
    moreover have "sn_view (v + 1) (A @ X' @ C) = filter (\<lambda>x. \<not> in_range q (fst x)) (sn_view v ?m)"
    proof -
      have "sn_view (v + 1) A = sn_view v A" "sn_view (v + 1) C = sn_view v C"
        using bAC by (auto intro: sn_view_next[OF _ 4(3)])
      moreover have "sn_view v A @ sn_view v C = filter (\<lambda>z. \<not> in_range q (fst z)) (sn_view v ?m)"
        by (rule view_parts[OF m]) (auto simp: A_def X_def C_def parts in_range_low_upto)
      ultimately show ?thesis
        by (simp add: new)
    qed
    ultimately show ?case
      using old unfolding h m by auto
  qed (simp_all add: h_def)
qed

subsection \<open>Snapshots, garbage collection, destruction\<close>

lemma ring_insert_left_at:
  "src \<notin> fst ` set a \<Longrightarrow> ring_insert_left s src (a @ (src, v) # c) = a @ (s, v) # (src, v) # c"
  by (induction a) auto

lemma sn_member_split:
  assumes "sn_member s g"
  obtains a v c where "sg_members g = a @ (s, v) # c" "s \<notin> fst ` set a"
proof -
  have "\<exists>m \<in> set (sg_members g). fst m = s"
    using assms by (auto simp: sn_member_def)
  from split_list_first_prop[OF this] obtain a m c where
    "sg_members g = a @ m # c" "fst m = s" "\<forall>y \<in> set a. fst y \<noteq> s"
    by blast
  then show thesis
    by (intro that[of a "snd m" c]) force+
qed

lemma make_me_snapshot_of_sel [simp]:
  "sg_data (make_me_snapshot_of s src g) = sg_data g"
  "sg_writer (make_me_snapshot_of s src g) = sg_writer g"
  "sg_members (make_me_snapshot_of s src g) = ring_insert_left s src (sg_members g)"
  by (simp_all add: make_me_snapshot_of_def Let_def)

lemma snapshot_refines:
  assumes "sg_inv g"
  shows "map_option sn_abs (sn_step (SnSnapshot s src) g) = spec_step (SnSnapshot s src) (sn_abs g)"
    and "sn_step (SnSnapshot s src) g = Some g' \<Longrightarrow> sg_inv g'"
proof -
  have "map_option sn_abs (sn_step (SnSnapshot s src) g) = spec_step (SnSnapshot s src) (sn_abs g) \<and>
    (sn_step (SnSnapshot s src) g = Some g' \<longrightarrow> sg_inv g')"
  proof (cases "sn_member src g \<and> \<not> sn_member s g")
    case False
    then show ?thesis
      by (auto simp: sn_member_iff)
  next
    case True
    then obtain a v c where ms: "sg_members g = a @ (src, v) # c" "src \<notin> fst ` set a"
      by (auto elim: sn_member_split)
    have s: "s \<notin> fst ` set (sg_members g)"
      using True by (simp add: sn_member_def)
    have ms': "sg_members (make_me_snapshot_of s src g) = a @ (s, v) # (src, v) # c"
      using ms by (simp add: ring_insert_left_at)
    have "map_of a s = None" "map_of c s = None" "map_of a src = None"
      using ms s by (auto simp: map_of_eq_None_iff)
    then have "map_of (a @ (s, v) # (src, v) # c) = (map_of (sg_members g))(s \<mapsto> v)" "map_of (sg_members g) src = Some v"
      using ms by (auto simp: fun_eq_iff map_add_def split: option.splits)
    then have "sn_abs (make_me_snapshot_of s src g) = (sn_abs g)\<lparr>sp_content :=
        (sp_content (sn_abs g))(s := sp_content (sn_abs g) src)\<rparr>"
      by (auto simp: sn_abs_def ms' fun_eq_iff simp del: make_me_snapshot_of_sel(3))
    moreover have "sg_inv (make_me_snapshot_of s src g)"
      using assms s ms by (auto simp: sg_inv_def ring_insert_left_at sorted_append split: option.splits)
    ultimately show ?thesis
      using True by (auto simp: sn_member_iff)
  qed
  then show "map_option sn_abs (sn_step (SnSnapshot s src) g) = spec_step (SnSnapshot s src) (sn_abs g)"
    "sn_step (SnSnapshot s src) g = Some g' \<Longrightarrow> sg_inv g'"
    by blast+
qed

lemma gc_bounds_fold:
  fixes ms :: "(nat \<times> version_t) list"
  shows "fold (\<lambda>(s', v) (low, high). (if v < low then v else low, if v > high then v else high)) ms (l, - 1) = (low, high)
    \<Longrightarrow> high = - 1 \<and> low \<le> l \<and> (\<forall>m \<in> set ms. low \<le> snd m)"
proof (induction ms arbitrary: l)
  case (Cons m ms)
  obtain s v where m: "m = (s, v)" by force
  from Cons.prems m have "fold (\<lambda>(s', v) (low, high). (if v < low then v else low, if v > high then v else high)) ms
      (if v < l then v else l, - 1) = (low, high)"
    by simp
  from Cons.IH[OF this] m show ?case
    by (auto split: if_splits intro: order_trans less_imp_le)
qed simp

lemma gc_run_view:
  assumes "m \<in> set (sg_members g)"
  shows "sn_view (snd m) (sg_data (gc_run s g)) = sn_view (snd m) (sg_data g)"
proof -
  obtain low high where b: "gc_bounds s g = (low, high)" by force
  then have *: "high = - 1" "low \<le> snd m"
    using gc_bounds_fold[of "sg_members g"] assms by (auto simp: gc_bounds_def)
  have "valid_at x (snd m) \<Longrightarrow> \<not> (removed_at x \<noteq> - 1 \<and> removed_at x < low)" for x :: "'b versioned"
    using *(2) by (auto simp: valid_at_def)
  then show ?thesis
    using *(1) by (auto simp: gc_run_def b sn_view_def conj_commute intro!: arg_cong2[where f = map] filter_cong)
qed

lemma gc_run_sel [simp]:
  "sg_members (gc_run s g) = sg_members g" "sg_writer (gc_run s g) = sg_writer g"
  by (simp_all add: gc_run_def split: prod.split)

lemma gc_run_inv: "sg_inv g \<Longrightarrow> sg_inv (gc_run s g)"
  by (auto simp: sg_inv_def gc_run_def mmap_inv_filter split: prod.splits option.splits)

lemma gc_run_abs: "sn_abs (gc_run s g) = sn_abs g"
proof -
  have "map_option (\<lambda>v. sn_view v (sg_data (gc_run s g))) (map_of (sg_members g) t)
      = map_option (\<lambda>v. sn_view v (sg_data g)) (map_of (sg_members g) t)" for t
  proof (cases "map_of (sg_members g) t")
    case (Some v)
    then show ?thesis
      using gc_run_view[OF map_of_SomeD[OF Some], of s] by simp
  qed simp
  then show ?thesis
    by (simp add: sn_abs_def)
qed

lemma ring_prev_other: "p \<noteq> s \<Longrightarrow> ring_prev s p ms \<noteq> s"
proof (induction ms arbitrary: p)
  case (Cons m ms)
  then show ?case by (cases m) simp
qed simp

lemma sn_prev_self_iff:
  assumes "sg_inv g" "sn_member s g"
  shows "sn_prev s g = s \<longleftrightarrow> length (sg_members g) = 1"
proof -
  obtain s' v rest where ms: "sg_members g = (s', v) # rest" and d: "distinct (map fst (sg_members g))"
    using assms(1) by (cases "sg_members g") (auto simp: sg_inv_def)
  show ?thesis
  proof (cases "s' = s")
    case True
    then have "rest \<noteq> [] \<Longrightarrow> fst (last rest) \<noteq> s"
      using d ms last_in_set[of rest] by force
    then show ?thesis
      using True ms by (auto simp: sn_prev_def)
  next
    case False
    then show ?thesis
      using ring_prev_other[OF False] assms(2) ms by (auto simp: sn_prev_def sn_member_def)
  qed
qed

lemma members_one_iff:
  assumes "sg_inv g" "sn_member s g"
  shows "length (sg_members g) = 1 \<longleftrightarrow> dom (sp_content (sn_abs g)) = {s}"
proof -
  let ?D = "set (map fst (sg_members g))"
  have dom: "dom (sp_content (sn_abs g)) = ?D"
    by (simp add: sn_abs_def dom_map_option dom_map_of_conv_image_fst)
  have card: "card ?D = length (sg_members g)"
    using assms(1) distinct_card[of "map fst (sg_members g)"] by (simp add: sg_inv_def)
  have one: "s \<in> D \<Longrightarrow> card D = 1 \<longleftrightarrow> D = {s}" for D :: "nat set"
    by (auto simp: card_1_singleton_iff)
  have "s \<in> ?D"
    using assms(2) by (simp add: sn_member_def)
  from one[OF this] show ?thesis
    unfolding dom card .
qed

lemma destroy_refines:
  assumes "sg_inv g"
  shows "map_option sn_abs (sn_step (SnDestroy s) g) = spec_step (SnDestroy s) (sn_abs g)"
    and "sn_step (SnDestroy s) g = Some g' \<Longrightarrow> sg_inv g'"
proof -
  have "map_option sn_abs (sn_step (SnDestroy s) g) = spec_step (SnDestroy s) (sn_abs g) \<and>
    (sn_step (SnDestroy s) g = Some g' \<longrightarrow> sg_inv g')"
  proof (cases "sn_member s g \<and> length (sg_members g) \<noteq> 1")
    case False
    then show ?thesis
      using sn_prev_self_iff[OF assms, of s] members_one_iff[OF assms, of s]
      by (auto simp: destroy_me_def Let_def sn_member_iff)
  next
    case True
    define g1 where "g1 = (if sg_writer g = Some s then g\<lparr>sg_writer := None\<rparr> else g)"
    define g2 where "g2 = g1\<lparr>sg_members := filter (\<lambda>m. fst m \<noteq> s) (sg_members g1)\<rparr>"
    have sel: "sg_data g2 = sg_data g" "sg_members g2 = filter (\<lambda>m. fst m \<noteq> s) (sg_members g)"
        "sg_writer g2 = (if sg_writer g = Some s then None else sg_writer g)"
      by (simp_all add: g2_def g1_def)
    have abs: "sn_abs g2 = (sn_abs g)\<lparr>sp_content := (sp_content (sn_abs g))(s := None),
        sp_writer := (if sg_writer g = Some s then None else sg_writer g)\<rparr>"
      using smap_lookup_erase[of s "sg_members g"]
      by (auto simp: sn_abs_def sel smap_erase_def fun_eq_iff)
    have "\<exists>m \<in> set (sg_members g). fst m \<noteq> s"
    proof (rule ccontr)
      assume "\<not> ?thesis"
      then have "set (map fst (sg_members g)) \<subseteq> {s}"
        by auto
      then have "length (sg_members g) \<le> 1"
        using assms card_mono[of "{s}" "set (map fst (sg_members g))"] distinct_card[of "map fst (sg_members g)"]
        by (simp add: sg_inv_def)
      then show False
        using True assms by (cases "sg_members g") (auto simp: sg_inv_def)
    qed
    moreover have "distinct (map fst (sg_members g2))" "sorted (map snd (sg_members g2))"
      using assms by (auto simp: sel sg_inv_def distinct_map_filter sorted_filter)
    moreover have "sg_writer g2 = Some w \<Longrightarrow> last (sg_members g2) = last (sg_members g)" for w
      using assms True by (cases "sg_members g" rule: rev_cases) (auto simp: sel sg_inv_def split: if_splits)
    ultimately have inv: "sg_inv g2"
      using assms by (auto simp: sg_inv_def sel filter_empty_conv split: option.splits if_splits)
    have step: "sn_step (SnDestroy s) g = Some (if sg_writer g = Some s \<and> gc_counter g \<ge> 16 \<and> gc_counter g \<ge> gc_size g div 2
        then gc_run (sn_next s g) g2 else g2)"
      using True sn_prev_self_iff[OF assms, of s] by (simp add: destroy_me_def Let_def g2_def g1_def)
    have "dom (sp_content (sn_abs g)) \<noteq> {s}" "sp_content (sn_abs g) s \<noteq> None"
      using True members_one_iff[OF assms, of s] sn_member_iff[of s g] by auto
    then have "spec_step (SnDestroy s) (sn_abs g) = Some (sn_abs g2)"
      using abs by (simp add: sn_abs_def)
    then show ?thesis
      using inv gc_run_abs[of _ g2] gc_run_inv[OF inv] unfolding step by auto
  qed
  then show "map_option sn_abs (sn_step (SnDestroy s) g) = spec_step (SnDestroy s) (sn_abs g)"
    "sn_step (SnDestroy s) g = Some g' \<Longrightarrow> sg_inv g'"
    by blast+
qed

subsection \<open>Simulation\<close>

text \<open>\<open>query_in\<close> is defined for \<open>low < high\<close> only: otherwise its begin lies behind its end.\<close>

fun q_ok :: "'k :: linorder qrange \<Rightarrow> bool" where
  "q_ok (QIn low high) = (low < high)"
| "q_ok _ = True"

fun sn_op_ok :: "('k :: linorder, 'v) sn_op \<Rightarrow> bool" where
  "sn_op_ok (SnEraseRange s q) = q_ok q"
| "sn_op_ok _ = True"

lemma takeWhile_length_mono: "(\<And>x. P x \<Longrightarrow> Q x) \<Longrightarrow> length (takeWhile P m) \<le> length (takeWhile Q m)"
  by (induction m) auto

lemma q_ok_pos:
  assumes "q_ok q"
  shows "fst (q_pos q g) \<le> snd (q_pos q g)"
  using assms
  by (cases q) (auto simp: q_pos_takeWhile low_of_def upto_of_def intro!: takeWhile_length_mono)

lemma sn_step_refines:
  assumes "sg_inv g" "sn_room g" "sn_op_ok a"
  shows "map_option sn_abs (sn_step a g) = spec_step a (sn_abs g)" "sn_step a g = Some g' \<Longrightarrow> sg_inv g'"
proof -
  have "map_option sn_abs (sn_step a g) = spec_step a (sn_abs g) \<and> (sn_step a g = Some g' \<longrightarrow> sg_inv g')"
  proof (cases a)
    case (SnInsert s k v)
    then show ?thesis
      using sn_insert_refines[OF assms(1,2), of s k v] by (simp add: sn_refines_def)
  next
    case (SnInsertMany s kvs)
    then show ?thesis
      using sn_insert_many_refines[OF assms(1,2), of s kvs] by (simp add: sn_refines_def)
  next
    case (SnErase s k)
    then show ?thesis
      using sn_erase_key_refines[OF assms(1,2), of s k] by (simp add: sn_refines_def)
  next
    case (SnEraseKV s k v)
    then show ?thesis
      using sn_erase_kv_refines[OF assms(1,2), of s k v] by (simp add: sn_refines_def)
  next
    case (SnEraseRange s q)
    then show ?thesis
      using sn_erase_range_refines[OF assms(1,2) q_ok_pos, of q s] assms(3)
      by (simp add: sn_refines_def)
  next
    case (SnSnapshot s src)
    then show ?thesis
      using snapshot_refines[OF assms(1), of s src] by blast
  next
    case (SnGc s)
    then show ?thesis
      using gc_run_abs[of s g] gc_run_inv[OF assms(1), of s] by (auto simp: sn_member_iff)
  next
    case (SnDestroy s)
    then show ?thesis
      using destroy_refines[OF assms(1), of s] by blast
  qed
  then show "map_option sn_abs (sn_step a g) = spec_step a (sn_abs g)" "sn_step a g = Some g' \<Longrightarrow> sg_inv g'"
    by blast+
qed

text \<open>The version of the writer grows by at most one per call.\<close>

definition writer_ver :: "('k, 'v) ssg \<Rightarrow> nat" where
  "writer_ver g = (case sg_writer g of None \<Rightarrow> 0 | Some w \<Rightarrow> unat (sn_version w g))"

lemma sn_write_ver:
  assumes "sg_inv g" "sn_room g" "sg_writer g = Some s"
    "sg_members g' = sg_members (set_ver s (sn_version s g + 1) g)" "sg_writer g' = sg_writer g"
  shows "writer_ver g' = Suc (writer_ver g)"
proof -
  from assms(1,3) obtain ms v where ms: "sg_members g = ms @ [(s, v)]" "sn_version s g = v" "s \<notin> fst ` set ms"
    by (rule sg_inv_writerD)
  then have "sg_members g' = ms @ [(s, v + 1)]"
    using assms(4) by (simp add: set_ver_writer)
  then have "sn_version s g' = v + 1"
    using ms(3) by (rule sn_version_last)
  then show ?thesis
    using assms ms(2) by (simp add: writer_ver_def sn_room_def u64_unat_Suc)
qed

lemma sn_step_ver:
  assumes "sg_inv g" "sn_room g" "sn_step a g = Some g'"
  shows "writer_ver g' \<le> Suc (writer_ver g)"
proof (cases a)
  case (SnInsert s k v)
  then show ?thesis
    using assms sn_write_ver[OF assms(1,2), of s g']
    by (auto simp: sn_insert_def verify_simps Let_def writable_def split: if_splits)
next
  case (SnInsertMany s kvs)
  then show ?thesis
    using assms sn_write_ver[OF assms(1,2), of s g']
    by (auto simp: sn_insert_many_def verify_simps Let_def writable_def fold_insert_sel split: if_splits)
next
  case (SnErase s k)
  then show ?thesis
    using assms sn_write_ver[OF assms(1,2), of s g']
    by (auto simp: sn_erase_key_def verify_simps Let_def writable_def split: if_splits prod.splits)
next
  case (SnEraseKV s k v)
  then show ?thesis
    using assms sn_write_ver[OF assms(1,2), of s g']
    by (auto simp: sn_erase_kv_def verify_simps Let_def writable_def split: if_splits prod.splits)
next
  case (SnEraseRange s q)
  then show ?thesis
    using assms sn_write_ver[OF assms(1,2), of s g']
    by (auto simp: sn_erase_range_def verify_simps Let_def writable_def split: if_splits prod.splits)
next
  case (SnGc s)
  then show ?thesis
    using assms(3) by (auto simp: writer_ver_def sn_version_def split: if_splits option.splits)
next
  case (SnSnapshot s src)
  then have s: "sn_member src g" "\<not> sn_member s g" and g': "g' = make_me_snapshot_of s src g"
    using assms(3) by (auto split: if_splits)
  obtain a v c where ms: "sg_members g = a @ (src, v) # c" "src \<notin> fst ` set a"
    using s(1) by (rule sn_member_split)
  show ?thesis
  proof (cases "sg_writer g")
    case (Some w)
    then have "w \<noteq> s"
      using s(2) assms(1) last_in_set[of "sg_members g"] by (auto simp: sg_inv_def sn_member_def)
    then have "sn_version w g' = sn_version w g"
      using ms g' by (simp add: sn_version_def ring_insert_left_at map_add_def split: option.splits)
    then show ?thesis
      using Some g' by (simp add: writer_ver_def)
  qed (simp add: g' writer_ver_def)
next
  case (SnDestroy s)
  define g2 where "g2 = g\<lparr>sg_members := filter (\<lambda>m. fst m \<noteq> s) (sg_members g)\<rparr>"
  have "sg_members g' = sg_members g2" "sg_writer g' = (if sg_writer g = Some s then None else sg_writer g)"
    using assms(3) SnDestroy by (auto simp: destroy_me_def Let_def g2_def split: if_splits)
  moreover have "sn_version w g2 = sn_version w g" if "w \<noteq> s" for w
    using smap_lookup_erase[of s "sg_members g"] that by (simp add: sn_version_def g2_def smap_erase_def)
  ultimately show ?thesis
    by (auto simp: writer_ver_def sn_version_def split: option.splits if_splits)
qed

lemma writer_ver_room: "writer_ver g < 2 ^ 64 - 2 \<Longrightarrow> sn_room g"
  by (auto simp: sn_room_def writer_ver_def u64_unat_minus_1)

fun sn_run :: "('k :: linorder, 'v) sn_op list \<Rightarrow> ('k, 'v) ssg \<Rightarrow> ('k, 'v) ssg option" where
  "sn_run [] g = Some g"
| "sn_run (a # as) g = Option.bind (sn_step a g) (sn_run as)"

fun spec_run :: "('k :: linorder, 'v) sn_op list \<Rightarrow> ('k, 'v) sn_spec \<Rightarrow> ('k, 'v) sn_spec option" where
  "spec_run [] x = Some x"
| "spec_run (a # as) x = Option.bind (spec_step a x) (spec_run as)"

lemma sn_run_refines:
  assumes "sg_inv g" "writer_ver g + length as < 2 ^ 64 - 2" "\<forall>a \<in> set as. sn_op_ok a"
  shows "map_option sn_abs (sn_run as g) = spec_run as (sn_abs g)" "\<And>g'. sn_run as g = Some g' \<Longrightarrow> sg_inv g'"
proof -
  have "map_option sn_abs (sn_run as g) = spec_run as (sn_abs g) \<and> (\<forall>g'. sn_run as g = Some g' \<longrightarrow> sg_inv g')"
    using assms
  proof (induction as arbitrary: g)
    case (Cons a as)
    have room: "sn_room g"
      using Cons.prems(2) by (intro writer_ver_room) simp
    note ref = sn_step_refines[OF Cons.prems(1) room, of a]
    show ?case
    proof (cases "sn_step a g")
      case None
      then show ?thesis
        using ref(1) Cons.prems(3) by (cases "spec_step a (sn_abs g)") auto
    next
      case (Some g1)
      then have "spec_step a (sn_abs g) = Some (sn_abs g1)" "sg_inv g1"
        using ref Cons.prems(3) by auto
      moreover have "writer_ver g1 + length as < 2 ^ 64 - 2"
        using sn_step_ver[OF Cons.prems(1) room Some] Cons.prems(2) by simp
      ultimately show ?thesis
        using Cons.IH[of g1] Cons.prems(3) Some by simp
    qed
  qed simp
  then show "map_option sn_abs (sn_run as g) = spec_run as (sn_abs g)" "\<And>g'. sn_run as g = Some g' \<Longrightarrow> sg_inv g'"
    by blast+
qed

lemma sn_new_inv: "sg_inv (sn_new w)"
  by (simp add: sg_inv_def sn_new_def mmap_inv_def)

lemma sn_new_ver: "writer_ver (sn_new w) = 0"
  by (simp add: writer_ver_def sn_new_def sn_version_def)

lemma order_flips_sorted: "sorted (map snd ms) \<Longrightarrow> order_flips v ms \<le> 1"
  by (induction v ms rule: order_flips.induct) auto

lemma ring_next_last: "w \<notin> fst ` set ms \<Longrightarrow> ring_next w p (ms @ [(w, v)]) = p"
proof (induction ms)
  case (Cons m ms)
  then show ?case
    by (cases m; cases ms) auto
qed simp

lemma sn_version_member: "distinct (map fst (sg_members g)) \<Longrightarrow> (s, v) \<in> set (sg_members g) \<Longrightarrow> sn_version s g = v"
  by (simp add: sn_version_def)

lemma sanity_check_inv:
  assumes "sg_inv g"
  shows "debug_group_sanity_check g = Some ()"
proof -
  have flips: "order_flips (snd (hd (sg_members g))) (sg_members g) < 2"
    using order_flips_sorted[of "sg_members g" "snd (hd (sg_members g))"] assms by (simp add: sg_inv_def)
  show ?thesis
  proof (cases "sg_writer g")
    case (Some w)
    obtain ms v where ms: "sg_members g = ms @ [(w, v)]" "sn_version w g = v" "w \<notin> fst ` set ms" "\<forall>m \<in> set ms. snd m \<le> v"
      using assms Some by (rule sg_inv_writerD)
    have le: "sn_version t g \<le> v" if "(t, u) \<in> set (sg_members g)" for t u
      using that ms sn_version_member[OF _ that] assms by (auto simp: sg_inv_def)
    have "sn_version (fst (last ms)) g \<le> v" if "ms \<noteq> []"
      using le[of "fst (last ms)" "snd (last ms)"] that ms(1) by simp
    then have "sn_version (sn_prev w g) g \<le> v"
      using le ms(1,2) ring_prev_last[OF ms(3)] by (cases "ms = []") (auto simp: sn_prev_def)
    moreover have "sn_version (sn_next w g) g \<le> v"
      using le[of "fst (hd (sg_members g))" "snd (hd (sg_members g))"] ms(1) ring_next_last[OF ms(3)]
      by (cases ms) (simp_all add: sn_next_def)
    moreover have "w \<in> fst ` set (sg_members g)"
      using ms(1) by simp
    ultimately show ?thesis
      using flips Some ms(2) by (simp add: debug_group_sanity_check_def verify_simps)
  qed (use flips in \<open>simp add: debug_group_sanity_check_def verify_simps\<close>)
qed

subsection \<open>Cursors\<close>

declare rg_prefetch_next.simps [simp del]

lemma rg_prefetch_view:
  assumes "rg_cached c = None" "rg_prefetch_next c = (b, c')"
  shows "rg_version c' = rg_version c \<and> rg_items c' = rg_items c \<and> rg_next c' \<ge> rg_next c \<and>
    (if b then \<exists>x. rg_cached c' = Some x \<and> rg_next c' > rg_next c \<and>
       sn_view (rg_version c) (drop (rg_next c) (rg_items c)) = x # sn_view (rg_version c) (drop (rg_next c') (rg_items c))
     else rg_cached c' = None \<and> sn_view (rg_version c) (drop (rg_next c) (rg_items c)) = [])"
  using assms
proof (induction c arbitrary: b c' rule: rg_prefetch_next.induct)
  case (1 c)
  show ?case
  proof (cases "rg_next c < length (rg_items c)")
    case False
    then show ?thesis
      using "1.prems" by (auto simp: rg_prefetch_next.simps[of c])
  next
    case True
    define e where "e = rg_items c ! rg_next c"
    have split: "drop (rg_next c) (rg_items c) = e # drop (rg_next c + 1) (rg_items c)"
      using True by (simp add: e_def Cons_nth_drop_Suc)
    show ?thesis
    proof (cases "valid_at (snd e) (rg_version c)")
      case v: True
      then have "b \<and> c' = c\<lparr>rg_cached := Some (fst e, vval (snd e)), rg_next := rg_next c + 1\<rparr>"
        using "1.prems" True by (auto simp: rg_prefetch_next.simps e_def Let_def)
      then show ?thesis
        using v by (simp add: split)
    next
      case v: False
      define c1 where "c1 = c\<lparr>rg_cached := None, rg_next := rg_next c + 1\<rparr>"
      have "rg_prefetch_next c1 = (b, c')"
        using "1.prems" True v by (simp add: rg_prefetch_next.simps[of c] e_def Let_def c1_def)
      from "1.IH"[of e b c'] this True v "1.prems"(1) show ?thesis
        by (auto simp: c1_def e_def split split: if_splits)
    qed
  qed
qed

text \<open>A client loop \<open>while (range) range.next()\<close> with at most \<open>n\<close> rounds.\<close>

fun rg_drain :: "nat \<Rightarrow> ('k, 'v) snapshot_range \<Rightarrow> ('k \<times> 'v) list option" where
  "rg_drain 0 c = None"
| "rg_drain (Suc n) c = (case rg_has_next c of (has, c1) \<Rightarrow>
     if has then do {
       (x, c2) \<leftarrow> rg_next_item c1;
       xs \<leftarrow> rg_drain n c2;
       Some (x # xs)
     }
     else Some [])"

lemma rg_drain_view:
  assumes "rg_cached c = None" "n > length (rg_items c) - rg_next c"
  shows "rg_drain n c = Some (sn_view (rg_version c) (drop (rg_next c) (rg_items c)))"
  using assms
proof (induction n arbitrary: c)
  case (Suc n)
  obtain b c1 where c1: "rg_prefetch_next c = (b, c1)" by force
  note pre = rg_prefetch_view[OF Suc.prems(1) c1]
  show ?case
  proof (cases b)
    case False
    then show ?thesis
      using pre c1 Suc.prems(1) by (simp add: rg_has_next_def)
  next
    case True
    then obtain x where x: "rg_cached c1 = Some x" "rg_next c1 > rg_next c"
        "sn_view (rg_version c) (drop (rg_next c) (rg_items c)) = x # sn_view (rg_version c) (drop (rg_next c1) (rg_items c))"
      using pre by auto
    have "rg_next c < length (rg_items c)"
      using x(3) by (cases "rg_next c < length (rg_items c)") auto
    then have "rg_drain n (c1\<lparr>rg_cached := None\<rparr>) = Some (sn_view (rg_version c) (drop (rg_next c1) (rg_items c)))"
      using Suc.IH[of "c1\<lparr>rg_cached := None\<rparr>"] Suc.prems(2) x(2) pre by simp
    then show ?thesis
      using True c1 x Suc.prems(1) by (simp add: rg_has_next_def rg_next_item_def verify_simps)
  qed
qed simp

lemma view_filter_keys:
  "sn_view v (filter (\<lambda>e. Q (fst e)) m) = filter (\<lambda>x. Q (fst x)) (sn_view v m)"
  by (induction m) auto

text \<open>What the abstract group promises of a member that is not the writer.\<close>

lemma spec_step_keeps:
  assumes "spec_step a x = Some y" "sp_content x s \<noteq> None" "sp_writer x \<noteq> Some s" "a \<noteq> SnDestroy s"
  shows "sp_content y s = sp_content x s \<and> sp_writer y \<noteq> Some s"
  using assms by (cases a) (auto simp: spec_write_def split: if_splits)

lemma spec_run_keeps:
  assumes "spec_run as x = Some y" "sp_content x s \<noteq> None" "sp_writer x \<noteq> Some s" "SnDestroy s \<notin> set as"
  shows "sp_content y s = sp_content x s"
  using assms
proof (induction as arbitrary: x)
  case (Cons a as)
  then obtain z where "spec_step a x = Some z" "spec_run as z = Some y"
    by (cases "spec_step a x") auto
  then show ?case
    using Cons spec_step_keeps[of a x z s] by auto
qed simp

lemma sn_run_append: "sn_run (as @ bs) g = Option.bind (sn_run as g) (sn_run bs)"
  by (induction as arbitrary: g) (auto split: bind_splits)

lemma spec_run_append: "spec_run (as @ bs) g = Option.bind (spec_run as g) (spec_run bs)"
  by (induction as arbitrary: g) (auto split: bind_splits)

lemma sn_run_new_inv:
  assumes "sn_run as (sn_new w) = Some g" "length as < 2 ^ 64 - 2" "\<forall>a \<in> set as. sn_op_ok a"
  shows "sg_inv g"
  using sn_run_refines(2)[OF sn_new_inv[of w], of as g] assms by (simp add: sn_new_ver)

lemma sn_run_ver:
  assumes "sg_inv g" "writer_ver g + length as < 2 ^ 64 - 2" "\<forall>a \<in> set as. sn_op_ok a" "sn_run as g = Some g'"
  shows "writer_ver g' \<le> writer_ver g + length as"
  using assms
proof (induction as arbitrary: g)
  case (Cons a as)
  then obtain g1 where g1: "sn_step a g = Some g1" "sn_run as g1 = Some g'"
    by (cases "sn_step a g") auto
  have room: "sn_room g"
    using Cons.prems(2) by (intro writer_ver_room) simp
  show ?case
    using Cons.IH[of g1] g1 Cons.prems sn_step_ver[OF Cons.prems(1) room g1(1)]
      sn_step_refines(2)[OF Cons.prems(1) room, of a g1] by simp
qed simp

lemma sn_content_view: "sn_member s g \<Longrightarrow> sp_content (sn_abs g) s = Some (sn_view (sn_version s g) (sg_data g))"
  by (cases "map_of (sg_members g) s") (simp_all add: sn_member_iff sn_abs_def sn_version_def)

lemma sn_view_rev: "sn_view v (rev m) = rev (sn_view v m)"
  by (simp add: sn_view_def rev_filter rev_map)

lemma drain_inv:
  assumes "sg_inv g" "q_ok q" "n > length (sg_data g)"
  shows "rg_drain n (rg_new v (range_items (q_pos q g) g)) = Some (filter (\<lambda>x. in_range q (fst x)) (sn_view v (sg_data g)))"
    and "rg_drain n (rg_new v (reverse_range_items (q_pos q g) g)) = Some (rev (filter (\<lambda>x. in_range q (fst x)) (sn_view v (sg_data g))))"
    and "fst (rg_count_items (rg_new v (range_items (q_pos q g) g))) = int (length (filter (\<lambda>x. in_range q (fst x)) (sn_view v (sg_data g))))"
proof -
  obtain b e where be: "q_pos q g = (b, e)" "b \<le> e"
    using q_ok_pos[OF assms(2), of g] by (cases "q_pos q g") simp
  have items: "range_items (q_pos q g) g = filter (\<lambda>x. in_range q (fst x)) (sg_data g)"
    using q_pos_parts(3)[OF _ be] assms(1) be(1) by (simp add: range_items_def sg_inv_def)
  have "length (filter (\<lambda>x. in_range q (fst x)) (sg_data g)) < n"
    using length_filter_le[of "\<lambda>x. in_range q (fst x)" "sg_data g"] assms(3) by linarith
  then show "rg_drain n (rg_new v (range_items (q_pos q g) g)) = Some (filter (\<lambda>x. in_range q (fst x)) (sn_view v (sg_data g)))"
      "rg_drain n (rg_new v (reverse_range_items (q_pos q g) g)) = Some (rev (filter (\<lambda>x. in_range q (fst x)) (sn_view v (sg_data g))))"
    using rg_drain_view[of "rg_new v (range_items (q_pos q g) g)" n]
      rg_drain_view[of "rg_new v (reverse_range_items (q_pos q g) g)" n]
    by (simp_all add: rg_new_def items reverse_range_items_def view_filter_keys sn_view_rev)
  have "length (filter (\<lambda>e. valid_at (snd e) v) m) = length (sn_view v m)" for m :: "('a, 'b) vmap"
    by (simp add: sn_view_def)
  then show "fst (rg_count_items (rg_new v (range_items (q_pos q g) g))) = int (length (filter (\<lambda>x. in_range q (fst x)) (sn_view v (sg_data g))))"
    by (simp add: rg_count_items_def rg_new_def items Let_def view_filter_keys[symmetric] del: filter_filter)
qed

subsection \<open>Properties\<close>

text \<open>C9: A group that starts as one fresh writer refines the abstract group after every sequence of
  calls: inserts, bulk inserts, erasures of keys, pairs and ranges, snapshots, garbage collections and
  destructions succeed exactly when the abstract group allows them and give every member exactly the
  sorted multimap the abstract group gives it (for fewer than \<open>2 ^ 64 - 2\<close> calls, so that the version
  counter does not reach the reserved value \<open>-1\<close>).\<close>

theorem snapshot_group_refines:
  assumes "length as < 2 ^ 64 - 2" "\<forall>a \<in> set as. sn_op_ok a"
  shows "map_option sn_abs (sn_run as (sn_new w)) = spec_run as (sn_abs (sn_new w))"
  using sn_run_refines(1)[OF sn_new_inv[of w], of as] assms by (simp add: sn_new_ver)

theorem snapshot_group_refines_witness:
  "map_option sn_abs (sn_run [SnInsert 0 (5 :: int) ''a'', SnSnapshot 1 0, SnErase 0 5, SnGc 1] (sn_new 0))
    = spec_run [SnInsert 0 5 ''a'', SnSnapshot 1 0, SnErase 0 5, SnGc 1] (sn_abs (sn_new 0))
   \<and> sn_run [SnInsert 0 (5 :: int) ''a'', SnSnapshot 1 0, SnErase 0 5, SnGc 1] (sn_new 0) \<noteq> None"
  using snapshot_group_refines[of "[SnInsert 0 (5 :: int) ''a'', SnSnapshot 1 0, SnErase 0 5, SnGc 1]" 0]
  by (simp add: sn_new_def sn_insert_def sn_erase_key_def verify_simps Let_def writable_def readonly_def
      sn_member_def make_me_snapshot_of_def has_readonly_snapshot_def set_ver_def sn_version_def sn_prev_def
      vv_new_def valid_at_def split: prod.split)

text \<open>C21: Snapshot isolation: whatever calls follow on the group, a read-only snapshot that is not
  destroyed keeps showing exactly the pairs it showed before them.\<close>

theorem snapshot_isolation:
  assumes "sn_run as (sn_new w) = Some g" "sn_run bs g = Some g'"
    and "length (as @ bs) < 2 ^ 64 - 2" "\<forall>a \<in> set (as @ bs). sn_op_ok a"
    and "sn_member s g" "readonly s g" "SnDestroy s \<notin> set bs"
  shows "sn_member s g' \<and> sn_view (sn_version s g') (sg_data g') = sn_view (sn_version s g) (sg_data g)"
proof -
  have "sg_inv g"
    using sn_run_new_inv[OF assms(1)] assms(3,4) by simp
  moreover have "writer_ver g + length bs < 2 ^ 64 - 2"
    using sn_run_ver[OF sn_new_inv _ _ assms(1)] assms(3,4) by (simp add: sn_new_ver)
  ultimately have "spec_run bs (sn_abs g) = Some (sn_abs g')"
    using sn_run_refines(1)[of g bs] assms(2,4) by simp
  then have "sp_content (sn_abs g') s = sp_content (sn_abs g) s"
    by (rule spec_run_keeps)
      (use assms(5-7) in \<open>simp_all add: sn_member_iff readonly_def sn_abs_def\<close>)
  then show ?thesis
    using assms(5) sn_content_view[of s g] sn_content_view[of s g'] by (simp add: sn_member_iff)
qed

theorem snapshot_isolation_witness:
  "\<exists>g g'. sn_run [SnInsert 0 (5 :: int) ''a'', SnSnapshot 1 0] (sn_new 0) = Some g \<and>
     sn_run [SnErase 0 5, SnInsert 0 7 ''b'', SnGc 1] g = Some g' \<and>
     sn_view (sn_version 1 g') (sg_data g') = [(5, ''a'')]"
proof -
  let ?as = "[SnInsert 0 (5 :: int) ''a'', SnSnapshot 1 0]" and ?bs = "[SnErase 0 5, SnInsert 0 7 ''b'', SnGc 1]"
  note defs = sn_new_def sn_insert_def sn_erase_key_def verify_simps Let_def writable_def readonly_def
      sn_member_def make_me_snapshot_of_def has_readonly_snapshot_def set_ver_def sn_version_def sn_prev_def
      vv_new_def valid_at_def
  obtain g g' where g: "sn_run ?as (sn_new 0) = Some g" "sn_member 1 g" "readonly 1 g"
      "sn_view (sn_version 1 g) (sg_data g) = [(5, ''a'')]" and g': "sn_run ?bs g = Some g'"
    by (simp add: defs)
  show ?thesis
    using snapshot_isolation[OF g(1) g' _ _ g(2,3)] g g' by simp
qed

text \<open>C22: A client loop over a query returns: at most one round more than there are entries, and it
  yields exactly the pairs of the snapshot whose keys the query asks for, in key order, garbage
  entries and later versions being skipped; a reverse query yields them in reverse order; \<open>count\<close> is their number.\<close>

theorem snapshot_query_exact:
  assumes "sn_run as (sn_new w) = Some g" "length as < 2 ^ 64 - 2" "\<forall>a \<in> set as. sn_op_ok a"
    and "q_ok q" "n > length (sg_data g)"
  shows "rg_drain n (rg_new (sn_version s g) (range_items (q_pos q g) g)) =
      Some (filter (\<lambda>x. in_range q (fst x)) (sn_view (sn_version s g) (sg_data g)))
    \<and> rg_drain n (rg_new (sn_version s g) (reverse_range_items (q_pos q g) g)) =
      Some (rev (filter (\<lambda>x. in_range q (fst x)) (sn_view (sn_version s g) (sg_data g))))
    \<and> fst (rg_count_items (rg_new (sn_version s g) (range_items (q_pos q g) g))) =
      int (length (filter (\<lambda>x. in_range q (fst x)) (sn_view (sn_version s g) (sg_data g))))"
  using drain_inv[OF sn_run_new_inv[OF assms(1-3)] assms(4,5), of "sn_version s g"] by simp

theorem snapshot_query_exact_witness:
  "\<exists>g. sn_run [SnInsertMany 0 [(3 :: int, ''c''), (1, ''a''), (2, ''b'')]] (sn_new 0) = Some g \<and>
     rg_drain 4 (rg_new (sn_version 0 g) (range_items (q_pos (QGt 1) g) g)) = Some [(2, ''b''), (3, ''c'')]"
proof -
  obtain g where g: "sn_run [SnInsertMany 0 [(3 :: int, ''c''), (1, ''a''), (2, ''b'')]] (sn_new 0) = Some g"
      "length (sg_data g) < 4" "sn_view (sn_version 0 g) (sg_data g) = [(1, ''a''), (2, ''b''), (3, ''c'')]"
    by (simp add: sn_new_def sn_insert_many_def verify_simps Let_def writable_def set_ver_def sn_version_def
        vv_new_def valid_at_def)
  show ?thesis
    using snapshot_query_exact[OF g(1) _ _ _ g(2), of "QGt 1" 0] g by simp
qed

text \<open>\<open>debug_group_sanity_check\<close> passes in every group a program can build: the versions around the
  ring decrease at most once and the writer, if there is one, has the largest version.\<close>

theorem snapshot_sanity_check:
  assumes "sn_run as (sn_new w) = Some g" "length as < 2 ^ 64 - 2" "\<forall>a \<in> set as. sn_op_ok a"
  shows "debug_group_sanity_check g = Some ()"
  by (rule sanity_check_inv[OF sn_run_new_inv[OF assms]])

theorem snapshot_sanity_check_witness:
  "\<exists>g. sn_run [SnSnapshot 1 0, SnInsert 0 (5 :: int) ''a'', SnSnapshot 2 0] (sn_new 0) = Some g \<and>
     debug_group_sanity_check g = Some ()"
proof -
  obtain g where g: "sn_run [SnSnapshot 1 0, SnInsert 0 (5 :: int) ''a'', SnSnapshot 2 0] (sn_new 0) = Some g"
    by (simp add: sn_new_def sn_insert_def verify_simps Let_def writable_def sn_member_def
        make_me_snapshot_of_def set_ver_def sn_version_def)
  show ?thesis
    using snapshot_sanity_check[OF g] g by simp
qed

text \<open>\<open>erase(key, true)\<close> in a group without readers erases the entry at \<open>lower_bound(key)\<close> without
  looking at its key: when the key is absent and a larger one is present, a pair of that other key is
  lost, although the same call erases nothing in a group with a reader.\<close>

theorem snapshot_erase_first_other_key:
  assumes "sn_run as (sn_new w) = Some g" "length as < 2 ^ 64 - 2" "\<forall>a \<in> set as. sn_op_ok a"
    and "sg_writer g = Some s" "snapshot_count g = 1"
    and "sg_data g = a @ e # c" "\<forall>x \<in> set a. fst x < k" "k < fst e"
  shows "\<exists>g'. sn_erase_key s k True g = Some g' \<and> sg_data g' = a @ c"
proof -
  let ?g = "set_ver s (sn_version s g + 1) g"
  have inv: "sg_inv g"
    by (rule sn_run_new_inv[OF assms(1-3)])
  then obtain ms v where ms: "sg_members g = ms @ [(s, v)]" "s \<notin> fst ` set ms"
    using assms(4) by (rule sg_inv_writerD)
  then have "sg_members ?g = [(s, sn_version s g + 1)]"
    using assms(5) set_ver_writer[OF ms] by (simp add: snapshot_count_def)
  then have "\<not> has_readonly_snapshot s ?g"
    using assms(4) by (simp add: has_readonly_snapshot_def readonly_def sn_prev_def)
  moreover have "\<not> fst e < k"
    using assms(8) by simp
  ultimately show ?thesis
    using assms(4,6,7)
    by (simp add: sn_erase_key_def Let_def verify_simps writable_def takeWhile_append_all dropWhile_append_all)
qed

theorem snapshot_erase_first_other_key_witness:
  "\<exists>g g'. sn_run [SnInsert 0 (5 :: int) ''a''] (sn_new 0) = Some g \<and>
     sn_erase_key 0 3 True g = Some g' \<and> sg_data g' = []"
proof -
  obtain g e where g: "sn_run [SnInsert 0 (5 :: int) ''a''] (sn_new 0) = Some g" "sg_writer g = Some 0"
      "snapshot_count g = 1" "sg_data g = [] @ e # []" "3 < fst e"
    by (simp add: sn_new_def sn_insert_def verify_simps Let_def writable_def set_ver_def snapshot_count_def)
  show ?thesis
    using snapshot_erase_first_other_key[OF g(1) _ _ g(2-4) _ g(5)] g by simp
qed

end
