(* ===== verification/MemNode.thy ===== *)
theory MemNode
  imports DST_Prelude
begin

unbundle bit_operations_syntax

text \<open>
  The records of DrTM's storage layer (\<open>memstore/memstore.h\<close>) and the lock words of its transaction
  layers (\<open>db/txs/tx_handler.h\<close>).

  A \<open>MemNode*\<close> is the place of a record: the partition, the table and the key, in the primary store or
  in a secondary index. \<open>GetWithInsert\<close> returns the node of a key and creates a fresh one when there is
  none, so the store is a total function that is fresh where nothing has been stored; the B+ trees and
  hash tables behind it are not part of the model.

  The chain of old versions starts at \<open>old_value\<close>; every element carries the header \<open>version\<close> and the
  pointer \<open>oldValue\<close> to the next older one. It is the list of the pairs of version and value, newest
  first, and \<open>NULL\<close> is the empty list.
\<close>

record 'v memnode =
  node_lock :: u64
  node_seq :: u64
  node_value :: "'v option"
  node_old :: "(u64 \<times> 'v) list"
  node_read_ts :: u64

definition memnode_init :: "'v memnode" where
  "memnode_init = \<lparr>node_lock = 0, node_seq = 0, node_value = None, node_old = [], node_read_ts = 0\<rparr>"

datatype node_id = Store nat int u64 | Index nat int u64

fun node_pid :: "node_id \<Rightarrow> nat" where
  "node_pid (Store p t k) = p"
| "node_pid (Index p t k) = p"

type_synonym 'v memdb = "node_id \<Rightarrow> 'v memnode"

definition memdb_init :: "'v memdb" where
  "memdb_init = (\<lambda>_. memnode_init)"

definition set_node :: "node_id \<Rightarrow> ('v memnode \<Rightarrow> 'v memnode) \<Rightarrow> 'v memdb \<Rightarrow> 'v memdb" where
  "set_node a f db = db(a := f (db a))"

lemma set_node_simps [simp]:
  "set_node a f db a = f (db a)"
  "b \<noteq> a \<Longrightarrow> set_node a f db b = db b"
  by (simp_all add: set_node_def)

subsection \<open>Lock words\<close>

text \<open>16 bits of machine, 6 bits of thread and 10 bits of coroutine; the macros do not mask their
  arguments.\<close>

definition ENCODE_LOCK_CONTENT :: "u64 \<Rightarrow> u64 \<Rightarrow> u64 \<Rightarrow> u64" where
  "ENCODE_LOCK_CONTENT mac tid cor_id = push_bit 16 mac OR push_bit 10 tid OR cor_id"

definition DECODE_LOCK_MAC :: "u64 \<Rightarrow> u64" where
  "DECODE_LOCK_MAC l = drop_bit 16 l"

definition DECODE_LOCK_TID :: "u64 \<Rightarrow> u64" where
  "DECODE_LOCK_TID l = drop_bit 10 (l AND 0xffff)"

definition DECODE_LOCK_CID :: "u64 \<Rightarrow> u64" where
  "DECODE_LOCK_CID l = l AND 0x3f"

text \<open>\<open>__sync_bool_compare_and_swap\<close> on the lock word.\<close>

definition cas_lock :: "u64 \<Rightarrow> u64 \<Rightarrow> 'v memnode \<Rightarrow> bool \<times> 'v memnode" where
  "cas_lock old new n = (if node_lock n = old then (True, n\<lparr>node_lock := new\<rparr>) else (False, n))"

lemma lock_masks: "(0xffff :: u64) = mask 16" "(0x3f :: u64) = mask 6"
  by (simp_all add: mask_eq_exp_minus_1)

lemma decode_mac:
  assumes "mac < 2 ^ 48" "tid < 2 ^ 6" "cor < 2 ^ 10"
  shows "DECODE_LOCK_MAC (ENCODE_LOCK_CONTENT mac tid cor) = mac"
proof (rule bit_word_eqI)
  fix n
  assume "n < LENGTH(64)"
  then show "bit (DECODE_LOCK_MAC (ENCODE_LOCK_CONTENT mac tid cor)) n = bit mac n"
    using u64_bit_less[OF assms(1), of n] u64_bit_less[OF assms(2), of "6 + n"] u64_bit_less[OF assms(3), of "16 + n"]
    by (auto simp: DECODE_LOCK_MAC_def ENCODE_LOCK_CONTENT_def bit_simps)
qed

lemma decode_tid:
  assumes "tid < 2 ^ 6" "cor < 2 ^ 10"
  shows "DECODE_LOCK_TID (ENCODE_LOCK_CONTENT mac tid cor) = tid"
proof (rule bit_word_eqI)
  fix n
  assume "n < LENGTH(64)"
  then show "bit (DECODE_LOCK_TID (ENCODE_LOCK_CONTENT mac tid cor)) n = bit tid n"
    using u64_bit_less[OF assms(1), of n] u64_bit_less[OF assms(2), of "10 + n"]
    by (auto simp: DECODE_LOCK_TID_def ENCODE_LOCK_CONTENT_def lock_masks bit_simps)
qed

lemma encode_cid:
  assumes "cor < 2 ^ 10"
  shows "take_bit 10 (ENCODE_LOCK_CONTENT mac tid cor) = cor"
proof (rule bit_word_eqI)
  fix n
  assume "n < LENGTH(64)"
  then show "bit (take_bit 10 (ENCODE_LOCK_CONTENT mac tid cor)) n = bit cor n"
    using u64_bit_less[OF assms, of n] by (auto simp: ENCODE_LOCK_CONTENT_def bit_simps)
qed

text \<open>Within the documented widths a lock word names its owner, and is never the free word 0 because the
  code adds 1 to the coroutine.\<close>

lemma lock_content_inj:
  assumes "mac < 2 ^ 48" "tid < 2 ^ 6" "cor < 2 ^ 10" "mac' < 2 ^ 48" "tid' < 2 ^ 6" "cor' < 2 ^ 10"
    and "ENCODE_LOCK_CONTENT mac tid cor = ENCODE_LOCK_CONTENT mac' tid' cor'"
  shows "mac = mac' \<and> tid = tid' \<and> cor = cor'"
  using decode_mac[OF assms(1-3)] decode_mac[OF assms(4-6)] decode_tid[OF assms(2,3)] decode_tid[OF assms(5,6)]
    encode_cid[OF assms(3)] encode_cid[OF assms(6)] assms(7) by metis

lemma lock_content_not_free:
  assumes "cor < 2 ^ 10" "cor \<noteq> 0"
  shows "ENCODE_LOCK_CONTENT mac tid cor \<noteq> 0"
  using encode_cid[OF assms(1), of mac tid] assms(2) by auto

text \<open>C25: A lock word identifies its owner: with the documented widths (6 bits of thread, 10 bits of
  coroutine) two owners with the same word are the same machine, thread and coroutine, the machine and
  the thread are decoded from it, and the word of a coroutine is never the word 0 of a free lock.\<close>

theorem lock_word_identifies_owner:
  assumes "mac < 2 ^ 48" "tid < 2 ^ 6" "cor < 2 ^ 10 - 1" "mac' < 2 ^ 48" "tid' < 2 ^ 6" "cor' < 2 ^ 10 - 1"
  shows "(ENCODE_LOCK_CONTENT mac tid (cor + 1) = ENCODE_LOCK_CONTENT mac' tid' (cor' + 1)
      \<longleftrightarrow> mac = mac' \<and> tid = tid' \<and> cor = cor')
    \<and> DECODE_LOCK_MAC (ENCODE_LOCK_CONTENT mac tid (cor + 1)) = mac
    \<and> DECODE_LOCK_TID (ENCODE_LOCK_CONTENT mac tid (cor + 1)) = tid
    \<and> ENCODE_LOCK_CONTENT mac tid (cor + 1) \<noteq> 0"
proof -
  have small: "x + 1 < 2 ^ 10 \<and> x + 1 \<noteq> 0" if "(x :: u64) < 2 ^ 10 - 1" for x
  proof -
    have "unat x < 1023"
      using that by (simp add: word_less_nat_alt)
    then have "unat (x + 1) = unat x + 1"
      by (intro u64_unat_Suc[THEN trans]) (auto simp: u64_unat_minus_1)
    then show ?thesis
      using \<open>unat x < 1023\<close> by (auto simp: word_less_nat_alt)
  qed
  show ?thesis
    using lock_content_inj[OF assms(1,2) _ assms(4,5), of "cor + 1" "cor' + 1"] small[OF assms(3)] small[OF assms(6)]
      decode_mac[OF assms(1,2)] decode_tid[OF assms(2)] lock_content_not_free[of "cor + 1" mac tid] by auto
qed

theorem lock_word_identifies_owner_witness:
  "ENCODE_LOCK_CONTENT 1 2 (3 + 1) \<noteq> ENCODE_LOCK_CONTENT 1 2 (4 + 1) \<and>
   DECODE_LOCK_TID (ENCODE_LOCK_CONTENT 1 2 (3 + 1)) = 2"
  using lock_word_identifies_owner[of 1 2 3 1 2 4] by simp

text \<open>\<open>DECODE_LOCK_CID\<close> masks only 6 of the 10 bits of the coroutine: it does not invert the
  encoding, for instance for coroutine 64.\<close>

theorem decode_cid_loses_bits: "DECODE_LOCK_CID (ENCODE_LOCK_CONTENT 1 2 64) = 0"
  by (simp add: DECODE_LOCK_CID_def ENCODE_LOCK_CONTENT_def)

end
