(* ===== verification/RemoteSet.thy ===== *)
theory RemoteSet
  imports MemNode
begin

text \<open>
  \<open>db/remote_set.h\<close>, \<open>db/remote_set_structs.h\<close> and \<open>db/remote_set.cc\<close> of DrTM: the remote part of a
  transaction's read and write set and the messages it sends. A message buffer is the list of the
  items between its start and its end pointer; the arrays \<open>kvs_\<close> and \<open>request_buf_\<close> keep what earlier
  transactions left in their slots. The counter \<open>num\<close> of a message is an \<open>int8_t\<close>.
\<close>

datatype req_type = REQ_READ | REQ_READ_IDX | REQ_INSERT | REQ_INSERT_IDX | REQ_RANGE_SEARCH | REQ_WRITE | REQ_READ_LOCK

record 'v rs_item =
  ri_pid :: nat
  ri_tableid :: int
  ri_seq :: u64
  ri_val :: "'v option"
  ri_key :: u64
  ri_node :: "node_id option"

record rs_request =
  rq_type :: req_type
  rq_pid :: nat
  rq_tableid :: int
  rq_idx :: nat
  rq_node :: "node_id option"
  rq_seq :: u64
  rq_key :: u64

record lock_item =
  li_pid :: nat
  li_seq :: u64
  li_node :: node_id
  li_tableid :: int

text \<open>A payload of length 0, which stands for a deletion, is \<^const>\<open>None\<close>.\<close>

record 'v write_item =
  wi_pid :: nat
  wi_node :: node_id
  wi_val :: "'v option"
  wi_tableid :: int

record 'v reply_item =
  rp_seq :: u64
  rp_node :: node_id
  rp_val :: "'v option"
  rp_idx :: nat

record 'v remoteset =
  rs_kvs :: "nat \<Rightarrow> 'v rs_item"
  rs_elems :: nat
  rs_requests :: "nat \<Rightarrow> rs_request"
  rs_req_end :: nat
  rs_locks :: "lock_item list"
  rs_writes :: "'v write_item list"
  write_items :: nat
  read_items :: nat
  read_servers :: "nat list"
  write_servers :: "nat list"
  max_time :: u64
  need_validate :: bool

definition int8 :: "nat \<Rightarrow> int" where
  "int8 n = sint (word_of_nat n :: 8 word)"

text \<open>What a handler reads of a buffer whose header says \<open>num\<close> items.\<close>

definition msg_items :: "nat \<Rightarrow> 'a list \<Rightarrow> 'a list" where
  "msg_items num buf = take (nat (int8 num)) buf"

definition update_write_buf :: "'v remoteset \<Rightarrow> 'v remoteset" where
  "update_write_buf r = r\<lparr>rs_locks := [], rs_writes := []\<rparr>"

definition rs_clear :: "'v remoteset \<Rightarrow> 'v remoteset" where
  "rs_clear r = r\<lparr>rs_elems := 0, read_items := 0, read_servers := [], write_items := 0, write_servers := [],
     rs_req_end := 0, need_validate := False\<rparr>"

definition rs_empty_item :: "'v rs_item" where
  "rs_empty_item = \<lparr>ri_pid = 255, ri_tableid = - 1, ri_seq = 0, ri_val = None, ri_key = 0, ri_node = None\<rparr>"

definition rs_new :: "'v remoteset" where
  "rs_new = rs_clear (update_write_buf \<lparr>rs_kvs = (\<lambda>_. rs_empty_item), rs_elems = 0,
     rs_requests = (\<lambda>_. \<lparr>rq_type = REQ_READ, rq_pid = 0, rq_tableid = 0, rq_idx = 0, rq_node = None, rq_seq = 0, rq_key = 0\<rparr>),
     rs_req_end = 0, rs_locks = [], rs_writes = [], write_items = 0, read_items = 0, read_servers = [],
     write_servers = [], max_time = 0, need_validate = False\<rparr>)"

definition add_server :: "nat \<Rightarrow> nat list \<Rightarrow> nat list" where
  "add_server pid ss = (if pid \<in> set ss then ss else ss @ [pid])"

text \<open>The two \<open>add\<close> functions: the one for long keys clears the sequence number and the request, the one
  for short keys keeps what the slots held.\<close>

definition rs_add_long :: "req_type \<Rightarrow> nat \<Rightarrow> int \<Rightarrow> u64 \<Rightarrow> nat \<Rightarrow> 'v remoteset \<Rightarrow> (nat \<times> 'v remoteset) option" where
  "rs_add_long type pid tableid key current_partition r = do {
     verify (rs_elems r + 1 \<le> 1024);
     verify (type \<noteq> REQ_READ_LOCK);
     verify (pid \<noteq> current_partition);
     let cur = rs_elems r;
     Some (cur, r\<lparr>rs_elems := cur + 1,
       rs_kvs := (rs_kvs r)(cur := (rs_kvs r cur)\<lparr>ri_pid := pid, ri_tableid := tableid, ri_key := key, ri_val := None, ri_seq := 0\<rparr>),
       rs_requests := (rs_requests r)(rs_req_end r :=
         \<lparr>rq_type = type, rq_pid = pid, rq_tableid = tableid, rq_idx = cur, rq_node = None, rq_seq = 0, rq_key = key\<rparr>),
       rs_req_end := rs_req_end r + 1,
       read_servers := add_server pid (read_servers r)\<rparr>)
   }"

definition rs_add :: "req_type \<Rightarrow> nat \<Rightarrow> int \<Rightarrow> u64 \<Rightarrow> 'v remoteset \<Rightarrow> (nat \<times> 'v remoteset) option" where
  "rs_add type pid tableid key r = do {
     verify (rs_elems r + 1 \<le> 1024);
     let cur = rs_elems r;
     Some (cur, r\<lparr>rs_elems := cur + 1,
       rs_kvs := (rs_kvs r)(cur := (rs_kvs r cur)\<lparr>ri_pid := pid, ri_tableid := tableid, ri_key := key, ri_val := None\<rparr>),
       rs_requests := (rs_requests r)(rs_req_end r :=
         (rs_requests r (rs_req_end r))\<lparr>rq_type := type, rq_pid := pid, rq_tableid := tableid, rq_idx := cur, rq_key := key\<rparr>),
       rs_req_end := rs_req_end r + 1,
       read_servers := add_server pid (read_servers r)\<rparr>)
   }"

text \<open>\<open>do_reads\<close> broadcasts the requests to the read servers.\<close>

definition do_reads :: "'v remoteset \<Rightarrow> ((rs_request list \<times> nat list) \<times> 'v remoteset) option" where
  "do_reads r = do {
     verify (rs_elems r < 2 ^ 16 - 1);
     verify (read_servers r \<noteq> []);
     Some ((msg_items (rs_elems r) (map (rs_requests r) [0..<rs_req_end r]), read_servers r),
       r\<lparr>read_items := rs_elems r\<rparr>)
   }"

definition get_result_item :: "'v reply_item \<Rightarrow> 'v remoteset \<Rightarrow> 'v remoteset" where
  "get_result_item p r = r\<lparr>
     rs_kvs := (rs_kvs r)(rp_idx p := (rs_kvs r (rp_idx p))\<lparr>ri_val := rp_val p, ri_seq := rp_seq p, ri_node := Some (rp_node p)\<rparr>),
     rs_requests := (rs_requests r)(rp_idx p := (rs_requests r (rp_idx p))\<lparr>rq_node := Some (rp_node p), rq_seq := rp_seq p\<rparr>)\<rparr>"

definition get_results :: "'v reply_item list list \<Rightarrow> 'v remoteset \<Rightarrow> 'v remoteset option" where
  "get_results replies r = do {
     verify (\<forall>rs \<in> set replies. rs \<noteq> [] \<and> length rs \<noteq> 73);
     verify (concat replies \<noteq> []);
     Some (fold get_result_item (concat replies) r)
   }"

definition promote_to_write :: "nat \<Rightarrow> 'v option \<Rightarrow> 'v remoteset \<Rightarrow> 'v remoteset option" where
  "promote_to_write i val r = do {
     verify (read_items r > 0);
     let k = rs_kvs r i;
     node \<leftarrow> ri_node k;
     Some (r\<lparr>write_items := write_items r + 1, read_items := read_items r - 1,
       rs_locks := rs_locks r @ [\<lparr>li_pid = ri_pid k, li_seq = ri_seq k, li_node = node, li_tableid = ri_tableid k\<rparr>],
       rs_writes := rs_writes r @ [\<lparr>wi_pid = ri_pid k, wi_node = node, wi_val = val, wi_tableid = ri_tableid k\<rparr>],
       write_servers := add_server (ri_pid k) (write_servers r)\<rparr>)
   }"

text \<open>The messages of the commit protocol.\<close>

definition lock_msg :: "'v remoteset \<Rightarrow> lock_item list" where
  "lock_msg r = msg_items (write_items r) (rs_locks r)"

definition write_msg :: "'v remoteset \<Rightarrow> 'v write_item list" where
  "write_msg r = msg_items (write_items r) (rs_writes r)"

text \<open>\<open>_check_res\<close>: the replies in order; the payload of a reply is a \<open>uint32_t\<close>.\<close>

fun check_res :: "(nat \<times> u32) list \<Rightarrow> u64 \<Rightarrow> bool \<times> u64" where
  "check_res [] t = (True, t)"
| "check_res ((num, payload) # rs) t =
    (if num = 0 then (False, t) else check_res rs (max t (ucast payload)))"

subsection \<open>Messages of one transaction\<close>

lemma int8_small: "n < 128 \<Longrightarrow> int8 n = int n"
proof -
  assume n: "n < 128"
  then have "uint (word_of_nat n :: 8 word) = int n"
    by (simp add: unsigned_of_nat take_bit_int_eq_self take_bit_nat_eq_self)
  moreover have "\<not> bit (int n) 7"
    using n by (simp add: bit_iff_odd)
  ultimately show ?thesis
    using n by (simp add: int8_def sint_uint signed_take_bit_eq_if_positive take_bit_int_eq_self)
qed

lemma msg_items_all: "length buf = num \<Longrightarrow> num < 128 \<Longrightarrow> msg_items num buf = buf"
  by (simp add: msg_items_def int8_small)

fun promote_all :: "(nat \<times> 'v option) list \<Rightarrow> 'v remoteset \<Rightarrow> 'v remoteset option" where
  "promote_all [] r = Some r"
| "promote_all ((i, v) # ws) r = Option.bind (promote_to_write i v r) (promote_all ws)"

lemma promote_all_bufs:
  assumes "promote_all ws r = Some r'"
  shows "rs_locks r' = rs_locks r @ map (\<lambda>(i, v). \<lparr>li_pid = ri_pid (rs_kvs r i), li_seq = ri_seq (rs_kvs r i),
      li_node = the (ri_node (rs_kvs r i)), li_tableid = ri_tableid (rs_kvs r i)\<rparr>) ws
    \<and> rs_writes r' = rs_writes r @ map (\<lambda>(i, v). \<lparr>wi_pid = ri_pid (rs_kvs r i), wi_node = the (ri_node (rs_kvs r i)),
      wi_val = v, wi_tableid = ri_tableid (rs_kvs r i)\<rparr>) ws
    \<and> write_items r' = write_items r + length ws \<and> rs_kvs r' = rs_kvs r"
  using assms
proof (induction ws arbitrary: r)
  case (Cons w ws)
  obtain i v where w: "w = (i, v)" by force
  obtain r1 where r1: "promote_to_write i v r = Some r1" "promote_all ws r1 = Some r'"
    using Cons.prems w by (cases "promote_to_write i v r") auto
  from Cons.IH[OF r1(2)] r1(1) show ?case
    by (auto simp: w promote_to_write_def verify_simps Let_def split: if_splits bind_splits)
qed simp


definition rs_sample :: "string remoteset" where
  "rs_sample = rs_new\<lparr>rs_elems := 1, read_items := 1,
     rs_kvs := (\<lambda>_. \<lparr>ri_pid = 1, ri_tableid = 2, ri_seq = 7, ri_val = Some ''a'', ri_key = 9, ri_node = Some (Store 1 2 9)\<rparr>)\<rparr>"


text \<open>\<open>clear\<close>, with which a transaction begins, does not reset the lock buffer. After a transaction
  that promoted a record and was given up before its commit, the lock message of the next transaction
  names the record of the old one instead of its own.\<close>

theorem remote_clear_keeps_stale_locks:
  assumes "rs_locks r = [l]"
    and "rs_add REQ_READ pid tableid key (rs_clear r) = Some (0, r1)" "do_reads r1 = Some (m, r2)"
    and "get_results [[p]] r2 = Some r3" "promote_to_write 0 v r3 = Some r'"
  shows "lock_msg r' = [l]"
proof -
  have "rs_locks r3 = [l]" "write_items r3 = 0"
    using assms(1-4) by (auto simp: rs_add_def do_reads_def get_results_def get_result_item_def rs_clear_def verify_simps
        Let_def split: if_splits)
  then show ?thesis
    using assms(5) by (auto simp: promote_to_write_def verify_simps Let_def lock_msg_def msg_items_def int8_small
        split: if_splits bind_splits)
qed

theorem remote_clear_keeps_stale_locks_witness:
  "\<exists>r r1 m r2 r3 r'. promote_to_write 0 (Some ''b'') rs_sample = Some r \<and>
     rs_add REQ_READ 1 2 10 (rs_clear r) = Some (0, r1) \<and> do_reads r1 = Some (m, r2) \<and>
     get_results [[\<lparr>rp_seq = 8, rp_node = Store 1 2 10, rp_val = Some ''x'', rp_idx = 0\<rparr>]] r2 = Some r3 \<and>
     promote_to_write 0 (Some ''c'') r3 = Some r' \<and> map li_node (lock_msg r') = [Store 1 2 9]"
proof -
  let ?p = "\<lparr>rp_seq = 8, rp_node = Store 1 2 10, rp_val = Some ''x'', rp_idx = 0\<rparr>"
  obtain r r1 m r2 r3 r' where r: "promote_to_write 0 (Some ''b'') rs_sample = Some r"
      "rs_locks r = [\<lparr>li_pid = 1, li_seq = 7, li_node = Store 1 2 9, li_tableid = 2\<rparr>]"
      "rs_add REQ_READ 1 2 10 (rs_clear r) = Some (0, r1)" "do_reads r1 = Some (m, r2)" "get_results [[?p]] r2 = Some r3"
      "promote_to_write 0 (Some ''c'') r3 = Some r'"
    by (simp add: rs_sample_def promote_to_write_def verify_simps rs_new_def rs_clear_def update_write_buf_def
        get_results_def get_result_item_def rs_add_def do_reads_def Let_def add_server_def)
  have "lock_msg r' = [\<lparr>li_pid = 1, li_seq = 7, li_node = Store 1 2 9, li_tableid = 2\<rparr>]"
    by (rule remote_clear_keeps_stale_locks[OF r(2-6)])
  then show ?thesis
    using r by auto
qed

end
