(* ===== verification/TSManager.thy ===== *)
theory TSManager
  imports DST_Prelude
begin

unbundle bit_operations_syntax

text \<open>
  \<open>db/txs/ts_manager.hpp\<close> of DrTM: the timestamp oracle of snapshot isolation in its configuration
  with one entry per machine (\<open>ONE_CLOCK\<close> and \<open>LARGE_VEC\<close> are 0). The master keeps, for every machine,
  the newest timestamp below which all commits are finished, and a priority queue of the finished
  commits above it; machines fetch copies of the vector and draw commit timestamps from a counter of
  their own.

  The builds of DrTM keep assertions, so a failing \<open>assert\<close> stops the run.
\<close>

subsection \<open>Timestamps of versions\<close>

text \<open>The macros \<open>SI_GET_SERVER\<close>, \<open>SI_GET_COUNTER\<close> and \<open>SI_ENCODE_TS\<close>: a machine in the upper 16 bits
  and its counter in the lower 48.\<close>

definition SI_GET_SERVER :: "u64 \<Rightarrow> u64" where
  "SI_GET_SERVER x = drop_bit 48 x AND 0xffff"

definition SI_GET_COUNTER :: "u64 \<Rightarrow> u64" where
  "SI_GET_COUNTER x = x AND 0xffffffffffff"

definition SI_ENCODE_TS :: "u64 \<Rightarrow> u64 \<Rightarrow> u64" where
  "SI_ENCODE_TS s t = push_bit 48 s OR t"

lemma SI_masks: "(0xffff :: u64) = mask 16" "(0xffffffffffff :: u64) = mask 48"
  by (simp_all add: mask_eq_exp_minus_1)

lemma SI_server_encode [simp]:
  assumes "s < 2 ^ 16" "t < 2 ^ 48"
  shows "SI_GET_SERVER (SI_ENCODE_TS s t) = s"
proof (rule bit_word_eqI)
  fix n
  assume "n < LENGTH(64)"
  then show "bit (SI_GET_SERVER (SI_ENCODE_TS s t)) n = bit s n"
    using u64_bit_less[OF assms(1), of n] u64_bit_less[OF assms(2), of "48 + n"]
    by (auto simp: SI_GET_SERVER_def SI_ENCODE_TS_def SI_masks bit_simps)
qed

lemma SI_counter_encode [simp]:
  assumes "t < 2 ^ 48"
  shows "SI_GET_COUNTER (SI_ENCODE_TS s t) = t"
proof (rule bit_word_eqI)
  fix n
  assume "n < LENGTH(64)"
  then show "bit (SI_GET_COUNTER (SI_ENCODE_TS s t)) n = bit t n"
    using u64_bit_less[OF assms, of n]
    by (auto simp: SI_GET_COUNTER_def SI_ENCODE_TS_def SI_masks bit_simps)
qed

subsection \<open>The priority queue of finished commits\<close>

text \<open>
  \<open>std::priority_queue<int, std::vector<uint64_t>, std::greater<int>>\<close>: 64-bit elements that the
  comparison truncates to \<open>int\<close>. The queue is the list of its elements in the order in which they leave
  it. \<open>top()\<close> of an emptied queue is undefined in C++; it reads the first slot of the vector, which
  still holds the element popped last.
\<close>

definition tq_key :: "u64 \<Rightarrow> int" where
  "tq_key x = sint (ucast x :: u32)"

record ts_queue =
  tq_items :: "u64 list"
  tq_slot :: u64

definition tq_empty :: ts_queue where
  "tq_empty = \<lparr>tq_items = [], tq_slot = 0\<rparr>"

definition tq_push :: "u64 \<Rightarrow> ts_queue \<Rightarrow> ts_queue" where
  "tq_push c q = q\<lparr>tq_items := insort_key tq_key c (tq_items q)\<rparr>"

definition tq_top :: "ts_queue \<Rightarrow> u64" where
  "tq_top q = (case tq_items q of [] \<Rightarrow> tq_slot q | c # _ \<Rightarrow> c)"

definition tq_pop :: "ts_queue \<Rightarrow> ts_queue" where
  "tq_pop q = \<lparr>tq_items = tl (tq_items q), tq_slot = tq_top q\<rparr>"

subsection \<open>The manager\<close>

record ts_entry =
  ts_val :: u64
  ts_pending :: ts_queue

record tsmanager =
  ts_buffer :: "ts_entry list"
  local_ts :: u64
  fetched_ts :: "u64 list"

definition ts_entry_init :: ts_entry where
  "ts_entry_init = \<lparr>ts_val = 2, ts_pending = tq_empty\<rparr>"

definition tsm_new :: "nat \<Rightarrow> tsmanager" where
  "tsm_new nodes = \<lparr>ts_buffer = replicate nodes ts_entry_init, local_ts = 3, fetched_ts = replicate nodes 2\<rparr>"

definition get_commit_ts :: "tsmanager \<Rightarrow> u64 \<times> tsmanager" where
  "get_commit_ts m = (local_ts m, m\<lparr>local_ts := local_ts m + 1\<rparr>)"

definition get_gts :: "u64 \<Rightarrow> tsmanager \<Rightarrow> u64 \<times> tsmanager" where
  "get_gts TS_BATCH m = (local_ts m, m\<lparr>local_ts := local_ts m + TS_BATCH\<rparr>)"

definition get_start_ts :: "tsmanager \<Rightarrow> u64 list" where
  "get_start_ts m = fetched_ts m"

definition ts_get_handler :: "tsmanager \<Rightarrow> u64 list" where
  "ts_get_handler m = map ts_val (ts_buffer m)"

text \<open>One round of \<open>worker_routine\<close>: the reply of the master becomes the fetched copy.\<close>

definition ts_fetch :: "u64 list \<Rightarrow> tsmanager \<Rightarrow> tsmanager" where
  "ts_fetch reply m = m\<lparr>fetched_ts := reply\<rparr>"

text \<open>The loop of \<open>ts_update_handler\<close>. Popping an empty queue is undefined and stops.\<close>

function ts_drain :: "u64 \<Rightarrow> ts_queue \<Rightarrow> (u64 \<times> ts_queue) option" where
  "ts_drain ts q =
    (if tq_top q = ts + 1
     then (if tq_items q = [] then None else ts_drain (ts + 1) (tq_pop q))
     else Some (ts, q))"
  by pat_completeness auto
termination
  by (relation "measure (\<lambda>(ts, q). length (tq_items q))") (auto simp: tq_pop_def)

definition ts_update :: "u64 \<Rightarrow> ts_entry \<Rightarrow> ts_entry option" where
  "ts_update counter e = do {
     (ts, q) \<leftarrow> ts_drain (ts_val e) (tq_push counter (ts_pending e));
     Some \<lparr>ts_val = ts, ts_pending = q\<rparr>
   }"

definition ts_update_handler :: "nat \<Rightarrow> u64 \<Rightarrow> tsmanager \<Rightarrow> tsmanager option" where
  "ts_update_handler mac counter m = do {
     verify (mac < 64);
     verify (mac < length (ts_buffer m));
     e \<leftarrow> ts_update counter (ts_buffer m ! mac);
     Some (m\<lparr>ts_buffer := (ts_buffer m)[mac := e]\<rparr>)
   }"

declare ts_drain.simps [simp del]

subsection \<open>What an entry means\<close>

fun ts_updates :: "u64 list \<Rightarrow> ts_entry \<Rightarrow> ts_entry option" where
  "ts_updates [] e = Some e"
| "ts_updates (c # cs) e = Option.bind (ts_update c e) (ts_updates cs)"

text \<open>Below \<open>2 ^ 31\<close> the truncated comparison is the comparison of the counters.\<close>

lemma tq_key_small:
  assumes "x < 2 ^ 31"
  shows "tq_key x = uint x"
proof -
  have "uint x < 2 ^ 31"
    using assms by (simp add: word_less_def)
  then have t: "take_bit 31 (uint x) = uint x" "take_bit 32 (uint x) = uint x"
    by (simp_all add: take_bit_int_eq_self)
  then have "\<not> bit (uint x) 31"
    by (metis bit_take_bit_iff less_irrefl)
  then show ?thesis
    using t by (simp add: tq_key_def sint_uint unsigned_ucast_eq signed_take_bit_eq_if_positive)
qed

text \<open>The state of an entry whose finished commits are \<open>S\<close>: all commits up to its value are in \<open>S\<close>, the
  queue holds the others in order, and the next one is missing.\<close>

definition ts_queue_ok :: "u64 \<Rightarrow> ts_queue \<Rightarrow> bool" where
  "ts_queue_ok ts q \<longleftrightarrow> sorted_wrt (<) (tq_items q) \<and> (\<forall>c \<in> set (tq_items q). ts < c \<and> c < 2 ^ 31)
     \<and> (tq_items q = [] \<longrightarrow> tq_slot q \<le> ts) \<and> ts < 2 ^ 31"

definition ts_entry_ok :: "u64 set \<Rightarrow> ts_entry \<Rightarrow> bool" where
  "ts_entry_ok S e \<longleftrightarrow> ts_queue_ok (ts_val e) (ts_pending e) \<and> 2 \<le> ts_val e
     \<and> (\<forall>c. 3 \<le> c \<and> c \<le> ts_val e \<longrightarrow> c \<in> S) \<and> set (tq_items (ts_pending e)) = {c \<in> S. ts_val e < c}
     \<and> ts_val e + 1 \<notin> S"

lemma tq_sorted_iff:
  assumes "\<forall>c \<in> set xs. c < 2 ^ 31"
  shows "sorted_wrt (<) xs \<longleftrightarrow> sorted (map tq_key xs) \<and> distinct xs"
  using assms
proof (induction xs)
  case (Cons x xs)
  have "x < y \<longleftrightarrow> tq_key x \<le> tq_key y \<and> x \<noteq> y" if "y \<in> set xs" for y
    using Cons.prems that by (auto simp: tq_key_small word_less_def word_uint_eq_iff)
  then show ?case
    using Cons by auto
qed simp

lemma ts_queue_ok_push:
  assumes "ts_queue_ok ts q" "ts < c" "c < 2 ^ 31" "c \<notin> set (tq_items q)"
  shows "ts_queue_ok ts (tq_push c q)" "set (tq_items (tq_push c q)) = insert c (set (tq_items q))"
proof -
  have "\<forall>x \<in> set (tq_items (tq_push c q)). x < 2 ^ 31"
    using assms by (auto simp: ts_queue_ok_def tq_push_def set_insort_key)
  moreover have "sorted (map tq_key (tq_items q)) \<and> distinct (tq_items q)"
    using assms(1) tq_sorted_iff[of "tq_items q"] by (simp add: ts_queue_ok_def)
  ultimately have "sorted_wrt (<) (tq_items (tq_push c q))"
    using assms(4) by (simp add: tq_sorted_iff tq_push_def sorted_insort_key distinct_insort)
  then show "ts_queue_ok ts (tq_push c q)" "set (tq_items (tq_push c q)) = insert c (set (tq_items q))"
    using assms by (auto simp: ts_queue_ok_def tq_push_def set_insort_key)
qed

lemma u64_less_iff_Suc_le: "(w :: u64) \<noteq> - 1 \<Longrightarrow> w < v \<longleftrightarrow> w + 1 \<le> v"
  by (simp add: word_less_nat_alt word_le_nat_alt u64_unat_Suc Suc_le_eq)

lemma small_not_max: "(w :: u64) < 2 ^ 31 \<Longrightarrow> w \<noteq> - 1"
  by (auto simp: word_less_nat_alt u64_unat_minus_1)

lemma ts_drain_ok:
  assumes "ts_queue_ok ts q"
  shows "\<exists>ts' q'. ts_drain ts q = Some (ts', q') \<and> ts_queue_ok ts' q' \<and> ts \<le> ts' \<and>
    set (tq_items q) = {c. ts < c \<and> c \<le> ts'} \<union> set (tq_items q') \<and> ts' + 1 \<notin> set (tq_items q')"
  using assms
proof (induction ts q rule: ts_drain.induct)
  case (1 ts q)
  have ts: "ts \<noteq> - 1" "ts < ts + 1"
    using "1.prems" small_not_max u64_less_Suc[of ts ts] by (auto simp: ts_queue_ok_def)
  show ?case
  proof (cases "tq_top q = ts + 1")
    case False
    have "ts + 1 \<notin> set (tq_items q)"
    proof (cases "tq_items q")
      case (Cons c cs)
      then have "c \<noteq> ts + 1" "ts + 1 \<le> c" "\<forall>x \<in> set cs. c < x"
        using False "1.prems" u64_less_iff_Suc_le[OF ts(1), of c] by (auto simp: tq_top_def ts_queue_ok_def)
      then show ?thesis
        using Cons by auto
    qed simp
    then show ?thesis
      using False "1.prems" by (auto simp: ts_drain.simps[of ts q])
  next
    case True
    then obtain cs where cs: "tq_items q = (ts + 1) # cs"
      using "1.prems" ts(2) by (cases "tq_items q") (auto simp: tq_top_def ts_queue_ok_def)
    have ok: "ts_queue_ok (ts + 1) (tq_pop q)" and ne: "tq_items q \<noteq> []"
      using "1.prems" cs True by (simp_all add: ts_queue_ok_def tq_pop_def)
    from "1.IH"[OF True ne ok] obtain ts' q' where q': "ts_drain (ts + 1) (tq_pop q) = Some (ts', q')"
        "ts_queue_ok ts' q'" "ts + 1 \<le> ts'"
        "set (tq_items (tq_pop q)) = {c. ts + 1 < c \<and> c \<le> ts'} \<union> set (tq_items q')" "ts' + 1 \<notin> set (tq_items q')"
      by blast
    have "x \<in> {c. ts < c \<and> c \<le> ts'} \<longleftrightarrow> x = ts + 1 \<or> x \<in> {c. ts + 1 < c \<and> c \<le> ts'}" for x
      unfolding mem_Collect_eq u64_less_iff_Suc_le[OF ts(1)] using q'(3) by (cases "x = ts + 1") (simp_all add: le_less)
    then have "{c. ts < c \<and> c \<le> ts'} = insert (ts + 1) {c. ts + 1 < c \<and> c \<le> ts'}"
      by blast
    moreover have "set (tq_items q) = insert (ts + 1) (set (tq_items (tq_pop q)))"
      using cs by (simp add: tq_pop_def)
    ultimately have "set (tq_items q) = {c. ts < c \<and> c \<le> ts'} \<union> set (tq_items q')"
      unfolding q'(4) by blast
    moreover have "ts_drain ts q = Some (ts', q')" "ts \<le> ts'"
      using q'(1,3) cs True ts(2) by (simp_all add: ts_drain.simps[of ts q])
    ultimately show ?thesis
      using q'(2,5) by blast
  qed
qed

lemma ts_update_ok:
  assumes "ts_entry_ok S e" "c \<notin> S" "3 \<le> c" "c < 2 ^ 31"
  shows "\<exists>e'. ts_update c e = Some e' \<and> ts_entry_ok (insert c S) e'"
proof -
  let ?t = "ts_val e"
  have S: "ts_queue_ok ?t (ts_pending e)" "2 \<le> ?t" "\<And>x. 3 \<le> x \<Longrightarrow> x \<le> ?t \<Longrightarrow> x \<in> S"
    "set (tq_items (ts_pending e)) = {c \<in> S. ?t < c}"
    using assms(1) by (auto simp: ts_entry_ok_def)
  have c: "?t < c"
    using S(3)[OF assms(3)] assms(2) by (auto simp: not_le[symmetric])
  have push: "ts_queue_ok ?t (tq_push c (ts_pending e))"
    "set (tq_items (tq_push c (ts_pending e))) = insert c {c \<in> S. ?t < c}"
    using ts_queue_ok_push[OF S(1) c assms(4)] assms(2) S(4) by auto
  obtain ts' q' where q': "ts_drain ?t (tq_push c (ts_pending e)) = Some (ts', q')" "ts_queue_ok ts' q'" "?t \<le> ts'"
      "insert c {c \<in> S. ?t < c} = {x. ?t < x \<and> x \<le> ts'} \<union> set (tq_items q')" "ts' + 1 \<notin> set (tq_items q')"
    using ts_drain_ok[OF push(1)] push(2) by auto
  have above: "\<forall>x \<in> set (tq_items q'). ts' < x" "ts' < ts' + 1"
    using q'(2) small_not_max[of ts'] u64_less_Suc[of ts' ts'] by (auto simp: ts_queue_ok_def)
  have mem: "x \<in> insert c S" if "?t < x" "x \<le> ts'" for x
    using that q'(4) by auto
  have low: "x \<in> insert c S" if "3 \<le> x" "x \<le> ts'" for x
    using S(3)[OF that(1)] mem[OF _ that(2)] by (cases "x \<le> ?t") (auto simp: not_le)
  have "x \<in> set (tq_items q') \<longleftrightarrow> x \<in> insert c S \<and> ts' < x" for x
  proof (cases "ts' < x")
    case True
    then have "?t < x" "\<not> x \<le> ts'"
      using q'(3) by simp_all
    then have "x \<in> insert c {c \<in> S. ?t < c} \<longleftrightarrow> x \<in> insert c S"
      by blast
    then show ?thesis
      unfolding q'(4) using True \<open>\<not> x \<le> ts'\<close> by blast
  qed (use above(1) in blast)
  then have items: "set (tq_items q') = {x \<in> insert c S. ts' < x}"
    by blast
  then have "ts_entry_ok (insert c S) \<lparr>ts_val = ts', ts_pending = q'\<rparr>"
    using q'(2,3,5) S(2) low above(2) by (auto simp: ts_entry_ok_def)
  then show ?thesis
    using q'(1) by (simp add: ts_update_def)
qed

lemma ts_updates_ok:
  assumes "ts_entry_ok S e" "distinct cs" "set cs \<inter> S = {}" "\<forall>c \<in> set cs. 3 \<le> c \<and> c < 2 ^ 31"
  shows "\<exists>e'. ts_updates cs e = Some e' \<and> ts_entry_ok (S \<union> set cs) e'"
  using assms
proof (induction cs arbitrary: S e)
  case (Cons c cs)
  then obtain e1 where "ts_update c e = Some e1" "ts_entry_ok (insert c S) e1"
    using ts_update_ok[of S e c] by auto
  then show ?case
    using Cons.IH[of "insert c S" e1] Cons.prems by auto
qed simp

lemma ts_entry_init_ok: "ts_entry_ok {} ts_entry_init"
  by (simp add: ts_entry_ok_def ts_entry_init_def tq_empty_def ts_queue_ok_def word_less_nat_alt word_le_nat_alt)

subsection \<open>The vector under any order of updates\<close>

fun tsm_run :: "(nat \<times> u64) list \<Rightarrow> tsmanager \<Rightarrow> tsmanager option" where
  "tsm_run [] m = Some m"
| "tsm_run ((mac, c) # us) m = Option.bind (ts_update_handler mac c m) (tsm_run us)"

definition tsm_ok :: "nat \<Rightarrow> (nat \<times> u64) set \<Rightarrow> tsmanager \<Rightarrow> bool" where
  "tsm_ok n U m \<longleftrightarrow> length (ts_buffer m) = n \<and> (\<forall>i < n. ts_entry_ok {c. (i, c) \<in> U} (ts_buffer m ! i))"

lemma tsm_new_ok: "tsm_ok n {} (tsm_new n)"
  by (simp add: tsm_ok_def tsm_new_def ts_entry_init_ok)

lemma tsm_update_ok:
  assumes "tsm_ok n U m" "n \<le> 64" "i < n" "3 \<le> c" "c < 2 ^ 31" "(i, c) \<notin> U"
  shows "\<exists>m'. ts_update_handler i c m = Some m' \<and> tsm_ok n (insert (i, c) U) m'"
proof -
  have m: "length (ts_buffer m) = n" "\<And>j. j < n \<Longrightarrow> ts_entry_ok {c. (j, c) \<in> U} (ts_buffer m ! j)"
    using assms(1) by (simp_all add: tsm_ok_def)
  obtain e where e: "ts_update c (ts_buffer m ! i) = Some e" "ts_entry_ok (insert c {c. (i, c) \<in> U}) e"
    using ts_update_ok[OF m(2)[OF assms(3)]] assms(4-6) by auto
  define m' where "m' = m\<lparr>ts_buffer := (ts_buffer m)[i := e]\<rparr>"
  have step: "ts_update_handler i c m = Some m'"
    using assms(2,3) m(1) e(1) by (simp add: ts_update_handler_def verify_simps m'_def)
  have "{x. (j, x) \<in> insert (i, c) U} = (if j = i then insert c {c. (i, c) \<in> U} else {x. (j, x) \<in> U})" for j
    by auto
  then have "tsm_ok n (insert (i, c) U) m'"
    using m e(2) assms(3) by (simp add: tsm_ok_def m'_def nth_list_update)
  then show ?thesis
    using step by blast
qed

lemma tsm_run_ok:
  assumes "tsm_ok n U m" "n \<le> 64" "distinct us" "set us \<inter> U = {}"
    "\<And>i c. (i, c) \<in> set us \<Longrightarrow> i < n \<and> 3 \<le> c \<and> c < 2 ^ 31"
  shows "\<exists>m'. tsm_run us m = Some m' \<and> tsm_ok n (U \<union> set us) m'"
  using assms
proof (induction us arbitrary: U m)
  case (Cons u us)
  obtain i c where u: "u = (i, c)" by force
  have ic: "i < n" "3 \<le> c" "c < 2 ^ 31" "(i, c) \<notin> U"
    using Cons.prems(4) Cons.prems(5)[of i c] u by auto
  then obtain m1 where m1: "ts_update_handler i c m = Some m1" "tsm_ok n (insert (i, c) U) m1"
    using tsm_update_ok[OF Cons.prems(1,2)] by blast
  have "\<exists>m'. tsm_run us m1 = Some m' \<and> tsm_ok n (insert (i, c) U \<union> set us) m'"
    using Cons.IH[OF m1(2) Cons.prems(2)] Cons.prems(3-5) u by auto
  then show ?case
    using m1(1) u by simp
qed simp

text \<open>C23: The vector the oracle hands out is exact: after the finished commits of all machines have
  arrived in any order, the entry of a machine is the end of the contiguous run of its finished
  commits, so every commit up to it is finished and the next one is not; no update ever pops an empty
  queue. (Counters below \<open>2 ^ 31\<close>.)\<close>

theorem ts_vector_exact:
  assumes "n \<le> 64" "distinct us" "\<forall>(i, c) \<in> set us. i < n \<and> 3 \<le> c \<and> c < 2 ^ 31"
  shows "\<exists>m. tsm_run us (tsm_new n) = Some m \<and> length (ts_get_handler m) = n \<and>
    (\<forall>i < n. 2 \<le> ts_get_handler m ! i \<and> (\<forall>c. 3 \<le> c \<and> c \<le> ts_get_handler m ! i \<longrightarrow> (i, c) \<in> set us) \<and>
       (i, ts_get_handler m ! i + 1) \<notin> set us)"
proof -
  obtain m where m: "tsm_run us (tsm_new n) = Some m" "tsm_ok n (set us) m"
    using tsm_run_ok[OF tsm_new_ok assms(1,2)] assms(3) by auto
  then show ?thesis
    by (auto simp: tsm_ok_def ts_entry_ok_def ts_get_handler_def)
qed

theorem ts_vector_exact_witness:
  "\<exists>m. tsm_run [(0, 4), (1, 3), (0, 3), (0, 6)] (tsm_new 2) = Some m \<and> ts_get_handler m = [4, 3] \<and>
     (\<forall>c. 3 \<le> c \<and> c \<le> ts_get_handler m ! 0 \<longrightarrow> (0, c) \<in> set ([(0, 4), (1, 3), (0, 3), (0, 6)] :: (nat \<times> u64) list))"
proof -
  let ?us = "[(0, 4), (1, 3), (0, 3), (0, 6)] :: (nat \<times> u64) list"
  obtain m where m: "tsm_run ?us (tsm_new 2) = Some m"
      "\<forall>i < 2. \<forall>c. 3 \<le> c \<and> c \<le> ts_get_handler m ! i \<longrightarrow> (i, c) \<in> set ?us"
    using ts_vector_exact[of 2 ?us] by (auto simp: word_less_nat_alt word_le_nat_alt)
  have keys: "tq_key 3 = 3" "tq_key 4 = 4" "tq_key 6 = 6"
    by (simp_all add: tq_key_small)
  have "tsm_run ?us (tsm_new 2) = Some m \<Longrightarrow> ts_get_handler m = [4, 3]"
    by (auto simp: tsm_new_def ts_update_handler_def verify_simps ts_update_def ts_drain.simps tq_top_def tq_push_def
        tq_pop_def ts_entry_init_def tq_empty_def keys ts_get_handler_def numeral_2_eq_2)
  then show ?thesis
    using m(1) m(2)[rule_format, of 0] by auto
qed

lemma tq_key_min: "tq_key (2 ^ 31) = - (2 ^ 31)"
  by (simp add: tq_key_def sint_uint)

lemma tq_key_above_min:
  assumes "c < 2 ^ 32" "c \<noteq> 2 ^ 31"
  shows "tq_key (2 ^ 31) < tq_key c"
proof -
  have "uint c < 2 ^ 32"
    using assms(1) by (simp add: word_less_def)
  then have c: "uint (ucast c :: u32) = uint c"
    by (simp add: unsigned_ucast_eq take_bit_int_eq_self)
  have "tq_key c \<noteq> tq_key (2 ^ 31)"
  proof
    assume "tq_key c = tq_key (2 ^ 31)"
    then have "(ucast c :: u32) = ucast (2 ^ 31 :: u64)"
      unfolding tq_key_def by (rule signed_word_eqI)
    then have "uint c = uint (2 ^ 31 :: u64)"
      using c by simp
    then show False
      using assms(2) by (metis word_uint_eq_iff)
  qed
  moreover have "- (2 ^ 31) \<le> tq_key c"
    using sint_ge[of "ucast c :: u32"] by (simp add: tq_key_def)
  ultimately show ?thesis
    using tq_key_min by linarith
qed

lemma ts_update_stuck:
  assumes "ts_val e = 2 ^ 31 - 2" "tq_items (ts_pending e) = 2 ^ 31 # xs" "c < 2 ^ 32" "c \<noteq> 2 ^ 31"
  shows "\<exists>e' ys. ts_update c e = Some e' \<and> ts_val e' = 2 ^ 31 - 2 \<and> tq_items (ts_pending e') = 2 ^ 31 # ys"
  using assms tq_key_above_min[OF assms(3,4)]
  by (simp add: ts_update_def tq_push_def ts_drain.simps tq_top_def not_le)

lemma ts_updates_stuck:
  assumes "ts_val e = 2 ^ 31 - 2" "tq_items (ts_pending e) = 2 ^ 31 # xs" "\<forall>c \<in> set cs. c < 2 ^ 32 \<and> c \<noteq> 2 ^ 31"
  shows "\<exists>e'. ts_updates cs e = Some e' \<and> ts_val e' = 2 ^ 31 - 2"
  using assms
proof (induction cs arbitrary: e xs)
  case (Cons c cs)
  then show ?case
    using ts_update_stuck[OF Cons.prems(1,2), of c] by force
qed simp

text \<open>The queue compares its 64-bit counters as \<open>int\<close>. At \<open>2 ^ 31\<close> the order of the counters
  breaks: when commit \<open>2 ^ 31\<close> is reported before commit \<open>2 ^ 31 - 1\<close>, the entry of the machine stays at
  \<open>2 ^ 31 - 2\<close> for all later reports, although every commit is finished.\<close>

theorem ts_update_stalls:
  assumes "ts_val e = 2 ^ 31 - 2" "tq_items (ts_pending e) = []" "\<forall>c \<in> set cs. 2 ^ 31 < c \<and> c < 2 ^ 32"
  shows "\<exists>e'. ts_updates (2 ^ 31 # (2 ^ 31 - 1) # cs) e = Some e' \<and> ts_val e' = 2 ^ 31 - 2"
proof -
  obtain e1 where "ts_update (2 ^ 31) e = Some e1" "ts_val e1 = 2 ^ 31 - 2" "tq_items (ts_pending e1) = [2 ^ 31]"
    using assms(1,2) by (simp add: ts_update_def tq_push_def ts_drain.simps tq_top_def)
  then show ?thesis
    using ts_updates_stuck[of e1 "[]" "(2 ^ 31 - 1) # cs"] assms(3) by auto
qed

theorem ts_update_stalls_witness:
  "\<exists>e'. ts_updates [2 ^ 31, 2 ^ 31 - 1, 2 ^ 31 + 1] \<lparr>ts_val = 2 ^ 31 - 2, ts_pending = tq_empty\<rparr> = Some e' \<and>
     ts_val e' = 2 ^ 31 - 2"
  using ts_update_stalls[of "\<lparr>ts_val = 2 ^ 31 - 2, ts_pending = tq_empty\<rparr>" "[2 ^ 31 + 1]"]
  by (simp add: tq_empty_def)

end
