(* ===== verification/DBSI.thy ===== *)
theory DBSI
  imports RemoteSet TSManager
begin

text \<open>
  \<open>db/txs/dbsi.h\<close>, \<open>db/txs/dbsi.cc\<close> and \<open>db/txs/dbsi_rpc_handler.cc\<close> of DrTM: transactions under
  snapshot isolation with vector timestamps (\<open>EM_OCC\<close> undefined, \<open>ONE_CLOCK\<close>, \<open>LARGE_VEC\<close> and
  \<open>NO_EXE_ABORT\<close> 0, \<open>SI_VEC\<close> defined, no logger, \<open>TS_USE_MSG\<close> 1).

  A value buffer is the value it holds; \<open>malloc\<close> returns a buffer of arbitrary content, the argument
  \<open>junk\<close>. The functions here run without interruption; a loop that waits for another thread to finish
  its update (the sequence number 1) does not return and is \<^const>\<open>None\<close>.
\<close>

subsection \<open>Reading a record at a snapshot\<close>

definition vec_at :: "u64 list \<Rightarrow> u64 \<Rightarrow> u64 option" where
  "vec_at v s = (if unat s < length v then Some (v ! unat s) else None)"

text \<open>The test \<open>SI_GET_COUNTER(x) <= ts_vec[SI_GET_SERVER(x)]\<close>.\<close>

definition si_visible :: "u64 list \<Rightarrow> u64 \<Rightarrow> bool option" where
  "si_visible v x = do { t \<leftarrow> vec_at v (SI_GET_SERVER x); Some (SI_GET_COUNTER x \<le> t) }"

fun si_traverse :: "u64 list \<Rightarrow> (u64 \<times> 'v) list \<Rightarrow> (u64 \<times> 'v) option option" where
  "si_traverse v [] = Some None"
| "si_traverse v ((ver, x) # old) = do {
     b \<leftarrow> si_visible v ver;
     if b then Some (Some (ver, x)) else si_traverse v old
   }"

text \<open>
  One round of the retry loops, as a function of what the thread reads: the sequence number \<open>seq\<close>, the
  value and the chain read after it, and the sequence number \<open>seq2\<close> read at the end.
\<close>

datatype 'v read_result = Retry | Ret u64 "'v option"

definition get_ro_pass :: "u64 list \<Rightarrow> u64 \<Rightarrow> 'v option \<Rightarrow> (u64 \<times> 'v) list \<Rightarrow> u64 \<Rightarrow> 'v read_result option" where
  "get_ro_pass v seq value old seq2 =
    (if seq = 0 then Some (Ret 1 None)
     else do {
       b \<leftarrow> si_visible v seq;
       if b then (case value of
           None \<Rightarrow> None
         | Some x \<Rightarrow> Some (if seq2 \<noteq> seq \<or> seq = 1 then Retry else Ret seq (Some x)))
       else if seq = 1 \<or> seq2 \<noteq> seq then Some Retry
       else do {
         r \<leftarrow> si_traverse v old;
         Some (case r of None \<Rightarrow> Ret 1 None | Some (ver, x) \<Rightarrow> Ret ver (Some x))
       }
     })"

definition get_ro_versioned :: "node_id \<Rightarrow> u64 list \<Rightarrow> 'v memdb \<Rightarrow> 'v read_result option" where
  "get_ro_versioned a v db =
    (let n = db a in get_ro_pass v (node_seq n) (node_value n) (node_old n) (node_seq n))"

text \<open>\<open>get\<close>: \<open>GetNull\<close> is the early return without an entry in the read set.\<close>

datatype 'v get_result = GetRetry | GetNull | GetItem u64 "'v option"

definition get_pass :: "u64 list \<Rightarrow> u64 \<Rightarrow> 'v option \<Rightarrow> (u64 \<times> 'v) list \<Rightarrow> u64 \<Rightarrow> 'v get_result option" where
  "get_pass v seq value old seq2 = do {
     b \<leftarrow> si_visible v seq;
     if b then Some (case value of
         None \<Rightarrow> GetNull
       | Some x \<Rightarrow> if seq2 \<noteq> seq \<or> seq = 1 then GetRetry else GetItem seq (Some x))
     else do {
       r \<leftarrow> si_traverse v old;
       Some (case r of None \<Rightarrow> GetItem 1 None | Some (ver, x) \<Rightarrow> GetItem ver (Some x))
     }
   }"

subsection \<open>The write set\<close>

record 'v si_item =
  it_tableid :: int
  it_key :: u64
  it_node :: node_id
  it_addr :: "'v option"
  it_seq :: u64
  it_ro :: bool

record 'v writeset =
  ws_kvs :: "'v si_item list"
  ws_current :: int

definition ws_reset :: "'v writeset" where
  "ws_reset = \<lparr>ws_kvs = [], ws_current = - 1\<rparr>"

definition ws_add :: "'v si_item \<Rightarrow> 'v writeset \<Rightarrow> 'v writeset option" where
  "ws_add it w = do {
     verify (length (ws_kvs w) \<noteq> 1024);
     Some (w\<lparr>ws_kvs := ws_kvs w @ [it]\<rparr>)
   }"

text \<open>\<open>LockAllSet\<close>: the items from position \<open>i\<close> on; the result tells the position reached in
  \<open>current\<close>.\<close>

fun lock_all_set :: "u64 \<Rightarrow> nat \<Rightarrow> int \<Rightarrow> 'v si_item list \<Rightarrow> 'v memdb \<Rightarrow> bool \<times> int \<times> 'v memdb" where
  "lock_all_set c i cur [] db = (True, cur, db)"
| "lock_all_set c i cur (it # its) db =
    (if it_ro it then lock_all_set c (i + 1) cur its db
     else if node_lock (db (it_node it)) \<noteq> 0 then (False, cur, db)
     else (let db1 = set_node (it_node it) (\<lambda>n. n\<lparr>node_lock := c\<rparr>) db in
           if node_seq (db1 (it_node it)) \<noteq> it_seq it then (False, int i, db1)
           else lock_all_set c (i + 1) (int i) its db1))"

definition release_all_set :: "'v writeset \<Rightarrow> 'v memdb \<Rightarrow> 'v memdb" where
  "release_all_set w db = fold (\<lambda>it db. if it_ro it then db else set_node (it_node it) (\<lambda>n. n\<lparr>node_lock := 0\<rparr>) db)
     (take (nat (ws_current w + 1)) (ws_kvs w)) db"

text \<open>
  Installing a value: the current one, with the sequence number \<open>ver\<close>, becomes the head of the chain;
  when there is no current value the chain is dropped. \<open>seq\<close> is 1 in between, which the readers wait out.
\<close>

definition si_install :: "u64 \<Rightarrow> u64 \<Rightarrow> 'v option \<Rightarrow> 'v memnode \<Rightarrow> 'v memnode" where
  "si_install ver commit_ts new n = n\<lparr>
     node_old := (case node_value n of Some cur \<Rightarrow> (ver, cur) # node_old n | None \<Rightarrow> []),
     node_value := new,
     node_seq := commit_ts,
     node_lock := 0\<rparr>"

definition commit_local_write :: "u64 \<Rightarrow> 'v writeset \<Rightarrow> 'v memdb \<Rightarrow> 'v memdb" where
  "commit_local_write commit_ts w db =
    fold (\<lambda>it db. if it_ro it then db else set_node (it_node it) (si_install (it_seq it) commit_ts (it_addr it)) db)
      (ws_kvs w) db"

subsection \<open>Transactions\<close>

record 'v dbsi =
  tx_rwset :: "'v writeset"
  tx_remoteset :: "'v remoteset"
  tx_ts_buffer :: "u64 list"
  tx_partition :: nat
  tx_thread_id :: nat
  tx_cor_id :: nat
  tx_batch_num :: nat

definition tx_content :: "'v dbsi \<Rightarrow> u64" where
  "tx_content tx = ENCODE_LOCK_CONTENT (word_of_nat (tx_partition tx)) (word_of_nat (tx_thread_id tx)) (word_of_nat (tx_cor_id tx + 1))"

definition si_begin :: "tsmanager \<Rightarrow> 'v dbsi \<Rightarrow> 'v dbsi" where
  "si_begin m tx = tx\<lparr>tx_rwset := ws_reset, tx_ts_buffer := get_start_ts m, tx_remoteset := rs_clear (tx_remoteset tx)\<rparr>"

definition si_get_ro :: "int \<Rightarrow> u64 \<Rightarrow> 'v dbsi \<Rightarrow> 'v memdb \<Rightarrow> 'v read_result option" where
  "si_get_ro tableid key tx db = get_ro_versioned (Store (tx_partition tx) tableid key) (tx_ts_buffer tx) db"

definition si_get :: "'v \<Rightarrow> int \<Rightarrow> u64 \<Rightarrow> 'v dbsi \<Rightarrow> 'v memdb \<Rightarrow> (u64 \<times> 'v dbsi) option" where
  "si_get junk tableid key tx db = (let a = Store (tx_partition tx) tableid key; n = db a in do {
     r \<leftarrow> get_pass (tx_ts_buffer tx) (node_seq n) (node_value n) (node_old n) (node_seq n);
     case r of
       GetRetry \<Rightarrow> None
     | GetNull \<Rightarrow> Some (1, tx)
     | GetItem seq val \<Rightarrow> do {
         verify (seq \<noteq> 0);
         w \<leftarrow> ws_add \<lparr>it_tableid = tableid, it_key = key, it_node = a,
                it_addr = Some (case val of Some x \<Rightarrow> x | None \<Rightarrow> junk), it_seq = seq, it_ro = True\<rparr> (tx_rwset tx);
         Some (seq, tx\<lparr>tx_rwset := w\<rparr>)
       }
   })"

definition si_add :: "int \<Rightarrow> u64 \<Rightarrow> node_id \<Rightarrow> 'v option \<Rightarrow> 'v dbsi \<Rightarrow> 'v memdb \<Rightarrow> 'v dbsi option" where
  "si_add tableid key a new tx db = do {
     w \<leftarrow> ws_add \<lparr>it_tableid = tableid, it_key = key, it_node = a, it_addr = new, it_seq = node_seq (db a),
            it_ro = False\<rparr> (tx_rwset tx);
     Some (tx\<lparr>tx_rwset := w\<rparr>)
   }"

definition si_insert :: "int \<Rightarrow> u64 \<Rightarrow> 'v \<Rightarrow> 'v dbsi \<Rightarrow> 'v memdb \<Rightarrow> 'v dbsi option" where
  "si_insert tableid key val tx db = si_add tableid key (Store (tx_partition tx) tableid key) (Some val) tx db"

definition si_insert_index :: "int \<Rightarrow> u64 \<Rightarrow> 'v \<Rightarrow> 'v dbsi \<Rightarrow> 'v memdb \<Rightarrow> 'v dbsi option" where
  "si_insert_index tableid key val tx db = si_add tableid key (Index (tx_partition tx) tableid key) (Some val) tx db"

text \<open>Position of the first entry that satisfies \<open>P\<close>, or the number of entries.\<close>

definition find_item :: "('v si_item \<Rightarrow> bool) \<Rightarrow> 'v si_item list \<Rightarrow> nat" where
  "find_item P its = length (takeWhile (\<lambda>it. \<not> P it) its)"

definition upd_item :: "nat \<Rightarrow> ('v si_item \<Rightarrow> 'v si_item) \<Rightarrow> 'v dbsi \<Rightarrow> 'v dbsi" where
  "upd_item i f tx = (let w = tx_rwset tx in
     tx\<lparr>tx_rwset := w\<lparr>ws_kvs := (ws_kvs w)[i := f (ws_kvs w ! i)]\<rparr>\<rparr>)"

definition si_delete :: "int \<Rightarrow> u64 \<Rightarrow> 'v dbsi \<Rightarrow> 'v memdb \<Rightarrow> 'v dbsi option" where
  "si_delete tableid key tx db =
    (let its = ws_kvs (tx_rwset tx); i = find_item (\<lambda>it. it_tableid it = tableid \<and> it_key it = key) its in
     if i < length its then Some (upd_item i (\<lambda>it. it\<lparr>it_ro := False, it_addr := None\<rparr>) tx)
     else si_add tableid key (Store (tx_partition tx) tableid key) None tx db)"

definition si_delete_index :: "int \<Rightarrow> u64 \<Rightarrow> 'v dbsi \<Rightarrow> 'v memdb \<Rightarrow> 'v dbsi option" where
  "si_delete_index tableid key tx db = (let a = Index (tx_partition tx) tableid key in
     if node_value (db a) = None then Some tx else si_add tableid key a None tx db)"

definition si_delete_by_node :: "int \<Rightarrow> node_id \<Rightarrow> 'v dbsi \<Rightarrow> 'v memdb \<Rightarrow> 'v dbsi option" where
  "si_delete_by_node tableid a tx db =
    (let its = ws_kvs (tx_rwset tx); i = find_item (\<lambda>it. it_node it = a) its in
     if i < length its then Some (upd_item i (\<lambda>it. it\<lparr>it_ro := False, it_addr := None\<rparr>) tx)
     else si_add tableid 0 a None tx db)"

text \<open>\<open>write()\<close> and \<open>write(tableid, key, val, len)\<close> mark an entry for writing; the new value is what the
  program stored through the pointer that \<open>get\<close> returned (\<open>si_store\<close>), \<open>val\<close> is not used.\<close>

definition si_store :: "nat \<Rightarrow> 'v \<Rightarrow> 'v dbsi \<Rightarrow> 'v dbsi" where
  "si_store i x tx = upd_item i (\<lambda>it. it\<lparr>it_addr := Some x\<rparr>) tx"

definition si_write_last :: "'v dbsi \<Rightarrow> 'v dbsi option" where
  "si_write_last tx = do {
     verify (ws_kvs (tx_rwset tx) \<noteq> []);
     Some (upd_item (length (ws_kvs (tx_rwset tx)) - 1) (\<lambda>it. it\<lparr>it_ro := False\<rparr>) tx)
   }"

definition si_write :: "int \<Rightarrow> u64 \<Rightarrow> 'v dbsi \<Rightarrow> 'v dbsi option" where
  "si_write tableid key tx =
    (let its = ws_kvs (tx_rwset tx); i = find_item (\<lambda>it. it_tableid it = tableid \<and> it_key it = key) its in do {
       verify (i < length its);
       Some (upd_item i (\<lambda>it. it\<lparr>it_ro := False\<rparr>) tx)
     })"

subsection \<open>Message handlers\<close>

definition get_rpc_item :: "nat \<Rightarrow> nat \<Rightarrow> rs_request \<Rightarrow> 'v memdb \<Rightarrow> 'v reply_item list option" where
  "get_rpc_item p i q db =
    (if rq_pid q \<noteq> p then Some []
     else (let idx = i mod 256 in case rq_type q of
       REQ_READ \<Rightarrow> (let a = Store p (rq_tableid q) (rq_key q); n = db a in
         if node_seq n = 1 then None
         else Some [\<lparr>rp_seq = (if node_value n = None then 0 else node_seq n), rp_node = a, rp_val = node_value n, rp_idx = idx\<rparr>])
     | REQ_INSERT \<Rightarrow> (let a = Store p (rq_tableid q) (rq_key q) in
         Some [\<lparr>rp_seq = node_seq (db a), rp_node = a, rp_val = None, rp_idx = idx\<rparr>])
     | REQ_READ_IDX \<Rightarrow> (let a = Index p (rq_tableid q) (rq_key q) in
         Some [\<lparr>rp_seq = node_seq (db a), rp_node = a, rp_val = None, rp_idx = idx\<rparr>])
     | REQ_INSERT_IDX \<Rightarrow> (let a = Index p (rq_tableid q) (rq_key q) in
         Some [\<lparr>rp_seq = node_seq (db a), rp_node = a, rp_val = None, rp_idx = idx\<rparr>])
     | _ \<Rightarrow> None))"

fun get_rpc_items :: "nat \<Rightarrow> nat \<Rightarrow> rs_request list \<Rightarrow> 'v memdb \<Rightarrow> 'v reply_item list option" where
  "get_rpc_items p i [] db = Some []"
| "get_rpc_items p i (q # qs) db = do {
     r \<leftarrow> get_rpc_item p i q db;
     rs \<leftarrow> get_rpc_items p (i + 1) qs db;
     Some (r @ rs)
   }"

definition get_rpc_handler :: "nat \<Rightarrow> rs_request list \<Rightarrow> 'v memdb \<Rightarrow> 'v reply_item list option" where
  "get_rpc_handler p msg db = do {
     verify (msg \<noteq> []);
     get_rpc_items p 0 msg db
   }"

text \<open>\<open>lock_rpc_handler\<close> on partition \<open>p\<close> for the lock word \<open>c\<close> of the sender.\<close>

fun lock_rpc_handler :: "nat \<Rightarrow> u64 \<Rightarrow> lock_item list \<Rightarrow> 'v memdb \<Rightarrow> bool \<times> 'v memdb" where
  "lock_rpc_handler p c [] db = (True, db)"
| "lock_rpc_handler p c (l # ls) db =
    (if li_pid l \<noteq> p then lock_rpc_handler p c ls db
     else if node_lock (db (li_node l)) \<noteq> 0 then (False, db)
     else (let db1 = set_node (li_node l) (\<lambda>n. n\<lparr>node_lock := c\<rparr>) db in
           if node_seq (db1 (li_node l)) \<noteq> li_seq l then (False, db1)
           else lock_rpc_handler p c ls db1))"

definition release_rpc_handler :: "nat \<Rightarrow> u64 \<Rightarrow> lock_item list \<Rightarrow> 'v memdb \<Rightarrow> 'v memdb" where
  "release_rpc_handler p c ls db = fold (\<lambda>l db. if li_pid l \<noteq> p then db
     else set_node (li_node l) (\<lambda>n. snd (cas_lock c 0 n)) db) ls db"

text \<open>
  \<open>commit_rpc_handler2\<close>. When the record is not locked by the sender the handler goes on without
  skipping the payload of the item, so that it reads the next item from the middle of the payload; only
  an item without payload is skipped properly.
\<close>

fun commit_rpc_handler2 :: "nat \<Rightarrow> u64 \<Rightarrow> u64 \<Rightarrow> 'v write_item list \<Rightarrow> 'v memdb \<Rightarrow> 'v memdb option" where
  "commit_rpc_handler2 p c desired_seq [] db = Some db"
| "commit_rpc_handler2 p c desired_seq (w # ws) db =
    (if wi_pid w \<noteq> p then commit_rpc_handler2 p c desired_seq ws db
     else if node_lock (db (wi_node w)) \<noteq> c
     then (if wi_val w = None \<or> ws = [] then commit_rpc_handler2 p c desired_seq ws db else None)
     else commit_rpc_handler2 p c desired_seq ws
            (set_node (wi_node w) (\<lambda>n. si_install (node_seq n) desired_seq (wi_val w) n) db))"

subsection \<open>Commit\<close>

text \<open>The broadcasts of the remote set, answered by the servers one after the other.\<close>

fun lock_remote_at :: "nat list \<Rightarrow> u64 \<Rightarrow> lock_item list \<Rightarrow> 'v memdb \<Rightarrow> bool \<times> 'v memdb" where
  "lock_remote_at [] c msg db = (True, db)"
| "lock_remote_at (p # ps) c msg db = (case lock_rpc_handler p c msg db of (ok, db1) \<Rightarrow>
     case lock_remote_at ps c msg db1 of (ok', db2) \<Rightarrow> (ok \<and> ok', db2))"

definition lock_remote :: "u64 \<Rightarrow> 'v remoteset \<Rightarrow> 'v memdb \<Rightarrow> bool \<times> 'v memdb" where
  "lock_remote c r db = (if write_items r > 0 then lock_remote_at (write_servers r) c (lock_msg r) db else (True, db))"

definition release_remote :: "u64 \<Rightarrow> 'v remoteset \<Rightarrow> 'v memdb \<Rightarrow> 'v remoteset \<times> 'v memdb" where
  "release_remote c r db =
    (if write_items r > 0
     then (update_write_buf r, fold (\<lambda>p. release_rpc_handler p c (lock_msg r)) (write_servers r) db)
     else (r, db))"

fun commit_remote_at :: "nat list \<Rightarrow> u64 \<Rightarrow> u64 \<Rightarrow> 'v write_item list \<Rightarrow> 'v memdb \<Rightarrow> 'v memdb option" where
  "commit_remote_at [] c ts msg db = Some db"
| "commit_remote_at (p # ps) c ts msg db = do {
     db1 \<leftarrow> commit_rpc_handler2 p c ts msg db;
     commit_remote_at ps c ts msg db1
   }"

definition commit_remote :: "u64 \<Rightarrow> 'v remoteset \<Rightarrow> 'v memdb \<Rightarrow> ('v remoteset \<times> 'v memdb) option" where
  "commit_remote c r db =
    (if write_items r > 0
     then map_option (\<lambda>db'. (update_write_buf r, db')) (commit_remote_at (write_servers r) c (max_time r) (write_msg r) db)
     else Some (r, db))"

text \<open>\<open>commit_ts\<close>: the report of a finished commit to the oracle, one for every \<open>TS_BATCH\<close> commits.\<close>

definition si_commit_ts :: "nat \<Rightarrow> u64 \<Rightarrow> 'v dbsi \<Rightarrow> tsmanager \<Rightarrow> ('v dbsi \<times> tsmanager) option" where
  "si_commit_ts TS_BATCH ts tx m =
    (if tx_batch_num tx + 1 < TS_BATCH then Some (tx\<lparr>tx_batch_num := tx_batch_num tx + 1\<rparr>, m)
     else map_option (\<lambda>m'. (tx\<lparr>tx_batch_num := 0\<rparr>, m')) (ts_update_handler (tx_partition tx) ts m))"

text \<open>\<open>end\<close>. The oracle \<open>m\<close> is the master's; \<open>own\<close> is the one of the transaction's machine, from which it
  draws its commit timestamp.\<close>

record 'v si_state =
  st_db :: "'v memdb"
  st_own :: tsmanager
  st_master :: tsmanager

definition si_abort :: "'v dbsi \<Rightarrow> int \<Rightarrow> 'v si_state \<Rightarrow> bool \<times> 'v dbsi \<times> 'v si_state" where
  "si_abort tx cur st =
    (case release_remote (tx_content tx) (tx_remoteset tx) (st_db st) of (r, db1) \<Rightarrow>
       (False, tx\<lparr>tx_remoteset := r\<rparr>, st\<lparr>st_db := release_all_set ((tx_rwset tx)\<lparr>ws_current := cur\<rparr>) db1\<rparr>))"

definition si_end :: "nat \<Rightarrow> 'v dbsi \<Rightarrow> 'v si_state \<Rightarrow> (bool \<times> 'v dbsi \<times> 'v si_state) option" where
  "si_end TS_BATCH tx st =
    (case lock_remote (tx_content tx) (tx_remoteset tx) (st_db st) of (ok, db1) \<Rightarrow>
     if \<not> ok then Some (si_abort tx (ws_current (tx_rwset tx)) (st\<lparr>st_db := db1\<rparr>))
     else (case lock_all_set (tx_content tx) 0 (ws_current (tx_rwset tx)) (ws_kvs (tx_rwset tx)) db1 of (ok2, cur, db2) \<Rightarrow>
       if \<not> ok2 then Some (si_abort tx cur (st\<lparr>st_db := db2\<rparr>))
       else (case get_commit_ts (st_own st) of (commit_ts, own) \<Rightarrow>
         let encoded = SI_ENCODE_TS (word_of_nat (tx_partition tx)) commit_ts;
             db3 = commit_local_write encoded (tx_rwset tx) db2 in do {
           (r, db4) \<leftarrow> commit_remote (tx_content tx) ((tx_remoteset tx)\<lparr>max_time := encoded\<rparr>) db3;
           (tx', m) \<leftarrow> si_commit_ts TS_BATCH commit_ts (tx\<lparr>tx_remoteset := r\<rparr>) (st_master st);
           Some (True, tx', \<lparr>st_db = db4, st_own = own, st_master = m\<rparr>)
         })))"

subsection \<open>Locking and releasing\<close>

text \<open>What locking a set of free records does, and that releasing them undoes it.\<close>

definition lock_nodes :: "u64 \<Rightarrow> node_id set \<Rightarrow> 'v memdb \<Rightarrow> 'v memdb" where
  "lock_nodes c A db = (\<lambda>a. if a \<in> A then (db a)\<lparr>node_lock := c\<rparr> else db a)"

definition free_nodes :: "node_id set \<Rightarrow> 'v memdb \<Rightarrow> bool" where
  "free_nodes A db \<longleftrightarrow> (\<forall>a \<in> A. node_lock (db a) = 0)"

definition ws_nodes :: "'v si_item list \<Rightarrow> node_id list" where
  "ws_nodes its = map it_node (filter (\<lambda>it. \<not> it_ro it) its)"

lemma ws_nodes_simps [simp]:
  "ws_nodes [] = []"
  "ws_nodes (it # its) = (if it_ro it then ws_nodes its else it_node it # ws_nodes its)"
  "ws_nodes (xs @ ys) = ws_nodes xs @ ws_nodes ys"
  by (simp_all add: ws_nodes_def)

lemma free_nodes_empty [simp]: "free_nodes {} db"
  by (simp add: free_nodes_def)

lemma free_nodes_Un [simp]: "free_nodes (A \<union> B) db \<longleftrightarrow> free_nodes A db \<and> free_nodes B db"
  by (auto simp: free_nodes_def)

lemma lock_nodes_empty [simp]: "lock_nodes c {} db = db"
  by (simp add: lock_nodes_def)

lemma lock_nodes_sel [simp]:
  "node_lock (lock_nodes c A db a) = (if a \<in> A then c else node_lock (db a))"
  "node_seq (lock_nodes c A db a) = node_seq (db a)"
  "node_value (lock_nodes c A db a) = node_value (db a)"
  "node_old (lock_nodes c A db a) = node_old (db a)"
  by (simp_all add: lock_nodes_def)

lemma lock_nodes_lock_nodes: "lock_nodes c B (lock_nodes c A db) = lock_nodes c (A \<union> B) db"
  by (auto simp: lock_nodes_def fun_eq_iff)

lemma set_node_lock: "set_node a (\<lambda>n. n\<lparr>node_lock := c\<rparr>) db = lock_nodes c {a} db"
  by (auto simp: set_node_def lock_nodes_def fun_eq_iff)

lemma free_nodes_lock:
  "c \<noteq> 0 \<Longrightarrow> free_nodes B (lock_nodes c A db) \<longleftrightarrow> free_nodes B db \<and> A \<inter> B = {}"
  by (auto simp: free_nodes_def split: if_splits)

lemma lock_all_set_effect:
  assumes "lock_all_set c (length pre) cur its db = (ok, cur', db')" "c \<noteq> 0"
    and "ws_nodes (take (nat (cur + 1)) (pre @ its)) = ws_nodes pre"
  shows "\<exists>ns. ws_nodes (take (nat (cur' + 1)) (pre @ its)) = ws_nodes pre @ ns \<and> db' = lock_nodes c (set ns) db
    \<and> distinct ns \<and> free_nodes (set ns) db
    \<and> (ok \<longrightarrow> ns = ws_nodes its \<and> (\<forall>it \<in> set its. it_ro it \<or> node_seq (db (it_node it)) = it_seq it))"
  using assms
proof (induction its arbitrary: pre cur db)
  case (Cons it its)
  let ?a = "it_node it"
  have assoc: "pre @ it # its = (pre @ [it]) @ its" "Suc (length pre) = length (pre @ [it])"
    by simp_all
  have take: "take (nat (int (length pre) + 1)) (pre @ it # its) = pre @ [it]"
    by (simp add: nat_add_distrib)
  consider (ro) "it_ro it" | (busy) "\<not> it_ro it" "node_lock (db ?a) \<noteq> 0"
    | (seq) "\<not> it_ro it" "node_lock (db ?a) = 0" "node_seq (db ?a) \<noteq> it_seq it"
    | (ok) "\<not> it_ro it" "node_lock (db ?a) = 0" "node_seq (db ?a) = it_seq it"
    by blast
  then show ?case
  proof cases
    case ro
    then have "lock_all_set c (length (pre @ [it])) cur its db = (ok, cur', db')"
      using Cons.prems(1) by simp
    moreover have "ws_nodes (take (nat (cur + 1)) ((pre @ [it]) @ its)) = ws_nodes (pre @ [it])"
      using Cons.prems(3) ro by simp
    ultimately show ?thesis
      using Cons.IH[of "pre @ [it]" cur db] Cons.prems(2) ro by simp
  next
    case busy
    then show ?thesis
      using Cons.prems(1,3) by (intro exI[of _ "[]"]) (auto simp: free_nodes_def)
  next
    case seq
    then show ?thesis
      using Cons.prems(1) take by (intro exI[of _ "[?a]"]) (auto simp: free_nodes_def set_node_lock)
  next
    case ok
    let ?db = "lock_nodes c {?a} db"
    have "lock_all_set c (length (pre @ [it])) (int (length pre)) its ?db = (ok, cur', db')"
      using Cons.prems(1) ok by (simp add: set_node_lock)
    moreover have "ws_nodes (take (nat (int (length pre) + 1)) ((pre @ [it]) @ its)) = ws_nodes (pre @ [it])"
      using take by simp
    ultimately obtain ns where ns: "ws_nodes (take (nat (cur' + 1)) ((pre @ [it]) @ its)) = ws_nodes (pre @ [it]) @ ns"
        "db' = lock_nodes c (set ns) ?db" "distinct ns" "free_nodes (set ns) ?db"
        "ok \<longrightarrow> ns = ws_nodes its \<and> (\<forall>it \<in> set its. it_ro it \<or> node_seq (?db (it_node it)) = it_seq it)"
      using Cons.IH[of "pre @ [it]" "int (length pre)" ?db] Cons.prems(2) by blast
    then show ?thesis
      using ok Cons.prems(2)
      by (intro exI[of _ "?a # ns"]) (auto simp: lock_nodes_lock_nodes free_nodes_lock free_nodes_def split: if_splits)
  qed
qed auto

lemma lock_rpc_handler_effect:
  assumes "lock_rpc_handler p c ls db = (ok, db')" "c \<noteq> 0"
  shows "\<exists>A. A \<subseteq> li_node ` {l \<in> set ls. li_pid l = p} \<and> db' = lock_nodes c A db \<and> free_nodes A db
    \<and> (ok \<longrightarrow> A = li_node ` {l \<in> set ls. li_pid l = p} \<and> distinct (map li_node (filter (\<lambda>l. li_pid l = p) ls))
         \<and> (\<forall>l \<in> set ls. li_pid l = p \<longrightarrow> node_seq (db (li_node l)) = li_seq l))"
  using assms
proof (induction ls arbitrary: db)
  case (Cons l ls)
  let ?a = "li_node l" and ?N = "li_node ` {l \<in> set ls. li_pid l = p}"
  have N: "li_node ` {k \<in> set (l # ls). li_pid k = p} = (if li_pid l = p then insert ?a ?N else ?N)"
    by auto
  consider (skip) "li_pid l \<noteq> p" | (busy) "li_pid l = p" "node_lock (db ?a) \<noteq> 0"
    | (seq) "li_pid l = p" "node_lock (db ?a) = 0" "node_seq (db ?a) \<noteq> li_seq l"
    | (ok) "li_pid l = p" "node_lock (db ?a) = 0" "node_seq (db ?a) = li_seq l"
    by blast
  then show ?case
  proof cases
    case skip
    then show ?thesis
      unfolding N using Cons.IH[of db] Cons.prems by auto
  next
    case busy
    then show ?thesis
      unfolding N using Cons.prems(1) by (intro exI[of _ "{}"]) (auto simp: free_nodes_def)
  next
    case seq
    then show ?thesis
      unfolding N using Cons.prems(1) by (intro exI[of _ "{?a}"]) (auto simp: free_nodes_def set_node_lock)
  next
    case ok
    let ?db = "lock_nodes c {?a} db"
    have "lock_rpc_handler p c ls ?db = (ok, db')"
      using Cons.prems(1) ok by (simp add: set_node_lock)
    then obtain A where A: "A \<subseteq> ?N" "db' = lock_nodes c A ?db" "free_nodes A ?db"
        "ok \<longrightarrow> A = ?N \<and> distinct (map li_node (filter (\<lambda>l. li_pid l = p) ls))
          \<and> (\<forall>l \<in> set ls. li_pid l = p \<longrightarrow> node_seq (?db (li_node l)) = li_seq l)"
      using Cons.IH[of ?db] Cons.prems(2) by blast
    have free: "free_nodes A db" "?a \<notin> A"
      using A(3) Cons.prems(2) by (auto simp: free_nodes_lock)
    have "?a \<notin> li_node ` set (filter (\<lambda>l. li_pid l = p) ls)" if ok
      using free(2) A(4) that by auto
    then show ?thesis
      unfolding N using ok A free
      by (intro exI[of _ "insert ?a A"]) (auto simp: lock_nodes_lock_nodes free_nodes_def)
  qed
qed simp

lemma lock_remote_at_effect:
  assumes "lock_remote_at ps c ls db = (ok, db')" "c \<noteq> 0"
  shows "\<exists>A. A \<subseteq> li_node ` {l \<in> set ls. li_pid l \<in> set ps} \<and> db' = lock_nodes c A db \<and> free_nodes A db
    \<and> (ok \<longrightarrow> A = li_node ` {l \<in> set ls. li_pid l \<in> set ps}
         \<and> (\<forall>l \<in> set ls. li_pid l \<in> set ps \<longrightarrow> node_seq (db (li_node l)) = li_seq l)
         \<and> (\<forall>p \<in> set ps. distinct (map li_node (filter (\<lambda>l. li_pid l = p) ls))))"
  using assms
proof (induction ps arbitrary: db ok)
  case (Cons p ps)
  let ?N = "\<lambda>P. li_node ` {l \<in> set ls. li_pid l \<in> P}"
  obtain ok1 db1 where 1: "lock_rpc_handler p c ls db = (ok1, db1)" by force
  obtain ok2 db2 where 2: "lock_remote_at ps c ls db1 = (ok2, db2)" by force
  have res: "ok \<longleftrightarrow> ok1 \<and> ok2" "db2 = db'"
    using Cons.prems(1) 1 2 by auto
  obtain A where A: "A \<subseteq> ?N {p}" "db1 = lock_nodes c A db" "free_nodes A db"
      "ok1 \<longrightarrow> A = ?N {p} \<and> distinct (map li_node (filter (\<lambda>l. li_pid l = p) ls))
        \<and> (\<forall>l \<in> set ls. li_pid l = p \<longrightarrow> node_seq (db (li_node l)) = li_seq l)"
    using lock_rpc_handler_effect[OF 1 Cons.prems(2)] by auto
  obtain B where B: "B \<subseteq> ?N (set ps)" "db2 = lock_nodes c B db1" "free_nodes B db1"
      "ok2 \<longrightarrow> B = ?N (set ps) \<and> (\<forall>l \<in> set ls. li_pid l \<in> set ps \<longrightarrow> node_seq (db1 (li_node l)) = li_seq l)
        \<and> (\<forall>p \<in> set ps. distinct (map li_node (filter (\<lambda>l. li_pid l = p) ls)))"
    using Cons.IH[of db1 ok2] 2 res(2) Cons.prems(2) by blast
  have un: "?N (set (p # ps)) = ?N {p} \<union> ?N (set ps)"
    by auto
  have "free_nodes B db"
    using B(3) A(2) Cons.prems(2) by (simp add: free_nodes_lock)
  then show ?case
    unfolding un using A B res by (intro exI[of _ "A \<union> B"]) (auto simp: lock_nodes_lock_nodes)
qed simp

text \<open>Releasing.\<close>

definition unlock_own :: "u64 \<Rightarrow> node_id set \<Rightarrow> 'v memdb \<Rightarrow> 'v memdb" where
  "unlock_own c A db = (\<lambda>a. if a \<in> A \<and> node_lock (db a) = c then (db a)\<lparr>node_lock := 0\<rparr> else db a)"

lemma release_rpc_handler_effect:
  assumes "c \<noteq> 0"
  shows "release_rpc_handler p c ls db = unlock_own c (li_node ` {l \<in> set ls. li_pid l = p}) db"
  using assms
proof (induction ls arbitrary: db)
  case (Cons l ls)
  have "set_node a (\<lambda>n. snd (cas_lock c 0 n)) db = unlock_own c {a} db" for a and db :: "'a memdb"
    by (auto simp: set_node_def cas_lock_def unlock_own_def fun_eq_iff)
  then have "release_rpc_handler p c (l # ls) db
      = release_rpc_handler p c ls (if li_pid l \<noteq> p then db else unlock_own c {li_node l} db)"
    by (simp add: release_rpc_handler_def)
  also have "\<dots> = unlock_own c (li_node ` {k \<in> set (l # ls). li_pid k = p}) db"
    using Cons by (auto simp: unlock_own_def fun_eq_iff)
  finally show ?case .
qed (simp add: release_rpc_handler_def unlock_own_def)

lemma release_remote_at_effect:
  assumes "c \<noteq> 0"
  shows "fold (\<lambda>p. release_rpc_handler p c ls) ps db = unlock_own c (li_node ` {l \<in> set ls. li_pid l \<in> set ps}) db"
proof (induction ps arbitrary: db)
  case (Cons p ps)
  then show ?case
    using assms by (auto simp: release_rpc_handler_effect unlock_own_def fun_eq_iff)
qed (simp add: unlock_own_def)

lemma release_all_set_effect:
  "release_all_set w db = lock_nodes 0 (set (ws_nodes (take (nat (ws_current w + 1)) (ws_kvs w)))) db"
proof -
  have "fold (\<lambda>it db. if it_ro it then db else set_node (it_node it) (\<lambda>n. n\<lparr>node_lock := 0\<rparr>) db) its db
      = lock_nodes 0 (set (ws_nodes its)) db" for its :: "'a si_item list" and db
    by (induction its arbitrary: db) (auto simp: set_node_lock lock_nodes_lock_nodes)
  then show ?thesis
    by (simp add: release_all_set_def)
qed

text \<open>An abort gives back exactly the locks the commit had taken.\<close>

lemma unlock_locked:
  assumes "free_nodes (A \<union> B) db" "\<forall>a. node_lock (db a) \<noteq> c" "A \<subseteq> N" "c \<noteq> 0"
  shows "lock_nodes 0 B (unlock_own c N (lock_nodes c (A \<union> B) db)) = db"
proof
  fix a
  have same: "(db a)\<lparr>node_lock := 0\<rparr> = db a" if "a \<in> A \<union> B"
    using that assms(1) by (intro memnode.equality) (auto simp: free_nodes_def)
  show "lock_nodes 0 B (unlock_own c N (lock_nodes c (A \<union> B) db)) a = db a"
    using same assms by (cases "a \<in> A \<union> B") (auto simp: unlock_own_def lock_nodes_def)
qed

lemma si_abort_restores:
  assumes "st_db st = lock_nodes c (A \<union> set ns) db" "c = tx_content tx" "c \<noteq> 0"
    and "free_nodes (A \<union> set ns) db" "\<forall>a. node_lock (db a) \<noteq> c"
    and "A \<subseteq> li_node ` {l \<in> set (lock_msg (tx_remoteset tx)). li_pid l \<in> set (write_servers (tx_remoteset tx))}"
    and "write_items (tx_remoteset tx) = 0 \<longrightarrow> A = {}"
    and "ws_nodes (take (nat (cur + 1)) (ws_kvs (tx_rwset tx))) = ns"
  shows "\<exists>tx'. si_abort tx cur st = (False, tx', st\<lparr>st_db := db\<rparr>)"
proof -
  let ?r = "tx_remoteset tx"
  let ?N = "li_node ` {l \<in> set (lock_msg ?r). li_pid l \<in> set (write_servers ?r)}"
  have "lock_nodes 0 (set ns) (snd (release_remote c ?r (st_db st))) = db"
  proof (cases "write_items ?r = 0")
    case True
    then have "unlock_own c {} (lock_nodes c (set ns) db) = lock_nodes c (set ns) db"
      by (simp add: unlock_own_def)
    then show ?thesis
      using unlock_locked[of "{}" "set ns" db c "{}"] assms True by (simp add: release_remote_def)
  next
    case False
    then show ?thesis
      using unlock_locked[OF assms(4,5,6,3)] assms(1,3) by (simp add: release_remote_def release_remote_at_effect)
  qed
  then show ?thesis
    using assms(2,8) by (cases "release_remote c ?r (st_db st)") (auto simp: si_abort_def release_all_set_effect)
qed

subsection \<open>Installing\<close>

definition install_all :: "u64 \<Rightarrow> (node_id \<times> 'v option) list \<Rightarrow> 'v memdb \<Rightarrow> 'v memdb" where
  "install_all ts ws db = (\<lambda>a. case map_of ws a of None \<Rightarrow> db a | Some v \<Rightarrow> si_install (node_seq (db a)) ts v (db a))"

definition ws_writes :: "'v si_item list \<Rightarrow> (node_id \<times> 'v option) list" where
  "ws_writes its = map (\<lambda>it. (it_node it, it_addr it)) (filter (\<lambda>it. \<not> it_ro it) its)"

definition rs_write_list :: "'v write_item list \<Rightarrow> (node_id \<times> 'v option) list" where
  "rs_write_list ws = map (\<lambda>w. (wi_node w, wi_val w)) ws"

lemma map_fst_ws_writes: "map fst (ws_writes its) = ws_nodes its"
  by (simp add: ws_writes_def ws_nodes_def)

lemma map_fst_rs_write_list: "map fst (rs_write_list ws) = map wi_node ws"
  by (simp add: rs_write_list_def)

lemma install_all_Cons:
  assumes "a \<notin> fst ` set ws"
  shows "install_all ts ws (set_node a (si_install (node_seq (db a)) ts v) db) = install_all ts ((a, v) # ws) db"
proof -
  have "map_of ws a = None"
    using assms by (simp add: map_of_eq_None_iff)
  then show ?thesis
    by (auto simp: install_all_def set_node_def fun_eq_iff split: option.split)
qed

lemma install_all_append:
  assumes "fst ` set ws \<inter> fst ` set vs = {}"
  shows "install_all ts ws (install_all ts vs db) = install_all ts (vs @ ws) db"
proof
  fix a
  have "map_of ws a = None \<or> map_of vs a = None"
    using assms by (auto simp: map_of_eq_None_iff)
  then show "install_all ts ws (install_all ts vs db) a = install_all ts (vs @ ws) db a"
    by (auto simp: install_all_def map_add_def split: option.split)
qed

lemma install_all_locked:
  assumes "A = fst ` set ws"
  shows "install_all ts ws (lock_nodes c A db) = install_all ts ws db"
proof
  fix a
  have "a \<in> A \<longleftrightarrow> map_of ws a \<noteq> None"
    using assms by (simp add: map_of_eq_None_iff)
  then show "install_all ts ws (lock_nodes c A db) a = install_all ts ws db a"
    by (auto simp: install_all_def lock_nodes_def si_install_def split: option.split)
qed

lemma commit_local_write_effect:
  assumes "distinct (ws_nodes (ws_kvs w))" "\<forall>it \<in> set (ws_kvs w). it_ro it \<or> node_seq (db (it_node it)) = it_seq it"
  shows "commit_local_write ts w db = install_all ts (ws_writes (ws_kvs w)) db"
proof -
  have "fold (\<lambda>it db. if it_ro it then db else set_node (it_node it) (si_install (it_seq it) ts (it_addr it)) db) its db
      = install_all ts (ws_writes its) db"
    if "distinct (ws_nodes its)" "\<forall>it \<in> set its. it_ro it \<or> node_seq (db (it_node it)) = it_seq it"
    for its :: "'a si_item list" and db
    using that
  proof (induction its arbitrary: db)
    case (Cons it its)
    show ?case
    proof (cases "it_ro it")
      case True
      then show ?thesis
        using Cons by (simp add: ws_writes_def)
    next
      case False
      let ?db = "set_node (it_node it) (si_install (node_seq (db (it_node it))) ts (it_addr it)) db"
      have notin: "it_node it \<notin> fst ` set (ws_writes its)"
        using Cons.prems(1) False map_fst_ws_writes[of its] by (metis distinct.simps(2) list.set_map ws_nodes_simps(2))
      have "it_node x \<in> fst ` set (ws_writes its)" if "x \<in> set its" "\<not> it_ro x" for x
        using that by (auto simp: ws_writes_def image_image)
      then have "it_node x \<noteq> it_node it" if "x \<in> set its" "\<not> it_ro x" for x
        using that notin by metis
      then have "it_ro x \<or> node_seq (?db (it_node x)) = it_seq x" if "x \<in> set its" for x
        using bspec[OF Cons.prems(2), of x] that by (cases "it_ro x") simp_all
      then have "fold (\<lambda>it db. if it_ro it then db else set_node (it_node it) (si_install (it_seq it) ts (it_addr it)) db) its ?db
          = install_all ts (ws_writes its) ?db"
        using Cons.IH[of ?db] Cons.prems(1) False by simp
      also have "\<dots> = install_all ts ((it_node it, it_addr it) # ws_writes its) db"
        by (rule install_all_Cons[OF notin])
      finally show ?thesis
        using False Cons.prems(2) by (simp add: ws_writes_def)
    qed
  qed (simp add: ws_writes_def install_all_def)
  then show ?thesis
    using assms by (simp add: commit_local_write_def)
qed

lemma commit_rpc_handler2_effect:
  assumes "\<forall>w \<in> set ws. wi_pid w = p \<longrightarrow> node_lock (db (wi_node w)) = c"
    and "distinct (map wi_node (filter (\<lambda>w. wi_pid w = p) ws))"
  shows "commit_rpc_handler2 p c ts ws db = Some (install_all ts (rs_write_list (filter (\<lambda>w. wi_pid w = p) ws)) db)"
  using assms
proof (induction ws arbitrary: db)
  case (Cons w ws)
  show ?case
  proof (cases "wi_pid w = p")
    case False
    then show ?thesis
      using Cons by simp
  next
    case True
    let ?a = "wi_node w" and ?ws = "filter (\<lambda>w. wi_pid w = p) ws"
    let ?db = "set_node ?a (\<lambda>n. si_install (node_seq n) ts (wi_val w) n) db"
    have eq: "?db = set_node ?a (si_install (node_seq (db ?a)) ts (wi_val w)) db"
      by (simp add: set_node_def)
    have notin: "?a \<notin> wi_node ` set ?ws" and dist: "distinct (map wi_node ?ws)"
      using Cons.prems(2) True by auto
    have "wi_node x \<noteq> ?a" if "x \<in> set ws" "wi_pid x = p" for x
    proof -
      have "wi_node x \<in> wi_node ` set ?ws"
        using that by (intro imageI) simp
      then show ?thesis
        using notin by metis
    qed
    then have "\<forall>x \<in> set ws. wi_pid x = p \<longrightarrow> node_lock (?db (wi_node x)) = c"
      using Cons.prems(1) by simp
    then have "commit_rpc_handler2 p c ts ws ?db = Some (install_all ts (rs_write_list ?ws) ?db)"
      using Cons.IH dist by blast
    moreover have "?a \<notin> fst ` set (rs_write_list ?ws)"
      using notin by (force simp: rs_write_list_def)
    ultimately show ?thesis
      using Cons.prems(1) True install_all_Cons[of ?a "rs_write_list ?ws" ts db "wi_val w"] eq
      by (simp add: rs_write_list_def)
  qed
qed (simp add: install_all_def rs_write_list_def)

lemma install_all_cong: "map_of ws = map_of vs \<Longrightarrow> install_all ts ws db = install_all ts vs db"
  by (simp add: install_all_def)

lemma install_all_sel:
  "a \<notin> fst ` set ws \<Longrightarrow> install_all ts ws db a = db a"
  by (simp add: install_all_def map_of_eq_None_iff[THEN iffD2])

lemma commit_remote_at_effect:
  assumes "distinct ps" "distinct (map wi_node ws)" "\<forall>w \<in> set ws. wi_pid w \<in> set ps \<longrightarrow> node_lock (db (wi_node w)) = c"
  shows "commit_remote_at ps c ts ws db = Some (install_all ts (rs_write_list (filter (\<lambda>w. wi_pid w \<in> set ps) ws)) db)"
  using assms(1,3)
proof (induction ps arbitrary: db)
  case (Cons p ps)
  let ?A = "filter (\<lambda>w. wi_pid w = p) ws" and ?B = "filter (\<lambda>w. wi_pid w \<in> set ps) ws"
    and ?C = "filter (\<lambda>w. wi_pid w \<in> set (p # ps)) ws"
  define db1 where "db1 = install_all ts (rs_write_list ?A) db"
  have inj: "inj_on wi_node (set ws)" "distinct ws"
    using assms(2) by (simp_all add: distinct_map)
  then have dist: "distinct (map wi_node (filter P ws))" for P
    by (auto simp: distinct_map inj_on_def)
  have disj: "fst ` set (rs_write_list ?B) \<inter> fst ` set (rs_write_list ?A) = {}"
    using inj(1) Cons.prems(1) by (auto simp: rs_write_list_def dest: inj_onD)
  have "commit_rpc_handler2 p c ts ws db = Some db1"
    unfolding db1_def using Cons.prems(2) dist by (intro commit_rpc_handler2_effect) auto
  moreover have "commit_remote_at ps c ts ws db1 = Some (install_all ts (rs_write_list ?B) db1)"
  proof (rule Cons.IH)
    show "distinct ps"
      using Cons.prems(1) by simp
    have "db1 (wi_node w) = db (wi_node w)" if "w \<in> set ws" "wi_pid w \<in> set ps" for w
    proof -
      have "wi_node w \<in> fst ` set (rs_write_list ?B)"
        using that by (force simp: rs_write_list_def)
      then show ?thesis
        unfolding db1_def using disj by (intro install_all_sel) blast
    qed
    then show "\<forall>w \<in> set ws. wi_pid w \<in> set ps \<longrightarrow> node_lock (db1 (wi_node w)) = c"
      using Cons.prems(2) by simp
  qed
  moreover have "map_of (rs_write_list ?A @ rs_write_list ?B) = map_of (rs_write_list ?C)"
  proof (subst map_of_inject_set)
    show "set (rs_write_list ?A @ rs_write_list ?B) = set (rs_write_list ?C)"
      by (auto simp: rs_write_list_def)
    show "distinct (map fst (rs_write_list ?A @ rs_write_list ?B))"
      unfolding map_append distinct_append list.set_map Int_commute[of "fst ` set (rs_write_list ?A)"]
      by (intro conjI disj) (simp_all only: map_fst_rs_write_list dist)
    show "distinct (map fst (rs_write_list ?C))"
      using dist by (simp add: map_fst_rs_write_list)
  qed
  then have "install_all ts (rs_write_list ?B) db1 = install_all ts (rs_write_list ?C) db"
    unfolding db1_def install_all_append[OF disj] by (rule install_all_cong)
  ultimately show ?case
    by simp
qed (simp add: install_all_def rs_write_list_def)

subsection \<open>Commits are all or nothing\<close>

text \<open>What \<open>promote_to_write\<close> keeps of the buffers of a transaction.\<close>

definition rs_ok :: "'v remoteset \<Rightarrow> bool" where
  "rs_ok r \<longleftrightarrow> write_items r = length (rs_locks r) \<and> length (rs_locks r) < 128
     \<and> map (\<lambda>l. (li_pid l, li_node l)) (rs_locks r) = map (\<lambda>w. (wi_pid w, wi_node w)) (rs_writes r)
     \<and> (\<forall>l \<in> set (rs_locks r). li_pid l \<in> set (write_servers r) \<and> li_pid l = node_pid (li_node l))
     \<and> distinct (write_servers r)"

definition tx_writes :: "'v dbsi \<Rightarrow> (node_id \<times> 'v option) list" where
  "tx_writes tx = ws_writes (ws_kvs (tx_rwset tx)) @ rs_write_list (rs_writes (tx_remoteset tx))"

lemma rs_ok_msgs:
  assumes "rs_ok r"
  shows "lock_msg r = rs_locks r" "write_msg r = rs_writes r"
    "{l \<in> set (lock_msg r). li_pid l \<in> set (write_servers r)} = set (rs_locks r)"
    "filter (\<lambda>w. wi_pid w \<in> set (write_servers r)) (rs_writes r) = rs_writes r"
    "map li_node (rs_locks r) = map wi_node (rs_writes r)"
proof -
  have len: "length (rs_writes r) = length (rs_locks r)"
    using assms by (metis (no_types, lifting) length_map rs_ok_def)
  then show msg: "lock_msg r = rs_locks r" "write_msg r = rs_writes r"
    using assms by (simp_all add: rs_ok_def lock_msg_def write_msg_def msg_items_all)
  show "{l \<in> set (lock_msg r). li_pid l \<in> set (write_servers r)} = set (rs_locks r)"
    using assms msg by (auto simp: rs_ok_def)
  have maps: "map (\<lambda>l. (li_pid l, li_node l)) (rs_locks r) = map (\<lambda>w. (wi_pid w, wi_node w)) (rs_writes r)"
    using assms by (simp add: rs_ok_def)
  then have "map snd (map (\<lambda>l. (li_pid l, li_node l)) (rs_locks r)) = map snd (map (\<lambda>w. (wi_pid w, wi_node w)) (rs_writes r))"
    by simp
  then show "map li_node (rs_locks r) = map wi_node (rs_writes r)"
    by (simp add: comp_def)
  have "wi_pid w \<in> set (write_servers r)" if "w \<in> set (rs_writes r)" for w
  proof -
    have "(wi_pid w, wi_node w) \<in> set (map (\<lambda>l. (li_pid l, li_node l)) (rs_locks r))"
      unfolding maps using that by simp
    then show ?thesis
      using assms by (auto simp: rs_ok_def)
  qed
  then show "filter (\<lambda>w. wi_pid w \<in> set (write_servers r)) (rs_writes r) = rs_writes r"
    by (simp add: filter_id_conv)
qed

lemma lock_remote_effect:
  assumes "lock_remote c r db = (ok, db')" "c \<noteq> 0" "rs_ok r"
  shows "\<exists>A. A \<subseteq> li_node ` set (rs_locks r) \<and> db' = lock_nodes c A db \<and> free_nodes A db
    \<and> (ok \<longrightarrow> A = li_node ` set (rs_locks r) \<and> distinct (map li_node (rs_locks r))
         \<and> (\<forall>l \<in> set (rs_locks r). node_seq (db (li_node l)) = li_seq l))"
proof (cases "write_items r > 0")
  case False
  then have "rs_locks r = []"
    using assms(3) by (simp add: rs_ok_def)
  then show ?thesis
    using assms(1) False by (simp add: lock_remote_def)
next
  case True
  then have "lock_remote_at (write_servers r) c (lock_msg r) db = (ok, db')"
    using assms(1) by (simp add: lock_remote_def)
  from lock_remote_at_effect[OF this assms(2)] obtain A where A: "A \<subseteq> li_node ` set (rs_locks r)" "db' = lock_nodes c A db"
      "free_nodes A db" "ok \<longrightarrow> A = li_node ` set (rs_locks r) \<and>
        (\<forall>l \<in> set (lock_msg r). li_pid l \<in> set (write_servers r) \<longrightarrow> node_seq (db (li_node l)) = li_seq l) \<and>
        (\<forall>p \<in> set (write_servers r). distinct (map li_node (filter (\<lambda>l. li_pid l = p) (lock_msg r))))"
    unfolding rs_ok_msgs(3)[OF assms(3)] by blast
  have dist: "distinct (map li_node ls)"
    if "\<forall>l \<in> set ls. li_pid l \<in> P \<and> li_pid l = node_pid (li_node l)"
      "\<forall>p \<in> P. distinct (map li_node (filter (\<lambda>l. li_pid l = p) ls))" for ls P
    using that
  proof (induction ls)
    case (Cons l ls)
    have "distinct (map li_node (filter (\<lambda>k. li_pid k = p) ls))" if "p \<in> P" for p
      using Cons.prems(2)[rule_format, OF that] by (auto split: if_splits)
    moreover have "li_node l \<notin> li_node ` set ls"
      using Cons.prems(1) Cons.prems(2)[rule_format, of "li_pid l"] by (force simp: image_iff)
    moreover have "\<forall>l \<in> set ls. li_pid l \<in> P \<and> li_pid l = node_pid (li_node l)"
      using Cons.prems(1) by auto
    ultimately have "distinct (map li_node ls)" "li_node l \<notin> li_node ` set ls"
      using Cons.IH by blast+
    then show ?case
      by simp
  qed simp
  have locks: "\<forall>l \<in> set (rs_locks r). li_pid l \<in> set (write_servers r) \<and> li_pid l = node_pid (li_node l)"
    using assms(3) unfolding rs_ok_def by blast
  have "ok \<longrightarrow> A = li_node ` set (rs_locks r) \<and> distinct (map li_node (rs_locks r))
      \<and> (\<forall>l \<in> set (rs_locks r). node_seq (db (li_node l)) = li_seq l)"
    using A(4) dist[OF locks] locks unfolding rs_ok_msgs(1)[OF assms(3)] by blast
  then show ?thesis
    using A(1-3) by blast
qed

lemma si_commit_effect:
  assumes "rs_ok r" "distinct (map wi_node (rs_writes r))" "\<forall>w \<in> set (rs_writes r). node_lock (db (wi_node w)) = c"
  shows "\<exists>r'. commit_remote c (r\<lparr>max_time := ts\<rparr>) db = Some (r', install_all ts (rs_write_list (rs_writes r)) db)"
proof (cases "write_items r > 0")
  case True
  have "commit_remote_at (write_servers r) c ts (rs_writes r) db
      = Some (install_all ts (rs_write_list (filter (\<lambda>w. wi_pid w \<in> set (write_servers r)) (rs_writes r))) db)"
    using assms by (intro commit_remote_at_effect) (auto simp: rs_ok_def)
  moreover have "write_msg (r\<lparr>max_time := ts\<rparr>) = rs_writes r"
    using rs_ok_msgs(2)[OF assms(1)] by (simp add: write_msg_def)
  ultimately show ?thesis
    using True rs_ok_msgs(4)[OF assms(1)] by (simp add: commit_remote_def)
next
  case False
  then have "rs_writes r = []"
    using assms(1) rs_ok_msgs(5)[OF assms(1)] by (simp add: rs_ok_def)
  then show ?thesis
    using False by (simp add: commit_remote_def install_all_def rs_write_list_def)
qed

lemma si_abort_end:
  assumes "rs_ok (tx_remoteset tx)" "tx_content tx \<noteq> 0" "\<forall>a. node_lock (st_db st a) \<noteq> tx_content tx"
    and "A \<subseteq> li_node ` set (rs_locks (tx_remoteset tx))" "free_nodes A (st_db st)"
    and "free_nodes (set ns) (st_db st)" "ws_nodes (take (nat (cur + 1)) (ws_kvs (tx_rwset tx))) = ns"
    and "db = lock_nodes (tx_content tx) (A \<union> set ns) (st_db st)"
  shows "\<exists>tx'. si_abort tx cur (st\<lparr>st_db := db\<rparr>) = (False, tx', st)"
proof -
  have "write_items (tx_remoteset tx) = 0 \<longrightarrow> A = {}"
    using assms(1,4) by (auto simp: rs_ok_def)
  then show ?thesis
    using si_abort_restores[of "st\<lparr>st_db := db\<rparr>" "tx_content tx" A ns "st_db st" tx cur] assms rs_ok_msgs(3)[OF assms(1)]
    by simp
qed

lemma si_commit_all:
  fixes tx :: "'v dbsi"
  defines "its \<equiv> ws_kvs (tx_rwset tx)" and "r \<equiv> tx_remoteset tx"
  assumes "rs_ok r" "distinct (map li_node (rs_locks r))" "distinct (ws_nodes its)"
    and "li_node ` set (rs_locks r) \<inter> set (ws_nodes its) = {}"
    and "\<forall>it \<in> set its. it_ro it \<or> node_seq (db (it_node it)) = it_seq it"
    and "db2 = lock_nodes c (li_node ` set (rs_locks r) \<union> set (ws_nodes its)) db"
  shows "\<exists>r'. commit_remote c (r\<lparr>max_time := ts\<rparr>) (commit_local_write ts (tx_rwset tx) db2)
      = Some (r', install_all ts (tx_writes tx) db)"
    and "distinct (map fst (tx_writes tx))"
proof -
  let ?L = "ws_writes its" and ?R = "rs_write_list (rs_writes r)"
  have L: "fst ` set ?L = set (ws_nodes its)"
    by (metis list.set_map map_fst_ws_writes)
  have R: "map fst ?R = map li_node (rs_locks r)"
    using rs_ok_msgs(5)[OF assms(3)] by (simp add: map_fst_rs_write_list)
  then have R': "fst ` set ?R = li_node ` set (rs_locks r)"
    by (metis list.set_map)
  have disj: "fst ` set ?R \<inter> fst ` set ?L = {}"
    unfolding L R' by (rule assms(6))
  show "distinct (map fst (tx_writes tx))"
    unfolding tx_writes_def its_def[symmetric] r_def[symmetric] map_append R map_fst_ws_writes
    using assms(4-6) by auto
  define db3 where "db3 = install_all ts ?L db2"
  have "commit_local_write ts (tx_rwset tx) db2 = db3"
    unfolding db3_def its_def using assms(5,7,8) by (intro commit_local_write_effect) (simp_all add: its_def)
  moreover have "\<forall>w \<in> set (rs_writes r). node_lock (db3 (wi_node w)) = c"
  proof
    fix w assume "w \<in> set (rs_writes r)"
    then have w: "wi_node w \<in> fst ` set ?R"
      by (force simp: rs_write_list_def)
    then have "db3 (wi_node w) = db2 (wi_node w)"
      unfolding db3_def using disj by (intro install_all_sel) blast
    then show "node_lock (db3 (wi_node w)) = c"
      using w R' assms(8) by simp
  qed
  then obtain r' where "commit_remote c (r\<lparr>max_time := ts\<rparr>) db3 = Some (r', install_all ts ?R db3)"
    using si_commit_effect[OF assms(3), of db3 c ts] assms(4) rs_ok_msgs(5)[OF assms(3)] by auto
  moreover have "install_all ts ?R db3 = install_all ts (tx_writes tx) db"
    unfolding db3_def install_all_append[OF disj] assms(8) tx_writes_def its_def[symmetric] r_def[symmetric]
    by (rule install_all_locked) (simp add: image_Un L R' Un_commute)
  ultimately show "\<exists>r'. commit_remote c (r\<lparr>max_time := ts\<rparr>) (commit_local_write ts (tx_rwset tx) db2)
      = Some (r', install_all ts (tx_writes tx) db)"
    by simp
qed

text \<open>C13: A commit is all or nothing. It always returns; when it succeeds, every local and remote record it
  writes had, before the commit, exactly the sequence number the transaction read, no record is written
  twice, and the database changes by installing all its values with its commit timestamp; when it fails,
  the database, including every lock word, the counter and the oracle are as before.\<close>

theorem si_end_all_or_nothing:
  assumes "rs_ok (tx_remoteset tx)" "ws_current (tx_rwset tx) = - 1"
    and "tx_content tx \<noteq> 0" "\<forall>a. node_lock (st_db st a) \<noteq> tx_content tx"
    and "ts_update_handler (tx_partition tx) (local_ts (st_own st)) (st_master st) = Some m"
  shows "\<exists>ok tx' st'. si_end 1 tx st = Some (ok, tx', st') \<and>
    (if ok then distinct (map fst (tx_writes tx))
       \<and> (\<forall>it \<in> set (ws_kvs (tx_rwset tx)). it_ro it \<or> node_seq (st_db st (it_node it)) = it_seq it)
       \<and> (\<forall>l \<in> set (rs_locks (tx_remoteset tx)). node_seq (st_db st (li_node l)) = li_seq l)
       \<and> st_db st' = install_all (SI_ENCODE_TS (word_of_nat (tx_partition tx)) (local_ts (st_own st))) (tx_writes tx) (st_db st)
       \<and> st_own st' = (st_own st)\<lparr>local_ts := local_ts (st_own st) + 1\<rparr> \<and> st_master st' = m
     else st' = st)"
proof -
  let ?c = "tx_content tx" and ?r = "tx_remoteset tx" and ?w = "tx_rwset tx" and ?db = "st_db st"
  define ts where "ts = SI_ENCODE_TS (word_of_nat (tx_partition tx)) (local_ts (st_own st))"
  obtain ok1 db1 where 1: "lock_remote ?c ?r ?db = (ok1, db1)" by force
  obtain A where A: "A \<subseteq> li_node ` set (rs_locks ?r)" "db1 = lock_nodes ?c A ?db" "free_nodes A ?db"
      "ok1 \<longrightarrow> A = li_node ` set (rs_locks ?r) \<and> distinct (map li_node (rs_locks ?r))
        \<and> (\<forall>l \<in> set (rs_locks ?r). node_seq (?db (li_node l)) = li_seq l)"
    using lock_remote_effect[OF 1 assms(3,1)] by blast
  note abort = si_abort_end[OF assms(1,3,4) A(1,3)]
  show ?thesis
  proof (cases ok1)
    case False
    obtain tx' where "si_abort tx (- 1) (st\<lparr>st_db := db1\<rparr>) = (False, tx', st)"
      using abort[of "[]" "- 1" db1] A(2) by auto
    then show ?thesis
      using 1 False assms(2) by (auto simp: si_end_def)
  next
    case ok1: True
    obtain ok2 cur db2 where 2: "lock_all_set ?c 0 (- 1) (ws_kvs ?w) db1 = (ok2, cur, db2)" by (cases rule: prod_cases3)
    obtain ns where ns: "ws_nodes (take (nat (cur + 1)) (ws_kvs ?w)) = ns" "db2 = lock_nodes ?c (set ns) db1" "distinct ns"
        "free_nodes (set ns) db1"
        "ok2 \<longrightarrow> ns = ws_nodes (ws_kvs ?w) \<and> (\<forall>it \<in> set (ws_kvs ?w). it_ro it \<or> node_seq (db1 (it_node it)) = it_seq it)"
      using lock_all_set_effect[of ?c "[]" "- 1" "ws_kvs ?w" db1 ok2 cur db2] 2 assms(3) by auto
    have db2: "db2 = lock_nodes ?c (A \<union> set ns) ?db" "free_nodes (set ns) ?db" "A \<inter> set ns = {}"
      using ns(2,4) A(2) assms(3) by (simp_all add: lock_nodes_lock_nodes free_nodes_lock)
    show ?thesis
    proof (cases ok2)
      case False
      then show ?thesis
        using abort[OF db2(2) ns(1) db2(1)] 1 2 ok1 assms(2) by (auto simp: si_end_def)
    next
      case ok2: True
      have seqL: "\<forall>it \<in> set (ws_kvs ?w). it_ro it \<or> node_seq (?db (it_node it)) = it_seq it"
        using ns(5) ok2 A(2) by simp
      note commit = si_commit_all(1)[where tx = tx and db = ?db and c = ?c and ts = ts, OF assms(1)]
        si_commit_all(2)[where tx = tx and db = ?db and c = ?c, OF assms(1)]
      obtain r' where "commit_remote ?c (?r\<lparr>max_time := ts\<rparr>) (commit_local_write ts ?w db2)
          = Some (r', install_all ts (tx_writes tx) ?db)" and dist: "distinct (map fst (tx_writes tx))"
        using commit A(4) ok1 ok2 ns(3,5) db2(1,3) seqL assms(1) by auto
      then have "\<exists>tx'. si_end 1 tx st = Some (True, tx', \<lparr>st_db = install_all ts (tx_writes tx) ?db,
          st_own = (st_own st)\<lparr>local_ts := local_ts (st_own st) + 1\<rparr>, st_master = m\<rparr>)"
        using 1 2 ok1 ok2 assms(2,5) by (simp add: si_end_def get_commit_ts_def Let_def si_commit_ts_def ts_def)
      then show ?thesis
        using dist seqL A(4) ok1 by (fastforce simp: ts_def)
    qed
  qed
qed

definition si_sample_tx :: "string dbsi" where
  "si_sample_tx = \<lparr>tx_rwset = \<lparr>ws_kvs = [\<lparr>it_tableid = 1, it_key = 5, it_node = Store 0 1 5, it_addr = Some ''b'', it_seq = 2, it_ro = False\<rparr>],
     ws_current = - 1\<rparr>, tx_remoteset = rs_new, tx_ts_buffer = [2], tx_partition = 0, tx_thread_id = 0, tx_cor_id = 1, tx_batch_num = 0\<rparr>"

definition si_sample_st :: "string si_state" where
  "si_sample_st = \<lparr>st_db = memdb_init(Store 0 1 5 := memnode_init\<lparr>node_seq := 2, node_value := Some ''a''\<rparr>),
     st_own = tsm_new 1, st_master = tsm_new 1\<rparr>"

theorem si_end_all_or_nothing_witness:
  "\<exists>tx' st'. si_end 1 si_sample_tx si_sample_st = Some (True, tx', st') \<and>
     node_value (st_db st' (Store 0 1 5)) = Some ''b'' \<and> node_old (st_db st' (Store 0 1 5)) = [(2, ''a'')]"
proof -
  have c: "tx_content si_sample_tx = 2"
    by (simp add: tx_content_def si_sample_tx_def ENCODE_LOCK_CONTENT_def)
  have rs: "rs_ok (tx_remoteset si_sample_tx)"
    by (simp add: rs_ok_def si_sample_tx_def rs_new_def rs_clear_def update_write_buf_def)
  have free: "\<forall>a. node_lock (st_db si_sample_st a) \<noteq> tx_content si_sample_tx"
    by (simp add: c si_sample_st_def memdb_init_def memnode_init_def)
  have writes: "tx_writes si_sample_tx = [(Store 0 1 5, Some ''b'')]"
    by (simp add: tx_writes_def si_sample_tx_def ws_writes_def rs_write_list_def rs_new_def rs_clear_def update_write_buf_def)
  obtain m where m: "ts_update_handler (tx_partition si_sample_tx) (local_ts (st_own si_sample_st)) (st_master si_sample_st) = Some m"
    using tsm_update_ok[OF tsm_new_ok, of 1 0 3] by (auto simp: si_sample_tx_def si_sample_st_def tsm_new_def)
  have ok: "si_end 1 si_sample_tx si_sample_st \<noteq> Some (False, tx', si_sample_st)" for tx'
    by (auto simp: si_end_def lock_remote_def c Let_def si_sample_tx_def si_sample_st_def rs_new_def rs_clear_def
        update_write_buf_def memdb_init_def memnode_init_def bind_eq_Some_conv split: prod.splits)
  have cur: "ws_current (tx_rwset si_sample_tx) = - 1"
    by (simp add: si_sample_tx_def)
  obtain ok' tx' st' where e: "si_end 1 si_sample_tx si_sample_st = Some (ok', tx', st')"
      "if ok' then st_db st' = install_all (SI_ENCODE_TS (word_of_nat (tx_partition si_sample_tx)) (local_ts (st_own si_sample_st)))
         (tx_writes si_sample_tx) (st_db si_sample_st) else st' = si_sample_st"
    using si_end_all_or_nothing[OF rs cur _ free m] c by (auto split: if_splits)
  then show ?thesis
    using ok by (auto simp: writes install_all_def si_install_def si_sample_st_def memnode_init_def split: if_splits)
qed

subsection \<open>Snapshots and installed versions\<close>

text \<open>A record of a database without deletions: fresh, or with a value and proper version numbers.\<close>

definition node_ok :: "nat \<Rightarrow> 'v memnode \<Rightarrow> bool" where
  "node_ok n x \<longleftrightarrow> (if node_value x = None then node_seq x = 0 \<and> node_old x = []
     else node_seq x \<noteq> 0 \<and> node_seq x \<noteq> 1 \<and> unat (SI_GET_SERVER (node_seq x)) < n)
     \<and> (\<forall>e \<in> set (node_old x). unat (SI_GET_SERVER (fst e)) < n)"

definition read_at :: "u64 list \<Rightarrow> 'v memnode \<Rightarrow> 'v read_result option" where
  "read_at v x = get_ro_pass v (node_seq x) (node_value x) (node_old x) (node_seq x)"

lemma get_ro_versioned_read_at: "get_ro_versioned a v db = read_at v (db a)"
  by (simp add: get_ro_versioned_def read_at_def Let_def)

text \<open>Installing a version that a snapshot does not see, on a record that was not deleted, does not change
  what the snapshot reads.\<close>

lemma read_at_install:
  assumes "node_ok n x" "si_visible v ts = Some False" "ts \<noteq> 0" "ts \<noteq> 1" "length v = n"
  shows "read_at v (si_install (node_seq x) ts w x) = read_at v x"
proof (cases "node_value x")
  case None
  then show ?thesis
    using assms by (simp add: read_at_def si_install_def get_ro_pass_def node_ok_def)
next
  case (Some y)
  then obtain t where "vec_at v (SI_GET_SERVER (node_seq x)) = Some t"
    using assms(1,5) by (auto simp: node_ok_def vec_at_def)
  then obtain b where "si_visible v (node_seq x) = Some b"
    by (simp add: si_visible_def)
  then show ?thesis
    using Some assms by (auto simp: read_at_def si_install_def get_ro_pass_def node_ok_def)
qed

text \<open>C37: Deleting a record and inserting it again drops its chain of old versions: a snapshot from
  before both still sees the record after the deletion but no longer after the insertion.\<close>

theorem si_reinsert_loses_history:
  assumes "node_value (db a) = Some x" "node_seq (db a) = ver" "ver \<noteq> 0" "ver \<noteq> 1" "si_visible v ver = Some True"
    and "si_visible v ts1 = Some False" "ts1 \<noteq> 0" "ts1 \<noteq> 1" "si_visible v ts2 = Some False" "ts2 \<noteq> 0" "ts2 \<noteq> 1"
  shows "get_ro_versioned a v db = Some (Ret ver (Some x))
    \<and> get_ro_versioned a v (install_all ts1 [(a, None)] db) = Some (Ret ver (Some x))
    \<and> get_ro_versioned a v (install_all ts2 [(a, Some y)] (install_all ts1 [(a, None)] db)) = Some (Ret 1 None)"
  using assms by (simp add: get_ro_versioned_read_at read_at_def get_ro_pass_def install_all_def si_install_def)

theorem si_reinsert_loses_history_witness:
  "get_ro_versioned (Store 0 1 5) [2] (install_all 4 [(Store 0 1 5, Some ''b'')]
     (install_all 3 [(Store 0 1 5, None)] (st_db si_sample_st))) = Some (Ret 1 None)"
  using si_reinsert_loses_history[of "st_db si_sample_st" "Store 0 1 5" "''a''" 2 "[2]" 3 4 "''b''"]
  by (simp add: si_sample_st_def si_visible_def vec_at_def SI_GET_SERVER_def SI_GET_COUNTER_def)

end
