(* ===== verification/SISystem.thy ===== *)
theory SISystem
  imports DBSI
begin

text \<open>
  The commits of DrTM's snapshot isolation (\<open>DBSI::end\<close>, its message handlers and the timestamp oracle)
  with all their interleavings: between any two accesses to a record any other transaction may run.

  A transaction slot \<open>t\<close> (a coroutine of a thread) runs on the machine \<open>mac t\<close> and locks with the word
  \<open>content t\<close>; it runs one transaction after the other. A commit asks for
  records, each with the sequence number its read returned and the value to write; what the program
  read and computed before the commit is left open, and so is the order in which the local set and the
  remote servers process the records. A server that fails to lock a record does not look at the rest
  of its list. Local records are released by clearing the lock word and remote ones by a compare and
  swap; a local version takes the sequence number of the write set and a remote one that of the record.
\<close>

type_synonym 'v target = "node_id \<times> u64 \<times> 'v option"

datatype 'v txrun =
    Idle
  | Active "u64 list"
  | Locking "'v target list" "'v target list" bool
  | Writing u64 "'v target list"
  | Releasing "'v target list"

record ('t, 'v) sys =
  sys_db :: "'v memdb"
  sys_ts :: tsmanager
  sys_local :: "nat \<Rightarrow> u64"
  sys_fetched :: "nat \<Rightarrow> u64 list"
  sys_tx :: "'t \<Rightarrow> 'v txrun"

datatype ('t, 'v) sys_op =
    SBegin 't
  | SEnd 't "'v target list"
  | SLock 't nat
  | SSkip 't
  | SDecide 't
  | SInstall 't nat
  | SReport 't
  | SRelease 't nat
  | SFetch nat

definition remove_nth :: "nat \<Rightarrow> 'a list \<Rightarrow> 'a list" where
  "remove_nth i xs = take i xs @ drop (Suc i) xs"

definition set_tx :: "'t \<Rightarrow> 'v txrun \<Rightarrow> ('t, 'v) sys \<Rightarrow> ('t, 'v) sys" where
  "set_tx t x s = s\<lparr>sys_tx := (sys_tx s)(t := x)\<rparr>"

text \<open>One attempt to lock a record and to validate its sequence number.\<close>

definition try_lock :: "u64 \<Rightarrow> 'v target \<Rightarrow> 'v memdb \<Rightarrow> bool \<times> bool \<times> 'v memdb" where
  "try_lock c g db = (case g of (a, q, x) \<Rightarrow>
     if node_lock (db a) \<noteq> 0 then (False, False, db)
     else (True, node_seq (db a) = q, set_node a (\<lambda>n. n\<lparr>node_lock := c\<rparr>) db))"

fun sys_step :: "('t \<Rightarrow> nat) \<Rightarrow> ('t \<Rightarrow> u64) \<Rightarrow> ('t, 'v) sys_op \<Rightarrow> ('t, 'v) sys \<Rightarrow> ('t, 'v) sys option" where
  "sys_step mac content (SBegin t) s = (case sys_tx s t of
     Idle \<Rightarrow> Some (set_tx t (Active (sys_fetched s (mac t))) s) | _ \<Rightarrow> None)"
| "sys_step mac content (SEnd t gs) s = (case sys_tx s t of
     Active v \<Rightarrow> Some (set_tx t (Locking gs [] False) s) | _ \<Rightarrow> None)"
| "sys_step mac content (SLock t i) s = (case sys_tx s t of
     Locking pend held failed \<Rightarrow>
       if i < length pend
       then (case try_lock (content t) (pend ! i) (sys_db s) of (locked, valid, db) \<Rightarrow>
         Some (set_tx t (Locking (remove_nth i pend) (if locked then pend ! i # held else held)
                 (failed \<or> \<not> (locked \<and> valid))) (s\<lparr>sys_db := db\<rparr>)))
       else None
   | _ \<Rightarrow> None)"
| "sys_step mac content (SSkip t) s = (case sys_tx s t of
     Locking pend held True \<Rightarrow> Some (set_tx t (Locking [] held True) s) | _ \<Rightarrow> None)"
| "sys_step mac content (SDecide t) s = (case sys_tx s t of
     Locking [] held failed \<Rightarrow>
       if failed then Some (set_tx t (Releasing held) s)
       else Some (set_tx t (Writing (sys_local s (mac t)) held)
              (s\<lparr>sys_local := (sys_local s)(mac t := sys_local s (mac t) + 1)\<rparr>))
   | _ \<Rightarrow> None)"
| "sys_step mac content (SInstall t i) s = (case sys_tx s t of
     Writing cts gs \<Rightarrow>
       if i < length gs
       then (case gs ! i of (a, q, x) \<Rightarrow>
         Some (set_tx t (Writing cts (remove_nth i gs))
           (s\<lparr>sys_db := set_node a (\<lambda>n. si_install (if node_pid a = mac t then q else node_seq n)
                          (SI_ENCODE_TS (word_of_nat (mac t)) cts) x n) (sys_db s)\<rparr>)))
       else None
   | _ \<Rightarrow> None)"
| "sys_step mac content (SReport t) s = (case sys_tx s t of
     Writing cts [] \<Rightarrow> do {
       m \<leftarrow> ts_update_handler (mac t) cts (sys_ts s);
       Some (set_tx t Idle (s\<lparr>sys_ts := m\<rparr>))
     }
   | _ \<Rightarrow> None)"
| "sys_step mac content (SRelease t i) s = (case sys_tx s t of
     Releasing [] \<Rightarrow> Some (set_tx t Idle s)
   | Releasing (g # gs) \<Rightarrow>
       (let gs' = g # gs; a = fst (gs' ! i) in if i < length gs'
       then Some (set_tx t (Releasing (remove_nth i gs'))
              (s\<lparr>sys_db := set_node a (\<lambda>n. if node_pid a = mac t then n\<lparr>node_lock := 0\<rparr>
                                              else snd (cas_lock (content t) 0 n)) (sys_db s)\<rparr>))
       else None)
   | _ \<Rightarrow> None)"
| "sys_step mac content (SFetch p) s = Some (s\<lparr>sys_fetched := (sys_fetched s)(p := ts_get_handler (sys_ts s))\<rparr>)"

fun sys_run :: "('t \<Rightarrow> nat) \<Rightarrow> ('t \<Rightarrow> u64) \<Rightarrow> ('t, 'v) sys_op list \<Rightarrow> ('t, 'v) sys \<Rightarrow> ('t, 'v) sys option" where
  "sys_run mac content [] s = Some s"
| "sys_run mac content (a # as) s = Option.bind (sys_step mac content a s) (sys_run mac content as)"

definition sys_init :: "nat \<Rightarrow> 'v memdb \<Rightarrow> ('t, 'v) sys" where
  "sys_init n db = \<lparr>sys_db = db, sys_ts = tsm_new n, sys_local = (\<lambda>_. 3), sys_fetched = (\<lambda>_. replicate n 2), sys_tx = (\<lambda>_. Idle)\<rparr>"

definition sys_vec :: "('t, 'v) sys \<Rightarrow> u64 list" where
  "sys_vec s = ts_get_handler (sys_ts s)"

definition vec_le :: "u64 list \<Rightarrow> u64 list \<Rightarrow> bool" where
  "vec_le v w \<longleftrightarrow> list_all2 (\<le>) v w"

subsection \<open>Locks\<close>

text \<open>The records a transaction has locked, and whether they were all validated.\<close>

fun held_of :: "'v txrun \<Rightarrow> 'v target list" where
  "held_of (Locking pend held failed) = held"
| "held_of (Writing cts gs) = gs"
| "held_of (Releasing gs) = gs"
| "held_of _ = []"

fun valid_of :: "'v txrun \<Rightarrow> bool" where
  "valid_of (Locking pend held failed) = (\<not> failed)"
| "valid_of (Writing cts gs) = True"
| "valid_of _ = False"

text \<open>Every held record carries the word of its holder, once, and the validated ones have the sequence
  number they were validated with.\<close>

definition run_locks_ok :: "u64 \<Rightarrow> 'v memdb \<Rightarrow> 'v txrun \<Rightarrow> bool" where
  "run_locks_ok c db r \<longleftrightarrow> distinct (map fst (held_of r))
     \<and> (\<forall>(a, q, x) \<in> set (held_of r). node_lock (db a) = c \<and> (valid_of r \<longrightarrow> node_seq (db a) = q))"

definition locks_ok :: "('t \<Rightarrow> u64) \<Rightarrow> ('t, 'v) sys \<Rightarrow> bool" where
  "locks_ok content s \<longleftrightarrow> (\<forall>t. run_locks_ok (content t) (sys_db s) (sys_tx s t))"

lemma set_tx_sel [simp]:
  "sys_db (set_tx t x s) = sys_db s" "sys_ts (set_tx t x s) = sys_ts s" "sys_local (set_tx t x s) = sys_local s"
  "sys_fetched (set_tx t x s) = sys_fetched s" "sys_tx (set_tx t x s) = (sys_tx s)(t := x)"
  by (simp_all add: set_tx_def)

lemma set_remove_nth: "set (remove_nth i xs) \<subseteq> set xs"
  unfolding remove_nth_def by (auto dest: in_set_takeD in_set_dropD)

lemma distinct_remove_nth:
  assumes "distinct (map f xs)" "i < length xs"
  shows "distinct (map f (remove_nth i xs))" "\<And>x. x \<in> set (remove_nth i xs) \<Longrightarrow> f x \<noteq> f (xs ! i)"
proof -
  have xs: "xs = take i xs @ xs ! i # drop (Suc i) xs"
    using assms(2) by (simp add: id_take_nth_drop)
  have "distinct (map f (take i xs @ xs ! i # drop (Suc i) xs))"
    using assms(1) xs by simp
  then have d: "distinct (map f (take i xs) @ f (xs ! i) # map f (drop (Suc i) xs))"
    by simp
  then show "distinct (map f (remove_nth i xs))"
    unfolding remove_nth_def map_append by simp
  fix x
  assume "x \<in> set (remove_nth i xs)"
  then have "f x \<in> set (map f (take i xs)) \<union> set (map f (drop (Suc i) xs))"
    unfolding remove_nth_def by auto
  moreover have "f (xs ! i) \<notin> set (map f (take i xs)) \<union> set (map f (drop (Suc i) xs))"
    using d by simp
  ultimately show "f x \<noteq> f (xs ! i)"
    by metis
qed

lemma run_locks_okD:
  assumes "run_locks_ok c db r" "g \<in> set (held_of r)" "g = (a, q, x)"
  shows "node_lock (db a) = c" "valid_of r \<Longrightarrow> node_seq (db a) = q"
  using assms by (auto simp: run_locks_ok_def)

text \<open>A change of a record whose lock word is not that of another transaction keeps the locks of the
  other transactions.\<close>

lemma run_locks_ok_frame:
  assumes "run_locks_ok c db r" "\<And>b. db' b \<noteq> db b \<Longrightarrow> node_lock (db b) \<noteq> c"
  shows "run_locks_ok c db' r"
proof -
  have "db' a = db a" if "(a, q, x) \<in> set (held_of r)" for a q x
    using run_locks_okD(1)[OF assms(1) that refl] assms(2)[of a] by blast
  then show ?thesis
    using assms(1) by (auto simp: run_locks_ok_def)
qed

lemma locks_ok_step_frame:
  assumes "locks_ok content s" "sys_tx s' = (sys_tx s)(t := r)" "run_locks_ok (content t) (sys_db s') r"
    and "\<And>b t'. sys_db s' b \<noteq> sys_db s b \<Longrightarrow> t' \<noteq> t \<Longrightarrow> node_lock (sys_db s b) \<noteq> content t'"
  shows "locks_ok content s'"
  unfolding locks_ok_def
proof
  fix t'
  show "run_locks_ok (content t') (sys_db s') (sys_tx s' t')"
  proof (cases "t' = t")
    case False
    then show ?thesis
      using assms(1,2) run_locks_ok_frame[of "content t'" "sys_db s" "sys_tx s t'" "sys_db s'"] assms(4)
      by (auto simp: locks_ok_def)
  qed (use assms(2,3) in simp)
qed

lemma run_locks_ok_lock:
  assumes "run_locks_ok c db (Locking pend held failed)" "i < length pend" "c \<noteq> 0"
    and "try_lock c (pend ! i) db = (locked, valid, db')"
  shows "run_locks_ok c db' (Locking (remove_nth i pend) (if locked then pend ! i # held else held) (failed \<or> \<not> (locked \<and> valid)))"
proof -
  obtain a q x where g: "pend ! i = (a, q, x)" by (cases "pend ! i")
  show ?thesis
  proof (cases "node_lock (db a) = 0")
    case True
    have "b \<noteq> a" if "(b, q', y) \<in> set held" for b q' y
      using run_locks_okD[OF assms(1), of "(b, q', y)"] that True assms(3) by auto
    then have "a \<notin> fst ` set held"
      by force
    moreover have "locked" "valid \<longleftrightarrow> node_seq (db a) = q" "db' = set_node a (\<lambda>n. n\<lparr>node_lock := c\<rparr>) db"
      using assms(4) g True by (auto simp: try_lock_def)
    ultimately show ?thesis
      using assms(1) g \<open>\<And>b q' y. (b, q', y) \<in> set held \<Longrightarrow> b \<noteq> a\<close> unfolding run_locks_ok_def by fastforce
  next
    case False
    then have "\<not> locked" "db' = db"
      using assms(4) g by (auto simp: try_lock_def)
    then show ?thesis
      using assms(1) by (auto simp: run_locks_ok_def)
  qed
qed

text \<open>Giving up one of the held records.\<close>

lemma run_locks_ok_drop:
  assumes "run_locks_ok c db r" "held_of r = gs" "i < length gs" "held_of r' = remove_nth i gs" "valid_of r' = valid_of r"
    and "\<And>b. b \<noteq> fst (gs ! i) \<Longrightarrow> db' b = db b"
  shows "run_locks_ok c db' r'"
proof -
  have d: "distinct (map fst gs)"
    using assms(1,2) by (simp add: run_locks_ok_def)
  note dd = distinct_remove_nth[OF d assms(3)]
  have "node_lock (db' a) = c \<and> (valid_of r' \<longrightarrow> node_seq (db' a) = q)" if "(a, q, x) \<in> set (remove_nth i gs)" for a q x
  proof -
    have "a \<noteq> fst (gs ! i)"
      using dd(2)[OF that] by simp
    then show ?thesis
      using run_locks_okD[OF assms(1), of "(a, q, x)"] that set_remove_nth assms(2,5,6) by fastforce
  qed
  then show ?thesis
    using dd(1) assms(4) by (auto simp: run_locks_ok_def)
qed

lemma run_locks_ok_change:
  assumes "run_locks_ok c db r" "held_of r' = held_of r" "valid_of r' \<longrightarrow> valid_of r"
  shows "run_locks_ok c db r'"
  using assms by (auto simp: run_locks_ok_def)

lemma locks_ok_quiet:
  assumes "locks_ok content s" "sys_tx s' = (sys_tx s)(t := r)" "sys_db s' = sys_db s"
    and "held_of r = held_of (sys_tx s t)" "valid_of r \<longrightarrow> valid_of (sys_tx s t)"
  shows "locks_ok content s'"
proof (rule locks_ok_step_frame[OF assms(1,2)])
  show "run_locks_ok (content t) (sys_db s') r"
    using run_locks_ok_change[of "content t" "sys_db s" "sys_tx s t" r] assms by (simp add: locks_ok_def)
qed (simp add: assms(3))

lemma locks_ok_give:
  assumes "locks_ok content s" "inj content" "held_of (sys_tx s t) = gs" "i < length gs"
    and "sys_tx s' = (sys_tx s)(t := r)" "held_of r = remove_nth i gs" "valid_of r = valid_of (sys_tx s t)"
    and "\<And>b. b \<noteq> fst (gs ! i) \<Longrightarrow> sys_db s' b = sys_db s b"
  shows "locks_ok content s'"
proof (rule locks_ok_step_frame[OF assms(1,5)])
  have ok: "run_locks_ok (content t) (sys_db s) (sys_tx s t)"
    using assms(1) by (simp add: locks_ok_def)
  show "run_locks_ok (content t) (sys_db s') r"
    using run_locks_ok_drop[OF ok assms(3,4,6,7,8)] .
  fix b t'
  assume "sys_db s' b \<noteq> sys_db s b" "t' \<noteq> t"
  moreover have "node_lock (sys_db s (fst (gs ! i))) = content t"
    using run_locks_okD(1)[OF ok, of "gs ! i"] nth_mem[OF assms(4)] assms(3) by (cases "gs ! i") simp
  ultimately show "node_lock (sys_db s b) \<noteq> content t'"
    using assms(2,8) by (metis injD)
qed

lemma try_lock_changes: "snd (snd (try_lock c g db)) b \<noteq> db b \<Longrightarrow> node_lock (db b) = 0"
  by (cases "b = fst g") (auto simp: try_lock_def split: prod.splits if_splits)

lemma locks_ok_lock:
  assumes "locks_ok content s" "\<forall>t. content t \<noteq> 0" "sys_tx s t = Locking pend held failed" "i < length pend"
    and "try_lock (content t) (pend ! i) (sys_db s) = (locked, valid, db)"
    and "sys_tx s' = (sys_tx s)(t := Locking (remove_nth i pend) (if locked then pend ! i # held else held)
            (failed \<or> \<not> (locked \<and> valid)))" "sys_db s' = db"
  shows "locks_ok content s'"
proof (rule locks_ok_step_frame[OF assms(1,6)])
  have ok: "run_locks_ok (content t) (sys_db s) (Locking pend held failed)"
    using assms(1,3) by (metis locks_ok_def)
  show "run_locks_ok (content t) (sys_db s')
      (Locking (remove_nth i pend) (if locked then pend ! i # held else held) (failed \<or> \<not> (locked \<and> valid)))"
    unfolding assms(7) using run_locks_ok_lock[OF ok assms(4) _ assms(5)] assms(2) by blast
  fix b t'
  assume "sys_db s' b \<noteq> sys_db s b"
  then have "node_lock (sys_db s b) = 0"
    using try_lock_changes[of "content t" "pend ! i" "sys_db s" b] assms(5,7) by simp
  then show "node_lock (sys_db s b) \<noteq> content t'"
    using assms(2) by metis
qed

lemmas sys_step_splits = option.splits txrun.splits list.splits if_splits prod.splits bool.splits

lemma locks_ok_step:
  assumes "locks_ok content s" "inj content" "\<forall>t. content t \<noteq> 0" "sys_step mac content a s = Some s'"
  shows "locks_ok content s'"
proof (cases a)
  case (SBegin t)
  then show ?thesis
    using assms(4) by (auto intro!: locks_ok_quiet[OF assms(1)] split: txrun.splits)
next
  case (SEnd t gs)
  then show ?thesis
    using assms(1,4) by (auto intro!: locks_ok_step_frame[OF assms(1)] simp: run_locks_ok_def split: txrun.splits)
next
  case (SLock t i)
  then obtain pend held failed where r: "sys_tx s t = Locking pend held failed" "i < length pend"
    using assms(4) by (auto split: txrun.splits if_splits)
  then show ?thesis
    using assms(4) SLock by (auto split: prod.splits intro!: locks_ok_lock[OF assms(1,3) r])
next
  case (SSkip t)
  then show ?thesis
    using assms(4) by (auto intro!: locks_ok_quiet[OF assms(1)] split: txrun.splits bool.splits)
next
  case (SDecide t)
  then show ?thesis
    using assms(4) by (auto intro!: locks_ok_quiet[OF assms(1)] split: txrun.splits list.splits if_splits)
next
  case (SInstall t i)
  then obtain cts gs where r: "sys_tx s t = Writing cts gs" "i < length gs"
    using assms(4) by (auto split: txrun.splits if_splits)
  then show ?thesis
    using assms(4) SInstall
    by (auto split: prod.splits simp: r intro!: locks_ok_give[OF assms(1,2) _ r(2)])
next
  case (SReport t)
  then show ?thesis
    using assms(4) by (auto intro!: locks_ok_quiet[OF assms(1)] simp: bind_eq_Some_conv split: txrun.splits list.splits)
next
  case (SRelease t i)
  then consider "sys_tx s t = Releasing []" "s' = set_tx t Idle s"
    | g gs where "sys_tx s t = Releasing (g # gs)" "i < length (g # gs)"
    using assms(4) by (auto simp: Let_def split: txrun.splits list.splits if_splits)
  then show ?thesis
  proof cases
    case 1
    then show ?thesis
      by (auto intro!: locks_ok_quiet[OF assms(1)])
  next
    case 2
    then show ?thesis
      using assms(4) SRelease by (auto simp: Let_def intro!: locks_ok_give[OF assms(1,2) _ 2(2)])
  qed
next
  case (SFetch p)
  then show ?thesis
    using assms(1,4) by (auto simp: locks_ok_def)
qed

subsection \<open>Timestamps\<close>

fun writing_of :: "'v txrun \<Rightarrow> u64 option" where
  "writing_of (Writing cts gs) = Some cts"
| "writing_of _ = None"

fun snapshot_of :: "'v txrun \<Rightarrow> u64 list option" where
  "snapshot_of (Active v) = Some v"
| "snapshot_of _ = None"

text \<open>\<open>U\<close> is the set of the reported commits and \<open>k\<close> bounds the number of commits so far; every commit that
  is still writing has drawn its own timestamp and is not reported, and no machine and no transaction
  works with a vector that is ahead of the oracle.\<close>

definition stamps_ok :: "('t \<Rightarrow> nat) \<Rightarrow> nat \<Rightarrow> (nat \<times> u64) set \<Rightarrow> nat \<Rightarrow> ('t, 'v) sys \<Rightarrow> bool" where
  "stamps_ok mac n U k s \<longleftrightarrow> tsm_ok n U (sys_ts s)
     \<and> (\<forall>p. 3 \<le> sys_local s p \<and> unat (sys_local s p) \<le> 3 + k)
     \<and> (\<forall>(p, c) \<in> U. c < sys_local s p)
     \<and> (\<forall>t c. writing_of (sys_tx s t) = Some c \<longrightarrow> 3 \<le> c \<and> c < sys_local s (mac t) \<and> (mac t, c) \<notin> U)
     \<and> (\<forall>t t' c. writing_of (sys_tx s t) = Some c \<and> writing_of (sys_tx s t') = Some c \<and> mac t = mac t' \<longrightarrow> t = t')
     \<and> (\<forall>p. vec_le (sys_fetched s p) (sys_vec s))
     \<and> (\<forall>t v. snapshot_of (sys_tx s t) = Some v \<longrightarrow> vec_le v (sys_vec s))"

lemma vec_le_refl [simp]: "vec_le v v"
  by (simp add: vec_le_def list_all2_refl)

lemma vec_le_trans [trans]: "vec_le u v \<Longrightarrow> vec_le v w \<Longrightarrow> vec_le u w"
  unfolding vec_le_def by (rule list_all2_trans[of "(\<le>)" "(\<le>)" "(\<le>)"]) auto

lemma vec_le_nth: "vec_le v w \<Longrightarrow> i < length w \<Longrightarrow> length v = length w \<and> v ! i \<le> w ! i"
  by (auto simp: vec_le_def list_all2_conv_all_nth)

lemma tsm_ok_length: "tsm_ok n U m \<Longrightarrow> length (ts_get_handler m) = n"
  by (simp add: tsm_ok_def ts_get_handler_def)

lemma tsm_ok_entry:
  assumes "tsm_ok n U m" "i < n"
  shows "2 \<le> ts_get_handler m ! i" "ts_get_handler m ! i < 2 ^ 31" "(i, ts_get_handler m ! i + 1) \<notin> U"
    and "3 \<le> c \<Longrightarrow> c \<le> ts_get_handler m ! i \<Longrightarrow> (i, c) \<in> U"
proof -
  have e: "ts_entry_ok {c. (i, c) \<in> U} (ts_buffer m ! i)" "ts_get_handler m ! i = ts_val (ts_buffer m ! i)"
    using assms by (simp_all add: tsm_ok_def ts_get_handler_def)
  then show "2 \<le> ts_get_handler m ! i" "ts_get_handler m ! i < 2 ^ 31" "(i, ts_get_handler m ! i + 1) \<notin> U"
    "3 \<le> c \<Longrightarrow> c \<le> ts_get_handler m ! i \<Longrightarrow> (i, c) \<in> U"
    unfolding ts_entry_ok_def ts_queue_ok_def e(2) by blast+
qed

lemma tsm_ok_unseen:
  assumes "tsm_ok n U m" "p < n" "(p, c) \<notin> U" "3 \<le> c"
  shows "ts_get_handler m ! p < c"
  using tsm_ok_entry(4)[OF assms(1,2,4)] assms(3) by (meson not_le)

text \<open>The vector only grows.\<close>

lemma tsm_ok_mono:
  assumes "tsm_ok n U m" "tsm_ok n U' m'" "U \<subseteq> U'"
  shows "vec_le (ts_get_handler m) (ts_get_handler m')"
proof -
  have "ts_get_handler m ! i \<le> ts_get_handler m' ! i" if i: "i < n" for i
  proof (rule ccontr)
    let ?x = "ts_get_handler m' ! i"
    assume "\<not> ts_get_handler m ! i \<le> ?x"
    then have less: "?x < ts_get_handler m ! i"
      by simp
    note x = tsm_ok_entry[OF assms(2) i]
    have max: "?x \<noteq> - 1"
      using x(2) by (rule small_not_max)
    have "2 < ?x + 1"
      using x(1) u64_less_Suc[OF max, of 2] by simp
    then have "3 \<le> ?x + 1"
      using u64_less_iff_Suc_le[of 2 "?x + 1"] by simp
    moreover have "?x + 1 \<le> ts_get_handler m ! i"
      using less u64_less_iff_Suc_le[OF max] by simp
    ultimately have "(i, ?x + 1) \<in> U"
      by (rule tsm_ok_entry(4)[OF assms(1) i])
    then show False
      using x(3) assms(3) by blast
  qed
  then show ?thesis
    using tsm_ok_length[OF assms(1)] tsm_ok_length[OF assms(2)] by (simp add: vec_le_def list_all2_conv_all_nth)
qed

lemma stamps_okD:
  assumes "stamps_ok mac n U k s"
  shows "tsm_ok n U (sys_ts s)" "3 \<le> sys_local s p" "unat (sys_local s p) \<le> 3 + k"
    and "(p, c) \<in> U \<Longrightarrow> c < sys_local s p"
    and "writing_of (sys_tx s t) = Some c \<Longrightarrow> 3 \<le> c"
    and "writing_of (sys_tx s t) = Some c \<Longrightarrow> c < sys_local s (mac t)"
    and "writing_of (sys_tx s t) = Some c \<Longrightarrow> (mac t, c) \<notin> U"
    and "writing_of (sys_tx s t) = Some c \<Longrightarrow> writing_of (sys_tx s t') = Some c \<Longrightarrow> mac t = mac t' \<Longrightarrow> t = t'"
    and "vec_le (sys_fetched s p) (sys_vec s)"
    and "snapshot_of (sys_tx s t) = Some v \<Longrightarrow> vec_le v (sys_vec s)"
  using assms unfolding stamps_ok_def by blast+

lemma stamps_okI:
  assumes "tsm_ok n U (sys_ts s)" "\<And>p. 3 \<le> sys_local s p" "\<And>p. unat (sys_local s p) \<le> 3 + k"
    and "\<And>p c. (p, c) \<in> U \<Longrightarrow> c < sys_local s p"
    and "\<And>t c. writing_of (sys_tx s t) = Some c \<Longrightarrow> 3 \<le> c \<and> c < sys_local s (mac t) \<and> (mac t, c) \<notin> U"
    and "\<And>t t' c. writing_of (sys_tx s t) = Some c \<Longrightarrow> writing_of (sys_tx s t') = Some c \<Longrightarrow> mac t = mac t' \<Longrightarrow> t = t'"
    and "\<And>p. vec_le (sys_fetched s p) (sys_vec s)"
    and "\<And>t v. snapshot_of (sys_tx s t) = Some v \<Longrightarrow> vec_le v (sys_vec s)"
  shows "stamps_ok mac n U k s"
  using assms unfolding stamps_ok_def by blast

lemma stamps_ok_quiet:
  assumes "stamps_ok mac n U k s" "sys_ts s' = sys_ts s" "sys_local s' = sys_local s"
    and "\<And>p. vec_le (sys_fetched s' p) (sys_vec s)" "sys_tx s' = (sys_tx s)(t := r)"
    and "writing_of r = None \<or> writing_of r = writing_of (sys_tx s t)" "\<And>v. snapshot_of r = Some v \<Longrightarrow> vec_le v (sys_vec s)"
  shows "stamps_ok mac n U (Suc k) s'"
proof -
  note D = stamps_okD[OF assms(1)]
  have w: "writing_of (sys_tx s t') = Some c" if "writing_of (sys_tx s' t') = Some c" for t' c
    using that assms(5,6) by (cases "t' = t") auto
  have v: "vec_le v (sys_vec s)" if "snapshot_of (sys_tx s' t') = Some v" for t' v
    using that D(10) assms(5,7) by (cases "t' = t") auto
  have vec: "sys_vec s' = sys_vec s"
    using assms(2) by (simp add: sys_vec_def)
  show ?thesis
  proof (rule stamps_okI)
    show "tsm_ok n U (sys_ts s')"
      using D(1) assms(2) by simp
    show "3 \<le> sys_local s' p" "unat (sys_local s' p) \<le> 3 + Suc k" for p
      using D(2,3)[of p] assms(3) by simp_all
    show "c < sys_local s' p" if "(p, c) \<in> U" for p c
      using D(4)[OF that] assms(3) by simp
    show "3 \<le> c \<and> c < sys_local s' (mac t') \<and> (mac t', c) \<notin> U" if "writing_of (sys_tx s' t') = Some c" for t' c
      using D(5-7)[OF w[OF that]] assms(3) by simp
    show "t1 = t2" if "writing_of (sys_tx s' t1) = Some c" "writing_of (sys_tx s' t2) = Some c" "mac t1 = mac t2" for t1 t2 c
      using D(8)[OF w[OF that(1)] w[OF that(2)] that(3)] .
    show "vec_le (sys_fetched s' p) (sys_vec s')" for p
      using assms(4) vec by simp
    show "vec_le v (sys_vec s')" if "snapshot_of (sys_tx s' t') = Some v" for t' v
      using v[OF that] vec by simp
  qed
qed

lemma stamps_ok_decide:
  assumes "stamps_ok mac n U k s" "3 + k < 2 ^ 31" "sys_ts s' = sys_ts s" "sys_fetched s' = sys_fetched s"
    and "sys_local s' = (sys_local s)(mac t := sys_local s (mac t) + 1)"
    and "sys_tx s' = (sys_tx s)(t := Writing (sys_local s (mac t)) gs)"
  shows "stamps_ok mac n U (Suc k) s'"
proof -
  note D = stamps_okD[OF assms(1)]
  let ?c = "sys_local s (mac t)"
  have vec: "sys_vec s' = sys_vec s"
    using assms(3) by (simp add: sys_vec_def)
  have max: "?c \<noteq> - 1"
    using D(3)[of "mac t"] assms(2) u64_unat_minus_1 by force
  have up: "c < sys_local s p \<Longrightarrow> c < sys_local s' p" "c = sys_local s p \<Longrightarrow> p = mac t \<Longrightarrow> c < sys_local s' p" for c p
    using u64_less_Suc[OF max, of c] assms(5) by (cases "p = mac t"; simp)+
  have w: "writing_of (sys_tx s' t') = Some c \<longleftrightarrow> (if t' = t then c = ?c else writing_of (sys_tx s t') = Some c)" for t' c
    using assms(6) by auto
  show ?thesis
  proof (rule stamps_okI)
    show "tsm_ok n U (sys_ts s')"
      using D(1) assms(3) by simp
    show "3 \<le> sys_local s' p" for p
      using D(2)[of p] up(1)[of 2 p] u64_less_iff_Suc_le[of 2] by simp
    show "unat (sys_local s' p) \<le> 3 + Suc k" for p
      using D(3)[of p] max assms(5) by (cases "p = mac t") (simp_all add: u64_unat_Suc)
    show "c < sys_local s' p" if "(p, c) \<in> U" for p c
      using up(1)[OF D(4)[OF that]] .
    show "3 \<le> c \<and> c < sys_local s' (mac t') \<and> (mac t', c) \<notin> U" if "writing_of (sys_tx s' t') = Some c" for t' c
    proof (cases "t' = t")
      case True
      then have "c = ?c"
        using that w by simp
      then show ?thesis
        using True D(2) up(2) D(4)[of "mac t" ?c] by blast
    next
      case False
      then show ?thesis
        using that w D(5-7)[of t' c] up(1) by simp
    qed
    show "t1 = t2" if "writing_of (sys_tx s' t1) = Some c" "writing_of (sys_tx s' t2) = Some c" "mac t1 = mac t2" for t1 t2 c
      using that w D(6)[of t1 c] D(6)[of t2 c] D(8)[of t1 c t2] by (cases "t1 = t"; cases "t2 = t") auto
    show "vec_le (sys_fetched s' p) (sys_vec s')" for p
      using D(9) vec assms(4) by simp
    show "vec_le v (sys_vec s')" if "snapshot_of (sys_tx s' t') = Some v" for t' v
      using that D(10)[of t' v] vec assms(6) by (cases "t' = t") simp_all
  qed
qed

lemma stamps_ok_report:
  assumes "stamps_ok mac n U k s" "3 + k < 2 ^ 31" "n \<le> 64" "mac t < n" "sys_tx s t = Writing c gs"
    and "ts_update_handler (mac t) c (sys_ts s) = Some m" "s' = set_tx t Idle (s\<lparr>sys_ts := m\<rparr>)"
  shows "stamps_ok mac n (insert (mac t, c) U) (Suc k) s'"
proof -
  note D = stamps_okD[OF assms(1)]
  have c: "3 \<le> c" "c < sys_local s (mac t)" "(mac t, c) \<notin> U"
    using D(5-7)[of t c] assms(5) by simp_all
  then have "c < 2 ^ 31"
    using D(3)[of "mac t"] assms(2) by (simp add: word_less_nat_alt)
  then have m: "tsm_ok n (insert (mac t, c) U) m"
    using tsm_update_ok[OF D(1) assms(3,4) c(1) _ c(3)] assms(6) by auto
  then have le: "vec_le (sys_vec s) (sys_vec s')"
    using tsm_ok_mono[OF D(1) m] assms(7) by (auto simp: sys_vec_def)
  have w: "t' \<noteq> t \<and> writing_of (sys_tx s t') = Some d" if "writing_of (sys_tx s' t') = Some d" for t' d
    using that assms(7) by (cases "t' = t") simp_all
  show ?thesis
  proof (rule stamps_okI)
    show "tsm_ok n (insert (mac t, c) U) (sys_ts s')"
      using m assms(7) by simp
    show "3 \<le> sys_local s' p" "unat (sys_local s' p) \<le> 3 + Suc k" for p
      using D(2,3)[of p] assms(7) by simp_all
    show "d < sys_local s' p" if "(p, d) \<in> insert (mac t, c) U" for p d
      using that c(2) D(4)[of p d] assms(7) by auto
    show "3 \<le> d \<and> d < sys_local s' (mac t') \<and> (mac t', d) \<notin> insert (mac t, c) U" if "writing_of (sys_tx s' t') = Some d" for t' d
      using w[OF that] D(5-7)[of t' d] D(8)[of t c t'] assms(5,7) by auto
    show "t1 = t2" if "writing_of (sys_tx s' t1) = Some d" "writing_of (sys_tx s' t2) = Some d" "mac t1 = mac t2" for t1 t2 d
      using D(8)[OF conjunct2[OF w[OF that(1)]] conjunct2[OF w[OF that(2)]] that(3)] .
    show "vec_le (sys_fetched s' p) (sys_vec s')" for p
      using vec_le_trans[OF D(9) le] assms(7) by simp
    show "vec_le v (sys_vec s')" if "snapshot_of (sys_tx s' t') = Some v" for t' v
      using that vec_le_trans[OF D(10)[of t' v] le] assms(7) by (cases "t' = t") simp_all
  qed
qed

lemma stamps_ok_step:
  assumes "stamps_ok mac n U k s" "3 + k < 2 ^ 31" "n \<le> 64" "\<forall>t. mac t < n" "sys_step mac content a s = Some s'"
  shows "\<exists>U'. U \<subseteq> U' \<and> stamps_ok mac n U' (Suc k) s'"
proof -
  note D = stamps_okD[OF assms(1)]
  have quiet: ?thesis if "sys_ts s' = sys_ts s" "sys_local s' = sys_local s" "\<And>p. vec_le (sys_fetched s' p) (sys_vec s)"
      "sys_tx s' = (sys_tx s)(t := r)" "writing_of r = None \<or> writing_of r = writing_of (sys_tx s t)"
      "\<And>v. snapshot_of r = Some v \<Longrightarrow> vec_le v (sys_vec s)" for t r
    using stamps_ok_quiet[OF assms(1) that] by blast
  show ?thesis
  proof (cases a)
    case (SBegin t)
    then show ?thesis
      using assms(5) D(9) by (intro quiet[of t "Active (sys_fetched s (mac t))"]) (auto split: txrun.splits)
  next
    case (SEnd t gs)
    then show ?thesis
      using assms(5) D(9) by (intro quiet[of t "Locking gs [] False"]) (auto split: txrun.splits)
  next
    case (SLock t i)
    then obtain r where "sys_tx s' = (sys_tx s)(t := r)" "writing_of r = None" "snapshot_of r = None" "sys_ts s' = sys_ts s"
        "sys_local s' = sys_local s" "sys_fetched s' = sys_fetched s"
      using assms(5) by (auto split: txrun.splits prod.splits if_splits)
    then show ?thesis
      using D(9) by (intro quiet[of t r]) auto
  next
    case (SSkip t)
    then obtain held where "s' = set_tx t (Locking [] held True) s"
      using assms(5) by (auto split: txrun.splits bool.splits)
    then show ?thesis
      using D(9) by (intro quiet[of t "Locking [] held True"]) auto
  next
    case (SDecide t)
    then obtain held failed where r: "sys_tx s t = Locking [] held failed"
      using assms(5) by (auto split: txrun.splits list.splits)
    show ?thesis
    proof (cases failed)
      case True
      then show ?thesis
        using r SDecide assms(5) D(9) by (intro quiet[of t "Releasing held"]) auto
    next
      case False
      then show ?thesis
        using r SDecide assms(5) by (intro exI[of _ U] conjI stamps_ok_decide[OF assms(1,2), of _ t held]) auto
    qed
  next
    case (SInstall t i)
    then obtain c gs where r: "sys_tx s t = Writing c gs" "i < length gs"
      using assms(5) by (auto split: txrun.splits if_splits)
    then show ?thesis
      using SInstall assms(5) D(9) by (intro quiet[of t "Writing c (remove_nth i gs)"]) (auto split: prod.splits)
  next
    case (SReport t)
    then obtain c m where "sys_tx s t = Writing c []" "ts_update_handler (mac t) c (sys_ts s) = Some m"
        "s' = set_tx t Idle (s\<lparr>sys_ts := m\<rparr>)"
      using assms(5) by (auto simp: bind_eq_Some_conv split: txrun.splits list.splits)
    then show ?thesis
      using stamps_ok_report[OF assms(1-3)] assms(4) by blast
  next
    case (SRelease t i)
    then obtain r where "sys_tx s' = (sys_tx s)(t := r)" "writing_of r = None" "snapshot_of r = None" "sys_ts s' = sys_ts s"
        "sys_local s' = sys_local s" "sys_fetched s' = sys_fetched s"
      using assms(5) by (auto simp: Let_def split: txrun.splits list.splits if_splits)
    then show ?thesis
      using D(9) by (intro quiet[of t r]) auto
  next
    case (SFetch p)
    then show ?thesis
      using assms(5) D(9,10) by (intro quiet[of undefined "sys_tx s undefined"]) (auto simp: sys_vec_def)
  qed
qed

subsection \<open>Snapshots are stable\<close>

text \<open>The commit of \<open>t\<close> with the timestamp \<open>c\<close> stamps its versions with this word.\<close>

definition commit_stamp :: "('t \<Rightarrow> nat) \<Rightarrow> 't \<Rightarrow> u64 \<Rightarrow> u64" where
  "commit_stamp mac t c = SI_ENCODE_TS (word_of_nat (mac t)) c"

lemma commit_stamp_fields:
  assumes "mac t < 64" "c < 2 ^ 31"
  shows "SI_GET_SERVER (commit_stamp mac t c) = word_of_nat (mac t)" "SI_GET_COUNTER (commit_stamp mac t c) = c"
    "unat (SI_GET_SERVER (commit_stamp mac t c)) = mac t"
proof -
  have m: "unat (word_of_nat (mac t) :: u64) = mac t"
    using assms(1) by (simp add: unat_of_nat take_bit_nat_eq_self)
  have "(word_of_nat (mac t) :: u64) < 2 ^ 16" "c < 2 ^ 48"
    using assms m by (simp_all add: word_less_nat_alt)
  then show "SI_GET_SERVER (commit_stamp mac t c) = word_of_nat (mac t)" "SI_GET_COUNTER (commit_stamp mac t c) = c"
    unfolding commit_stamp_def by (simp_all only: SI_server_encode SI_counter_encode)
  then show "unat (SI_GET_SERVER (commit_stamp mac t c)) = mac t"
    using m by simp
qed

lemma commit_stamp_proper:
  assumes "mac t < 64" "c < 2 ^ 31" "3 \<le> c"
  shows "commit_stamp mac t c \<noteq> 0" "commit_stamp mac t c \<noteq> 1"
  using commit_stamp_fields(2)[of mac t c] assms by (auto simp: SI_GET_COUNTER_def word_le_nat_alt)

lemma commit_stamp_visible:
  assumes "mac t < 64" "c < 2 ^ 31" "mac t < length v"
  shows "si_visible v (commit_stamp mac t c) = Some (c \<le> v ! mac t)"
  using commit_stamp_fields[of mac t c] assms by (simp add: si_visible_def vec_at_def)

text \<open>A commit that is still writing is in no snapshot.\<close>

lemma writing_unseen:
  assumes "stamps_ok mac n U k s" "3 + k < 2 ^ 31" "n \<le> 64" "mac t < n" "writing_of (sys_tx s t) = Some c"
    and "vec_le v (sys_vec s)"
  shows "si_visible v (commit_stamp mac t c) = Some False" "c < 2 ^ 31" "length v = n"
proof -
  note D = stamps_okD[OF assms(1)]
  show c: "c < 2 ^ 31"
    using D(3)[of "mac t"] D(6)[OF assms(5)] assms(2) by (simp add: word_less_nat_alt)
  have len: "length (sys_vec s) = n"
    using tsm_ok_length[OF D(1)] by (simp add: sys_vec_def)
  note le = vec_le_nth[OF assms(6), of "mac t"]
  then show "length v = n"
    using len assms(4) by simp
  have "sys_vec s ! mac t < c"
    using tsm_ok_unseen[OF D(1) assms(4) D(7)[OF assms(5)] D(5)[OF assms(5)]] by (simp add: sys_vec_def)
  then have "v ! mac t < c"
    using le len assms(4) le_less_trans by blast
  then show "si_visible v (commit_stamp mac t c) = Some False"
    using commit_stamp_visible[of mac t c v] c le len assms(3,4) by simp
qed

text \<open>Only values are written: deleting is not supported by the readers.\<close>

fun targets_of :: "'v txrun \<Rightarrow> 'v target list" where
  "targets_of (Locking pend held failed) = pend @ held"
| "targets_of (Writing cts gs) = gs"
| "targets_of _ = []"

definition has_values :: "'v target list \<Rightarrow> bool" where
  "has_values gs \<longleftrightarrow> (\<forall>(a, q, x) \<in> set gs. x \<noteq> None)"

fun op_ok :: "('t, 'v) sys_op \<Rightarrow> bool" where
  "op_ok (SEnd t gs) = has_values gs"
| "op_ok _ = True"

lemma has_values_subset: "has_values gs \<Longrightarrow> set hs \<subseteq> set gs \<Longrightarrow> has_values hs"
  unfolding has_values_def by blast

definition nodes_ok :: "nat \<Rightarrow> ('t, 'v) sys \<Rightarrow> bool" where
  "nodes_ok n s \<longleftrightarrow> (\<forall>a. node_ok n (sys_db s a)) \<and> (\<forall>t. has_values (targets_of (sys_tx s t)))"

lemma node_ok_lock [simp]:
  "node_ok n (x\<lparr>node_lock := c\<rparr>) = node_ok n x" "read_at v (x\<lparr>node_lock := c\<rparr>) = read_at v x"
  by (simp_all add: node_ok_def read_at_def)

lemma node_ok_cas [simp]:
  "node_ok n (snd (cas_lock c d x)) = node_ok n x" "read_at v (snd (cas_lock c d x)) = read_at v x"
  by (simp_all add: cas_lock_def)

lemma node_ok_install:
  assumes "node_ok n x" "ts \<noteq> 0" "ts \<noteq> 1" "unat (SI_GET_SERVER ts) < n"
  shows "node_ok n (si_install (node_seq x) ts (Some y) x)"
  using assms by (cases "node_value x") (auto simp: node_ok_def si_install_def)

text \<open>What a step does to the records, apart from their locks: nothing, or a commit installs one version.\<close>

lemma sys_step_db:
  assumes "sys_step mac content a s = Some s'" "locks_ok content s"
  shows "(\<forall>b. \<exists>c. sys_db s' b = sys_db s b \<or> sys_db s' b = (sys_db s b)\<lparr>node_lock := c\<rparr>) \<or>
    (\<exists>t i cts gs b q x. a = SInstall t i \<and> sys_tx s t = Writing cts gs \<and> (b, q, x) \<in> set gs \<and>
       sys_db s' = (sys_db s)(b := si_install (node_seq (sys_db s b)) (commit_stamp mac t cts) x (sys_db s b)))"
proof (cases a)
  case (SLock t i)
  then show ?thesis
    using assms(1) by (intro disjI1) (auto simp: try_lock_def set_node_def split: txrun.splits if_splits prod.splits)
next
  case (SInstall t i)
  then obtain cts gs where r: "sys_tx s t = Writing cts gs" "i < length gs"
    using assms(1) by (auto split: txrun.splits if_splits)
  obtain b q x where g: "gs ! i = (b, q, x)" by (cases "gs ! i")
  then have mem: "(b, q, x) \<in> set gs"
    using r(2) by (metis nth_mem)
  have "run_locks_ok (content t) (sys_db s) (Writing cts gs)"
    using assms(2) r(1) by (metis locks_ok_def)
  then have "node_seq (sys_db s b) = q"
    using run_locks_okD(2)[OF _ _ refl] mem by fastforce
  then have "sys_db s' = (sys_db s)(b := si_install (node_seq (sys_db s b)) (commit_stamp mac t cts) x (sys_db s b))"
    using assms(1) SInstall r g by (auto simp: set_node_def commit_stamp_def)
  then show ?thesis
    using SInstall r(1) mem by blast
next
  case (SRelease t i)
  then show ?thesis
    using assms(1)
    by (intro disjI1) (auto simp: Let_def set_node_def cas_lock_def split: txrun.splits if_splits list.splits)
qed (use assms(1) in \<open>auto simp: bind_eq_Some_conv split: txrun.splits if_splits list.splits bool.splits\<close>)

lemma sys_step_targets:
  fixes s :: "('t, 'v) sys"
  assumes "\<forall>t. has_values (targets_of (sys_tx s t))" "op_ok a" "sys_step mac content a s = Some s'"
  shows "has_values (targets_of (sys_tx s' t))"
proof -
  have keep: "has_values (remove_nth i gs)" if "has_values gs" for i and gs :: "'v target list"
    using has_values_subset[OF that set_remove_nth] .
  have nth: "has_values (remove_nth i pend @ (if l then pend ! i # held else held))"
    if "has_values (pend @ held)" "i < length pend" for i l and pend held :: "'v target list"
    using that set_remove_nth[of i pend] nth_mem[OF that(2)] by (intro has_values_subset[OF that(1)]) auto
  have r: "has_values (targets_of (sys_tx s t'))" for t'
    using assms(1) by blast
  show ?thesis
  proof (cases a)
    case (SLock u i)
    then obtain pend held failed where u: "sys_tx s u = Locking pend held failed" "i < length pend"
      using assms(3) by (auto split: txrun.splits if_splits)
    then have "has_values (pend @ held)"
      using r[of u] by simp
    then show ?thesis
      using SLock assms(3) u r[of t] nth[OF _ u(2)] by (cases "t = u") (auto split: prod.splits)
  next
    case (SSkip u)
    then obtain pend held where u: "sys_tx s u = Locking pend held True" "s' = set_tx u (Locking [] held True) s"
      using assms(3) by (auto split: txrun.splits bool.splits)
    then have "has_values (pend @ held)"
      using r[of u] by simp
    then show ?thesis
      using u(2) r[of t] has_values_subset[of "pend @ held" held] by (cases "t = u") auto
  next
    case (SInstall u i)
    then show ?thesis
      using assms(3) r[of t] r[of u] keep by (cases "t = u") (auto split: txrun.splits if_splits prod.splits)
  qed (use assms(2,3) r[of t] in \<open>auto simp: bind_eq_Some_conv Let_def has_values_def
         split: txrun.splits if_splits list.splits bool.splits\<close>)
qed

definition sys_ok :: "('t \<Rightarrow> nat) \<Rightarrow> ('t \<Rightarrow> u64) \<Rightarrow> nat \<Rightarrow> (nat \<times> u64) set \<Rightarrow> nat \<Rightarrow> ('t, 'v) sys \<Rightarrow> bool" where
  "sys_ok mac content n U k s \<longleftrightarrow> locks_ok content s \<and> stamps_ok mac n U k s \<and> nodes_ok n s"

definition cluster_ok :: "('t \<Rightarrow> nat) \<Rightarrow> ('t \<Rightarrow> u64) \<Rightarrow> nat \<Rightarrow> bool" where
  "cluster_ok mac content n \<longleftrightarrow> n \<le> 64 \<and> (\<forall>t. mac t < n) \<and> inj content \<and> (\<forall>t. content t \<noteq> 0)"

lemma sys_step_reads:
  assumes "cluster_ok mac content n" "sys_ok mac content n U k s" "3 + k < 2 ^ 31" "op_ok a"
    and "sys_step mac content a s = Some s'"
  shows "\<forall>b. node_ok n (sys_db s' b)" "vec_le v (sys_vec s) \<Longrightarrow> read_at v (sys_db s' b) = read_at v (sys_db s b)"
proof -
  have ok: "locks_ok content s" "stamps_ok mac n U k s" "\<And>a. node_ok n (sys_db s a)" "\<And>t. has_values (targets_of (sys_tx s t))"
    using assms(2) by (auto simp: sys_ok_def nodes_ok_def)
  have n: "n \<le> 64" "\<And>t. mac t < n" "\<And>t. mac t < 64"
    using assms(1) less_le_trans unfolding cluster_ok_def by blast+
  consider (locks) "\<forall>b. \<exists>c. sys_db s' b = sys_db s b \<or> sys_db s' b = (sys_db s b)\<lparr>node_lock := c\<rparr>"
    | (inst) t c gs d q x where "sys_tx s t = Writing c gs" "(d, q, x) \<in> set gs"
        "sys_db s' = (sys_db s)(d := si_install (node_seq (sys_db s d)) (commit_stamp mac t c) x (sys_db s d))"
    using sys_step_db[OF assms(5) ok(1)] by blast
  note step = this
  show "\<forall>b. node_ok n (sys_db s' b)"
    using step
  proof cases
    case locks
    then show ?thesis
      using ok(3) by (metis node_ok_lock(1))
  next
    case inst
    have w: "writing_of (sys_tx s t) = Some c" and le: "vec_le (sys_vec s) (sys_vec s)"
      using inst(1) by simp_all
    note u = writing_unseen[OF ok(2) assms(3) n(1,2) w le]
    have "3 \<le> c"
      using stamps_okD(5)[OF ok(2) w] .
    moreover obtain y where "x = Some y"
      using ok(4)[of t] inst(1,2) by (auto simp: has_values_def)
    ultimately show ?thesis
      using ok(3) inst(3) n u(2) commit_stamp_fields(3)[of mac t c] commit_stamp_proper[of mac t c] by (simp add: node_ok_install)
  qed
  assume v: "vec_le v (sys_vec s)"
  show "read_at v (sys_db s' b) = read_at v (sys_db s b)"
    using step
  proof cases
    case locks
    then show ?thesis
      by (metis node_ok_lock(2))
  next
    case inst
    have w: "writing_of (sys_tx s t) = Some c"
      using inst(1) by simp
    note u = writing_unseen[OF ok(2) assms(3) n(1,2) w v]
    show ?thesis
      using inst(3) read_at_install[OF ok(3) u(1) _ _ u(3)] commit_stamp_proper[of mac t c] n(3) u(2) stamps_okD(5)[OF ok(2) w]
      by simp
  qed
qed

lemma sys_step_ok:
  assumes "cluster_ok mac content n" "sys_ok mac content n U k s" "3 + k < 2 ^ 31" "op_ok a"
    and "sys_step mac content a s = Some s'"
  shows "\<exists>U'. U \<subseteq> U' \<and> sys_ok mac content n U' (Suc k) s'"
proof -
  have c: "n \<le> 64" "\<forall>t. mac t < n" "inj content" "\<forall>t. content t \<noteq> 0"
    using assms(1) by (auto simp: cluster_ok_def)
  have ok: "locks_ok content s" "stamps_ok mac n U k s" "\<forall>t. has_values (targets_of (sys_tx s t))"
    using assms(2) by (auto simp: sys_ok_def nodes_ok_def)
  obtain U' where "U \<subseteq> U'" "stamps_ok mac n U' (Suc k) s'"
    using stamps_ok_step[OF ok(2) assms(3) c(1,2) assms(5)] by blast
  moreover have "locks_ok content s'"
    using locks_ok_step[OF ok(1) c(3,4) assms(5)] .
  moreover have "nodes_ok n s'"
    using sys_step_reads(1)[OF assms] sys_step_targets[OF ok(3) assms(4,5)] unfolding nodes_ok_def by blast
  ultimately show ?thesis
    unfolding sys_ok_def by blast
qed

subsection \<open>Runs\<close>

lemma sys_init_ok:
  assumes "\<forall>a. node_ok n (db a)"
  shows "sys_ok mac content n {} 0 (sys_init n db)"
proof -
  have "ts_get_handler (tsm_new n) = replicate n 2"
    by (simp add: ts_get_handler_def tsm_new_def ts_entry_init_def)
  then have "stamps_ok mac n {} 0 (sys_init n db)"
    by (intro stamps_okI) (simp_all add: sys_init_def sys_vec_def tsm_new_ok)
  then show ?thesis
    using assms by (simp add: sys_ok_def locks_ok_def run_locks_ok_def nodes_ok_def has_values_def sys_init_def)
qed

lemma sys_run_ok:
  assumes "cluster_ok mac content n" "sys_ok mac content n U k s" "3 + k + length as < 2 ^ 31" "list_all op_ok as"
    and "sys_run mac content as s = Some s'"
  shows "\<exists>U'. U \<subseteq> U' \<and> sys_ok mac content n U' (k + length as) s'"
    and "vec_le v (sys_vec s) \<Longrightarrow> read_at v (sys_db s' b) = read_at v (sys_db s b)"
  using assms(2-5)
proof (induction as arbitrary: U k s)
  case (Cons a as)
  case 1
  then obtain s1 where s1: "sys_step mac content a s = Some s1" "sys_run mac content as s1 = Some s'"
    by (auto simp: bind_eq_Some_conv)
  moreover have k: "3 + k < 2 ^ 31" "op_ok a"
    using 1(2,3) by simp_all
  ultimately obtain U1 where U1: "U \<subseteq> U1" "sys_ok mac content n U1 (Suc k) s1"
    using sys_step_ok[OF assms(1) 1(1)] by blast
  then show ?case
    using Cons.IH(1)[OF U1(2) _ _ s1(2)] 1(2,3) by auto
next
  case (Cons a as)
  case 2
  then obtain s1 where s1: "sys_step mac content a s = Some s1" "sys_run mac content as s1 = Some s'"
    by (auto simp: bind_eq_Some_conv)
  have k: "3 + k < 2 ^ 31" "op_ok a"
    using 2(3,4) by simp_all
  then obtain U1 where U1: "U \<subseteq> U1" "sys_ok mac content n U1 (Suc k) s1"
    using sys_step_ok[OF assms(1) 2(2)] s1(1) by blast
  have "vec_le (sys_vec s) (sys_vec s1)"
    unfolding sys_vec_def using U1 2(2) by (intro tsm_ok_mono[of n U _ U1]) (auto simp: sys_ok_def stamps_ok_def)
  then have "vec_le v (sys_vec s1)"
    using 2(1) vec_le_trans by blast
  then have "read_at v (sys_db s' b) = read_at v (sys_db s1 b)"
    using Cons.IH(2)[OF _ U1(2) _ _ s1(2)] 2(3,4) by simp
  also have "\<dots> = read_at v (sys_db s b)"
    using sys_step_reads(2)[OF assms(1) 2(2) k s1(1) 2(1)] .
  finally show ?case .
qed auto

text \<open>What a snapshot returns is visible to it.\<close>

lemma si_traverse_visible: "si_traverse v old = Some (Some (ver, x)) \<Longrightarrow> si_visible v ver = Some True"
  by (induction v old rule: si_traverse.induct) (auto simp: bind_eq_Some_conv split: if_splits)

lemma read_at_visible:
  assumes "read_at v y = Some (Ret ver (Some x))"
  shows "si_visible v ver = Some True"
  using assms by (auto simp: read_at_def get_ro_pass_def bind_eq_Some_conv dest: si_traverse_visible
      split: if_splits option.splits)

lemma reach_ok:
  assumes "cluster_ok mac content n" "\<forall>a. node_ok n (db a)" "list_all op_ok as" "length as + 3 < 2 ^ 31"
    and "sys_run mac content as (sys_init n db) = Some s"
  obtains U where "sys_ok mac content n U (length as) s"
  using sys_run_ok(1)[OF assms(1) sys_init_ok[OF assms(2)] _ assms(3,5)] assms(4) by auto

definition demo_mac :: "bool \<Rightarrow> nat" where
  "demo_mac t = 0"

definition demo_content :: "bool \<Rightarrow> u64" where
  "demo_content t = (if t then 1 else 2)"

definition demo_db :: "string memdb" where
  "demo_db = memdb_init(Store 0 1 5 := memnode_init\<lparr>node_seq := 2, node_value := Some ''a''\<rparr>)"

definition demo_begin :: "(bool, string) sys_op list" where
  "demo_begin = [SBegin True]"

definition demo_lock :: "(bool, string) sys_op list" where
  "demo_lock = [SBegin False, SEnd False [(Store 0 1 5, 2, Some ''b'')], SLock False 0, SDecide False]"

definition demo_commit :: "(bool, string) sys_op list" where
  "demo_commit = demo_lock @ [SInstall False 0, SReport False]"

lemma demo_ok:
  "cluster_ok demo_mac demo_content 1" "\<forall>a. node_ok 1 (demo_db a)" "list_all op_ok (demo_begin @ demo_commit)"
  "length (demo_begin @ demo_commit) = 7"
  by (auto simp: cluster_ok_def demo_mac_def demo_content_def inj_def demo_db_def node_ok_def memdb_init_def memnode_init_def
      SI_GET_SERVER_def demo_begin_def demo_commit_def demo_lock_def has_values_def)

lemmas demo_defs = demo_mac_def demo_content_def demo_db_def demo_begin_def demo_lock_def demo_commit_def sys_init_def
  set_tx_def remove_nth_def try_lock_def memdb_init_def memnode_init_def

lemma sys_run_append:
  "sys_run mac content (as @ bs) s = Option.bind (sys_run mac content as s) (sys_run mac content bs)"
  by (induction as arbitrary: s) (auto split: Option.bind_splits)





text \<open>C2: No update is lost: a transaction that writes a record overwrites exactly the version its read
  returned (the one it validated), it holds the record's lock, and no other transaction holds the record,
  so of two transactions that read the same version only one commits.\<close>

theorem si_no_lost_update:
  assumes "cluster_ok mac content n" "\<forall>a. node_ok n (db a)" "list_all op_ok as" "length as + 3 < 2 ^ 31"
    and "sys_run mac content as (sys_init n db) = Some s" "sys_tx s t = Writing c gs" "(a, q, x) \<in> set gs"
  shows "node_seq (sys_db s a) = q \<and> node_lock (sys_db s a) = content t
    \<and> (\<forall>t'. t' \<noteq> t \<longrightarrow> a \<notin> fst ` set (held_of (sys_tx s t')))"
proof -
  obtain U where U: "sys_ok mac content n U (length as) s"
    using reach_ok[OF assms(1-5)] .
  then have l: "run_locks_ok (content t') (sys_db s) (sys_tx s t')" for t'
    by (simp add: sys_ok_def locks_ok_def)
  have g: "(a, q, x) \<in> set (held_of (sys_tx s t))" "valid_of (sys_tx s t)"
    using assms(6,7) by simp_all
  note own = run_locks_okD[OF l g(1) refl]
  have "a \<notin> fst ` set (held_of (sys_tx s t'))" if "t' \<noteq> t" for t'
  proof
    assume "a \<in> fst ` set (held_of (sys_tx s t'))"
    then obtain q' y where "(a, q', y) \<in> set (held_of (sys_tx s t'))"
      by auto
    then have "content t' = content t"
      using run_locks_okD(1)[OF l _ refl] own(1) by fastforce
    then show False
      using that assms(1) by (auto simp: cluster_ok_def inj_def)
  qed
  then show ?thesis
    using own g(2) by blast
qed

theorem si_no_lost_update_witness:
  "\<exists>s. sys_run demo_mac demo_content (demo_begin @ demo_lock) (sys_init 1 demo_db) = Some s \<and>
     node_seq (sys_db s (Store 0 1 5)) = 2 \<and> node_lock (sys_db s (Store 0 1 5)) = 2"
proof -
  have ops: "list_all op_ok (demo_begin @ demo_lock)" "length (demo_begin @ demo_lock) + 3 < 2 ^ 31"
    using demo_ok(3) by (simp_all add: demo_commit_def demo_begin_def demo_lock_def)
  obtain s where s: "sys_run demo_mac demo_content (demo_begin @ demo_lock) (sys_init 1 demo_db) = Some s"
      "sys_tx s False = Writing 3 [(Store 0 1 5, 2, Some ''b'')]"
    by (auto simp: demo_defs)
  show ?thesis
    using si_no_lost_update[OF demo_ok(1,2) ops s, of "Store 0 1 5" 2 "Some ''b''"] s(1) by (auto simp: demo_content_def)
qed

end
