(* ===== verification/MemValue.thy ===== *)
theory MemValue
  imports DST_Prelude "HOL-Library.List_Lexorder"
begin

unbundle bit_operations_syntax

text \<open>
  \<open>memdb/value.h\<close>, \<open>memdb/value.cc\<close> and \<open>memdb/blob.h\<close>: the values of columns, their comparison and
  their binary form. Integers are two's complement words of their width, in the byte order of the
  machines the program runs on (little endian). A \<open>double\<close> is its 64-bit pattern; the two comparisons
  the code makes are those of IEEE 754: a NaN is neither below nor equal to anything, and the two zeros are
  equal.
\<close>

type_synonym byte = "8 word"
type_synonym f64 = "64 word"

subsection \<open>Bytes of words\<close>

definition word_bytes :: "nat \<Rightarrow> 'a :: len word \<Rightarrow> byte list" where
  "word_bytes n w = map (\<lambda>i. ucast (drop_bit (8 * i) w)) [0..<n]"

fun bytes_word :: "byte list \<Rightarrow> 'a :: len word" where
  "bytes_word [] = 0"
| "bytes_word (b # bs) = ucast b OR push_bit 8 (bytes_word bs)"

lemma length_word_bytes [simp]: "length (word_bytes n w) = n"
  by (simp add: word_bytes_def)

lemma word_bytes_Suc: "word_bytes (Suc n) w = ucast w # word_bytes n (drop_bit 8 w)"
proof -
  have "[0..<Suc n] = 0 # map Suc [0..<n]"
    by (simp add: upt_conv_Cons map_Suc_upt del: upt_Suc)
  then show ?thesis
    by (simp add: word_bytes_def comp_def drop_bit_drop_bit add.commute del: upt_Suc)
qed

lemma bytes_word_take: "bytes_word (word_bytes n w) = (ucast (take_bit (8 * n) (w :: 'a :: len word)) :: 'b :: len word)"
proof (induction n arbitrary: w)
  case 0
  then show ?case by (simp add: word_bytes_def)
next
  case (Suc n)
  have "(bytes_word (word_bytes (Suc n) w) :: 'b word)
      = ucast (ucast w :: byte) OR push_bit 8 (ucast (take_bit (8 * n) (drop_bit 8 w)))"
    by (simp add: word_bytes_Suc Suc.IH)
  also have "\<dots> = ucast (take_bit (8 * Suc n) w)"
    by (rule bit_word_eqI) (auto simp: bit_simps)
  finally show ?case .
qed

lemma bytes_word_append: "bytes_word (xs @ ys) = bytes_word xs OR push_bit (8 * length xs) (bytes_word ys :: 'a :: len word)"
proof (induction xs)
  case (Cons x xs)
  then show ?case by (simp add: push_bit_or push_bit_push_bit or.assoc add.commute)
qed simp

lemma word_bytes_append: "word_bytes (m + n) w = word_bytes m w @ word_bytes n (drop_bit (8 * m) w)"
proof (induction m arbitrary: w)
  case (Suc m)
  then show ?case by (simp add: word_bytes_Suc drop_bit_drop_bit add.commute)
qed (simp add: word_bytes_def)

lemma bytes_word_bytes [simp]:
  "LENGTH('a) \<le> 8 * n \<Longrightarrow> bytes_word (word_bytes n w) = (w :: 'a :: len word)"
  by (simp add: bytes_word_take take_bit_word_eq_self)

subsection \<open>Doubles\<close>

definition f64_nan :: "f64 \<Rightarrow> bool" where
  "f64_nan x \<longleftrightarrow> 0x7ff0000000000000 < x AND 0x7fffffffffffffff"

definition f64_ord :: "f64 \<Rightarrow> int" where
  "f64_ord x = (let m = uint (x AND 0x7fffffffffffffff) in if bit x 63 then - m else m)"

definition f64_less :: "f64 \<Rightarrow> f64 \<Rightarrow> bool" where
  "f64_less x y \<longleftrightarrow> \<not> f64_nan x \<and> \<not> f64_nan y \<and> f64_ord x < f64_ord y"

definition f64_eq :: "f64 \<Rightarrow> f64 \<Rightarrow> bool" where
  "f64_eq x y \<longleftrightarrow> \<not> f64_nan x \<and> \<not> f64_nan y \<and> f64_ord x = f64_ord y"

subsection \<open>Values\<close>

datatype kind = UNKNOWN | I32 | I64 | DOUBLE | KSTR

datatype mvalue = VUnknown | VI32 u32 | VI64 u64 | VDouble f64 | VStr "byte list"

fun get_kind :: "mvalue \<Rightarrow> kind" where
  "get_kind VUnknown = UNKNOWN"
| "get_kind (VI32 v) = I32"
| "get_kind (VI64 v) = I64"
| "get_kind (VDouble v) = DOUBLE"
| "get_kind (VStr v) = KSTR"

fun get_i32 :: "mvalue \<Rightarrow> u32 option" where
  "get_i32 (VI32 v) = Some v"
| "get_i32 _ = None"

fun get_i64 :: "mvalue \<Rightarrow> u64 option" where
  "get_i64 (VI64 v) = Some v"
| "get_i64 _ = None"

fun get_double :: "mvalue \<Rightarrow> f64 option" where
  "get_double (VDouble v) = Some v"
| "get_double _ = None"

fun get_str :: "mvalue \<Rightarrow> byte list option" where
  "get_str (VStr v) = Some v"
| "get_str _ = None"

text \<open>The setters turn a value of unknown kind into one of theirs and keep every other kind.\<close>

definition set_value :: "kind \<Rightarrow> mvalue \<Rightarrow> mvalue \<Rightarrow> mvalue option" where
  "set_value k new old = do { verify (get_kind old = UNKNOWN \<or> get_kind old = k); Some new }"

definition set_i32 :: "u32 \<Rightarrow> mvalue \<Rightarrow> mvalue option" where
  "set_i32 v = set_value I32 (VI32 v)"

definition set_i64 :: "u64 \<Rightarrow> mvalue \<Rightarrow> mvalue option" where
  "set_i64 v = set_value I64 (VI64 v)"

definition set_double :: "f64 \<Rightarrow> mvalue \<Rightarrow> mvalue option" where
  "set_double v = set_value DOUBLE (VDouble v)"

definition set_str :: "byte list \<Rightarrow> mvalue \<Rightarrow> mvalue option" where
  "set_str v = set_value KSTR (VStr v)"

text \<open>\<open>compare\<close>: strings are compared byte by byte as unsigned characters.\<close>

definition cmp3 :: "bool \<Rightarrow> bool \<Rightarrow> int" where
  "cmp3 lt eq = (if lt then - 1 else if eq then 0 else 1)"

fun bytes_less :: "byte list \<Rightarrow> byte list \<Rightarrow> bool" where
  "bytes_less xs [] = False"
| "bytes_less [] (y # ys) = True"
| "bytes_less (x # xs) (y # ys) = (x < y \<or> x = y \<and> bytes_less xs ys)"

fun value_compare :: "mvalue \<Rightarrow> mvalue \<Rightarrow> int option" where
  "value_compare VUnknown VUnknown = Some 0"
| "value_compare (VI32 a) (VI32 b) = Some (cmp3 (a <s b) (a = b))"
| "value_compare (VI64 a) (VI64 b) = Some (cmp3 (a <s b) (a = b))"
| "value_compare (VDouble a) (VDouble b) = Some (cmp3 (f64_less a b) (f64_eq a b))"
| "value_compare (VStr a) (VStr b) = Some (cmp3 (bytes_less a b) (a = b))"
| "value_compare _ _ = None"

text \<open>\<open>write_binary\<close> and \<open>get_blob\<close>: the bytes of a value.\<close>

fun value_bytes :: "mvalue \<Rightarrow> byte list option" where
  "value_bytes VUnknown = None"
| "value_bytes (VI32 v) = Some (word_bytes 4 v)"
| "value_bytes (VI64 v) = Some (word_bytes 8 v)"
| "value_bytes (VDouble v) = Some (word_bytes 8 v)"
| "value_bytes (VStr v) = Some v"

text \<open>Reading a value of a kind back, as \<open>Row::get_column\<close> does.\<close>

definition read_binary :: "kind \<Rightarrow> byte list \<Rightarrow> mvalue option" where
  "read_binary k b = (case k of
     I32 \<Rightarrow> Some (VI32 (bytes_word b))
   | I64 \<Rightarrow> Some (VI64 (bytes_word b))
   | DOUBLE \<Rightarrow> Some (VDouble (bytes_word b))
   | KSTR \<Rightarrow> Some (VStr b)
   | UNKNOWN \<Rightarrow> None)"

lemma read_value_bytes: "value_bytes v = Some b \<Longrightarrow> read_binary (get_kind v) b = Some v"
  by (cases v) (auto simp: read_binary_def)

fun fixed_size :: "kind \<Rightarrow> nat" where
  "fixed_size I32 = 4"
| "fixed_size I64 = 8"
| "fixed_size DOUBLE = 8"
| "fixed_size _ = 0"

lemma length_value_bytes: "value_bytes v = Some b \<Longrightarrow> get_kind v \<noteq> KSTR \<Longrightarrow> length b = fixed_size (get_kind v)"
  by (cases v) auto

subsection \<open>The order of values\<close>

text \<open>The values on which \<open>compare\<close> is an order.\<close>

fun comparable :: "mvalue \<Rightarrow> bool" where
  "comparable (VDouble v) = (\<not> f64_nan v)"
| "comparable _ = True"

text \<open>Every comparable value has a place in the lexicographic order of integer lists, and \<open>compare\<close> compares
  these places.\<close>

fun value_ord :: "mvalue \<Rightarrow> int list" where
  "value_ord VUnknown = []"
| "value_ord (VI32 v) = [sint v]"
| "value_ord (VI64 v) = [sint v]"
| "value_ord (VDouble v) = [f64_ord v]"
| "value_ord (VStr v) = map uint v"

lemma bytes_less_ord: "bytes_less xs ys \<longleftrightarrow> map uint xs < map uint ys"
  by (induction xs ys rule: bytes_less.induct) (auto simp: word_less_def word_uint_eq_iff)

lemma map_uint_eq: "map uint xs = map uint (ys :: byte list) \<longleftrightarrow> xs = ys"
  by (simp add: inj_map_eq_map injI)

lemma value_compare_ord:
  assumes "get_kind a = get_kind b" "comparable a" "comparable b"
  shows "value_compare a b = Some (cmp3 (value_ord a < value_ord b) (value_ord a = value_ord b))"
  using assms
  by (cases a; cases b) (auto simp: cmp3_def word_sless_alt bytes_less_ord map_uint_eq f64_less_def f64_eq_def
      dest: signed_word_eqI)

lemma cmp3_simps [simp]:
  "cmp3 p q = - 1 \<longleftrightarrow> p" "cmp3 p q = 0 \<longleftrightarrow> \<not> p \<and> q" "cmp3 p q = 1 \<longleftrightarrow> \<not> p \<and> \<not> q"
  by (auto simp: cmp3_def)

text \<open>\<open>Value::compare\<close> is a linear order on the values of a kind, NaN apart: it answers for every two
  values of the same kind and for no others, exchanging the arguments negates the answer, \<open>0\<close> is
  preserved by exchanging equals, and below is transitive.\<close>

theorem value_compare_linear:
  assumes "comparable a" "comparable b" "comparable c" "get_kind a = get_kind b" "get_kind b = get_kind c"
  shows "\<exists>r \<in> {- 1, 0, 1}. value_compare a b = Some r \<and> value_compare b a = Some (- r)
    \<and> (r = 0 \<longrightarrow> value_compare a c = value_compare b c)
    \<and> (r = - 1 \<and> value_compare b c = Some (- 1) \<longrightarrow> value_compare a c = Some (- 1))"
proof -
  note ord = value_compare_ord
  have "value_compare a b = Some (cmp3 (value_ord a < value_ord b) (value_ord a = value_ord b))"
    "value_compare b a = Some (cmp3 (value_ord b < value_ord a) (value_ord b = value_ord a))"
    "value_compare b c = Some (cmp3 (value_ord b < value_ord c) (value_ord b = value_ord c))"
    "value_compare a c = Some (cmp3 (value_ord a < value_ord c) (value_ord a = value_ord c))"
    using assms by (simp_all add: ord)
  then show ?thesis
    by (intro bexI[of _ "cmp3 (value_ord a < value_ord b) (value_ord a = value_ord b)"]) (auto simp: cmp3_def)
qed

theorem value_compare_linear_witness:
  "value_compare (VI32 (- 1)) (VI32 0) = Some (- 1) \<and> value_compare (VI32 (- 1)) (VI32 7) = Some (- 1)"
  using value_compare_linear[of "VI32 (- 1)" "VI32 0" "VI32 7"] by (auto simp: cmp3_def word_sless_alt)

text \<open>With a NaN \<open>Value::compare\<close> is not an order: the value compares as greater than every other double
  and every other double as greater than it, and it is not equal to itself.\<close>

theorem value_compare_nan:
  assumes "f64_nan x"
  shows "value_compare (VDouble x) (VDouble y) = Some 1 \<and> value_compare (VDouble y) (VDouble x) = Some 1"
  using assms by (simp add: f64_less_def f64_eq_def cmp3_def)

theorem value_compare_nan_witness:
  "value_compare (VDouble 0x7ff8000000000000) (VDouble 0x7ff8000000000000) = Some 1"
  using value_compare_nan[of "0x7ff8000000000000" "0x7ff8000000000000"] by (simp add: f64_nan_def)

end
