(* ===== verification/MemSchema.thy ===== *)
theory MemSchema
  imports MemValue
begin

text \<open>
  \<open>memdb/schema.h\<close> and \<open>memdb/schema.cc\<close>: the columns of a table and where a row keeps them. Columns of
  fixed size have an offset in the fixed part of a row, strings a number among the strings. The
  union of the two is one field, and column ids are the positions in the list of columns.
\<close>

record column_info =
  ci_id :: nat
  ci_name :: string
  ci_indexed :: bool
  ci_type :: kind
  ci_pos :: nat

record schema =
  col_name_to_id :: "(string \<times> nat) list"
  col_info :: "column_info list"
  key_cols_id :: "nat list"
  var_size_cols :: nat
  fixed_part_size :: nat
  hidden_fixed :: nat
  hidden_var :: nat
  frozen :: bool

record indexed_schema = schema +
  idx_col :: int
  all_idx :: "nat list list"
  idx_name :: "(string \<times> nat) list"

definition schema_new :: indexed_schema where
  "schema_new = \<lparr>col_name_to_id = [], col_info = [], key_cols_id = [], var_size_cols = 0, fixed_part_size = 0,
     hidden_fixed = 0, hidden_var = 0, frozen = False, idx_col = - 1, all_idx = [], idx_name = []\<rparr>"

subsection \<open>Operations\<close>

definition do_add_column :: "string \<Rightarrow> kind \<Rightarrow> bool \<Rightarrow> 'a schema_scheme \<Rightarrow> (int \<times> 'a schema_scheme) option" where
  "do_add_column name type key s =
    (let this_id = length (col_name_to_id s) in
     if map_of (col_name_to_id s) name \<noteq> None then Some (- 1, s)
     else do {
       verify (type \<noteq> UNKNOWN);
       let info = \<lparr>ci_id = this_id, ci_name = name, ci_indexed = key, ci_type = type,
                    ci_pos = (if type = KSTR then var_size_cols s else fixed_part_size s)\<rparr>;
       Some (int this_id, s\<lparr>
         col_name_to_id := col_name_to_id s @ [(name, this_id)],
         col_info := col_info s @ [info],
         key_cols_id := (if key then key_cols_id s @ [this_id] else key_cols_id s),
         var_size_cols := (if type = KSTR then var_size_cols s + 1 else var_size_cols s),
         fixed_part_size := fixed_part_size s + fixed_size type\<rparr>)
     })"

definition add_column :: "string \<Rightarrow> kind \<Rightarrow> bool \<Rightarrow> 'a schema_scheme \<Rightarrow> (int \<times> 'a schema_scheme) option" where
  "add_column name type key s = do {
     verify (\<not> frozen s \<and> hidden_fixed s = 0 \<and> hidden_var s = 0);
     do_add_column name type key s
   }"

definition add_key_column :: "string \<Rightarrow> kind \<Rightarrow> 'a schema_scheme \<Rightarrow> (int \<times> 'a schema_scheme) option" where
  "add_key_column name type s = add_column name type True s"

definition get_column_id :: "string \<Rightarrow> 'a schema_scheme \<Rightarrow> int" where
  "get_column_id name s = (case map_of (col_name_to_id s) name of Some i \<Rightarrow> int i | None \<Rightarrow> - 1)"

text \<open>\<open>get_column_info(column_id)\<close> does not check its argument; outside the columns it is undefined.\<close>

definition get_column_info :: "nat \<Rightarrow> 'a schema_scheme \<Rightarrow> column_info option" where
  "get_column_info i s = (if i < length (col_info s) then Some (col_info s ! i) else None)"

definition get_column_info_by_name :: "string \<Rightarrow> 'a schema_scheme \<Rightarrow> column_info option" where
  "get_column_info_by_name name s =
    (let i = get_column_id name s in if i < 0 then None else get_column_info (nat i) s)"

definition columns_count :: "'a schema_scheme \<Rightarrow> nat" where
  "columns_count s = length (col_info s) - hidden_fixed s - hidden_var s"

text \<open>\<open>begin()\<close> to \<open>end()\<close>: the visible columns.\<close>

definition visible_columns :: "'a schema_scheme \<Rightarrow> column_info list" where
  "visible_columns s = take (columns_count s) (col_info s)"

definition add_hidden_column :: "string \<Rightarrow> kind \<Rightarrow> 'a schema_scheme \<Rightarrow> (int \<times> 'a schema_scheme) option" where
  "add_hidden_column name type s = do {
     verify (\<not> frozen s);
     (ret, s') \<leftarrow> do_add_column name type False s;
     Some (ret, if type = KSTR then s'\<lparr>hidden_var := hidden_var s' + 1\<rparr> else s'\<lparr>hidden_fixed := hidden_fixed s' + 1\<rparr>)
   }"

definition index_sanity_check :: "nat list \<Rightarrow> indexed_schema \<Rightarrow> unit option" where
  "index_sanity_check idx s = do {
     verify (distinct idx);
     verify (\<forall>i \<in> set idx. i < columns_count s)
   }"

definition mark_indexed :: "nat list \<Rightarrow> column_info list \<Rightarrow> column_info list" where
  "mark_indexed idx cols = fold (\<lambda>i cols. cols[i := (cols ! i)\<lparr>ci_indexed := True\<rparr>]) idx cols"

definition add_index :: "string \<Rightarrow> nat list \<Rightarrow> indexed_schema \<Rightarrow> (int \<times> indexed_schema) option" where
  "add_index name idx s = do {
     index_sanity_check idx s;
     let this_id = length (all_idx s);
     if map_of (idx_name s) name \<noteq> None then Some (- 1, s)
     else Some (int this_id, s\<lparr>
       col_info := mark_indexed idx (col_info s),
       idx_name := idx_name s @ [(name, this_id)],
       all_idx := all_idx s @ [idx]\<rparr>)
   }"

fun column_ids :: "string list \<Rightarrow> 'a schema_scheme \<Rightarrow> nat list option" where
  "column_ids [] s = Some []"
| "column_ids (n # ns) s = (let i = get_column_id n s in do {
     verify (i \<ge> 0);
     is \<leftarrow> column_ids ns s;
     Some (nat i # is)
   })"

definition add_index_by_column_names :: "string \<Rightarrow> string list \<Rightarrow> indexed_schema \<Rightarrow> (int \<times> indexed_schema) option" where
  "add_index_by_column_names name named_idx s = do {
     idx \<leftarrow> column_ids named_idx s;
     add_index name idx s
   }"

definition get_index_id :: "string \<Rightarrow> indexed_schema \<Rightarrow> nat option" where
  "get_index_id name s = map_of (idx_name s) name"

definition schema_freeze :: "'a schema_scheme \<Rightarrow> 'a schema_scheme" where
  "schema_freeze s = s\<lparr>frozen := True\<rparr>"

definition indexed_freeze :: "indexed_schema \<Rightarrow> indexed_schema option" where
  "indexed_freeze s = do {
     s' \<leftarrow> (if frozen s then Some s
           else do {
             (c, s1) \<leftarrow> add_hidden_column ''.index'' I64 s;
             verify (c \<ge> 0);
             Some (s1\<lparr>idx_col := c\<rparr>)
           });
     Some (schema_freeze s')
   }"

subsection \<open>The layout of rows\<close>

definition str_count :: "column_info list \<Rightarrow> nat" where
  "str_count cols = length (filter (\<lambda>c. ci_type c = KSTR) cols)"

definition fixed_sum :: "column_info list \<Rightarrow> nat" where
  "fixed_sum cols = sum_list (map (\<lambda>c. fixed_size (ci_type c)) cols)"

lemma str_count_simps [simp]:
  "str_count [] = 0" "str_count (xs @ ys) = str_count xs + str_count ys"
  "str_count (c # cs) = (if ci_type c = KSTR then 1 else 0) + str_count cs"
  by (simp_all add: str_count_def)

lemma fixed_sum_simps [simp]:
  "fixed_sum [] = 0" "fixed_sum (xs @ ys) = fixed_sum xs + fixed_sum ys"
  "fixed_sum (c # cs) = fixed_size (ci_type c) + fixed_sum cs"
  by (simp_all add: fixed_sum_def)

text \<open>The place of a column follows from the columns before it.\<close>

definition col_ok :: "column_info list \<Rightarrow> nat \<Rightarrow> bool" where
  "col_ok cols i \<longleftrightarrow> (let c = cols ! i; pre = take i cols in ci_id c = i \<and> ci_type c \<noteq> UNKNOWN
     \<and> ci_pos c = (if ci_type c = KSTR then str_count pre else fixed_sum pre))"

definition schema_ok :: "'a schema_scheme \<Rightarrow> bool" where
  "schema_ok s \<longleftrightarrow> (let cols = col_info s in
     (\<forall>i < length cols. col_ok cols i)
     \<and> col_name_to_id s = zip (map ci_name cols) [0..<length cols] \<and> distinct (map ci_name cols)
     \<and> var_size_cols s = str_count cols \<and> fixed_part_size s = fixed_sum cols
     \<and> distinct (key_cols_id s) \<and> (\<forall>i \<in> set (key_cols_id s). i < length cols \<and> ci_indexed (cols ! i))
     \<and> hidden_fixed s + hidden_var s \<le> length cols
     \<and> (\<forall>i \<in> set (key_cols_id s). i < columns_count s))"

lemma schema_okD:
  assumes "schema_ok s"
  shows "i < length (col_info s) \<Longrightarrow> col_ok (col_info s) i"
    and "col_name_to_id s = zip (map ci_name (col_info s)) [0..<length (col_info s)]" "distinct (map ci_name (col_info s))"
    and "var_size_cols s = str_count (col_info s)" "fixed_part_size s = fixed_sum (col_info s)"
    and "distinct (key_cols_id s)" "i \<in> set (key_cols_id s) \<Longrightarrow> i < length (col_info s)"
    and "i \<in> set (key_cols_id s) \<Longrightarrow> ci_indexed (col_info s ! i)"
    and "hidden_fixed s + hidden_var s \<le> length (col_info s)" "i \<in> set (key_cols_id s) \<Longrightarrow> i < columns_count s"
  using assms unfolding schema_ok_def Let_def by blast+

lemma schema_ok_freeze [simp]: "schema_ok (schema_freeze s) = schema_ok s"
  by (simp add: schema_ok_def schema_freeze_def columns_count_def)

lemma schema_ok_new: "schema_ok schema_new"
  by (simp add: schema_ok_def schema_new_def)

lemma col_ok_append: "i < length cols \<Longrightarrow> col_ok (cols @ cs) i = col_ok cols i"
  by (simp add: col_ok_def nth_append)

lemma map_of_zip_name:
  assumes "length xs = length ys"
  shows "map_of (zip xs ys) x = None \<longleftrightarrow> x \<notin> set xs"
  using assms by (metis map_of_eq_None_iff map_fst_zip set_map)

text \<open>What adding a column does, for the two callers: a visible column, or a hidden one behind them.\<close>

lemma do_add_column_ok:
  assumes "schema_ok s" "do_add_column name type key s = Some (r, s')" "\<not> key \<or> hidden_fixed s + hidden_var s = 0"
  shows "(r = - 1 \<and> s' = s \<and> name \<in> ci_name ` set (col_info s)) \<or>
    (r = int (length (col_info s)) \<and> schema_ok s' \<and> hidden_fixed s' = hidden_fixed s \<and> hidden_var s' = hidden_var s
      \<and> frozen s' = frozen s \<and> (\<exists>c. col_info s' = col_info s @ [c] \<and> ci_name c = name \<and> ci_type c = type \<and> ci_indexed c = key))"
proof -
  note D = schema_okD[OF assms(1)]
  have len: "length (col_name_to_id s) = length (col_info s)"
    using D(2) by simp
  have dup: "map_of (col_name_to_id s) name = None \<longleftrightarrow> name \<notin> ci_name ` set (col_info s)"
    using D(2) map_of_zip_name[of "map ci_name (col_info s)" "[0..<length (col_info s)]"] by simp
  show ?thesis
  proof (cases "map_of (col_name_to_id s) name = None")
    case False
    then show ?thesis
      using assms(2) dup by (simp add: do_add_column_def Let_def)
  next
    case True
    let ?n = "length (col_info s)"
    define c where "c = \<lparr>ci_id = ?n, ci_name = name, ci_indexed = key, ci_type = type,
      ci_pos = (if type = KSTR then var_size_cols s else fixed_part_size s)\<rparr>"
    have ty: "type \<noteq> UNKNOWN" and r: "r = int ?n" and s': "s' = s\<lparr>
         col_name_to_id := col_name_to_id s @ [(name, ?n)], col_info := col_info s @ [c],
         key_cols_id := (if key then key_cols_id s @ [?n] else key_cols_id s),
         var_size_cols := (if type = KSTR then var_size_cols s + 1 else var_size_cols s),
         fixed_part_size := fixed_part_size s + fixed_size type\<rparr>"
      using assms(2) True len by (auto simp: do_add_column_def Let_def c_def bind_eq_Some_conv)
    have cols: "\<forall>i < Suc ?n. col_ok (col_info s @ [c]) i"
      using D(1,4,5) ty by (auto simp: less_Suc_eq col_ok_append) (auto simp: col_ok_def c_def)
    have "schema_ok s'"
      unfolding schema_ok_def Let_def
    proof (intro conjI)
      show "\<forall>i < length (col_info s'). col_ok (col_info s') i"
        using cols s' by simp
      show "col_name_to_id s' = zip (map ci_name (col_info s')) [0..<length (col_info s')]"
        using D(2) by (simp add: s' c_def)
      show "distinct (map ci_name (col_info s'))"
        using D(3) True dup by (simp add: s' c_def)
      show "var_size_cols s' = str_count (col_info s')" "fixed_part_size s' = fixed_sum (col_info s')"
        using D(4,5) by (simp_all add: s' c_def)
      show "distinct (key_cols_id s')"
        using D(6,7) by (auto simp: s')
      show "\<forall>i \<in> set (key_cols_id s'). i < length (col_info s') \<and> ci_indexed (col_info s' ! i)"
        using D(7,8) by (auto simp: s' nth_append c_def less_Suc_eq split: if_splits)
      show "hidden_fixed s' + hidden_var s' \<le> length (col_info s')"
        using D(9) by (simp add: s')
      show "\<forall>i \<in> set (key_cols_id s'). i < columns_count s'"
      proof
        fix i
        assume "i \<in> set (key_cols_id s')"
        then consider "i \<in> set (key_cols_id s)" | "key" "i = ?n"
          by (auto simp: s' split: if_splits)
        then show "i < columns_count s'"
          using D(10)[of i] assms(3) by cases (auto simp: s' columns_count_def)
      qed
    qed
    then show ?thesis
      using r by (simp add: s' c_def)
  qed
qed

lemma add_column_ok:
  assumes "schema_ok s" "add_column name type key s = Some (r, s')"
  shows "schema_ok s'"
  using assms do_add_column_ok[of s name type key r s'] by (auto simp: add_column_def verify_simps split: if_splits)

lemma add_hidden_column_ok:
  assumes "schema_ok s" "add_hidden_column name type s = Some (r, s')" "r \<noteq> - 1"
  shows "schema_ok s'" "frozen s' = frozen s" "r = int (length (col_info s))" "columns_count s' = columns_count s"
    "\<exists>c. col_info s' = col_info s @ [c] \<and> ci_name c = name \<and> ci_type c = type \<and> \<not> ci_indexed c"
proof -
  obtain s1 where s1: "do_add_column name type False s = Some (r, s1)"
      "s' = (if type = KSTR then s1\<lparr>hidden_var := hidden_var s1 + 1\<rparr> else s1\<lparr>hidden_fixed := hidden_fixed s1 + 1\<rparr>)"
    using assms(2) by (auto simp: add_hidden_column_def verify_simps bind_eq_Some_conv split: if_splits)
  obtain c where c: "r = int (length (col_info s))" "schema_ok s1" "hidden_fixed s1 = hidden_fixed s" "hidden_var s1 = hidden_var s"
      "frozen s1 = frozen s" "col_info s1 = col_info s @ [c]" "ci_name c = name" "ci_type c = type" "\<not> ci_indexed c"
    using do_add_column_ok[OF assms(1) s1(1)] assms(3) by auto
  have key: "key_cols_id s1 = key_cols_id s"
    using s1(1) assms(3) by (auto simp: do_add_column_def Let_def bind_eq_Some_conv split: if_splits)
  note D = schema_okD[OF c(2)] and DS = schema_okD[OF assms(1)]
  show cc: "columns_count s' = columns_count s"
    using DS(9) c s1(2) by (auto simp: columns_count_def)
  have "i < columns_count s'" if "i \<in> set (key_cols_id s1)" for i
    using that key DS(10) cc by simp
  then show "schema_ok s'"
    using D s1(2) c DS(9) by (auto simp: schema_ok_def Let_def)
  show "frozen s' = frozen s" "r = int (length (col_info s))"
    using c s1(2) by auto
  show "\<exists>c. col_info s' = col_info s @ [c] \<and> ci_name c = name \<and> ci_type c = type \<and> \<not> ci_indexed c"
    using c s1(2) by auto
qed

lemma indexed_freeze_ok:
  assumes "schema_ok s" "indexed_freeze s = Some s'"
  shows "schema_ok s'" "frozen s'" "columns_count s' = columns_count s"
proof -
  have "schema_ok s' \<and> frozen s' \<and> columns_count s' = columns_count s"
  proof (cases "frozen s")
    case True
    then show ?thesis
      using assms by (auto simp: indexed_freeze_def schema_ok_def schema_freeze_def columns_count_def)
  next
    case False
    then obtain c s1 where s1: "add_hidden_column ''.index'' I64 s = Some (c, s1)" "c \<ge> 0" "s' = schema_freeze (s1\<lparr>idx_col := c\<rparr>)"
      using assms(2) by (auto simp: indexed_freeze_def verify_simps bind_eq_Some_conv split: if_splits)
    then show ?thesis
      using add_hidden_column_ok[OF assms(1) s1(1)] by (auto simp: schema_ok_def schema_freeze_def columns_count_def)
  qed
  then show "schema_ok s'" "frozen s'" "columns_count s' = columns_count s"
    by blast+
qed

lemma mark_indexed_simps:
  "length (mark_indexed idx cols) = length cols"
  "i < length cols \<Longrightarrow> ci_name (mark_indexed idx cols ! i) = ci_name (cols ! i)"
  "i < length cols \<Longrightarrow> ci_type (mark_indexed idx cols ! i) = ci_type (cols ! i)"
  "i < length cols \<Longrightarrow> ci_pos (mark_indexed idx cols ! i) = ci_pos (cols ! i)"
  "i < length cols \<Longrightarrow> ci_id (mark_indexed idx cols ! i) = ci_id (cols ! i)"
  "i < length cols \<Longrightarrow> ci_indexed (mark_indexed idx cols ! i) = (i \<in> set idx \<or> ci_indexed (cols ! i))"
proof -
  have "length (mark_indexed idx cols) = length cols \<and> (\<forall>i < length cols.
      mark_indexed idx cols ! i = (cols ! i)\<lparr>ci_indexed := (i \<in> set idx \<or> ci_indexed (cols ! i))\<rparr>)"
  proof (induction idx arbitrary: cols)
    case Nil
    then show ?case by (simp add: mark_indexed_def)
  next
    case (Cons j idx)
    have step: "mark_indexed (j # idx) cols = mark_indexed idx (cols[j := (cols ! j)\<lparr>ci_indexed := True\<rparr>])"
      by (simp add: mark_indexed_def)
    have upd: "cols[j := (cols ! j)\<lparr>ci_indexed := True\<rparr>] ! i = (if i = j then (cols ! i)\<lparr>ci_indexed := True\<rparr> else cols ! i)"
      if "i < length cols" for i
      using that by (simp add: nth_list_update)
    show ?case
      unfolding step using Cons.IH[of "cols[j := (cols ! j)\<lparr>ci_indexed := True\<rparr>]"] by (auto simp: upd)
  qed
  then show "length (mark_indexed idx cols) = length cols"
    "i < length cols \<Longrightarrow> ci_name (mark_indexed idx cols ! i) = ci_name (cols ! i)"
    "i < length cols \<Longrightarrow> ci_type (mark_indexed idx cols ! i) = ci_type (cols ! i)"
    "i < length cols \<Longrightarrow> ci_pos (mark_indexed idx cols ! i) = ci_pos (cols ! i)"
    "i < length cols \<Longrightarrow> ci_id (mark_indexed idx cols ! i) = ci_id (cols ! i)"
    "i < length cols \<Longrightarrow> ci_indexed (mark_indexed idx cols ! i) = (i \<in> set idx \<or> ci_indexed (cols ! i))"
    by simp_all
qed

lemma map_mark_indexed:
  "map ci_name (mark_indexed idx cols) = map ci_name cols" "map ci_type (mark_indexed idx cols) = map ci_type cols"
  by (auto intro!: nth_equalityI simp: mark_indexed_simps)

lemma sums_by_type:
  "str_count cols = length (filter (\<lambda>k. k = KSTR) (map ci_type cols))" "fixed_sum cols = sum_list (map fixed_size (map ci_type cols))"
  by (induction cols) simp_all

lemma add_index_ok:
  assumes "schema_ok s" "add_index name idx s = Some (r, s')"
  shows "schema_ok s'"
proof (cases "map_of (idx_name s) name = None")
  case False
  then show ?thesis
    using assms by (auto simp: add_index_def index_sanity_check_def verify_simps bind_eq_Some_conv)
next
  case True
  then have s': "s' = s\<lparr>col_info := mark_indexed idx (col_info s), idx_name := idx_name s @ [(name, length (all_idx s))],
      all_idx := all_idx s @ [idx]\<rparr>"
    using assms(2) by (auto simp: add_index_def index_sanity_check_def verify_simps bind_eq_Some_conv Let_def split: if_splits)
  note D = schema_okD[OF assms(1)] and m = mark_indexed_simps[where idx = idx and cols = "col_info s"]
  have pre: "map ci_type (take i (mark_indexed idx (col_info s))) = map ci_type (take i (col_info s))" for i
    by (metis map_mark_indexed(2) take_map)
  have "col_ok (mark_indexed idx (col_info s)) i" if "i < length (col_info s)" for i
    using D(1)[OF that] m that by (simp add: col_ok_def Let_def sums_by_type pre)
  moreover have "str_count (mark_indexed idx (col_info s)) = str_count (col_info s)"
    "fixed_sum (mark_indexed idx (col_info s)) = fixed_sum (col_info s)"
    by (simp_all only: sums_by_type map_mark_indexed)
  ultimately show ?thesis
    using D m by (auto simp: schema_ok_def Let_def s' map_mark_indexed columns_count_def)
qed

subsection \<open>Schemas a program can build\<close>

datatype schema_op =
    AddColumn string kind bool
  | AddIndex string "nat list"
  | AddIndexByNames string "string list"
  | FreezeSchema

fun schema_step :: "schema_op \<Rightarrow> indexed_schema \<Rightarrow> indexed_schema option" where
  "schema_step (AddColumn n k key) s = map_option snd (add_column n k key s)"
| "schema_step (AddIndex n idx) s = map_option snd (add_index n idx s)"
| "schema_step (AddIndexByNames n ns) s = map_option snd (add_index_by_column_names n ns s)"
| "schema_step FreezeSchema s = indexed_freeze s"

fun schema_run :: "schema_op list \<Rightarrow> indexed_schema \<Rightarrow> indexed_schema option" where
  "schema_run [] s = Some s"
| "schema_run (a # as) s = Option.bind (schema_step a s) (schema_run as)"

lemma schema_step_ok: "schema_ok s \<Longrightarrow> schema_step a s = Some s' \<Longrightarrow> schema_ok s'"
  by (cases a) (auto simp: add_index_by_column_names_def bind_eq_Some_conv intro: add_column_ok add_index_ok indexed_freeze_ok)

lemma schema_run_ok: "schema_ok s \<Longrightarrow> schema_run as s = Some s' \<Longrightarrow> schema_ok s'"
  by (induction as arbitrary: s) (auto simp: bind_eq_Some_conv dest: schema_step_ok)

lemma sums_take_mono:
  assumes "i < j" "j \<le> length cols"
  shows "fixed_sum (take i cols) + fixed_size (ci_type (cols ! i)) \<le> fixed_sum (take j cols)"
    and "ci_type (cols ! i) = KSTR \<Longrightarrow> str_count (take i cols) < str_count (take j cols)"
proof -
  have "take j cols = take (Suc i) cols @ take (j - Suc i) (drop (Suc i) cols)"
    using assms by (metis Suc_leI le_add_diff_inverse take_add)
  moreover have "take (Suc i) cols = take i cols @ [cols ! i]"
    using assms by (simp add: take_Suc_conv_app_nth)
  ultimately show "fixed_sum (take i cols) + fixed_size (ci_type (cols ! i)) \<le> fixed_sum (take j cols)"
    "ci_type (cols ! i) = KSTR \<Longrightarrow> str_count (take i cols) < str_count (take j cols)"
    by simp_all
qed

lemma schema_pos:
  assumes "schema_ok s" "i < length (col_info s)"
  shows "ci_id (col_info s ! i) = i" "ci_type (col_info s ! i) \<noteq> UNKNOWN"
    "ci_pos (col_info s ! i) = (if ci_type (col_info s ! i) = KSTR then str_count (take i (col_info s)) else fixed_sum (take i (col_info s)))"
  using schema_okD(1)[OF assms] by (auto simp: col_ok_def Let_def)

lemma get_column_id_name:
  assumes "schema_ok s" "i < length (col_info s)"
  shows "get_column_id (ci_name (col_info s ! i)) s = int i"
proof -
  have "map_of (zip (map ci_name (col_info s)) [0..<length (col_info s)]) (map ci_name (col_info s) ! i) = Some ([0..<length (col_info s)] ! i)"
    using assms schema_okD(3)[OF assms(1)] by (intro map_of_zip_nth) simp_all
  then show ?thesis
    using assms schema_okD(2)[OF assms(1)] by (simp add: get_column_id_def)
qed

text \<open>C34: In every schema a program can build, the fixed-size columns occupy disjoint byte ranges inside the
  fixed part, the string columns have different numbers below the number of strings, every column is
  found under its name, and every key column is a visible indexed column.\<close>

theorem schema_layout:
  assumes "schema_run as schema_new = Some s"
  shows "(\<forall>i j. i < j \<and> j < length (col_info s) \<longrightarrow>
      (let a = col_info s ! i; b = col_info s ! j in
        (ci_type a \<noteq> KSTR \<and> ci_type b \<noteq> KSTR \<longrightarrow> ci_pos a + fixed_size (ci_type a) \<le> ci_pos b)
        \<and> (ci_type a = KSTR \<and> ci_type b = KSTR \<longrightarrow> ci_pos a < ci_pos b)))
    \<and> (\<forall>i < length (col_info s). let c = col_info s ! i in
        (if ci_type c = KSTR then ci_pos c < var_size_cols s else ci_pos c + fixed_size (ci_type c) \<le> fixed_part_size s)
        \<and> get_column_id (ci_name c) s = int i)
    \<and> (\<forall>i \<in> set (key_cols_id s). i < columns_count s \<and> ci_indexed (col_info s ! i))"
proof -
  have ok: "schema_ok s"
    using schema_run_ok[OF schema_ok_new assms] .
  note D = schema_okD[OF ok] and pos = schema_pos[OF ok] and mono = sums_take_mono[of _ _ "col_info s"]
  have "let a = col_info s ! i; b = col_info s ! j in
        (ci_type a \<noteq> KSTR \<and> ci_type b \<noteq> KSTR \<longrightarrow> ci_pos a + fixed_size (ci_type a) \<le> ci_pos b)
        \<and> (ci_type a = KSTR \<and> ci_type b = KSTR \<longrightarrow> ci_pos a < ci_pos b)"
    if "i < j" "j < length (col_info s)" for i j
    using pos(3)[of i] pos(3)[of j] mono[of i j] that by (simp add: Let_def)
  moreover have "let c = col_info s ! i in
        (if ci_type c = KSTR then ci_pos c < var_size_cols s else ci_pos c + fixed_size (ci_type c) \<le> fixed_part_size s)
        \<and> get_column_id (ci_name c) s = int i" if "i < length (col_info s)" for i
    using pos(3)[of i] mono[of i "length (col_info s)"] that D(4,5) get_column_id_name[OF ok that] by (simp add: Let_def)
  ultimately show ?thesis
    using D(8,10) by blast
qed

theorem schema_layout_witness:
  "\<exists>s. schema_run [AddColumn ''k'' I32 True, AddColumn ''n'' KSTR False, AddColumn ''v'' I64 False, FreezeSchema] schema_new = Some s
     \<and> map ci_pos (col_info s) = [0, 0, 4, 12] \<and> get_column_id ''v'' s = 2"
proof -
  obtain s where s: "schema_run [AddColumn ''k'' I32 True, AddColumn ''n'' KSTR False, AddColumn ''v'' I64 False, FreezeSchema] schema_new = Some s"
      "map ci_pos (col_info s) = [0, 0, 4, 12]" "length (col_info s) = 4" "ci_name (col_info s ! 2) = ''v''"
    by (auto simp: add_column_def do_add_column_def schema_new_def indexed_freeze_def add_hidden_column_def schema_freeze_def
        verify_simps Let_def)
  then have "get_column_id (ci_name (col_info s ! 2)) s = int 2"
    using conjunct1[OF conjunct2[OF schema_layout[OF s(1)]], rule_format, of 2] by (simp add: Let_def)
  then show ?thesis
    using s by simp
qed

end
