(* ===== verification/MemRow.thy ===== *)
theory MemRow
  imports MemSchema
begin

text \<open>
  \<open>memdb/row.h\<close> and \<open>memdb/row.cc\<close>: the binary layout of rows. A row keeps the columns of fixed size
  in one buffer and its strings either densely, one after the other with a table of their ends, or
  sparsely, each on its own. The pointer to the schema is the number \<open>row_sid\<close> of the schema object; its
  contents are an argument of the functions. Accesses outside the buffers are undefined and stop.
\<close>

datatype var_part =
    Dense "byte list" "nat list"
  | Sparse "byte list list"

record row =
  fixed_part :: "byte list"
  var_part :: var_part
  row_tbl :: "nat option"
  rdonly :: bool
  row_sid :: nat

subsection \<open>Reading\<close>

definition slice :: "nat \<Rightarrow> nat \<Rightarrow> 'a list \<Rightarrow> 'a list" where
  "slice off len xs = take len (drop off xs)"

definition dense_range :: "nat \<Rightarrow> nat list \<Rightarrow> nat \<times> nat" where
  "dense_range i idx = (let start = (if i = 0 then 0 else idx ! (i - 1)) in (start, idx ! i - start))"

definition get_blob :: "'a schema_scheme \<Rightarrow> nat \<Rightarrow> row \<Rightarrow> byte list option" where
  "get_blob s i r = do {
     info \<leftarrow> get_column_info i s;
     let p = ci_pos info;
     case ci_type info of
       KSTR \<Rightarrow> (case var_part r of
         Dense part idx \<Rightarrow> do {
           verify (p < length idx);
           let (start, len) = dense_range p idx;
           verify (start + len \<le> length part);
           Some (slice start len part)
         }
       | Sparse strs \<Rightarrow> do { verify (p < length strs); Some (strs ! p) })
     | UNKNOWN \<Rightarrow> None
     | k \<Rightarrow> do {
         verify (p + fixed_size k \<le> length (fixed_part r));
         Some (slice p (fixed_size k) (fixed_part r))
       }
   }"

definition get_column :: "'a schema_scheme \<Rightarrow> nat \<Rightarrow> row \<Rightarrow> mvalue option" where
  "get_column s i r = do {
     info \<leftarrow> get_column_info i s;
     b \<leftarrow> get_blob s i r;
     read_binary (ci_type info) b
   }"

definition get_key :: "'a schema_scheme \<Rightarrow> row \<Rightarrow> byte list list option" where
  "get_key s r = those (map (\<lambda>i. get_blob s i r) (key_cols_id s))"

text \<open>The pointer a blob is: the keys of a table are such pointers into the rows. Converting a row to the
  sparse form frees the buffer of its strings, after which a pointer into it must not be used.\<close>

datatype blob_ref = FixedRef nat nat | DenseRef nat nat | SparseRef nat

definition get_blob_ref :: "'a schema_scheme \<Rightarrow> nat \<Rightarrow> row \<Rightarrow> blob_ref option" where
  "get_blob_ref s i r = do {
     info \<leftarrow> get_column_info i s;
     let p = ci_pos info;
     case ci_type info of
       KSTR \<Rightarrow> (case var_part r of
         Dense part idx \<Rightarrow> do { verify (p < length idx); Some (case dense_range p idx of (start, len) \<Rightarrow> DenseRef start len) }
       | Sparse strs \<Rightarrow> do { verify (p < length strs); Some (SparseRef p) })
     | UNKNOWN \<Rightarrow> None
     | k \<Rightarrow> Some (FixedRef p (fixed_size k))
   }"

fun deref_blob :: "row \<Rightarrow> blob_ref \<Rightarrow> byte list option" where
  "deref_blob r (FixedRef p n) = (if p + n \<le> length (fixed_part r) then Some (slice p n (fixed_part r)) else None)"
| "deref_blob r (DenseRef p n) = (case var_part r of
     Dense part idx \<Rightarrow> if p + n \<le> length part then Some (slice p n part) else None
   | Sparse strs \<Rightarrow> None)"
| "deref_blob r (SparseRef i) = (case var_part r of
     Dense part idx \<Rightarrow> None
   | Sparse strs \<Rightarrow> if i < length strs then Some (strs ! i) else None)"

subsection \<open>Creating\<close>

text \<open>The first pass: the bytes of the fixed part, in the order of the values.\<close>

fun create_fixed :: "mvalue list \<Rightarrow> byte list option" where
  "create_fixed [] = Some []"
| "create_fixed (v # vs) = do {
     b \<leftarrow> value_bytes v;
     bs \<leftarrow> create_fixed vs;
     Some (if get_kind v = KSTR then bs else b @ bs)
   }"

text \<open>The second pass: the strings and their ends, from position \<open>pos\<close> on.\<close>

fun create_var :: "nat \<Rightarrow> mvalue list \<Rightarrow> byte list \<times> nat list" where
  "create_var pos [] = ([], [])"
| "create_var pos (VStr b # vs) = (case create_var (pos + length b) vs of (part, idx) \<Rightarrow> (b @ part, (pos + length b) # idx))"
| "create_var pos (v # vs) = create_var pos vs"

text \<open>Hidden string columns are empty: their end is the end of the string before them, if there is one.\<close>

fun extend_idx :: "nat \<Rightarrow> nat list \<Rightarrow> nat list option" where
  "extend_idx 0 idx = Some idx"
| "extend_idx (Suc n) idx = do { verify (idx \<noteq> []); extend_idx n (idx @ [last idx]) }"

definition row_create :: "nat \<Rightarrow> 'a schema_scheme \<Rightarrow> mvalue list \<Rightarrow> row option" where
  "row_create sid s values = do {
     fixed \<leftarrow> create_fixed values;
     let hidden = drop (length values) (col_info s);
     verify (length fixed + fixed_sum hidden = fixed_part_size s);
     let fixed' = fixed @ replicate (fixed_sum hidden) 0;
     var \<leftarrow> (if var_size_cols s > 0
            then (case create_var 0 values of (part, idx) \<Rightarrow> do {
              idx' \<leftarrow> extend_idx (str_count hidden) idx;
              verify (length idx' = var_size_cols s);
              Some (Dense part idx')
            })
            else Some (Dense [] []));
     Some \<lparr>fixed_part = fixed', var_part = var, row_tbl = None, rdonly = False, row_sid = sid\<rparr>
   }"

text \<open>\<open>create(schema, values)\<close> with a sequence of values, and with a map from names to values.\<close>

definition row_create_list :: "nat \<Rightarrow> 'a schema_scheme \<Rightarrow> mvalue list \<Rightarrow> row option" where
  "row_create_list sid s values = do {
     verify (length values = columns_count s);
     row_create sid s values
   }"

fun fill_values :: "'a schema_scheme \<Rightarrow> (string \<times> mvalue) list \<Rightarrow> mvalue option list \<Rightarrow> mvalue option list option" where
  "fill_values s [] ptrs = Some ptrs"
| "fill_values s ((n, v) # nvs) ptrs = (let i = get_column_id n s in do {
     verify (i \<ge> 0);
     verify (nat i < length ptrs);
     fill_values s nvs (ptrs[nat i := Some v])
   })"

definition row_create_map :: "nat \<Rightarrow> 'a schema_scheme \<Rightarrow> (string \<times> mvalue) list \<Rightarrow> row option" where
  "row_create_map sid s values = do {
     verify (length values = columns_count s);
     ptrs \<leftarrow> fill_values s values (replicate (length values) None);
     vs \<leftarrow> those ptrs;
     row_create sid s vs
   }"

subsection \<open>Changing\<close>

definition dense_slices :: "nat \<Rightarrow> byte list \<Rightarrow> nat list \<Rightarrow> byte list list" where
  "dense_slices n part idx = map (\<lambda>i. case dense_range i idx of (start, len) \<Rightarrow> slice start len part) [0..<n]"

definition make_sparse :: "'a schema_scheme \<Rightarrow> row \<Rightarrow> row" where
  "make_sparse s r = (case var_part r of
     Sparse strs \<Rightarrow> r
   | Dense part idx \<Rightarrow> r\<lparr>var_part := Sparse (dense_slices (var_size_cols s) part idx)\<rparr>)"

definition overwrite :: "nat \<Rightarrow> 'a list \<Rightarrow> 'a list \<Rightarrow> 'a list" where
  "overwrite off bs xs = take off xs @ bs @ drop (off + length bs) xs"

text \<open>The two parts of \<open>update\<close>: the test whether the column already holds the value, which also checks its
  kind, and the write itself. What happens to the row's table in between is part of the table model.\<close>

definition update_same :: "'a schema_scheme \<Rightarrow> nat \<Rightarrow> mvalue \<Rightarrow> row \<Rightarrow> bool option" where
  "update_same s i v r = do {
     verify (\<not> rdonly r);
     info \<leftarrow> get_column_info i s;
     verify (ci_type info = get_kind v);
     b \<leftarrow> get_blob s i r;
     b' \<leftarrow> value_bytes v;
     Some (b = b')
   }"

definition update_write :: "'a schema_scheme \<Rightarrow> nat \<Rightarrow> mvalue \<Rightarrow> row \<Rightarrow> row option" where
  "update_write s i v r = do {
     info \<leftarrow> get_column_info i s;
     new \<leftarrow> value_bytes v;
     let p = ci_pos info;
     case ci_type info of
       KSTR \<Rightarrow> do {
         b \<leftarrow> get_blob s i r;
         case var_part r of
           Dense part idx \<Rightarrow>
             if length b = length new
             then Some (r\<lparr>var_part := Dense (overwrite (fst (dense_range p idx)) new part) idx\<rparr>)
             else (case var_part (make_sparse s r) of
                 Sparse strs \<Rightarrow> Some (r\<lparr>var_part := Sparse (strs[p := new])\<rparr>)
               | Dense _ _ \<Rightarrow> None)
         | Sparse strs \<Rightarrow> Some (r\<lparr>var_part := Sparse (strs[p := new])\<rparr>)
       }
     | _ \<Rightarrow> Some (r\<lparr>fixed_part := overwrite p new (fixed_part r)\<rparr>)
   }"

text \<open>\<open>update\<close> of a row that is not in a table, or of a column that is not indexed.\<close>

definition row_update :: "'a schema_scheme \<Rightarrow> nat \<Rightarrow> mvalue \<Rightarrow> row \<Rightarrow> row option" where
  "row_update s i v r = do {
     same \<leftarrow> update_same s i v r;
     if same then Some r else update_write s i v r
   }"

text \<open>\<open>copy_into\<close>: a dense writable copy outside every table.\<close>

definition row_copy :: "'a schema_scheme \<Rightarrow> row \<Rightarrow> row option" where
  "row_copy s r = do {
     verify (fixed_part_size s \<le> length (fixed_part r));
     strs \<leftarrow> those (map (\<lambda>c. get_blob s (ci_id c) r) (filter (\<lambda>c. ci_type c = KSTR) (visible_columns s)));
     let (part, idx) = create_var 0 (map VStr strs);
     Some \<lparr>fixed_part = take (fixed_part_size s) (fixed_part r), var_part = Dense part idx,
           row_tbl = None, rdonly = False, row_sid = row_sid r\<rparr>
   }"

text \<open>\<open>to_string\<close> appends the sizes and the buffers of a row: for a dense row with strings also the first
  \<open>var_size_cols\<close> bytes of the table of ends and the strings. Integers have 4 bytes.\<close>

definition row_to_string :: "'a schema_scheme \<Rightarrow> row \<Rightarrow> byte list \<Rightarrow> byte list option" where
  "row_to_string s r str = do {
     verify (fixed_part_size s \<le> length (fixed_part r));
     let hd = word_bytes 4 (word_of_nat (fixed_part_size s) :: u32) @ take (fixed_part_size s) (fixed_part r);
     case var_part r of
       Dense part idx \<Rightarrow>
         if var_size_cols s > 0
         then do {
           verify (length idx = var_size_cols s \<and> last idx \<le> length part);
           Some (str @ hd @ word_bytes 4 (0 :: u32)
             @ take (var_size_cols s) (concat (map (\<lambda>e. word_bytes 4 (word_of_nat e :: u32)) idx))
             @ take (last idx) part)
         }
         else Some (str @ hd @ word_bytes 4 (0 :: u32))
     | Sparse strs \<Rightarrow> Some (str @ hd @ word_bytes 4 (1 :: u32))
   }"

subsection \<open>Buffers\<close>

lemma slice_concat:
  assumes "i < length xss"
  shows "slice (length (concat (take i xss))) (length (xss ! i)) (concat xss @ ys) = xss ! i"
proof -
  have "concat xss = concat (take i xss) @ xss ! i @ concat (drop (Suc i) xss)"
    using assms by (metis concat.simps(2) concat_append id_take_nth_drop)
  then show ?thesis
    by (simp add: slice_def)
qed

lemma slice_overwrite_same: "p + length bs \<le> length xs \<Longrightarrow> slice p (length bs) (overwrite p bs xs) = bs"
  by (simp add: slice_def overwrite_def)

lemma length_overwrite [simp]: "p + length bs \<le> length xs \<Longrightarrow> length (overwrite p bs xs) = length xs"
  by (simp add: overwrite_def)

lemma slice_overwrite_other:
  assumes "p + length bs \<le> length xs" "off + len \<le> p \<or> p + length bs \<le> off"
  shows "slice off len (overwrite p bs xs) = slice off len xs"
  using assms(2)
proof
  assume "off + len \<le> p"
  then show ?thesis
    using assms(1) by (simp add: slice_def overwrite_def take_drop add.commute)
next
  assume "p + length bs \<le> off"
  then show ?thesis
    using assms(1) by (simp add: slice_def overwrite_def drop_drop)
qed

lemma length_slice: "off + len \<le> length xs \<Longrightarrow> length (slice off len xs) = len"
  by (simp add: slice_def)

lemma slice_append1: "off + len \<le> length xs \<Longrightarrow> slice off len (xs @ ys) = slice off len xs"
  by (simp add: slice_def)

lemma dense_range_bounds:
  assumes "sorted idx" "i < length idx" "\<forall>e \<in> set idx. e \<le> m"
  shows "fst (dense_range i idx) + snd (dense_range i idx) = idx ! i" "idx ! i \<le> m"
    and "j < i \<Longrightarrow> idx ! j \<le> fst (dense_range i idx)"
proof -
  have mono: "a \<le> b \<Longrightarrow> b < length idx \<Longrightarrow> idx ! a \<le> idx ! b" for a b
    using assms(1) sorted_nth_mono by blast
  show "fst (dense_range i idx) + snd (dense_range i idx) = idx ! i"
    using mono[of "i - 1" i] assms(2) by (auto simp: dense_range_def Let_def)
  show "idx ! i \<le> m"
    using assms(2,3) by simp
  show "idx ! j \<le> fst (dense_range i idx)" if "j < i"
    using that mono[of j "i - 1"] assms(2) by (auto simp: dense_range_def Let_def)
qed

lemma length_dense_slices [simp]: "length (dense_slices n part idx) = n"
  by (simp add: dense_slices_def)

lemma nth_dense_slices:
  "i < n \<Longrightarrow> dense_slices n part idx ! i = slice (fst (dense_range i idx)) (snd (dense_range i idx)) part"
  by (simp add: dense_slices_def split_beta)

lemma dense_slices_overwrite:
  assumes "sorted idx" "\<forall>e \<in> set idx. e \<le> length part" "p < length idx" "length new = snd (dense_range p idx)" "n = length idx"
  shows "dense_slices n (overwrite (fst (dense_range p idx)) new part) idx = (dense_slices n part idx)[p := new]"
proof (rule nth_equalityI)
  fix i
  assume "i < length (dense_slices n (overwrite (fst (dense_range p idx)) new part) idx)"
  then have i: "i < length idx"
    using assms(5) by simp
  note bp = dense_range_bounds[OF assms(1) assms(3) assms(2)] and bi = dense_range_bounds[OF assms(1) i assms(2)]
  have fit: "fst (dense_range p idx) + length new \<le> length part"
    using bp assms(4) by simp
  have "slice (fst (dense_range i idx)) (snd (dense_range i idx)) (overwrite (fst (dense_range p idx)) new part)
      = (if i = p then new else slice (fst (dense_range i idx)) (snd (dense_range i idx)) part)"
  proof (cases "i = p")
    case True
    then show ?thesis
      using slice_overwrite_same[OF fit] assms(4) by simp
  next
    case False
    then have "fst (dense_range i idx) + snd (dense_range i idx) \<le> fst (dense_range p idx)
        \<or> fst (dense_range p idx) + length new \<le> fst (dense_range i idx)"
      using bp(1) bp(3)[of i] bi(1) bi(3)[of p] assms(4) by (cases "i < p") auto
    then show ?thesis
      using slice_overwrite_other[OF fit] False by simp
  qed
  then show "dense_slices n (overwrite (fst (dense_range p idx)) new part) idx ! i = (dense_slices n part idx)[p := new] ! i"
    using i assms(5) by (auto simp: nth_dense_slices nth_list_update)
qed simp

subsection \<open>The columns of a row\<close>

definition row_ok :: "'a schema_scheme \<Rightarrow> row \<Rightarrow> bool" where
  "row_ok s r \<longleftrightarrow> length (fixed_part r) = fixed_part_size s
     \<and> (case var_part r of
          Dense part idx \<Rightarrow> length idx = var_size_cols s \<and> sorted idx \<and> (\<forall>e \<in> set idx. e \<le> length part)
        | Sparse strs \<Rightarrow> length strs = var_size_cols s)"

definition row_strs :: "'a schema_scheme \<Rightarrow> row \<Rightarrow> byte list list" where
  "row_strs s r = (case var_part r of Dense part idx \<Rightarrow> dense_slices (var_size_cols s) part idx | Sparse strs \<Rightarrow> strs)"

definition col_bytes :: "'a schema_scheme \<Rightarrow> row \<Rightarrow> nat \<Rightarrow> byte list" where
  "col_bytes s r i = (let c = col_info s ! i in
     if ci_type c = KSTR then row_strs s r ! ci_pos c else slice (ci_pos c) (fixed_size (ci_type c)) (fixed_part r))"

lemma length_row_strs: "row_ok s r \<Longrightarrow> length (row_strs s r) = var_size_cols s"
  by (auto simp: row_ok_def row_strs_def split: var_part.splits)

lemma schema_pos_bounds:
  assumes "schema_ok s" "i < length (col_info s)"
  shows "ci_type (col_info s ! i) = KSTR \<Longrightarrow> ci_pos (col_info s ! i) < var_size_cols s"
    and "ci_type (col_info s ! i) \<noteq> KSTR \<Longrightarrow> ci_pos (col_info s ! i) + fixed_size (ci_type (col_info s ! i)) \<le> fixed_part_size s"
  using schema_pos(3)[OF assms] sums_take_mono[of i "length (col_info s)" "col_info s"] assms schema_okD(4,5)[OF assms(1)]
  by simp_all

lemma get_blob_ok:
  assumes "schema_ok s" "row_ok s r" "i < length (col_info s)"
  shows "get_blob s i r = Some (col_bytes s r i)"
proof -
  let ?c = "col_info s ! i"
  note b = schema_pos_bounds[OF assms(1,3)]
  have ty: "ci_type ?c \<noteq> UNKNOWN"
    using schema_pos(2)[OF assms(1,3)] .
  show ?thesis
  proof (cases "ci_type ?c = KSTR")
    case False
    then show ?thesis
      using b ty assms(2,3) by (cases "ci_type ?c") (auto simp: get_blob_def get_column_info_def col_bytes_def row_ok_def verify_simps)
  next
    case True
    show ?thesis
    proof (cases "var_part r")
      case (Dense part idx)
      then have idx: "length idx = var_size_cols s" "sorted idx" "\<forall>e \<in> set idx. e \<le> length part"
        using assms(2) by (auto simp: row_ok_def)
      then have p: "ci_pos ?c < length idx"
        using b(1) True by simp
      show ?thesis
        using dense_range_bounds[OF idx(2) p idx(3)] True Dense p assms(3) idx(1)
        by (simp add: get_blob_def get_column_info_def col_bytes_def row_strs_def verify_simps nth_dense_slices split_beta Let_def)
    next
      case (Sparse strs)
      then show ?thesis
        using True b(1) assms(2,3) by (simp add: get_blob_def get_column_info_def col_bytes_def row_strs_def row_ok_def verify_simps)
    qed
  qed
qed

lemma get_column_ok:
  assumes "schema_ok s" "row_ok s r" "i < length (col_info s)"
  shows "get_column s i r = read_binary (ci_type (col_info s ! i)) (col_bytes s r i)"
  using get_blob_ok[OF assms] assms(3) by (simp add: get_column_def get_column_info_def)

subsection \<open>Updates change one column\<close>

lemma make_sparse_ok:
  assumes "row_ok s r"
  shows "row_ok s (make_sparse s r)" "row_strs s (make_sparse s r) = row_strs s r" "fixed_part (make_sparse s r) = fixed_part r"
  using assms by (auto simp: make_sparse_def row_ok_def row_strs_def split: var_part.splits)

lemma col_bytes_eqI:
  assumes "row_strs s r' = row_strs s r" "fixed_part r' = fixed_part r"
  shows "col_bytes s r' = col_bytes s r"
  using assms by (simp add: col_bytes_def Let_def fun_eq_iff)

text \<open>A write into the fixed part and a write to a string.\<close>

lemma col_bytes_fixed:
  assumes "schema_ok s" "i < length (col_info s)" "j < length (col_info s)" "ci_type (col_info s ! i) \<noteq> KSTR"
    and "length new = fixed_size (ci_type (col_info s ! i))" "row_ok s r"
    and "r' = r\<lparr>fixed_part := overwrite (ci_pos (col_info s ! i)) new (fixed_part r)\<rparr>"
  shows "col_bytes s r' j = (if j = i then new else col_bytes s r j)"
proof -
  let ?c = "col_info s ! i" and ?d = "col_info s ! j"
  have fit: "ci_pos ?c + length new \<le> length (fixed_part r)"
    using schema_pos_bounds(2)[OF assms(1,2,4)] assms(5,6) by (simp add: row_ok_def)
  have strs: "row_strs s r' = row_strs s r"
    using assms(7) by (simp add: row_strs_def)
  show ?thesis
  proof (cases "ci_type ?d = KSTR \<or> j = i")
    case True
    then show ?thesis
      using slice_overwrite_same[OF fit] strs assms(4,5,7) by (auto simp: col_bytes_def Let_def)
  next
    case False
    then have d: "ci_type ?d \<noteq> KSTR" "j \<noteq> i"
      by simp_all
    have "ci_pos ?d + fixed_size (ci_type ?d) \<le> ci_pos ?c \<or> ci_pos ?c + length new \<le> ci_pos ?d"
    proof (cases "j < i")
      case True
      then show ?thesis
        using sums_take_mono(1)[of j i "col_info s"] schema_pos(3)[OF assms(1,2)] schema_pos(3)[OF assms(1,3)] assms(2,4) d(1) by simp
    next
      case False
      then show ?thesis
        using sums_take_mono(1)[of i j "col_info s"] schema_pos(3)[OF assms(1,2)] schema_pos(3)[OF assms(1,3)] assms(3,4,5) d by simp
    qed
    then show ?thesis
      using slice_overwrite_other[OF fit] d assms(7) by (simp add: col_bytes_def Let_def)
  qed
qed

lemma col_bytes_str:
  assumes "schema_ok s" "i < length (col_info s)" "j < length (col_info s)" "ci_type (col_info s ! i) = KSTR" "row_ok s r"
    and "row_strs s r' = (row_strs s r)[ci_pos (col_info s ! i) := new]" "fixed_part r' = fixed_part r"
  shows "col_bytes s r' j = (if j = i then new else col_bytes s r j)"
proof -
  let ?c = "col_info s ! i" and ?d = "col_info s ! j"
  have p: "ci_pos ?c < length (row_strs s r)"
    using schema_pos_bounds(1)[OF assms(1,2,4)] length_row_strs[OF assms(5)] by simp
  have "ci_pos ?d \<noteq> ci_pos ?c" if "ci_type ?d = KSTR" "j \<noteq> i"
    using sums_take_mono(2)[of j i "col_info s"] sums_take_mono(2)[of i j "col_info s"] schema_pos(3)[OF assms(1,2)]
      schema_pos(3)[OF assms(1,3)] that assms(2,3,4) by (cases "j < i") simp_all
  then show ?thesis
    using p assms(4,6,7) by (auto simp: col_bytes_def Let_def)
qed

lemma update_write_ok:
  assumes "schema_ok s" "row_ok s r" "i < length (col_info s)" "get_kind v = ci_type (col_info s ! i)" "value_bytes v = Some new"
  shows "\<exists>r'. update_write s i v r = Some r' \<and> row_ok s r' \<and> row_tbl r' = row_tbl r \<and> rdonly r' = rdonly r \<and> row_sid r' = row_sid r
    \<and> (\<forall>j < length (col_info s). col_bytes s r' j = (if j = i then new else col_bytes s r j))"
proof (cases "ci_type (col_info s ! i) = KSTR")
  case False
  let ?c = "col_info s ! i"
  let ?r = "r\<lparr>fixed_part := overwrite (ci_pos ?c) new (fixed_part r)\<rparr>"
  have len: "length new = fixed_size (ci_type ?c)"
    using length_value_bytes[OF assms(5)] assms(4) False by simp
  have "row_ok s ?r"
    using schema_pos_bounds(2)[OF assms(1,3) False] assms(2) len by (simp add: row_ok_def)
  moreover have "update_write s i v r = Some ?r"
    using assms(3,5) False by (auto simp: update_write_def get_column_info_def Let_def split: kind.splits)
  ultimately show ?thesis
    using col_bytes_fixed[OF assms(1,3) _ False len assms(2) refl] by auto
next
  case True
  let ?p = "ci_pos (col_info s ! i)"
  have p: "?p < var_size_cols s"
    using schema_pos_bounds(1)[OF assms(1,3) True] .
  note blob = get_blob_ok[OF assms(1-3)] and strs = length_row_strs[OF assms(2)]
  have "\<exists>var. update_write s i v r = Some (r\<lparr>var_part := var\<rparr>) \<and> row_ok s (r\<lparr>var_part := var\<rparr>)
      \<and> row_strs s (r\<lparr>var_part := var\<rparr>) = (row_strs s r)[?p := new]"
  proof (cases "var_part r")
    case (Sparse str)
    then show ?thesis
      using assms(2,3,5) True blob
      by (intro exI[of _ "Sparse (str[?p := new])"]) (simp add: update_write_def get_column_info_def row_ok_def row_strs_def)
  next
    case (Dense part idx)
    then have idx: "length idx = var_size_cols s" "sorted idx" "\<forall>e \<in> set idx. e \<le> length part"
      using assms(2) by (auto simp: row_ok_def)
    have b: "col_bytes s r i = slice (fst (dense_range ?p idx)) (snd (dense_range ?p idx)) part"
      using True Dense p idx(1) by (simp add: col_bytes_def row_strs_def nth_dense_slices Let_def)
    have pl: "?p < length idx"
      using p idx(1) by simp
    note rg = dense_range_bounds[OF idx(2) pl idx(3)]
    have fit: "fst (dense_range ?p idx) + snd (dense_range ?p idx) \<le> length part"
      unfolding rg(1) by (rule rg(2))
    have len: "length (col_bytes s r i) = snd (dense_range ?p idx)"
      unfolding b by (rule length_slice[OF fit])
    show ?thesis
    proof (cases "length (col_bytes s r i) = length new")
      case same: True
      then have new: "length new = snd (dense_range ?p idx)"
        using len by simp
      have "row_strs s (r\<lparr>var_part := Dense (overwrite (fst (dense_range ?p idx)) new part) idx\<rparr>) = (row_strs s r)[?p := new]"
        using dense_slices_overwrite[OF idx(2,3) pl new idx(1)[symmetric]] Dense by (simp add: row_strs_def)
      moreover have "row_ok s (r\<lparr>var_part := Dense (overwrite (fst (dense_range ?p idx)) new part) idx\<rparr>)"
        using fit idx assms(2) by (simp add: row_ok_def new)
      ultimately show ?thesis
        using Dense same assms(3,5) True blob
        by (intro exI[of _ "Dense (overwrite (fst (dense_range ?p idx)) new part) idx"])
          (simp add: update_write_def get_column_info_def)
    next
      case False
      then show ?thesis
        using Dense assms(2,3,5) True blob
        by (intro exI[of _ "Sparse ((dense_slices (var_size_cols s) part idx)[?p := new])"])
          (simp add: update_write_def get_column_info_def make_sparse_def row_ok_def row_strs_def)
    qed
  qed
  then obtain var where "update_write s i v r = Some (r\<lparr>var_part := var\<rparr>)" "row_ok s (r\<lparr>var_part := var\<rparr>)"
      "row_strs s (r\<lparr>var_part := var\<rparr>) = (row_strs s r)[?p := new]"
    by blast
  then show ?thesis
    using col_bytes_str[OF assms(1,3) _ True assms(2)] by simp
qed

subsection \<open>Created rows\<close>

definition str_values :: "mvalue list \<Rightarrow> byte list list" where
  "str_values vs = List.map_filter get_str vs"

lemma str_values_simps [simp]:
  "str_values [] = []" "str_values (VStr b # vs) = b # str_values vs" "get_kind v \<noteq> KSTR \<Longrightarrow> str_values (v # vs) = str_values vs"
  "str_values (vs @ ws) = str_values vs @ str_values ws"
proof -
  show "str_values [] = []" "str_values (VStr b # vs) = b # str_values vs"
    by (simp_all add: str_values_def map_filter_simps)
  show "get_kind v \<noteq> KSTR \<Longrightarrow> str_values (v # vs) = str_values vs"
    by (cases v) (simp_all add: str_values_def map_filter_simps)
  show "str_values (vs @ ws) = str_values vs @ str_values ws"
    by (simp add: str_values_def List.map_filter_def)
qed

lemma create_var_eq:
  "create_var pos vs = (concat (str_values vs), map (\<lambda>i. pos + length (concat (take (Suc i) (str_values vs)))) [0..<length (str_values vs)])"
proof (induction pos vs rule: create_var.induct)
  case (2 pos b vs)
  have "[0..<Suc (length (str_values vs))] = 0 # map Suc [0..<length (str_values vs)]"
    by (simp add: upt_conv_Cons map_Suc_upt del: upt_Suc)
  then show ?case
    using 2 by (simp add: comp_def add.assoc del: upt_Suc)
qed simp_all

definition prefix_ends :: "byte list list \<Rightarrow> nat list" where
  "prefix_ends bs = map (\<lambda>i. length (concat (take (Suc i) bs))) [0..<length bs]"

lemma create_var_0: "create_var 0 vs = (concat (str_values vs), prefix_ends (str_values vs))"
  by (simp add: create_var_eq prefix_ends_def)

lemma length_concat_take_mono: "i \<le> j \<Longrightarrow> length (concat (take i xs)) \<le> length (concat (take j xs))"
  by (metis concat_append le_add1 length_append le_add_diff_inverse take_add)

lemma prefix_ends_ok:
  "length (prefix_ends bs) = length bs" "sorted (prefix_ends bs)" "\<forall>e \<in> set (prefix_ends bs). e \<le> length (concat bs)"
  "i < length bs \<Longrightarrow> dense_range i (prefix_ends bs) = (length (concat (take i bs)), length (bs ! i))"
proof -
  show "length (prefix_ends bs) = length bs" "sorted (prefix_ends bs)"
    by (auto simp: prefix_ends_def sorted_iff_nth_mono length_concat_take_mono simp del: take_Suc)
  show "\<forall>e \<in> set (prefix_ends bs). e \<le> length (concat bs)"
    using length_concat_take_mono[of _ "length bs" bs] by (fastforce simp: prefix_ends_def)
  show "dense_range i (prefix_ends bs) = (length (concat (take i bs)), length (bs ! i))" if "i < length bs"
    using that by (auto simp: dense_range_def prefix_ends_def take_Suc_conv_app_nth Let_def)
qed

lemma dense_slices_prefix: "dense_slices (length bs) (concat bs) (prefix_ends bs) = bs"
  by (rule nth_equalityI) (auto simp: nth_dense_slices prefix_ends_ok slice_concat[of _ bs "[]", simplified])

text \<open>The bytes of the fixed part when the kinds are those of the columns.\<close>

definition fixed_bytes :: "mvalue \<Rightarrow> byte list" where
  "fixed_bytes v = (if get_kind v = KSTR then [] else case value_bytes v of Some b \<Rightarrow> b | None \<Rightarrow> [])"

lemma create_fixed_eq:
  assumes "\<forall>v \<in> set vs. get_kind v \<noteq> UNKNOWN"
  shows "create_fixed vs = Some (concat (map fixed_bytes vs))"
  using assms
proof (induction vs)
  case (Cons v vs)
  then show ?case
    by (cases v) (auto simp: fixed_bytes_def)
qed simp

lemma length_fixed_bytes [simp]: "length (fixed_bytes v) = fixed_size (get_kind v)"
  by (cases v) (auto simp: fixed_bytes_def)

lemma length_concat_fixed: "length (concat (map fixed_bytes vs)) = sum_list (map fixed_size (map get_kind vs))"
  by (induction vs) simp_all

lemma length_str_values: "length (str_values vs) = length (filter (\<lambda>k. k = KSTR) (map get_kind vs))"
proof (induction vs)
  case (Cons v vs)
  then show ?case by (cases v) auto
qed simp

lemma nth_str_values:
  assumes "i < length vs" "vs ! i = VStr b"
  shows "str_values vs ! length (str_values (take i vs)) = b"
proof -
  have "vs = take i vs @ VStr b # drop (Suc i) vs"
    using assms by (metis id_take_nth_drop)
  then have "str_values vs = str_values (take i vs) @ b # str_values (drop (Suc i) vs)"
    by (metis str_values_simps(2,4))
  then show ?thesis
    by simp
qed

definition kinds_match :: "'a schema_scheme \<Rightarrow> mvalue list \<Rightarrow> bool" where
  "kinds_match s vs \<longleftrightarrow> length vs \<le> length (col_info s) \<and> (\<forall>i < length vs. get_kind (vs ! i) = ci_type (col_info s ! i))"

lemma kinds_match_take:
  assumes "kinds_match s vs" "i \<le> length vs"
  shows "map get_kind (take i vs) = map ci_type (take i (col_info s))"
  using assms by (intro nth_equalityI) (auto simp: kinds_match_def)

lemma kinds_match_sums:
  assumes "kinds_match s vs" "i \<le> length vs"
  shows "fixed_sum (take i (col_info s)) = length (concat (take i (map fixed_bytes vs)))"
    "str_count (take i (col_info s)) = length (str_values (take i vs))"
  using kinds_match_take[OF assms] by (simp_all add: sums_by_type length_str_values take_map length_concat_fixed)

lemma row_create_shape:
  assumes "schema_ok s" "kinds_match s vs" "\<forall>i < length (col_info s). length vs \<le> i \<longrightarrow> ci_type (col_info s ! i) \<noteq> KSTR"
  shows "row_create sid s vs = Some \<lparr>fixed_part = concat (map fixed_bytes vs) @ replicate (fixed_sum (drop (length vs) (col_info s))) 0,
    var_part = Dense (concat (str_values vs)) (prefix_ends (str_values vs)), row_tbl = None, rdonly = False, row_sid = sid\<rparr>"
    "length (str_values vs) = var_size_cols s"
    "length (concat (map fixed_bytes vs)) + fixed_sum (drop (length vs) (col_info s)) = fixed_part_size s"
proof -
  let ?n = "length vs" and ?cols = "col_info s"
  note D = schema_okD[OF assms(1)] and m = kinds_match_sums[OF assms(2) order_refl]
  have n: "?n \<le> length ?cols" and kinds: "i < ?n \<Longrightarrow> get_kind (vs ! i) = ci_type (?cols ! i)" for i
    using assms(2) by (auto simp: kinds_match_def)
  have "\<forall>c \<in> set (drop ?n ?cols). ci_type c \<noteq> KSTR"
    using assms(3) by (auto simp: in_set_conv_nth)
  then have hid: "str_count (drop ?n ?cols) = 0"
    by (simp add: str_count_def filter_empty_conv)
  have split: "fixed_sum ?cols = fixed_sum (take ?n ?cols) + fixed_sum (drop ?n ?cols)"
    "str_count ?cols = str_count (take ?n ?cols) + str_count (drop ?n ?cols)"
    by (metis append_take_drop_id fixed_sum_simps(2), metis append_take_drop_id str_count_simps(2))
  show sum: "length (concat (map fixed_bytes vs)) + fixed_sum (drop ?n ?cols) = fixed_part_size s"
    using m(1) split(1) D(5) by simp
  show strs: "length (str_values vs) = var_size_cols s"
    using m(2) split(2) hid D(4) by simp
  have "get_kind v \<noteq> UNKNOWN" if "v \<in> set vs" for v
    using that kinds schema_pos(2)[OF assms(1)] n by (metis in_set_conv_nth less_le_trans)
  then have fixed: "create_fixed vs = Some (concat (map fixed_bytes vs))"
    by (intro create_fixed_eq) blast
  show "row_create sid s vs = Some \<lparr>fixed_part = concat (map fixed_bytes vs) @ replicate (fixed_sum (drop ?n ?cols)) 0,
    var_part = Dense (concat (str_values vs)) (prefix_ends (str_values vs)), row_tbl = None, rdonly = False, row_sid = sid\<rparr>"
    using sum strs hid fixed by (auto simp: row_create_def create_var_0 verify_simps Let_def prefix_ends_ok prefix_ends_def)
qed

lemma row_create_ok:
  assumes "schema_ok s" "kinds_match s vs" "\<forall>i < length (col_info s). length vs \<le> i \<longrightarrow> ci_type (col_info s ! i) \<noteq> KSTR"
  shows "\<exists>r. row_create sid s vs = Some r \<and> row_ok s r \<and> row_tbl r = None \<and> \<not> rdonly r \<and> row_sid r = sid
    \<and> (\<forall>i < length vs. value_bytes (vs ! i) = Some (col_bytes s r i))
    \<and> (\<forall>i < length (col_info s). length vs \<le> i \<longrightarrow> col_bytes s r i = replicate (fixed_size (ci_type (col_info s ! i))) 0)"
proof -
  note sh = row_create_shape[OF assms]
  let ?f = "concat (map fixed_bytes vs)" and ?h = "fixed_sum (drop (length vs) (col_info s))"
  define r where "r = \<lparr>fixed_part = ?f @ replicate ?h 0, var_part = Dense (concat (str_values vs)) (prefix_ends (str_values vs)),
    row_tbl = None, rdonly = False, row_sid = sid\<rparr>"
  have strs: "row_strs s r = str_values vs"
    using sh(2) dense_slices_prefix[of "str_values vs"] by (simp add: r_def row_strs_def)
  have "row_ok s r"
    using sh(2,3) by (simp add: r_def row_ok_def prefix_ends_ok)
  moreover have "value_bytes (vs ! i) = Some (col_bytes s r i)" if i: "i < length vs" for i
  proof -
    have il: "i < length (col_info s)" and k: "get_kind (vs ! i) = ci_type (col_info s ! i)"
      using assms(2) i by (auto simp: kinds_match_def)
    note pos = schema_pos[OF assms(1) il] and m = kinds_match_sums[OF assms(2), of i]
    show ?thesis
    proof (cases "vs ! i")
      case (VStr b)
      then show ?thesis
        using nth_str_values[OF i VStr] pos m(2) i k strs by (simp add: col_bytes_def Let_def)
    next
      case VUnknown
      then show ?thesis
        using pos(2) k by simp
    qed (use slice_concat[of i "map fixed_bytes vs" "replicate ?h 0"] pos m(1) i k in
        \<open>simp_all add: col_bytes_def Let_def r_def fixed_bytes_def\<close>)
  qed
  moreover have "col_bytes s r i = replicate (fixed_size (ci_type (col_info s ! i))) 0"
    if i: "i < length (col_info s)" "length vs \<le> i" for i
  proof -
    have k: "ci_type (col_info s ! i) \<noteq> KSTR"
      using assms(3) i by blast
    have "fixed_sum (take (length vs) (col_info s)) \<le> fixed_sum (take i (col_info s))"
      using sums_take_mono(1)[of "length vs" i "col_info s"] i by (cases "length vs = i") simp_all
    then have "length ?f \<le> ci_pos (col_info s ! i)"
      using schema_pos(3)[OF assms(1) i(1)] k kinds_match_sums(1)[OF assms(2) order_refl] by simp
    then show ?thesis
      using schema_pos_bounds(2)[OF assms(1) i(1) k] sh(3) k by (simp add: col_bytes_def r_def Let_def slice_def)
  qed
  ultimately show ?thesis
    using sh(1) by (intro exI[of _ r]) (simp add: r_def)
qed

subsection \<open>Rows as lists of values\<close>

definition row_columns :: "'a schema_scheme \<Rightarrow> row \<Rightarrow> mvalue option list" where
  "row_columns s r = map (\<lambda>i. get_column s i r) [0..<length (col_info s)]"

lemma row_columns_eqI:
  assumes "schema_ok s" "row_ok s r" "row_ok s r'" "\<And>i. i < length (col_info s) \<Longrightarrow> col_bytes s r' i = col_bytes s r i"
  shows "row_columns s r' = row_columns s r"
  using assms by (auto simp: row_columns_def get_column_ok)

lemma those_map_Some [simp]: "those (map Some xs) = Some xs"
  by (induction xs) simp_all

lemma str_positions:
  assumes "schema_ok s" "k \<le> length (col_info s)"
  shows "map ci_pos (filter (\<lambda>c. ci_type c = KSTR) (take k (col_info s))) = [0..<str_count (take k (col_info s))]"
  using assms(2)
proof (induction k)
  case (Suc k)
  then show ?case
    using schema_pos(3)[OF assms(1), of k] by (simp add: take_Suc_conv_app_nth)
qed simp

definition hidden_not_str :: "'a schema_scheme \<Rightarrow> bool" where
  "hidden_not_str s \<longleftrightarrow> (\<forall>i < length (col_info s). columns_count s \<le> i \<longrightarrow> ci_type (col_info s ! i) \<noteq> KSTR)"

lemma row_copy_ok:
  assumes "schema_ok s" "row_ok s r" "hidden_not_str s"
  shows "\<exists>r'. row_copy s r = Some r' \<and> row_ok s r' \<and> row_tbl r' = None \<and> \<not> rdonly r' \<and> row_sid r' = row_sid r
    \<and> row_strs s r' = row_strs s r \<and> fixed_part r' = fixed_part r"
proof -
  let ?cols = "col_info s" and ?n = "columns_count s" and ?str = "\<lambda>c. ci_type c = KSTR"
  have "\<not> ?str c" if c: "c \<in> set (drop ?n ?cols)" for c
  proof -
    obtain j where "j < length ?cols - ?n" "c = ?cols ! (?n + j)"
      using c by (auto simp: in_set_conv_nth)
    then show ?thesis
      using assms(3) by (simp add: hidden_not_str_def)
  qed
  then have "filter ?str (drop ?n ?cols) = []"
    by (simp add: filter_empty_conv)
  moreover have "filter ?str ?cols = filter ?str (take ?n ?cols) @ filter ?str (drop ?n ?cols)"
    by (simp flip: filter_append)
  ultimately have vis: "filter ?str (visible_columns s) = filter ?str ?cols"
    by (simp add: visible_columns_def)
  have blob: "get_blob s (ci_id c) r = Some (row_strs s r ! ci_pos c)" if c: "c \<in> set (filter ?str ?cols)" for c
  proof -
    obtain i where "i < length ?cols" "c = ?cols ! i" "?str c"
      using c by (auto simp: in_set_conv_nth)
    then show ?thesis
      using get_blob_ok[OF assms(1,2)] schema_pos(1)[OF assms(1)] by (simp add: col_bytes_def)
  qed
  have "map ci_pos (filter ?str ?cols) = [0..<length (row_strs s r)]"
    using str_positions[OF assms(1) order_refl] length_row_strs[OF assms(2)] schema_okD(4)[OF assms(1)] by simp
  then have "map ((!) (row_strs s r)) (map ci_pos (filter ?str ?cols)) = row_strs s r"
    by (simp only: map_nth)
  then have "map (\<lambda>c. row_strs s r ! ci_pos c) (filter ?str ?cols) = row_strs s r"
    by (simp add: comp_def)
  moreover have "map (\<lambda>c. get_blob s (ci_id c) r) (filter ?str (visible_columns s))
      = map Some (map (\<lambda>c. row_strs s r ! ci_pos c) (filter ?str ?cols))"
    unfolding vis using blob by simp
  ultimately have strs: "those (map (\<lambda>c. get_blob s (ci_id c) r) (filter ?str (visible_columns s))) = Some (row_strs s r)"
    by simp
  have vals: "str_values (map VStr xs) = xs" for xs
    by (induction xs) simp_all
  define r' where "r' = r\<lparr>var_part := Dense (concat (row_strs s r)) (prefix_ends (row_strs s r)), row_tbl := None, rdonly := False\<rparr>"
  have len: "fixed_part_size s = length (fixed_part r)" "length (row_strs s r) = var_size_cols s"
    using assms(2) length_row_strs[OF assms(2)] by (simp_all add: row_ok_def)
  then have "row_strs s r' = row_strs s r" "row_ok s r'"
    using dense_slices_prefix[of "row_strs s r"] by (simp_all add: r'_def row_strs_def[of s "r\<lparr>var_part := _, row_tbl := _, rdonly := _\<rparr>"]
        row_ok_def prefix_ends_ok)
  moreover have "row_copy s r = Some r'"
    using strs len by (cases r) (simp add: row_copy_def verify_simps create_var_0 vals r'_def)
  ultimately show ?thesis
    by (intro exI[of _ r']) (simp add: r'_def)
qed

text \<open>C33: A row created from values of the kinds of its columns returns them: every visible column reads back
  the value it was created with and every hidden column reads as zero.\<close>

theorem row_create_roundtrip:
  assumes "schema_ok s" "hidden_not_str s" "length vs = columns_count s" "kinds_match s vs"
  shows "\<exists>r. row_create_list sid s vs = Some r \<and> row_ok s r \<and> (\<forall>i < length vs. get_column s i r = Some (vs ! i))
    \<and> (\<forall>i < length (col_info s). columns_count s \<le> i \<longrightarrow>
         get_column s i r = read_binary (ci_type (col_info s ! i)) (replicate (fixed_size (ci_type (col_info s ! i))) 0))"
proof -
  have "\<forall>i < length (col_info s). length vs \<le> i \<longrightarrow> ci_type (col_info s ! i) \<noteq> KSTR"
    using assms(2,3) by (simp add: hidden_not_str_def)
  then obtain r where r: "row_create sid s vs = Some r" "row_ok s r" "\<And>i. i < length vs \<Longrightarrow> value_bytes (vs ! i) = Some (col_bytes s r i)"
      "\<And>i. i < length (col_info s) \<Longrightarrow> length vs \<le> i \<Longrightarrow> col_bytes s r i = replicate (fixed_size (ci_type (col_info s ! i))) 0"
    using row_create_ok[OF assms(1,4)] by blast
  have "get_column s i r = Some (vs ! i)" if "i < length vs" for i
    using get_column_ok[OF assms(1) r(2), of i] read_value_bytes[OF r(3)[OF that]] that assms(4) by (simp add: kinds_match_def)
  then show ?thesis
    using r(1,2,4) get_column_ok[OF assms(1) r(2)] assms(3) by (intro exI[of _ r]) (simp add: row_create_list_def verify_simps)
qed

definition demo_schema :: indexed_schema where
  "demo_schema = schema_new\<lparr>col_name_to_id := [(''k'', 0), (''n'', 1), (''v'', 2)],
     col_info := [\<lparr>ci_id = 0, ci_name = ''k'', ci_indexed = True, ci_type = I32, ci_pos = 0\<rparr>,
       \<lparr>ci_id = 1, ci_name = ''n'', ci_indexed = False, ci_type = KSTR, ci_pos = 0\<rparr>,
       \<lparr>ci_id = 2, ci_name = ''v'', ci_indexed = False, ci_type = I64, ci_pos = 4\<rparr>],
     key_cols_id := [0], var_size_cols := 1, fixed_part_size := 12\<rparr>"

lemma demo_schema_ok: "schema_ok demo_schema" "hidden_not_str demo_schema" "columns_count demo_schema = 3"
proof -
  have "schema_run [AddColumn ''k'' I32 True, AddColumn ''n'' KSTR False, AddColumn ''v'' I64 False] schema_new = Some demo_schema"
    by (simp add: add_column_def do_add_column_def schema_new_def demo_schema_def verify_simps Let_def)
  then show "schema_ok demo_schema"
    using schema_run_ok[OF schema_ok_new] by blast
  show "columns_count demo_schema = 3" "hidden_not_str demo_schema"
    by (simp_all add: columns_count_def hidden_not_str_def demo_schema_def schema_new_def)
qed

theorem row_create_roundtrip_witness:
  "\<exists>r. row_create_list 7 demo_schema [VI32 5, VStr [104, 105], VI64 9] = Some r \<and> get_column demo_schema 1 r = Some (VStr [104, 105])
     \<and> get_column demo_schema 2 r = Some (VI64 9)"
proof -
  let ?vs = "[VI32 5, VStr [104, 105], VI64 9]"
  have "kinds_match demo_schema ?vs" "length ?vs = columns_count demo_schema"
    using demo_schema_ok(3) by (simp_all add: kinds_match_def demo_schema_def schema_new_def All_less_Suc)
  then obtain r where "row_create_list 7 demo_schema ?vs = Some r" "\<forall>i < length ?vs. get_column demo_schema i r = Some (?vs ! i)"
    using row_create_roundtrip[OF demo_schema_ok(1,2), of ?vs 7] by blast
  then show ?thesis
    by (simp add: All_less_Suc numeral_2_eq_2)
qed

lemma row_update_ok:
  assumes "schema_ok s" "row_ok s r" "i < length (col_info s)" "get_kind v = ci_type (col_info s ! i)" "\<not> rdonly r"
  shows "\<exists>r'. row_update s i v r = Some r' \<and> row_ok s r' \<and> row_columns s r' = (row_columns s r)[i := Some v] \<and> rdonly r' = rdonly r"
proof -
  note i = assms(3-5)
  then obtain new where new: "value_bytes v = Some new"
    using schema_pos(2)[OF assms(1), of i] by (cases v) auto
  obtain r1 where rd: "rdonly r1 = rdonly r" and r1: "update_write s i v r = Some r1" "row_ok s r1"
      "\<And>j. j < length (col_info s) \<Longrightarrow> col_bytes s r1 j = (if j = i then new else col_bytes s r j)"
    using update_write_ok[OF assms(1,2) _ _ new] i by blast
  have upd: "row_update s i v r = Some (if col_bytes s r i = new then r else r1)"
    using i new r1(1) get_blob_ok[OF assms(1,2)] by (simp add: row_update_def update_same_def get_column_info_def verify_simps)
  have same: "col_bytes s (if col_bytes s r i = new then r else r1) j = (if j = i then new else col_bytes s r j)"
    if "j < length (col_info s)" for j
    using r1(3)[OF that] by auto
  have ok: "row_ok s (if col_bytes s r i = new then r else r1)"
    using r1(2) assms(2) by simp
  have "row_columns s (if col_bytes s r i = new then r else r1) = (row_columns s r)[i := Some v]"
    using same get_column_ok[OF assms(1) ok] get_column_ok[OF assms(1,2)] read_value_bytes[OF new] i
    by (intro nth_equalityI) (auto simp: row_columns_def nth_list_update)
  then show ?thesis
    using upd ok rd by auto
qed

text \<open>C32: Rows behave as lists of values, whatever their representation: an update of a column changes that
  column and no other, in the dense and in the sparse form; becoming sparse and copying change no column.\<close>

theorem row_refines_values:
  assumes "schema_ok s" "row_ok s r" "hidden_not_str s"
  shows "(\<forall>i v. i < length (col_info s) \<and> get_kind v = ci_type (col_info s ! i) \<and> \<not> rdonly r \<longrightarrow>
      (\<exists>r'. row_update s i v r = Some r' \<and> row_ok s r' \<and> row_columns s r' = (row_columns s r)[i := Some v]))
    \<and> row_ok s (make_sparse s r) \<and> row_columns s (make_sparse s r) = row_columns s r
    \<and> (\<exists>r'. row_copy s r = Some r' \<and> row_ok s r' \<and> row_columns s r' = row_columns s r)"
proof (intro conjI allI impI)
  fix i v
  assume "i < length (col_info s) \<and> get_kind v = ci_type (col_info s ! i) \<and> \<not> rdonly r"
  then show "\<exists>r'. row_update s i v r = Some r' \<and> row_ok s r' \<and> row_columns s r' = (row_columns s r)[i := Some v]"
    using row_update_ok[OF assms(1,2)] by blast
next
  note sp = make_sparse_ok[OF assms(2)]
  show "row_ok s (make_sparse s r)" "row_columns s (make_sparse s r) = row_columns s r"
    using row_columns_eqI[OF assms(1,2) sp(1)] col_bytes_eqI[OF sp(2,3)] sp(1) by simp_all
  obtain r' where r': "row_copy s r = Some r'" "row_ok s r'" "row_strs s r' = row_strs s r" "fixed_part r' = fixed_part r"
    using row_copy_ok[OF assms] by blast
  then show "\<exists>r'. row_copy s r = Some r' \<and> row_ok s r' \<and> row_columns s r' = row_columns s r"
    using row_columns_eqI[OF assms(1,2) r'(2)] col_bytes_eqI[OF r'(3,4)] by simp
qed

definition demo_row :: row where
  "demo_row = \<lparr>fixed_part = word_bytes 4 (5 :: u32) @ word_bytes 8 (9 :: u64), var_part = Dense [104, 105] [2], row_tbl = None,
     rdonly = False, row_sid = 7\<rparr>"

lemma demo_row_ok: "row_ok demo_schema demo_row"
  by (simp add: row_ok_def demo_row_def demo_schema_def schema_new_def)

theorem row_refines_values_witness:
  "\<exists>r'. row_update demo_schema 1 (VStr [104]) demo_row = Some r' \<and> get_column demo_schema 1 r' = Some (VStr [104])
     \<and> get_column demo_schema 2 r' = get_column demo_schema 2 demo_row"
proof -
  have "1 < length (col_info demo_schema)" "ci_type (col_info demo_schema ! 1) = KSTR" "\<not> rdonly demo_row"
    by (simp_all add: demo_schema_def schema_new_def demo_row_def)
  then obtain r' where r': "row_update demo_schema 1 (VStr [104]) demo_row = Some r'"
      "row_columns demo_schema r' = (row_columns demo_schema demo_row)[1 := Some (VStr [104])]"
    using row_refines_values[OF demo_schema_ok(1) demo_row_ok demo_schema_ok(2)] by (metis get_kind.simps(5))
  have "length (col_info demo_schema) = 3"
    by (simp add: demo_schema_def schema_new_def)
  then show ?thesis
    using r' by (auto simp: row_columns_def numeral_3_eq_3 numeral_2_eq_2)
qed

subsection \<open>Where the layout is fragile\<close>

lemma get_blob_ref_ok:
  assumes "schema_ok s" "row_ok s r" "i < length (col_info s)"
  shows "\<exists>p. get_blob_ref s i r = Some p \<and> deref_blob r p = Some (col_bytes s r i)
    \<and> (ci_type (col_info s ! i) = KSTR \<and> var_part r = Dense part idx \<longrightarrow> (\<exists>a n. p = DenseRef a n))"
proof -
  have b: "get_blob s i r = Some (col_bytes s r i)"
    using get_blob_ok[OF assms] .
  then show ?thesis
    using assms(3) by (cases "ci_type (col_info s ! i)"; cases "var_part r")
      (auto simp: get_blob_def get_blob_ref_def get_column_info_def verify_simps Let_def split: if_splits prod.splits)
qed

text \<open>An update of a string column that is not indexed frees the memory the keys of the row's table point
  to: when the new string has another length than the old one and the row is dense, a pointer to any other
  string column of the row, such as a key column, can no longer be followed. The table is not told.\<close>

theorem row_update_frees_key:
  assumes "schema_ok s" "row_ok s r" "var_part r = Dense part idx" "\<not> rdonly r"
    and "i < length (col_info s)" "ci_type (col_info s ! i) = KSTR" "j < length (col_info s)" "ci_type (col_info s ! j) = KSTR"
    and "length v \<noteq> length (col_bytes s r j)"
  shows "\<exists>p r'. get_blob_ref s i r = Some p \<and> deref_blob r p = Some (col_bytes s r i)
    \<and> row_update s j (VStr v) r = Some r' \<and> deref_blob r' p = None"
proof -
  obtain a n where p: "get_blob_ref s i r = Some (DenseRef a n)" "deref_blob r (DenseRef a n) = Some (col_bytes s r i)"
    using get_blob_ref_ok[OF assms(1,2,5)] assms(3,6) by blast
  have "col_bytes s r j \<noteq> v"
    using assms(9) by metis
  then have "row_update s j (VStr v) r = Some (r\<lparr>var_part := Sparse ((dense_slices (var_size_cols s) part idx)[ci_pos (col_info s ! j) := v])\<rparr>)"
    using assms(3,4,7,8,9) get_blob_ok[OF assms(1,2,7)]
    by (auto simp: row_update_def update_same_def update_write_def get_column_info_def make_sparse_def verify_simps)
  then show ?thesis
    using p by auto
qed

definition two_strings :: indexed_schema where
  "two_strings = the (schema_run [AddColumn ''k'' KSTR True, AddColumn ''n'' KSTR False] schema_new)"

lemma two_strings_eq: "schema_run [AddColumn ''k'' KSTR True, AddColumn ''n'' KSTR False] schema_new = Some two_strings"
  by (simp add: two_strings_def add_column_def do_add_column_def schema_new_def verify_simps Let_def)

theorem row_update_frees_key_witness:
  "\<exists>p r'. get_blob_ref two_strings 0 \<lparr>fixed_part = [], var_part = Dense [97, 98] [1, 2], row_tbl = Some 0, rdonly = False, row_sid = 0\<rparr> = Some p
     \<and> row_update two_strings 1 (VStr [99, 99]) \<lparr>fixed_part = [], var_part = Dense [97, 98] [1, 2], row_tbl = Some 0, rdonly = False, row_sid = 0\<rparr> = Some r'
     \<and> deref_blob r' p = None"
proof -
  let ?r = "\<lparr>fixed_part = [], var_part = Dense [97, 98] [1, 2], row_tbl = Some 0, rdonly = False, row_sid = 0\<rparr>"
  have s: "two_strings = schema_new\<lparr>col_name_to_id := [(''k'', 0), (''n'', 1)], key_cols_id := [0], var_size_cols := 2,
      col_info := [\<lparr>ci_id = 0, ci_name = ''k'', ci_indexed = True, ci_type = KSTR, ci_pos = 0\<rparr>,
        \<lparr>ci_id = 1, ci_name = ''n'', ci_indexed = False, ci_type = KSTR, ci_pos = 1\<rparr>]\<rparr>"
    by (simp add: two_strings_def add_column_def do_add_column_def schema_new_def verify_simps Let_def)
  have "row_ok two_strings ?r" "length [99, 99 :: byte] \<noteq> length (col_bytes two_strings ?r 1)"
    by (simp_all add: s schema_new_def row_ok_def col_bytes_def row_strs_def dense_slices_def dense_range_def slice_def numeral_2_eq_2)
  then show ?thesis
    using row_update_frees_key[OF schema_run_ok[OF schema_ok_new two_strings_eq], of ?r "[97, 98]" "[1, 2]" 0 1 "[99, 99]"]
    by (auto simp: s schema_new_def)
qed

definition two_numbers :: indexed_schema where
  "two_numbers = the (schema_run [AddColumn ''k'' I32 True, AddColumn ''v'' I64 False] schema_new)"

text \<open>Creating a row does not compare the kinds of the values with the columns: a schema of a 32-bit and a
  64-bit column accepts a 64-bit and a 32-bit value, and the columns then read mixed bytes of both.\<close>

theorem row_create_ignores_kinds:
  "\<exists>r. row_create_list sid two_numbers [VI64 a, VI32 b] = Some r \<and> get_column two_numbers 0 r = Some (VI32 (ucast a))
     \<and> get_column two_numbers 1 r = Some (VI64 (drop_bit 32 a OR push_bit 32 (ucast b)))"
proof -
  have s: "two_numbers = schema_new\<lparr>col_name_to_id := [(''k'', 0), (''v'', 1)], key_cols_id := [0], fixed_part_size := 12,
      col_info := [\<lparr>ci_id = 0, ci_name = ''k'', ci_indexed = True, ci_type = I32, ci_pos = 0\<rparr>,
        \<lparr>ci_id = 1, ci_name = ''v'', ci_indexed = False, ci_type = I64, ci_pos = 4\<rparr>]\<rparr>"
    by (simp add: two_numbers_def add_column_def do_add_column_def schema_new_def verify_simps Let_def)
  have a: "word_bytes 8 a = word_bytes 4 a @ word_bytes 4 (drop_bit 32 a)"
    using word_bytes_append[of 4 4 a] by simp
  have "bytes_word (word_bytes 4 a) = (ucast a :: u32)"
    by (rule bit_word_eqI) (simp add: bytes_word_take bit_simps)
  moreover have "bytes_word (word_bytes 4 (drop_bit 32 a) @ word_bytes 4 b) = drop_bit 32 a OR push_bit 32 (ucast b)"
    by (rule bit_word_eqI) (auto simp: bytes_word_append bytes_word_take bit_simps dest: bit_imp_le_length)
  ultimately show ?thesis
    by (auto simp: s schema_new_def row_create_list_def row_create_def columns_count_def verify_simps a get_column_def
        get_column_info_def get_blob_def slice_def read_binary_def Let_def)
qed

definition three_strings :: indexed_schema where
  "three_strings = the (schema_run [AddColumn ''a'' KSTR True, AddColumn ''b'' KSTR False, AddColumn ''c'' KSTR False] schema_new)"

definition dense_row :: "byte list \<Rightarrow> nat list \<Rightarrow> row" where
  "dense_row part idx = \<lparr>fixed_part = [], var_part = Dense part idx, row_tbl = None, rdonly = False, row_sid = 0\<rparr>"

text \<open>The string form of a row does not determine the row: it holds as many bytes of the table of string ends
  as there are strings, not as many integers, and nothing of the strings of a sparse row.\<close>

theorem row_to_string_ambiguous:
  "get_column three_strings 1 (dense_row [97, 98, 99, 100] [1, 3, 4]) = Some (VStr [98, 99])
   \<and> get_column three_strings 1 (dense_row [97, 98, 99, 100] [1, 2, 4]) = Some (VStr [98])
   \<and> row_to_string three_strings (dense_row [97, 98, 99, 100] [1, 3, 4]) str
     = row_to_string three_strings (dense_row [97, 98, 99, 100] [1, 2, 4]) str
   \<and> row_to_string three_strings (make_sparse three_strings (dense_row part idx)) str
     = row_to_string three_strings (make_sparse three_strings (dense_row [] [])) str"
proof -
  have s: "three_strings = schema_new\<lparr>col_name_to_id := [(''a'', 0), (''b'', 1), (''c'', 2)], key_cols_id := [0], var_size_cols := 3,
      col_info := [\<lparr>ci_id = 0, ci_name = ''a'', ci_indexed = True, ci_type = KSTR, ci_pos = 0\<rparr>,
        \<lparr>ci_id = 1, ci_name = ''b'', ci_indexed = False, ci_type = KSTR, ci_pos = 1\<rparr>,
        \<lparr>ci_id = 2, ci_name = ''c'', ci_indexed = False, ci_type = KSTR, ci_pos = 2\<rparr>]\<rparr>"
    by (simp add: three_strings_def add_column_def do_add_column_def schema_new_def verify_simps Let_def)
  show ?thesis
    by (simp add: s schema_new_def dense_row_def get_column_def get_column_info_def get_blob_def dense_range_def verify_simps slice_def
        read_binary_def Let_def row_to_string_def make_sparse_def)
qed

end
