(* ===== verification/Std_Multimap.thy ===== *)
theory Std_Multimap
  imports DST_Prelude "HOL-Library.Multiset"
begin

text \<open>
  \<open>std::multimap\<close> with a comparison function. The entries are a list in which every key is not below
  the one before it; a new entry goes behind the entries of the same key. The bounds are positions in
  the list. The standard requires the comparison to be a strict weak order of the keys in use; the
  locale states this requirement and what it gives.
\<close>

type_synonym ('k, 'v) mmap = "('k \<times> 'v) list"

definition mm_lower_bound :: "('k \<Rightarrow> 'k \<Rightarrow> bool) \<Rightarrow> 'k \<Rightarrow> ('k, 'v) mmap \<Rightarrow> nat" where
  "mm_lower_bound lt k m = length (takeWhile (\<lambda>e. lt (fst e) k) m)"

definition mm_upper_bound :: "('k \<Rightarrow> 'k \<Rightarrow> bool) \<Rightarrow> 'k \<Rightarrow> ('k, 'v) mmap \<Rightarrow> nat" where
  "mm_upper_bound lt k m = length (takeWhile (\<lambda>e. \<not> lt k (fst e)) m)"

definition mm_insert :: "('k \<Rightarrow> 'k \<Rightarrow> bool) \<Rightarrow> 'k \<Rightarrow> 'v \<Rightarrow> ('k, 'v) mmap \<Rightarrow> ('k, 'v) mmap" where
  "mm_insert lt k v m = (let i = mm_upper_bound lt k m in take i m @ (k, v) # drop i m)"

definition mm_range :: "nat \<Rightarrow> nat \<Rightarrow> ('k, 'v) mmap \<Rightarrow> ('k, 'v) mmap" where
  "mm_range a b m = drop a (take b m)"

definition mm_erase_range :: "nat \<Rightarrow> nat \<Rightarrow> ('k, 'v) mmap \<Rightarrow> ('k, 'v) mmap" where
  "mm_erase_range a b m = take a m @ drop b m"

definition mm_sorted :: "('k \<Rightarrow> 'k \<Rightarrow> bool) \<Rightarrow> ('k, 'v) mmap \<Rightarrow> bool" where
  "mm_sorted lt m \<longleftrightarrow> sorted_wrt (\<lambda>x y. \<not> lt (fst y) (fst x)) m"

lemma set_mm_insert [simp]: "set (mm_insert lt k v m) = insert (k, v) (set m)"
proof -
  have "set m = set (take (mm_upper_bound lt k m) m) \<union> set (drop (mm_upper_bound lt k m) m)"
    by (metis append_take_drop_id set_append)
  then show ?thesis
    by (simp add: mm_insert_def Let_def)
qed

lemma mset_mm_insert [simp]: "mset (mm_insert lt k v m) = add_mset (k, v) (mset m)"
proof -
  have "mset m = mset (take (mm_upper_bound lt k m) m) + mset (drop (mm_upper_bound lt k m) m)"
    by (metis append_take_drop_id mset_append)
  then show ?thesis
    by (simp add: mm_insert_def Let_def)
qed

lemma distinct_mm_insert: "distinct (map snd (mm_insert lt k v m)) \<longleftrightarrow> distinct (map snd m) \<and> v \<notin> snd ` set m"
proof -
  have "mset (map snd (mm_insert lt k v m)) = mset (v # map snd m)"
    by simp
  then have "distinct (map snd (mm_insert lt k v m)) = distinct (v # map snd m)"
    by (rule mset_eq_imp_distinct_iff)
  then show ?thesis
    by auto
qed

lemma mm_sorted_append:
  "mm_sorted lt (xs @ ys) \<longleftrightarrow> mm_sorted lt xs \<and> mm_sorted lt ys \<and> (\<forall>x \<in> set xs. \<forall>y \<in> set ys. \<not> lt (fst y) (fst x))"
  by (simp add: mm_sorted_def sorted_wrt_append)

lemma mm_range_split: "a \<le> b \<Longrightarrow> take a m @ mm_range a b m @ drop b m = m"
proof -
  assume "a \<le> b"
  then have "take b m = take a m @ drop a (take b m)"
    using append_take_drop_id[of a "take b m"] by (simp add: min_absorb1)
  then show ?thesis
    using append_take_drop_id[of b m] unfolding mm_range_def append_assoc[symmetric] by metis
qed

lemma mm_sorted_erase:
  assumes "mm_sorted lt m" "a \<le> b"
  shows "mm_sorted lt (mm_erase_range a b m)"
proof -
  have "mm_sorted lt (take a m @ mm_range a b m @ drop b m)"
    unfolding mm_range_split[OF assms(2)] by (rule assms(1))
  then show ?thesis
    unfolding mm_erase_range_def mm_sorted_append by (simp add: ball_Un)
qed

lemma mm_erase_filter:
  assumes "distinct (map snd m)" "a \<le> b"
  shows "mm_erase_range a b m = filter (\<lambda>e. snd e \<notin> snd ` set (mm_range a b m)) m"
proof -
  let ?P = "\<lambda>e. snd e \<notin> snd ` set (mm_range a b m)"
  have m: "take a m @ mm_range a b m @ drop b m = m"
    using mm_range_split[OF assms(2)] .
  then have "distinct (map snd (take a m @ mm_range a b m @ drop b m))"
    using assms(1) by simp
  then have "filter ?P (take a m) = take a m" "filter ?P (drop b m) = drop b m" "filter ?P (mm_range a b m) = []"
    by (auto simp: filter_id_conv filter_empty_conv)
  then show ?thesis
    using arg_cong[OF m, of "filter ?P"] by (simp add: mm_erase_range_def)
qed

locale strict_weak_order =
  fixes C :: "'k set" and lt :: "'k \<Rightarrow> 'k \<Rightarrow> bool"
  assumes irrefl: "a \<in> C \<Longrightarrow> \<not> lt a a"
    and trans: "a \<in> C \<Longrightarrow> b \<in> C \<Longrightarrow> c \<in> C \<Longrightarrow> lt a b \<Longrightarrow> lt b c \<Longrightarrow> lt a c"
    and neg_trans: "a \<in> C \<Longrightarrow> b \<in> C \<Longrightarrow> c \<in> C \<Longrightarrow> \<not> lt a b \<Longrightarrow> \<not> lt b c \<Longrightarrow> \<not> lt a c"
begin

lemma while_lower:
  assumes "mm_sorted lt m" "fst ` set m \<subseteq> C" "k \<in> C"
  shows "takeWhile (\<lambda>e. lt (fst e) k) m = filter (\<lambda>e. lt (fst e) k) m \<and>
    dropWhile (\<lambda>e. lt (fst e) k) m = filter (\<lambda>e. \<not> lt (fst e) k) m"
  using assms
proof (induction m)
  case (Cons e m)
  have rest: "\<not> lt (fst x) k" if "\<not> lt (fst e) k" "x \<in> set m" for x
  proof -
    have "\<not> lt (fst x) (fst e)"
      using Cons.prems(1) that(2) by (simp add: mm_sorted_def)
    then show ?thesis
      using neg_trans[of "fst x" "fst e" k] that Cons.prems(2,3) by auto
  qed
  have m: "mm_sorted lt m" "fst ` set m \<subseteq> C"
    using Cons.prems by (simp_all add: mm_sorted_def)
  show ?case
    using Cons.IH[OF m assms(3)] rest by (auto simp: filter_empty_conv filter_id_conv)
qed simp

lemmas takeWhile_lower = while_lower[THEN conjunct1] while_lower[THEN conjunct2]

lemma while_upper:
  assumes "mm_sorted lt m" "fst ` set m \<subseteq> C" "k \<in> C"
  shows "takeWhile (\<lambda>e. \<not> lt k (fst e)) m = filter (\<lambda>e. \<not> lt k (fst e)) m \<and>
    dropWhile (\<lambda>e. \<not> lt k (fst e)) m = filter (\<lambda>e. lt k (fst e)) m"
  using assms
proof (induction m)
  case (Cons e m)
  have rest: "lt k (fst x)" if "lt k (fst e)" "x \<in> set m" for x
  proof (rule ccontr)
    assume "\<not> lt k (fst x)"
    moreover have "\<not> lt (fst x) (fst e)"
      using Cons.prems(1) that(2) by (simp add: mm_sorted_def)
    ultimately show False
      using neg_trans[of k "fst x" "fst e"] that Cons.prems(2,3) by auto
  qed
  have m: "mm_sorted lt m" "fst ` set m \<subseteq> C"
    using Cons.prems by (simp_all add: mm_sorted_def)
  show ?case
    using Cons.IH[OF m assms(3)] rest by (auto simp: filter_empty_conv filter_id_conv)
qed simp

lemmas takeWhile_upper = while_upper[THEN conjunct1] while_upper[THEN conjunct2]

lemma take_lower: "mm_sorted lt m \<Longrightarrow> fst ` set m \<subseteq> C \<Longrightarrow> k \<in> C \<Longrightarrow> take (mm_lower_bound lt k m) m = filter (\<lambda>e. lt (fst e) k) m"
  using takeWhile_lower(1)[of m k] takeWhile_eq_take[of "\<lambda>e. lt (fst e) k" m] by (simp add: mm_lower_bound_def)

lemma drop_upper: "mm_sorted lt m \<Longrightarrow> fst ` set m \<subseteq> C \<Longrightarrow> k \<in> C \<Longrightarrow> drop (mm_upper_bound lt k m) m = filter (\<lambda>e. lt k (fst e)) m"
  using takeWhile_upper(2)[of m k] dropWhile_eq_drop[of "\<lambda>e. \<not> lt k (fst e)" m] by (simp add: mm_upper_bound_def)

lemma take_upper: "mm_sorted lt m \<Longrightarrow> fst ` set m \<subseteq> C \<Longrightarrow> k \<in> C \<Longrightarrow> take (mm_upper_bound lt k m) m = filter (\<lambda>e. \<not> lt k (fst e)) m"
  using takeWhile_upper(1)[of m k] takeWhile_eq_take[of "\<lambda>e. \<not> lt k (fst e)" m] by (simp add: mm_upper_bound_def)

text \<open>The range between two bounds, as in \<open>equal_range\<close> and the queries for open intervals.\<close>

lemma lower_filter:
  assumes "mm_sorted lt m" "fst ` set m \<subseteq> C" "k \<in> C"
  shows "drop (mm_lower_bound lt k m) m = filter (\<lambda>e. \<not> lt (fst e) k) m"
  using takeWhile_lower(2)[OF assms] dropWhile_eq_drop[of "\<lambda>e. lt (fst e) k" m] by (simp add: mm_lower_bound_def)

lemma equal_range:
  assumes "mm_sorted lt m" "fst ` set m \<subseteq> C" "k \<in> C"
  shows "mm_range (mm_lower_bound lt k m) (mm_upper_bound lt k m) m = filter (\<lambda>e. \<not> lt (fst e) k \<and> \<not> lt k (fst e)) m"
proof -
  have u: "take (mm_upper_bound lt k m) m = filter (\<lambda>e. \<not> lt k (fst e)) m"
    using take_upper[OF assms] .
  have ok: "mm_sorted lt (filter (\<lambda>e. \<not> lt k (fst e)) m)" "fst ` set (filter (\<lambda>e. \<not> lt k (fst e)) m) \<subseteq> C"
    using assms(1,2) by (auto simp: mm_sorted_def sorted_wrt_filter)
  have "filter (\<lambda>e. lt (fst e) k) m = filter (\<lambda>e. lt (fst e) k) (filter (\<lambda>e. \<not> lt k (fst e)) m)"
    unfolding filter_filter
  proof (rule filter_cong[OF refl])
    fix e
    assume "e \<in> set m"
    then show "lt (fst e) k \<longleftrightarrow> \<not> lt k (fst e) \<and> lt (fst e) k"
      using trans[of "fst e" k "fst e"] irrefl[of "fst e"] assms(2,3) by auto
  qed
  then have "mm_lower_bound lt k (filter (\<lambda>e. \<not> lt k (fst e)) m) = mm_lower_bound lt k m"
    using takeWhile_lower(1)[OF assms] takeWhile_lower(1)[OF ok assms(3)] by (simp add: mm_lower_bound_def)
  then show ?thesis
    using lower_filter[OF ok assms(3)] u by (simp add: mm_range_def conj_commute)
qed

lemma erase_equal_range:
  assumes "mm_sorted lt m" "fst ` set m \<subseteq> C" "k \<in> C"
  shows "mm_erase_range (mm_lower_bound lt k m) (mm_upper_bound lt k m) m = filter (\<lambda>e. lt (fst e) k \<or> lt k (fst e)) m"
proof -
  have m: "m = filter (\<lambda>e. lt (fst e) k) m @ filter (\<lambda>e. \<not> lt (fst e) k) m"
    using append_take_drop_id[of "mm_lower_bound lt k m" m] unfolding take_lower[OF assms] lower_filter[OF assms] by (rule sym)
  have "filter (\<lambda>e. lt (fst e) k \<or> lt k (fst e)) (filter (\<lambda>e. lt (fst e) k) m) = filter (\<lambda>e. lt (fst e) k) m"
    unfolding filter_filter by (rule filter_cong) auto
  moreover have "filter (\<lambda>e. lt (fst e) k \<or> lt k (fst e)) (filter (\<lambda>e. \<not> lt (fst e) k) m) = filter (\<lambda>e. lt k (fst e)) m"
    unfolding filter_filter
  proof (rule filter_cong[OF refl])
    fix e
    assume "e \<in> set m"
    then show "\<not> lt (fst e) k \<and> (lt (fst e) k \<or> lt k (fst e)) \<longleftrightarrow> lt k (fst e)"
      using trans[of "fst e" k "fst e"] irrefl[of "fst e"] assms(2,3) by auto
  qed
  ultimately have "filter (\<lambda>e. lt (fst e) k \<or> lt k (fst e)) m = filter (\<lambda>e. lt (fst e) k) m @ filter (\<lambda>e. lt k (fst e)) m"
    using arg_cong[OF m, of "filter (\<lambda>e. lt (fst e) k \<or> lt k (fst e))"] by (simp only: filter_append)
  then show ?thesis
    unfolding mm_erase_range_def take_lower[OF assms] drop_upper[OF assms] by simp
qed

lemma lower_le_upper:
  assumes "mm_sorted lt m" "fst ` set m \<subseteq> C" "k \<in> C"
  shows "mm_lower_bound lt k m \<le> mm_upper_bound lt k m"
proof -
  have imp: "\<not> lt k (fst e)" if "e \<in> set m" "lt (fst e) k" for e
    using that trans[of "fst e" k "fst e"] irrefl[of "fst e"] assms(2,3) by auto
  have "filter (\<lambda>e. lt (fst e) k) m = filter (\<lambda>e. lt (fst e) k) (filter (\<lambda>e. \<not> lt k (fst e)) m)"
    unfolding filter_filter by (rule filter_cong) (auto dest: imp)
  then have "length (filter (\<lambda>e. lt (fst e) k) m) \<le> length (filter (\<lambda>e. \<not> lt k (fst e)) m)"
    by (metis length_filter_le)
  then show ?thesis
    by (simp add: mm_lower_bound_def mm_upper_bound_def takeWhile_lower(1)[OF assms] takeWhile_upper(1)[OF assms])
qed

lemma open_range:
  assumes "mm_sorted lt m" "fst ` set m \<subseteq> C" "low \<in> C" "high \<in> C"
  shows "mm_range (mm_upper_bound lt low m) (mm_lower_bound lt high m) m = filter (\<lambda>e. lt low (fst e) \<and> lt (fst e) high) m"
proof (cases "lt low high")
  case True
  have l: "take (mm_lower_bound lt high m) m = filter (\<lambda>e. lt (fst e) high) m"
    using take_lower[OF assms(1,2,4)] .
  have ok: "mm_sorted lt (filter (\<lambda>e. lt (fst e) high) m)" "fst ` set (filter (\<lambda>e. lt (fst e) high) m) \<subseteq> C"
    using assms(1,2) by (auto simp: mm_sorted_def sorted_wrt_filter)
  have "filter (\<lambda>e. \<not> lt low (fst e)) m = filter (\<lambda>e. \<not> lt low (fst e)) (filter (\<lambda>e. lt (fst e) high) m)"
    unfolding filter_filter
  proof (rule filter_cong[OF refl])
    fix e
    assume "e \<in> set m"
    then show "\<not> lt low (fst e) \<longleftrightarrow> lt (fst e) high \<and> \<not> lt low (fst e)"
      using True neg_trans[of low "fst e" high] assms(2,3,4) by auto
  qed
  then have "mm_upper_bound lt low (filter (\<lambda>e. lt (fst e) high) m) = mm_upper_bound lt low m"
    using takeWhile_upper(1)[OF assms(1,2,3)] takeWhile_upper(1)[OF ok assms(3)] by (simp add: mm_upper_bound_def)
  then show ?thesis
    using drop_upper[OF ok assms(3)] l by (simp add: mm_range_def conj_commute)
next
  case False
  have "filter (\<lambda>e. lt low (fst e) \<and> lt (fst e) high) m = []"
    using False trans assms(2-4) unfolding filter_empty_conv by blast
  moreover have "mm_lower_bound lt high m \<le> mm_upper_bound lt low m"
  proof -
    have imp: "\<not> lt low (fst e)" if "e \<in> set m" "lt (fst e) high" for e
      using False trans[of low "fst e" high] assms(2-4) that by auto
    have "filter (\<lambda>e. lt (fst e) high) m = filter (\<lambda>e. lt (fst e) high) (filter (\<lambda>e. \<not> lt low (fst e)) m)"
      unfolding filter_filter by (rule filter_cong) (auto dest: imp)
    then have "length (filter (\<lambda>e. lt (fst e) high) m) \<le> length (filter (\<lambda>e. \<not> lt low (fst e)) m)"
      by (metis length_filter_le)
    then show ?thesis
      using takeWhile_lower(1)[OF assms(1,2,4)] takeWhile_upper(1)[OF assms(1,2,3)]
      by (simp add: mm_lower_bound_def mm_upper_bound_def)
  qed
  ultimately show ?thesis
    by (simp add: mm_range_def)
qed

lemma upper_le_lower:
  assumes "mm_sorted lt m" "fst ` set m \<subseteq> C" "low \<in> C" "high \<in> C" "lt low high"
  shows "mm_upper_bound lt low m \<le> mm_lower_bound lt high m"
proof -
  have imp: "lt (fst e) high" if "e \<in> set m" "\<not> lt low (fst e)" for e
    using that neg_trans[of low "fst e" high] assms(2-5) by auto
  have "filter (\<lambda>e. \<not> lt low (fst e)) m = filter (\<lambda>e. \<not> lt low (fst e)) (filter (\<lambda>e. lt (fst e) high) m)"
    unfolding filter_filter by (rule filter_cong) (auto dest: imp)
  then have "length (filter (\<lambda>e. \<not> lt low (fst e)) m) \<le> length (filter (\<lambda>e. lt (fst e) high) m)"
    by (metis length_filter_le)
  then show ?thesis
    by (simp add: mm_lower_bound_def mm_upper_bound_def takeWhile_lower(1)[OF assms(1,2,4)] takeWhile_upper(1)[OF assms(1,2,3)])
qed

lemma insert_sorted:
  assumes "mm_sorted lt m" "fst ` set m \<subseteq> C" "k \<in> C"
  shows "mm_sorted lt (mm_insert lt k v m)"
proof -
  let ?a = "filter (\<lambda>e. \<not> lt k (fst e)) m" and ?b = "filter (\<lambda>e. lt k (fst e)) m"
  have eq: "mm_insert lt k v m = ?a @ (k, v) # ?b"
    using take_upper[OF assms] drop_upper[OF assms] by (simp add: mm_insert_def)
  have m: "?a @ ?b = m"
    using append_take_drop_id[of "mm_upper_bound lt k m" m] unfolding take_upper[OF assms] drop_upper[OF assms] .
  have s: "mm_sorted lt (?a @ ?b)"
    unfolding m by (rule assms(1))
  have "\<not> lt (fst e) k" if "e \<in> set ?b" for e
    using that trans[of k "fst e" k] irrefl[OF assms(3)] assms(2,3) by auto
  then show ?thesis
    using s unfolding eq mm_sorted_append by (auto simp: mm_sorted_def)
qed

end

end
