(* ===== verification/MemTable.thy ===== *)
theory MemTable
  imports MemRow Std_Multimap
begin

text \<open>
  \<open>memdb/table.h\<close> and \<open>memdb/table.cc\<close>: keys, cursors and \<open>SortedTable\<close>, and \<open>Row::update\<close> of rows that are in
  a table. Rows live at addresses of a heap with their reference counts. A table is the multimap from
  keys to addresses; a key is the list of the bytes of the key columns. The keys of the code are pointers to these
  bytes, which is the same as long as the bytes of indexed columns stay where they are.
\<close>

subsection \<open>Symbols\<close>

datatype symbol = NONE | ROW_BASIC | ROW_COARSE | ROW_FINE | ROW_VERSIONED | ROW_MULTIVER
  | TBL_SORTED | TBL_UNSORTED | TBL_SNAPSHOT | TXN_UNSAFE | TXN_NESTED | TXN_2PL | TXN_OCC
  | TXN_ABORT | TXN_COMMIT | ORD_ANY | ORD_ASC | ORD_DESC | OCC_EAGER | OCC_LAZY

subsection \<open>Reference counted rows\<close>

record heap =
  hp_row :: "nat \<Rightarrow> row option"
  hp_ref :: "nat \<Rightarrow> nat"

definition heap_empty :: heap where
  "heap_empty = \<lparr>hp_row = (\<lambda>_. None), hp_ref = (\<lambda>_. 0)\<rparr>"

definition set_row :: "nat \<Rightarrow> row \<Rightarrow> heap \<Rightarrow> heap" where
  "set_row p r h = h\<lparr>hp_row := (hp_row h)(p := Some r)\<rparr>"

text \<open>\<open>operator new\<close> returns an address that is not in use, here an argument.\<close>

definition row_alloc :: "nat \<Rightarrow> row \<Rightarrow> heap \<Rightarrow> heap option" where
  "row_alloc p r h = do {
     verify (hp_row h p = None);
     Some (h\<lparr>hp_row := (hp_row h)(p := Some r), hp_ref := (hp_ref h)(p := 1)\<rparr>)
   }"

definition ref_copy :: "nat \<Rightarrow> heap \<Rightarrow> heap option" where
  "ref_copy p h = do {
     _ \<leftarrow> hp_row h p;
     Some (h\<lparr>hp_ref := (hp_ref h)(p := hp_ref h p + 1)\<rparr>)
   }"

definition release :: "nat \<Rightarrow> heap \<Rightarrow> heap option" where
  "release p h = do {
     _ \<leftarrow> hp_row h p;
     verify (hp_ref h p > 0);
     let n = hp_ref h p - 1;
     let h' = h\<lparr>hp_ref := (hp_ref h)(p := n)\<rparr>;
     Some (if n = 0 then h'\<lparr>hp_row := (hp_row h')(p := None)\<rparr> else h')
   }"

definition set_table :: "nat option \<Rightarrow> row \<Rightarrow> row option" where
  "set_table t r = do {
     verify (t = None \<or> row_tbl r = None);
     Some (r\<lparr>row_tbl := t\<rparr>)
   }"

subsection \<open>Keys\<close>

fun memcmp :: "byte list \<Rightarrow> byte list \<Rightarrow> int" where
  "memcmp (x # xs) (y # ys) = (if x < y then - 1 else if y < x then 1 else memcmp xs ys)"
| "memcmp _ _ = 0"

definition blob_compare :: "kind \<Rightarrow> byte list \<Rightarrow> byte list \<Rightarrow> int option" where
  "blob_compare k a b = (case k of
     I32 \<Rightarrow> (let mine = bytes_word a :: u32; other = bytes_word b in
       Some (if mine <s other then - 1 else if other <s mine then 1 else 0))
   | I64 \<Rightarrow> (let mine = bytes_word a :: u64; other = bytes_word b in
       Some (if mine <s other then - 1 else if other <s mine then 1 else 0))
   | DOUBLE \<Rightarrow> (let mine = bytes_word a :: f64; other = bytes_word b in
       Some (if f64_less mine other then - 1 else if f64_less other mine then 1 else 0))
   | KSTR \<Rightarrow> (let min_size = min (length a) (length b); cmp = memcmp (take min_size a) (take min_size b) in
       Some (if cmp < 0 then - 1 else if cmp > 0 then 1
         else if length a < length b then - 1 else if length b < length a then 1 else 0))
   | UNKNOWN \<Rightarrow> None)"

type_synonym key = "byte list list"

definition smk_new :: "'a schema_scheme \<Rightarrow> key \<Rightarrow> key option" where
  "smk_new s mb = do { verify (length mb = length (key_cols_id s)); Some mb }"

fun smk_compare_cols :: "'a schema_scheme \<Rightarrow> nat list \<Rightarrow> key \<Rightarrow> key \<Rightarrow> int option" where
  "smk_compare_cols s [] _ _ = Some 0"
| "smk_compare_cols s (c # cs) (a # as) (b # bs) = do {
     info \<leftarrow> get_column_info c s;
     verify (ci_indexed info);
     r \<leftarrow> blob_compare (ci_type info) a b;
     if r \<noteq> 0 then Some r else smk_compare_cols s cs as bs
   }"
| "smk_compare_cols s (c # cs) _ _ = None"

definition smk_compare :: "'a schema_scheme \<Rightarrow> key \<Rightarrow> key \<Rightarrow> int option" where
  "smk_compare s a b = smk_compare_cols s (key_cols_id s) a b"

definition smk_less :: "'a schema_scheme \<Rightarrow> key \<Rightarrow> key \<Rightarrow> bool" where
  "smk_less s a b \<longleftrightarrow> smk_compare s a b = Some (- 1)"

text \<open>\<open>Row::compare\<close>, for two different rows of the schema.\<close>

definition row_compare :: "'a schema_scheme \<Rightarrow> row \<Rightarrow> row \<Rightarrow> int option" where
  "row_compare s r o' = do {
     verify (row_sid r = row_sid o');
     mine \<leftarrow> get_key s r;
     other \<leftarrow> get_key s o';
     smk_compare s mine other
   }"

subsection \<open>Cursors\<close>

text \<open>A cursor holds the positions between which it runs and the rows there, in the order it visits them.\<close>

record cursor =
  cu_begin :: nat
  cu_end :: nat
  cu_reverse :: bool
  cu_rows :: "nat list"
  cu_next :: nat
  cu_count :: int

definition cursor_new :: "bool \<Rightarrow> nat \<Rightarrow> nat \<Rightarrow> (key, nat) mmap \<Rightarrow> cursor" where
  "cursor_new rv a b m = \<lparr>cu_begin = a, cu_end = b, cu_reverse = rv,
     cu_rows = (let ps = map snd (mm_range a b m) in if rv then rev ps else ps), cu_next = 0, cu_count = - 1\<rparr>"

definition cu_reset :: "cursor \<Rightarrow> cursor" where
  "cu_reset c = c\<lparr>cu_next := 0\<rparr>"

definition cu_has_next :: "cursor \<Rightarrow> bool" where
  "cu_has_next c \<longleftrightarrow> cu_next c \<noteq> length (cu_rows c)"

definition cu_next_row :: "cursor \<Rightarrow> (nat \<times> cursor) option" where
  "cu_next_row c = do {
     verify (cu_has_next c);
     Some (cu_rows c ! cu_next c, c\<lparr>cu_next := cu_next c + 1\<rparr>)
   }"

definition cu_count_rows :: "cursor \<Rightarrow> int \<times> cursor" where
  "cu_count_rows c = (let n = (if cu_count c < 0 then int (length (cu_rows c)) else cu_count c) in (n, c\<lparr>cu_count := n\<rparr>))"

text \<open>The loop of a client: \<open>while (cur) { rows.push_back(cur.next()); }\<close>. An iterator past the end is undefined.\<close>

function cu_drain :: "cursor \<Rightarrow> nat list option" where
  "cu_drain c = (if cu_has_next c
     then (case cu_next_row c of
         Some (p, c') \<Rightarrow> if cu_next c' \<le> length (cu_rows c') then map_option (Cons p) (cu_drain c') else None
       | None \<Rightarrow> None)
     else Some [])"
  by pat_completeness auto
termination
  by (relation "measure (\<lambda>c. Suc (length (cu_rows c)) - cu_next c)")
    (auto simp: cu_next_row_def verify_simps split: if_splits)

subsection \<open>Sorted tables\<close>

record sorted_table =
  tb_id :: nat
  tb_sid :: nat
  tb_schema :: indexed_schema
  tb_rows :: "(key, nat) mmap"

text \<open>The constructor freezes the schema.\<close>

definition table_new :: "nat \<Rightarrow> nat \<Rightarrow> indexed_schema \<Rightarrow> sorted_table" where
  "table_new t sid s = \<lparr>tb_id = t, tb_sid = sid, tb_schema = schema_freeze s, tb_rows = []\<rparr>"

definition tb_lt :: "sorted_table \<Rightarrow> key \<Rightarrow> key \<Rightarrow> bool" where
  "tb_lt tb = smk_less (tb_schema tb)"

definition table_insert :: "nat \<Rightarrow> sorted_table \<Rightarrow> heap \<Rightarrow> (sorted_table \<times> heap) option" where
  "table_insert p tb h = do {
     r \<leftarrow> hp_row h p;
     mb \<leftarrow> get_key (tb_schema tb) r;
     key \<leftarrow> smk_new (tb_schema tb) mb;
     verify (row_sid r = tb_sid tb);
     r' \<leftarrow> set_table (Some (tb_id tb)) r;
     Some (tb\<lparr>tb_rows := mm_insert (tb_lt tb) key p (tb_rows tb)\<rparr>, set_row p r' h)
   }"

definition verify_order :: "symbol \<Rightarrow> unit option" where
  "verify_order ord = verify (ord = ORD_ASC \<or> ord = ORD_DESC \<or> ord = ORD_ANY)"

definition table_query :: "key \<Rightarrow> sorted_table \<Rightarrow> cursor option" where
  "table_query mb tb = do {
     smk \<leftarrow> smk_new (tb_schema tb) mb;
     let m = tb_rows tb;
     Some (cursor_new False (mm_lower_bound (tb_lt tb) smk m) (mm_upper_bound (tb_lt tb) smk m) m)
   }"

definition table_query_lt :: "key \<Rightarrow> symbol \<Rightarrow> sorted_table \<Rightarrow> cursor option" where
  "table_query_lt mb ord tb = do {
     smk \<leftarrow> smk_new (tb_schema tb) mb;
     verify_order ord;
     let m = tb_rows tb;
     let bound = mm_lower_bound (tb_lt tb) smk m;
     Some (cursor_new (ord = ORD_DESC) 0 bound m)
   }"

definition table_query_gt :: "key \<Rightarrow> symbol \<Rightarrow> sorted_table \<Rightarrow> cursor option" where
  "table_query_gt mb ord tb = do {
     smk \<leftarrow> smk_new (tb_schema tb) mb;
     verify_order ord;
     let m = tb_rows tb;
     let bound = mm_upper_bound (tb_lt tb) smk m;
     Some (cursor_new (ord = ORD_DESC) bound (length m) m)
   }"

definition table_query_in :: "key \<Rightarrow> key \<Rightarrow> symbol \<Rightarrow> sorted_table \<Rightarrow> cursor option" where
  "table_query_in lo hi ord tb = do {
     low \<leftarrow> smk_new (tb_schema tb) lo;
     high \<leftarrow> smk_new (tb_schema tb) hi;
     verify_order ord;
     verify (tb_lt tb low high);
     let m = tb_rows tb;
     let low_bound = mm_upper_bound (tb_lt tb) low m;
     let high_bound = mm_lower_bound (tb_lt tb) high m;
     Some (cursor_new (ord = ORD_DESC) low_bound high_bound m)
   }"

definition table_all :: "symbol \<Rightarrow> sorted_table \<Rightarrow> cursor option" where
  "table_all ord tb = do {
     verify_order ord;
     Some (cursor_new (ord = ORD_DESC) 0 (length (tb_rows tb)) (tb_rows tb))
   }"

text \<open>\<open>clear\<close> and the destructor release every row.\<close>

fun release_all :: "nat list \<Rightarrow> heap \<Rightarrow> heap option" where
  "release_all [] h = Some h"
| "release_all (p # ps) h = Option.bind (release p h) (release_all ps)"

definition table_clear :: "sorted_table \<Rightarrow> heap \<Rightarrow> (sorted_table \<times> heap) option" where
  "table_clear tb h = do {
     h' \<leftarrow> release_all (map snd (tb_rows tb)) h;
     Some (tb\<lparr>tb_rows := []\<rparr>, h')
   }"

definition table_remove_at :: "nat \<Rightarrow> bool \<Rightarrow> sorted_table \<Rightarrow> heap \<Rightarrow> (sorted_table \<times> heap) option" where
  "table_remove_at i do_free tb h =
    (if i < length (tb_rows tb)
     then do {
       h' \<leftarrow> (if do_free then release (snd (tb_rows tb ! i)) h else Some h);
       Some (tb\<lparr>tb_rows := mm_erase_range i (Suc i) (tb_rows tb)\<rparr>, h')
     }
     else Some (tb, h))"

text \<open>Removing the entries from a position on, one by one; the iterator returned by each removal is the same
  position.\<close>

fun table_remove_n :: "nat \<Rightarrow> nat \<Rightarrow> sorted_table \<Rightarrow> heap \<Rightarrow> (sorted_table \<times> heap) option" where
  "table_remove_n i 0 tb h = Some (tb, h)"
| "table_remove_n i (Suc n) tb h = do {
     (tb', h') \<leftarrow> table_remove_at i True tb h;
     table_remove_n i n tb' h'
   }"

definition table_remove_key :: "key \<Rightarrow> sorted_table \<Rightarrow> heap \<Rightarrow> (sorted_table \<times> heap) option" where
  "table_remove_key mb tb h = do {
     smk \<leftarrow> smk_new (tb_schema tb) mb;
     let a = mm_lower_bound (tb_lt tb) smk (tb_rows tb);
     let b = mm_upper_bound (tb_lt tb) smk (tb_rows tb);
     table_remove_n a (b - a) tb h
   }"

text \<open>The search for a row among the entries from position \<open>i\<close> on, \<open>n\<close> of them.\<close>

fun find_row :: "nat \<Rightarrow> nat \<Rightarrow> nat \<Rightarrow> (key, nat) mmap \<Rightarrow> nat option" where
  "find_row p i 0 m = None"
| "find_row p i (Suc n) m = (if snd (m ! i) = p then Some i else find_row p (Suc i) n m)"

definition table_remove_row :: "nat \<Rightarrow> bool \<Rightarrow> sorted_table \<Rightarrow> heap \<Rightarrow> (sorted_table \<times> heap) option" where
  "table_remove_row p do_free tb h = do {
     r \<leftarrow> hp_row h p;
     mb \<leftarrow> get_key (tb_schema tb) r;
     smk \<leftarrow> smk_new (tb_schema tb) mb;
     let a = mm_lower_bound (tb_lt tb) smk (tb_rows tb);
     let b = mm_upper_bound (tb_lt tb) smk (tb_rows tb);
     case find_row p a (b - a) (tb_rows tb) of
       Some i \<Rightarrow> do {
         r' \<leftarrow> set_table None r;
         table_remove_at i do_free tb (set_row p r' h)
       }
     | None \<Rightarrow> Some (tb, h)
   }"

text \<open>\<open>remove(cursor)\<close> uses the forward iterators of the cursor, which a descending cursor does not have.\<close>

definition table_remove_cursor :: "cursor \<Rightarrow> sorted_table \<Rightarrow> heap \<Rightarrow> (sorted_table \<times> heap) option" where
  "table_remove_cursor c tb h = do {
     verify (\<not> cu_reverse c);
     table_remove_n (cu_begin c) (cu_end c - cu_begin c) tb h
   }"

text \<open>\<open>Row::update\<close> of the row at an address: a row whose table must be told is taken out of it, written and
  inserted again. \<open>tb\<close> is the table the row is in.\<close>

definition table_row_update :: "nat \<Rightarrow> nat \<Rightarrow> mvalue \<Rightarrow> sorted_table \<Rightarrow> heap \<Rightarrow> (sorted_table \<times> heap) option" where
  "table_row_update p i v tb h = do {
     r \<leftarrow> hp_row h p;
     same \<leftarrow> update_same (tb_schema tb) i v r;
     info \<leftarrow> get_column_info i (tb_schema tb);
     if same then Some (tb, h)
     else if ci_indexed info \<and> row_tbl r \<noteq> None
     then do {
       verify (row_tbl r = Some (tb_id tb));
       (tb1, h1) \<leftarrow> table_remove_row p False tb h;
       r1 \<leftarrow> hp_row h1 p;
       r2 \<leftarrow> update_write (tb_schema tb) i v r1;
       table_insert p tb1 (set_row p r2 h1)
     }
     else do {
       r2 \<leftarrow> update_write (tb_schema tb) i v r;
       Some (tb, set_row p r2 h)
     }
   }"

subsection \<open>The order of keys\<close>

definition key_value :: "'a schema_scheme \<Rightarrow> nat \<Rightarrow> byte list \<Rightarrow> mvalue option" where
  "key_value s c b = read_binary (ci_type (col_info s ! c)) b"

definition key_ord :: "'a schema_scheme \<Rightarrow> nat \<Rightarrow> byte list \<Rightarrow> int list" where
  "key_ord s c b = (case key_value s c b of Some v \<Rightarrow> value_ord v | None \<Rightarrow> [])"

definition smk_ord :: "'a schema_scheme \<Rightarrow> key \<Rightarrow> int list list" where
  "smk_ord s k = map2 (key_ord s) (key_cols_id s) k"

text \<open>The keys of a schema without a NaN.\<close>

definition key_ok :: "'a schema_scheme \<Rightarrow> key \<Rightarrow> bool" where
  "key_ok s k \<longleftrightarrow> schema_ok s \<and> list_all2 (\<lambda>c b. case key_value s c b of Some v \<Rightarrow> comparable v | None \<Rightarrow> False) (key_cols_id s) k"

lemma memcmp_ord:
  assumes "length a = length b"
  shows "memcmp a b = (if map uint a < map uint b then - 1 else if map uint b < map uint a then 1 else 0)"
  using assms by (induction a b rule: list_induct2) (auto simp: word_less_def word_uint_eq_iff)

lemma list_less_take:
  fixes a b :: "'a :: linorder list"
  shows "a < b \<longleftrightarrow> (let n = min (length a) (length b) in take n a < take n b \<or> take n a = take n b \<and> length a < length b)"
proof (induction a arbitrary: b)
  case (Cons x a)
  then show ?case by (cases b) (auto simp: Let_def)
next
  case Nil
  then show ?case by (cases b) (auto simp: Let_def)
qed

lemma blob_compare_ord:
  assumes "read_binary k a = Some v" "read_binary k b = Some w" "comparable v" "comparable w"
  shows "blob_compare k a b = Some (cmp3 (value_ord v < value_ord w) (value_ord v = value_ord w))"
proof (cases k)
  case KSTR
  let ?n = "min (length a) (length b)"
  have vw: "v = VStr a" "w = VStr b"
    using assms KSTR by (simp_all add: read_binary_def)
  define A where "A = take ?n (map uint a)"
  define B where "B = take ?n (map uint b)"
  have eq: "map uint a = map uint b \<longleftrightarrow> A = B \<and> length a = length b"
    unfolding A_def B_def by (auto dest: map_eq_imp_length_eq)
  have lt: "map uint a < map uint b \<longleftrightarrow> A < B \<or> A = B \<and> length a < length b"
    unfolding A_def B_def using list_less_take[of "map uint a" "map uint b"] by (simp add: Let_def)
  have cmp: "memcmp (take ?n a) (take ?n b) = (if A < B then - 1 else if B < A then 1 else 0)"
    unfolding A_def B_def using memcmp_ord[of "take ?n a" "take ?n b"] by (simp add: take_map)
  have "blob_compare KSTR a b = Some (let c = memcmp (take ?n a) (take ?n b) in if c < 0 then - 1 else if c > 0 then 1
      else if length a < length b then - 1 else if length b < length a then 1 else 0)"
    unfolding blob_compare_def kind.case Let_def ..
  then show ?thesis
    unfolding KSTR vw value_ord.simps eq lt cmp cmp3_def by (cases A B rule: linorder_cases) (auto simp: Let_def)
qed (use assms in \<open>auto simp: read_binary_def blob_compare_def cmp3_def word_sless_alt f64_less_def Let_def
    dest: signed_word_eqI\<close>)

lemma smk_compare_cols_ord:
  assumes "list_all2 (\<lambda>c b. case key_value s c b of Some v \<Rightarrow> comparable v | None \<Rightarrow> False) cs a"
    and "list_all2 (\<lambda>c b. case key_value s c b of Some v \<Rightarrow> comparable v | None \<Rightarrow> False) cs b"
    and "\<forall>c \<in> set cs. c < length (col_info s) \<and> ci_indexed (col_info s ! c)"
  shows "smk_compare_cols s cs a b = Some (cmp3 (map2 (key_ord s) cs a < map2 (key_ord s) cs b) (map2 (key_ord s) cs a = map2 (key_ord s) cs b))"
  using assms
proof (induction s cs a b rule: smk_compare_cols.induct)
  case (2 s c cs a as b bs)
  then obtain v w where vw: "key_value s c a = Some v" "key_value s c b = Some w" "comparable v" "comparable w"
    by (auto split: option.splits)
  have r: "blob_compare (ci_type (col_info s ! c)) a b = Some (cmp3 (value_ord v < value_ord w) (value_ord v = value_ord w))"
    using blob_compare_ord vw by (simp add: key_value_def)
  have ord: "key_ord s c a = value_ord v" "key_ord s c b = value_ord w"
    using vw by (simp_all add: key_ord_def)
  have c: "get_column_info c s = Some (col_info s ! c)" "ci_indexed (col_info s ! c)"
    using 2(4) by (simp_all add: get_column_info_def)
  have IH: "smk_compare_cols s cs as bs = Some (cmp3 (map2 (key_ord s) cs as < map2 (key_ord s) cs bs) (map2 (key_ord s) cs as = map2 (key_ord s) cs bs))"
    if "value_ord v = value_ord w"
  proof (rule 2(1)[OF c(1) _ r])
    show "verify (ci_indexed (col_info s ! c)) = Some ()"
      using c(2) by simp
    show "\<not> cmp3 (value_ord v < value_ord w) (value_ord v = value_ord w) \<noteq> 0"
      using that by (simp add: cmp3_def)
  qed (use 2(2-4) in simp_all)
  show ?case
  proof (cases "value_ord v = value_ord w")
    case True
    then show ?thesis
      using r c IH[OF True] by (simp add: ord verify_simps cmp3_def)
  next
    case False
    then show ?thesis
      using r c by (simp add: ord verify_simps cmp3_def)
  qed
qed (auto simp: cmp3_def)

lemma smk_compare_ord:
  assumes "key_ok s a" "key_ok s b"
  shows "smk_compare s a b = Some (cmp3 (smk_ord s a < smk_ord s b) (smk_ord s a = smk_ord s b))"
  unfolding smk_compare_def smk_ord_def
  using assms schema_okD(7,8) by (intro smk_compare_cols_ord) (auto simp: key_ok_def)

lemma smk_less_ord: "key_ok s a \<Longrightarrow> key_ok s b \<Longrightarrow> smk_less s a b \<longleftrightarrow> smk_ord s a < smk_ord s b"
  by (simp add: smk_less_def smk_compare_ord)

text \<open>\<open>SortedMultiKey::operator<\<close> meets the requirement of \<open>std::multimap\<close> on these keys.\<close>

interpretation smk: strict_weak_order "{k. key_ok s k}" "smk_less s" for s
  by unfold_locales (auto simp: smk_less_ord)

subsection \<open>The table and its rows\<close>

definition row_key :: "'a schema_scheme \<Rightarrow> row \<Rightarrow> key" where
  "row_key s r = map (col_bytes s r) (key_cols_id s)"

lemma get_key_ok: "schema_ok s \<Longrightarrow> row_ok s r \<Longrightarrow> get_key s r = Some (row_key s r)"
proof -
  assume ok: "schema_ok s" "row_ok s r"
  have "map (\<lambda>i. get_blob s i r) (key_cols_id s) = map Some (row_key s r)"
    using get_blob_ok[OF ok] schema_okD(7)[OF ok(1)] by (simp add: row_key_def)
  then show ?thesis
    by (simp add: get_key_def)
qed

lemma smk_new_row_key [simp]: "smk_new s (row_key s r) = Some (row_key s r)"
  by (simp add: smk_new_def row_key_def)

definition row_inv :: "sorted_table \<Rightarrow> nat set \<Rightarrow> nat \<Rightarrow> row \<Rightarrow> bool" where
  "row_inv tb ms p r \<longleftrightarrow> (let s = tb_schema tb in row_ok s r \<and> \<not> rdonly r \<and> row_sid r = tb_sid tb \<and> key_ok s (row_key s r)
     \<and> row_tbl r = (if p \<in> ms then Some (tb_id tb) else None))"

abbreviation members :: "sorted_table \<Rightarrow> nat set" where
  "members tb \<equiv> snd ` set (tb_rows tb)"

text \<open>A table and the rows of its schema in the heap: the entries are sorted and hold the current keys of their rows,
  and a row points to the table exactly when it is in it.\<close>

definition table_inv :: "sorted_table \<Rightarrow> heap \<Rightarrow> bool" where
  "table_inv tb h \<longleftrightarrow> schema_ok (tb_schema tb) \<and> hidden_not_str (tb_schema tb)
     \<and> mm_sorted (tb_lt tb) (tb_rows tb) \<and> distinct (map snd (tb_rows tb))
     \<and> (\<forall>e \<in> set (tb_rows tb). \<exists>r. hp_row h (snd e) = Some r \<and> fst e = row_key (tb_schema tb) r)
     \<and> (\<forall>p r. hp_row h p = Some r \<longrightarrow> row_inv tb (members tb) p r \<and> hp_ref h p = 1)"

lemma table_invD:
  assumes "table_inv tb h"
  shows "schema_ok (tb_schema tb)" "hidden_not_str (tb_schema tb)" "mm_sorted (tb_lt tb) (tb_rows tb)" "distinct (map snd (tb_rows tb))"
    and "(k, p) \<in> set (tb_rows tb) \<Longrightarrow> \<exists>r. hp_row h p = Some r \<and> k = row_key (tb_schema tb) r"
    and "hp_row h p = Some r \<Longrightarrow> row_inv tb (members tb) p r" "hp_row h p = Some r \<Longrightarrow> hp_ref h p = 1"
  using assms unfolding table_inv_def by fastforce+

lemma table_invI:
  assumes "schema_ok (tb_schema tb)" "hidden_not_str (tb_schema tb)" "mm_sorted (tb_lt tb) (tb_rows tb)" "distinct (map snd (tb_rows tb))"
    and "\<And>k p. (k, p) \<in> set (tb_rows tb) \<Longrightarrow> \<exists>r. hp_row h p = Some r \<and> k = row_key (tb_schema tb) r"
    and "\<And>p r. hp_row h p = Some r \<Longrightarrow> row_inv tb (members tb) p r \<and> hp_ref h p = 1"
  shows "table_inv tb h"
  using assms unfolding table_inv_def by (metis prod.collapse)

lemma row_invD:
  assumes "row_inv tb ms p r"
  shows "row_ok (tb_schema tb) r" "\<not> rdonly r" "row_sid r = tb_sid tb" "key_ok (tb_schema tb) (row_key (tb_schema tb) r)"
    "row_tbl r = (if p \<in> ms then Some (tb_id tb) else None)"
  using assms by (simp_all add: row_inv_def Let_def)

lemma table_keys_ok:
  assumes "table_inv tb h"
  shows "fst ` set (tb_rows tb) \<subseteq> {k. key_ok (tb_schema tb) k}"
  using table_invD(5,6)[OF assms] row_invD(4) by fastforce

text \<open>The entries of the table with an equal key, and the entry of a row.\<close>

lemma tb_equal_range:
  assumes "table_inv tb h" "key_ok (tb_schema tb) k"
  shows "mm_range (mm_lower_bound (tb_lt tb) k (tb_rows tb)) (mm_upper_bound (tb_lt tb) k (tb_rows tb)) (tb_rows tb)
      = filter (\<lambda>e. smk_ord (tb_schema tb) (fst e) = smk_ord (tb_schema tb) k) (tb_rows tb)"
    and "mm_lower_bound (tb_lt tb) k (tb_rows tb) \<le> mm_upper_bound (tb_lt tb) k (tb_rows tb)"
    and "mm_upper_bound (tb_lt tb) k (tb_rows tb) \<le> length (tb_rows tb)"
proof -
  note C = table_keys_ok[OF assms(1)] and srt = table_invD(3)[OF assms(1)]
  have "filter (\<lambda>e. \<not> smk_less (tb_schema tb) (fst e) k \<and> \<not> smk_less (tb_schema tb) k (fst e)) (tb_rows tb)
      = filter (\<lambda>e. smk_ord (tb_schema tb) (fst e) = smk_ord (tb_schema tb) k) (tb_rows tb)"
    using C assms(2) by (intro filter_cong) (auto simp: smk_less_ord)
  then show "mm_range (mm_lower_bound (tb_lt tb) k (tb_rows tb)) (mm_upper_bound (tb_lt tb) k (tb_rows tb)) (tb_rows tb)
      = filter (\<lambda>e. smk_ord (tb_schema tb) (fst e) = smk_ord (tb_schema tb) k) (tb_rows tb)"
    using smk.equal_range[OF _ C] srt assms(2) by (simp add: tb_lt_def)
  show "mm_lower_bound (tb_lt tb) k (tb_rows tb) \<le> mm_upper_bound (tb_lt tb) k (tb_rows tb)"
    using smk.lower_le_upper[OF _ C] srt assms(2) by (simp add: tb_lt_def)
  show "mm_upper_bound (tb_lt tb) k (tb_rows tb) \<le> length (tb_rows tb)"
    by (simp add: mm_upper_bound_def length_takeWhile_le)
qed

lemma find_row_Some: "find_row p i n m = Some j \<Longrightarrow> i \<le> j \<and> j < i + n \<and> snd (m ! j) = p"
  by (induction p i n m rule: find_row.induct) (auto split: if_splits)

lemma find_row_None: "find_row p i n m = None \<Longrightarrow> i \<le> j \<Longrightarrow> j < i + n \<Longrightarrow> snd (m ! j) \<noteq> p"
proof (induction p i n m rule: find_row.induct)
  case (2 p i n m)
  then show ?case by (cases "j = i") (auto split: if_splits)
qed simp

lemma mm_range_nth: "a \<le> b \<Longrightarrow> b \<le> length m \<Longrightarrow> e \<in> set (mm_range a b m) \<Longrightarrow> \<exists>j. a \<le> j \<and> j < b \<and> m ! j = e"
  unfolding mm_range_def by (auto simp: in_set_conv_nth) (metis add.commute le_add1 less_diff_conv nth_take)

lemma find_row_member:
  assumes "table_inv tb h" "hp_row h p = Some r" "k = row_key (tb_schema tb) r"
  defines "a \<equiv> mm_lower_bound (tb_lt tb) k (tb_rows tb)" and "b \<equiv> mm_upper_bound (tb_lt tb) k (tb_rows tb)"
  shows "p \<in> members tb \<Longrightarrow> \<exists>j < length (tb_rows tb). find_row p a (b - a) (tb_rows tb) = Some j \<and> snd (tb_rows tb ! j) = p"
    and "p \<notin> members tb \<Longrightarrow> find_row p a (b - a) (tb_rows tb) = None"
proof -
  have kok: "key_ok (tb_schema tb) k"
    using table_invD(6)[OF assms(1,2)] row_invD(4) assms(3) by simp
  note rg = tb_equal_range[OF assms(1) kok, folded a_def b_def]
  have bound: "j < length (tb_rows tb)" if "find_row p a (b - a) (tb_rows tb) = Some j" for j
    using find_row_Some[OF that] rg(2,3) by linarith
  show "\<exists>j < length (tb_rows tb). find_row p a (b - a) (tb_rows tb) = Some j \<and> snd (tb_rows tb ! j) = p" if mem: "p \<in> members tb"
  proof -
    obtain k' where "(k', p) \<in> set (tb_rows tb)"
      using mem by auto
    then have "(k, p) \<in> set (tb_rows tb)"
      using table_invD(5)[OF assms(1)] assms(2,3) by fastforce
    then have "(k, p) \<in> set (mm_range a b (tb_rows tb))"
      unfolding rg(1) by simp
    then obtain j where "a \<le> j" "j < b" "tb_rows tb ! j = (k, p)"
      using mm_range_nth[OF rg(2,3)] by blast
    then have "find_row p a (b - a) (tb_rows tb) \<noteq> None"
      using find_row_None[of p a "b - a" "tb_rows tb" j] by auto
    then show ?thesis
      using bound find_row_Some by blast
  qed
  show "find_row p a (b - a) (tb_rows tb) = None" if "p \<notin> members tb"
  proof (rule ccontr)
    assume "find_row p a (b - a) (tb_rows tb) \<noteq> None"
    then obtain j where "find_row p a (b - a) (tb_rows tb) = Some j"
      by blast
    then show False
      using bound find_row_Some that by (metis imageI nth_mem)
  qed
qed

subsection \<open>What the operations do\<close>

lemma smk_ord_row_key:
  assumes "schema_ok s" "row_ok s r"
  shows "smk_ord s (row_key s r) = map (\<lambda>c. case row_columns s r ! c of Some v \<Rightarrow> value_ord v | None \<Rightarrow> []) (key_cols_id s)"
proof -
  have "key_ord s c (col_bytes s r c) = (case row_columns s r ! c of Some v \<Rightarrow> value_ord v | None \<Rightarrow> [])" if "c \<in> set (key_cols_id s)" for c
    using schema_okD(7)[OF assms(1) that] get_column_ok[OF assms] by (simp add: key_ord_def key_value_def row_columns_def)
  moreover have "map2 f xs (map g xs) = map (\<lambda>x. f x (g x)) xs" for f :: "nat \<Rightarrow> byte list \<Rightarrow> int list" and g and xs
    by (induction xs) simp_all
  ultimately show ?thesis
    by (simp add: smk_ord_def row_key_def)
qed

lemma key_ok_columns:
  assumes "schema_ok s" "row_ok s r"
  shows "key_ok s (row_key s r) \<longleftrightarrow> (\<forall>c \<in> set (key_cols_id s). \<exists>v. row_columns s r ! c = Some v \<and> comparable v)"
proof -
  have "row_columns s r ! c = key_value s c (col_bytes s r c)" if "c \<in> set (key_cols_id s)" for c
    using schema_okD(7)[OF assms(1) that] get_column_ok[OF assms] by (simp add: key_value_def row_columns_def)
  then show ?thesis
    using assms(1) by (auto simp: key_ok_def row_key_def list_all2_conv_all_nth all_set_conv_all_nth split: option.splits) (metis option.exhaust)+
qed

lemma row_inv_tbl [simp]: "row_key s (r\<lparr>row_tbl := t\<rparr>) = row_key s r" "row_columns s (r\<lparr>row_tbl := t\<rparr>) = row_columns s r"
  "row_ok s (r\<lparr>row_tbl := t\<rparr>) = row_ok s r"
proof -
  have strs: "row_strs s (r\<lparr>row_tbl := t\<rparr>) = row_strs s r"
    by (simp add: row_strs_def)
  then show "row_key s (r\<lparr>row_tbl := t\<rparr>) = row_key s r"
    using col_bytes_eqI[of s "r\<lparr>row_tbl := t\<rparr>" r] by (simp add: row_key_def)
  show "row_ok s (r\<lparr>row_tbl := t\<rparr>) = row_ok s r"
    by (simp add: row_ok_def)
  have "fixed_part (r\<lparr>row_tbl := t\<rparr>) = fixed_part r" "var_part (r\<lparr>row_tbl := t\<rparr>) = var_part r"
    by simp_all
  then have "get_blob s i (r\<lparr>row_tbl := t\<rparr>) = get_blob s i r" for i
    unfolding get_blob_def by (simp only:)
  then show "row_columns s (r\<lparr>row_tbl := t\<rparr>) = row_columns s r"
    by (simp add: row_columns_def get_column_def)
qed

lemma hp_set_row [simp]: "hp_row (set_row p r h) = (hp_row h)(p := Some r)" "hp_ref (set_row p r h) = hp_ref h"
  by (simp_all add: set_row_def)

lemma tb_lt_upd [simp]: "tb_lt (tb\<lparr>tb_rows := m\<rparr>) = tb_lt tb"
  by (simp add: tb_lt_def fun_eq_iff)

lemma row_inv_upd [simp]: "row_inv (tb\<lparr>tb_rows := m\<rparr>) ms p r = row_inv tb ms p r"
  by (simp add: row_inv_def)

lemma table_insert_ok:
  assumes "table_inv tb h" "hp_row h p = Some r"
  defines "tb' \<equiv> tb\<lparr>tb_rows := mm_insert (tb_lt tb) (row_key (tb_schema tb) r) p (tb_rows tb)\<rparr>"
    and "h' \<equiv> set_row p (r\<lparr>row_tbl := Some (tb_id tb)\<rparr>) h"
  shows "table_insert p tb h = (if p \<in> members tb then None else Some (tb', h'))"
    and "p \<notin> members tb \<Longrightarrow> table_inv tb' h'"
proof -
  note D = table_invD[OF assms(1)] and C = table_keys_ok[OF assms(1)]
  have r: "row_inv tb (members tb) p r"
    using D(6)[OF assms(2)] .
  note R = row_invD[OF r]
  show "table_insert p tb h = (if p \<in> members tb then None else Some (tb', h'))"
    using assms(2) get_key_ok[OF D(1) R(1)] R(3,5)
    by (simp add: table_insert_def set_table_def verify_simps tb'_def h'_def)
  assume p: "p \<notin> members tb"
  show "table_inv tb' h'"
  proof (rule table_invI)
    show "schema_ok (tb_schema tb')" "hidden_not_str (tb_schema tb')"
      using D(1,2) by (simp_all add: tb'_def)
    show "mm_sorted (tb_lt tb') (tb_rows tb')"
      using smk.insert_sorted[OF _ C] D(3) R(4) by (simp add: tb'_def tb_lt_def)
    show "distinct (map snd (tb_rows tb'))"
      using D(4) p by (simp add: tb'_def distinct_mm_insert)
    show "\<exists>r. hp_row h' q = Some r \<and> k = row_key (tb_schema tb') r" if "(k, q) \<in> set (tb_rows tb')" for k q
      using that D(5)[of k q] p assms(2) by (cases "q = p") (auto simp: tb'_def h'_def)
    show "row_inv tb' (members tb') q r' \<and> hp_ref h' q = 1" if "hp_row h' q = Some r'" for q r'
      using that D(6)[of q] D(7)[of q] D(7)[OF assms(2)] R by (cases "q = p") (auto simp: tb'_def h'_def row_inv_def Let_def)
  qed
qed

text \<open>Rows outside the table can be written freely.\<close>

lemma table_inv_write:
  assumes "table_inv tb h" "hp_row h p = Some r" "row_inv tb (members tb) p r'" "p \<in> members tb \<longrightarrow> row_key (tb_schema tb) r' = row_key (tb_schema tb) r"
  shows "table_inv tb (set_row p r' h)"
proof (rule table_invI)
  note D = table_invD[OF assms(1)]
  show "\<exists>r. hp_row (set_row p r' h) q = Some r \<and> k = row_key (tb_schema tb) r" if "(k, q) \<in> set (tb_rows tb)" for k q
    using that D(5)[OF that] assms(2,4) by (cases "q = p") force+
  show "row_inv tb (members tb) q x \<and> hp_ref (set_row p r' h) q = 1" if "hp_row (set_row p r' h) q = Some x" for q x
    using that D(6,7)[of q] D(7)[OF assms(2)] assms(3) by (cases "q = p") auto
qed (use table_invD[OF assms(1)] in simp_all)

definition free_rows :: "nat set \<Rightarrow> heap \<Rightarrow> heap" where
  "free_rows D h = h\<lparr>hp_row := (\<lambda>q. if q \<in> D then None else hp_row h q), hp_ref := (\<lambda>q. if q \<in> D then 0 else hp_ref h q)\<rparr>"

lemma free_rows_empty [simp]: "free_rows {} h = h"
  by (simp add: free_rows_def)

lemma release_free: "hp_row h p = Some r \<Longrightarrow> hp_ref h p = 1 \<Longrightarrow> release p h = Some (free_rows {p} h)"
  by (auto simp: release_def verify_simps free_rows_def fun_eq_iff)

lemma free_rows_insert: "free_rows D (free_rows {p} h) = free_rows (insert p D) h"
  by (auto simp: free_rows_def fun_eq_iff)

definition drop_rows :: "nat set \<Rightarrow> sorted_table \<Rightarrow> sorted_table" where
  "drop_rows D tb = tb\<lparr>tb_rows := filter (\<lambda>e. snd e \<notin> D) (tb_rows tb)\<rparr>"

lemma drop_rows_simps [simp]:
  "tb_schema (drop_rows D tb) = tb_schema tb" "tb_id (drop_rows D tb) = tb_id tb" "tb_sid (drop_rows D tb) = tb_sid tb"
  "members (drop_rows D tb) = members tb - D" "tb_lt (drop_rows D tb) = tb_lt tb" "row_inv (drop_rows D tb) = row_inv tb"
  by (auto simp: drop_rows_def fun_eq_iff)

lemma table_inv_drop:
  assumes "table_inv tb h" "\<And>q. q \<notin> D \<Longrightarrow> hp_row h' q = hp_row h q \<and> hp_ref h' q = hp_ref h q"
    and "\<And>q r. q \<in> D \<Longrightarrow> hp_row h' q = Some r \<Longrightarrow> row_inv tb (members tb - D) q r \<and> hp_ref h' q = 1"
  shows "table_inv (drop_rows D tb) h'"
proof (rule table_invI)
  note D = table_invD[OF assms(1)]
  show "mm_sorted (tb_lt (drop_rows D tb)) (tb_rows (drop_rows D tb))"
    using D(3) by (simp add: drop_rows_def mm_sorted_def sorted_wrt_filter)
  show "distinct (map snd (tb_rows (drop_rows D tb)))"
    using D(4) by (simp add: drop_rows_def distinct_map_filter)
  show "\<exists>r. hp_row h' q = Some r \<and> k = row_key (tb_schema (drop_rows D tb)) r" if "(k, q) \<in> set (tb_rows (drop_rows D tb))" for k q
    using that D(5)[of k q] assms(2)[of q] by (auto simp: drop_rows_def)
  show "row_inv (drop_rows D tb) (members (drop_rows D tb)) q r \<and> hp_ref h' q = 1" if "hp_row h' q = Some r" for q r
    using that assms(2,3)[of q] D(6,7)[of q r] by (cases "q \<in> D") (auto simp: row_inv_def Let_def)
qed (use table_invD[OF assms(1)] in simp_all)

lemma mm_range_one: "j < length m \<Longrightarrow> mm_range j (Suc j) m = [m ! j]"
  by (simp add: mm_range_def take_Suc_conv_app_nth)

lemma table_remove_at_drop:
  assumes "distinct (map snd (tb_rows tb))" "j < length (tb_rows tb)" "snd (tb_rows tb ! j) = p"
  shows "table_remove_at j False tb h = Some (drop_rows {p} tb, h)"
    and "hp_row h p = Some r \<Longrightarrow> hp_ref h p = 1 \<Longrightarrow> table_remove_at j True tb h = Some (drop_rows {p} tb, free_rows {p} h)"
  using assms mm_erase_filter[OF assms(1), of j "Suc j"]
  by (simp_all add: table_remove_at_def drop_rows_def mm_range_one release_free)

lemma table_remove_row_ok:
  assumes "table_inv tb h" "hp_row h p = Some r"
  shows "p \<notin> members tb \<Longrightarrow> table_remove_row p f tb h = Some (tb, h)"
    and "p \<in> members tb \<Longrightarrow> table_remove_row p False tb h = Some (drop_rows {p} tb, set_row p (r\<lparr>row_tbl := None\<rparr>) h)"
    and "p \<in> members tb \<Longrightarrow> table_remove_row p True tb h = Some (drop_rows {p} tb, free_rows {p} h)"
    and "table_inv (drop_rows {p} tb) (set_row p (r\<lparr>row_tbl := None\<rparr>) h)"
    and "table_inv (drop_rows {p} tb) (free_rows {p} h)"
proof -
  note D = table_invD[OF assms(1)] and R = row_invD[OF table_invD(6)[OF assms]]
  note key = get_key_ok[OF D(1) R(1)] and find = find_row_member[OF assms refl]
  show "p \<notin> members tb \<Longrightarrow> table_remove_row p f tb h = Some (tb, h)"
    using find(2) assms(2) key by (simp add: table_remove_row_def)
  have step: "table_remove_row p f tb h = table_remove_at j f tb (set_row p (r\<lparr>row_tbl := None\<rparr>) h)"
    if "find_row p (mm_lower_bound (tb_lt tb) (row_key (tb_schema tb) r) (tb_rows tb))
      (mm_upper_bound (tb_lt tb) (row_key (tb_schema tb) r) (tb_rows tb) - mm_lower_bound (tb_lt tb) (row_key (tb_schema tb) r) (tb_rows tb)) (tb_rows tb) = Some j" for j f
    using that assms(2) key by (simp add: table_remove_row_def set_table_def verify_simps)
  have free: "free_rows {p} (set_row p x h) = free_rows {p} h" for x
    by (auto simp: free_rows_def fun_eq_iff set_row_def)
  show "p \<in> members tb \<Longrightarrow> table_remove_row p False tb h = Some (drop_rows {p} tb, set_row p (r\<lparr>row_tbl := None\<rparr>) h)"
    using find(1) step table_remove_at_drop(1)[OF D(4)] by metis
  show "p \<in> members tb \<Longrightarrow> table_remove_row p True tb h = Some (drop_rows {p} tb, free_rows {p} h)"
  proof -
    assume "p \<in> members tb"
    then obtain j where "j < length (tb_rows tb)" "snd (tb_rows tb ! j) = p"
        "table_remove_row p True tb h = table_remove_at j True tb (set_row p (r\<lparr>row_tbl := None\<rparr>) h)"
      using find(1) step by blast
    then show ?thesis
      using table_remove_at_drop(2)[OF D(4), of j p "set_row p (r\<lparr>row_tbl := None\<rparr>) h"] D(7)[OF assms(2)] by (simp add: free)
  qed
  show "table_inv (drop_rows {p} tb) (set_row p (r\<lparr>row_tbl := None\<rparr>) h)"
    by (rule table_inv_drop[OF assms(1)]) (use R D(7)[OF assms(2)] in \<open>auto simp: row_inv_def Let_def split: if_splits\<close>)
  show "table_inv (drop_rows {p} tb) (free_rows {p} h)"
    by (rule table_inv_drop[OF assms(1)]) (auto simp: free_rows_def)
qed

text \<open>Removing a range of entries.\<close>

lemma release_all_free:
  assumes "distinct ps" "\<forall>p \<in> set ps. \<exists>r. hp_row h p = Some r \<and> hp_ref h p = 1"
  shows "release_all ps h = Some (free_rows (set ps) h)"
  using assms
proof (induction ps arbitrary: h)
  case (Cons p ps)
  have "\<forall>q \<in> set ps. \<exists>r. hp_row (free_rows {p} h) q = Some r \<and> hp_ref (free_rows {p} h) q = 1"
    using Cons.prems by (auto simp: free_rows_def)
  then show ?case
    using Cons.IH[of "free_rows {p} h"] Cons.prems release_free by (auto simp: free_rows_insert)
qed simp

lemma release_all_keeps:
  assumes "distinct ps" "\<forall>p \<in> set ps. hp_row h p \<noteq> None \<and> hp_ref h p > 0"
  shows "\<exists>h'. release_all ps h = Some h' \<and> (hp_ref h q > 1 \<or> q \<notin> set ps \<longrightarrow> hp_row h' q = hp_row h q)"
  using assms
proof (induction ps arbitrary: h)
  case (Cons p ps)
  have "\<exists>h1. release p h = Some h1 \<and> (\<forall>x. x \<noteq> p \<or> hp_ref h p > 1 \<longrightarrow> hp_row h1 x = hp_row h x) \<and> (\<forall>x. x \<noteq> p \<longrightarrow> hp_ref h1 x = hp_ref h x)"
    using Cons.prems(2) by (auto simp: release_def verify_simps Let_def)
  then obtain h1 where h1: "release p h = Some h1" "\<And>x. x \<noteq> p \<or> hp_ref h p > 1 \<Longrightarrow> hp_row h1 x = hp_row h x" "\<And>x. x \<noteq> p \<Longrightarrow> hp_ref h1 x = hp_ref h x"
    by blast
  have "\<forall>x \<in> set ps. hp_row h1 x \<noteq> None \<and> hp_ref h1 x > 0"
  proof
    fix x
    assume x: "x \<in> set ps"
    then have "x \<noteq> p"
      using Cons.prems(1) by auto
    then show "hp_row h1 x \<noteq> None \<and> hp_ref h1 x > 0"
      using Cons.prems(2) h1(2,3) x by simp
  qed
  then obtain h' where "release_all ps h1 = Some h'" "hp_ref h1 q > 1 \<or> q \<notin> set ps \<longrightarrow> hp_row h' q = hp_row h1 q"
    using Cons.IH[of h1] Cons.prems(1) by auto
  then show ?case
    using h1 Cons.prems(1) by (cases "q = p") auto
qed simp

lemma table_remove_n_release:
  assumes "a + n \<le> length (tb_rows tb)"
  shows "table_remove_n a n tb h = map_option (\<lambda>h'. (tb\<lparr>tb_rows := mm_erase_range a (a + n) (tb_rows tb)\<rparr>, h'))
    (release_all (map snd (mm_range a (a + n) (tb_rows tb))) h)"
  using assms
proof (induction n arbitrary: tb h)
  case 0
  then show ?case by (simp add: mm_range_def mm_erase_range_def)
next
  case (Suc n)
  let ?m = "tb_rows tb" and ?tb = "tb\<lparr>tb_rows := mm_erase_range a (Suc a) (tb_rows tb)\<rparr>"
  have al: "a < length ?m"
    using Suc.prems by simp
  have rg: "mm_range a (a + Suc n) ?m = ?m ! a # mm_range (Suc a) (a + Suc n) ?m"
    using al Suc.prems by (simp add: mm_range_def Cons_nth_drop_Suc[symmetric])
  have rows: "mm_range a (a + n) (tb_rows ?tb) = mm_range (Suc a) (a + Suc n) ?m"
    "mm_erase_range a (a + n) (tb_rows ?tb) = mm_erase_range a (a + Suc n) ?m"
    using al by (simp_all add: mm_range_def mm_erase_range_def drop_take add.commute)
  have IH: "table_remove_n a n ?tb h' = map_option (\<lambda>h'. (?tb\<lparr>tb_rows := mm_erase_range a (a + n) (tb_rows ?tb)\<rparr>, h'))
      (release_all (map snd (mm_range a (a + n) (tb_rows ?tb))) h')" for h'
    using Suc.prems by (intro Suc.IH) (simp add: mm_erase_range_def)
  show ?case
    using IH al unfolding rows rg by (cases "release (snd (?m ! a)) h") (simp_all add: table_remove_at_def)
qed

lemma table_remove_range_ok:
  assumes "table_inv tb h" "a \<le> b" "b \<le> length (tb_rows tb)"
  defines "E \<equiv> snd ` set (mm_range a b (tb_rows tb))"
  shows "table_remove_n a (b - a) tb h = Some (drop_rows E tb, free_rows E h)" "table_inv (drop_rows E tb) (free_rows E h)"
proof -
  note D = table_invD[OF assms(1)]
  have "\<exists>r. hp_row h p = Some r \<and> hp_ref h p = 1" if "p \<in> E" for p
  proof -
    obtain k where "(k, p) \<in> set (tb_rows tb)"
      using \<open>p \<in> E\<close> by (auto simp: E_def mm_range_def dest!: in_set_dropD in_set_takeD)
    then show ?thesis
      using D(5,7) by blast
  qed
  moreover have "distinct (map snd (mm_range a b (tb_rows tb)))"
    using D(4) unfolding mm_range_def by (simp add: drop_map[symmetric] take_map[symmetric])
  ultimately have "release_all (map snd (mm_range a b (tb_rows tb))) h = Some (free_rows E h)"
    using release_all_free[of "map snd (mm_range a b (tb_rows tb))" h] by (simp add: E_def)
  then show "table_remove_n a (b - a) tb h = Some (drop_rows E tb, free_rows E h)"
    using table_remove_n_release[of a "b - a" tb h] assms(2,3) mm_erase_filter[OF D(4) assms(2)] by (simp add: E_def drop_rows_def)
  show "table_inv (drop_rows E tb) (free_rows E h)"
    by (rule table_inv_drop[OF assms(1)]) (auto simp: free_rows_def)
qed

lemma update_write_columns:
  assumes "schema_ok s" "row_ok s r" "i < length (col_info s)" "get_kind v = ci_type (col_info s ! i)" "value_bytes v = Some new"
  shows "\<exists>r'. update_write s i v r = Some r' \<and> row_ok s r' \<and> row_tbl r' = row_tbl r \<and> rdonly r' = rdonly r \<and> row_sid r' = row_sid r
    \<and> row_columns s r' = (row_columns s r)[i := Some v] \<and> (i \<notin> set (key_cols_id s) \<longrightarrow> row_key s r' = row_key s r)
    \<and> (key_ok s (row_key s r) \<and> comparable v \<longrightarrow> key_ok s (row_key s r'))"
proof -
  obtain r' where r': "update_write s i v r = Some r'" "row_ok s r'" "row_tbl r' = row_tbl r" "rdonly r' = rdonly r" "row_sid r' = row_sid r"
      "\<And>j. j < length (col_info s) \<Longrightarrow> col_bytes s r' j = (if j = i then new else col_bytes s r j)"
    using update_write_ok[OF assms] by blast
  have cols: "row_columns s r' = (row_columns s r)[i := Some v]"
    using r'(6) get_column_ok[OF assms(1) r'(2)] get_column_ok[OF assms(1,2)] read_value_bytes[OF assms(5)] assms(3,4)
    by (intro nth_equalityI) (auto simp: row_columns_def nth_list_update)
  moreover have "row_key s r' = row_key s r" if "i \<notin> set (key_cols_id s)"
    using r'(6) schema_okD(7)[OF assms(1)] that by (auto simp: row_key_def)
  moreover have "key_ok s (row_key s r')" if "key_ok s (row_key s r)" "comparable v"
    using that unfolding key_ok_columns[OF assms(1) r'(2)] key_ok_columns[OF assms(1,2)] cols
    using assms(3) by (auto simp: nth_list_update row_columns_def)
  ultimately show ?thesis
    using r' by blast
qed

lemma table_row_reinsert:
  assumes "table_inv tb h" "hp_row h p = Some r" "i < length (col_info (tb_schema tb))" "get_kind v = ci_type (col_info (tb_schema tb) ! i)"
    and "comparable v" "value_bytes v = Some new" "col_bytes (tb_schema tb) r i \<noteq> new" "ci_indexed (col_info (tb_schema tb) ! i)" "p \<in> members tb"
    and "update_same (tb_schema tb) i v r = Some False"
  shows "\<exists>tb' h' r'. table_row_update p i v tb h = Some (tb', h') \<and> table_inv tb' h' \<and> members tb' = members tb
    \<and> tb_schema tb' = tb_schema tb \<and> tb_id tb' = tb_id tb \<and> tb_sid tb' = tb_sid tb \<and> hp_row h' = (hp_row h)(p := Some r')
    \<and> row_columns (tb_schema tb) r' = (row_columns (tb_schema tb) r)[i := Some v]"
proof -
  let ?s = "tb_schema tb"
  note D = table_invD[OF assms(1)] and R = row_invD[OF table_invD(6)[OF assms(1,2)]]
  let ?r0 = "r\<lparr>row_tbl := None\<rparr>" and ?tb1 = "drop_rows {p} tb"
  note rm = table_remove_row_ok[OF assms(1,2)]
  obtain r2 where r2: "update_write ?s i v ?r0 = Some r2" "row_ok ?s r2" "row_tbl r2 = None" "\<not> rdonly r2" "row_sid r2 = tb_sid tb"
      "row_columns ?s r2 = (row_columns ?s r)[i := Some v]" "key_ok ?s (row_key ?s r2)"
    using update_write_columns[OF D(1) _ assms(3,4,6), of ?r0] R assms(5) by auto
  have inv1: "table_inv ?tb1 (set_row p r2 (set_row p ?r0 h))"
    using table_inv_write[OF rm(4), of p ?r0 r2] r2 by (simp add: row_inv_def Let_def)
  have p1: "hp_row (set_row p r2 (set_row p ?r0 h)) p = Some r2" "p \<notin> members ?tb1"
    by simp_all
  note ins = table_insert_ok[OF inv1 p1(1)]
  have upd: "table_row_update p i v tb h = table_insert p ?tb1 (set_row p r2 (set_row p ?r0 h))"
    using assms(2,3,8,9,10) r2(1) R(5) rm(2) by (simp add: table_row_update_def verify_simps get_column_info_def)
  have mem: "members (?tb1\<lparr>tb_rows := mm_insert lt k p (tb_rows ?tb1)\<rparr>) = members tb" for lt k
    using assms(9) drop_rows_simps(4)[of "{p}" tb] by auto
  show ?thesis
    using upd ins(1) ins(2)[OF p1(2)] p1(2) r2(6) mem
    by (intro exI[of _ "?tb1\<lparr>tb_rows := mm_insert (tb_lt ?tb1) (row_key (tb_schema ?tb1) r2) p (tb_rows ?tb1)\<rparr>"]
        exI[of _ "set_row p (r2\<lparr>row_tbl := Some (tb_id ?tb1)\<rparr>) (set_row p r2 (set_row p ?r0 h))"] exI[of _ "r2\<lparr>row_tbl := Some (tb_id ?tb1)\<rparr>"]) simp
qed

lemma table_row_update_ok:
  assumes "table_inv tb h" "hp_row h p = Some r" "i < length (col_info (tb_schema tb))" "get_kind v = ci_type (col_info (tb_schema tb) ! i)"
    and "comparable v"
  shows "\<exists>tb' h' r'. table_row_update p i v tb h = Some (tb', h') \<and> table_inv tb' h' \<and> members tb' = members tb
    \<and> tb_schema tb' = tb_schema tb \<and> tb_id tb' = tb_id tb \<and> tb_sid tb' = tb_sid tb \<and> hp_row h' = (hp_row h)(p := Some r')
    \<and> row_columns (tb_schema tb) r' = (row_columns (tb_schema tb) r)[i := Some v]"
proof -
  let ?s = "tb_schema tb"
  note D = table_invD[OF assms(1)] and R = row_invD[OF table_invD(6)[OF assms(1,2)]]
  obtain new where new: "value_bytes v = Some new"
    using schema_pos(2)[OF D(1) assms(3)] assms(4) by (cases v) auto
  obtain r' where r': "update_write ?s i v r = Some r'" "row_ok ?s r'" "row_tbl r' = row_tbl r" "rdonly r' = rdonly r" "row_sid r' = row_sid r"
      "row_columns ?s r' = (row_columns ?s r)[i := Some v]" "i \<notin> set (key_cols_id ?s) \<Longrightarrow> row_key ?s r' = row_key ?s r" "key_ok ?s (row_key ?s r')"
    using update_write_columns[OF D(1) R(1) assms(3,4) new] R(4) assms(5) by blast
  have same: "update_same ?s i v r = Some (col_bytes ?s r i = new)"
    using get_blob_ok[OF D(1) R(1) assms(3)] R(2) assms(3,4) new by (simp add: update_same_def get_column_info_def verify_simps)
  have info: "get_column_info i ?s = Some (col_info ?s ! i)"
    using assms(3) by (simp add: get_column_info_def)
  consider (same) "col_bytes ?s r i = new" | (plain) "col_bytes ?s r i \<noteq> new" "\<not> (ci_indexed (col_info ?s ! i) \<and> p \<in> members tb)"
    | (re) "col_bytes ?s r i \<noteq> new" "ci_indexed (col_info ?s ! i)" "p \<in> members tb"
    by blast
  then show ?thesis
  proof cases
    case same
    have "row_columns ?s r = (row_columns ?s r)[i := Some v]"
      using get_column_ok[OF D(1) R(1) assms(3)] read_value_bytes[OF new] same assms(3,4)
      by (intro nth_equalityI) (auto simp: row_columns_def nth_list_update)
    then show ?thesis
      using assms(1,2) \<open>update_same _ _ _ _ = _\<close> same info by (intro exI[of _ tb] exI[of _ h] exI[of _ r]) (auto simp: table_row_update_def)
  next
    case plain
    then have "table_row_update p i v tb h = Some (tb, set_row p r' h)"
      using assms(2) same info r'(1) R(5) by (auto simp: table_row_update_def)
    moreover have "p \<in> members tb \<longrightarrow> row_key ?s r' = row_key ?s r"
      using plain(2) schema_okD(8)[OF D(1)] r'(7) by blast
    moreover have "row_inv tb (members tb) p r'"
      using r' R by (simp add: row_inv_def Let_def)
    ultimately show ?thesis
      using table_inv_write[OF assms(1,2)] r'(6) by fastforce
  next
    case re
    then show ?thesis
      using table_row_reinsert[OF assms(1-5) new re] same by simp
  qed
qed

subsection \<open>Queries\<close>

datatype query = QEq key | QLt key symbol | QGt key symbol | QIn key key symbol | QAll symbol

fun table_find :: "query \<Rightarrow> sorted_table \<Rightarrow> cursor option" where
  "table_find (QEq k) tb = table_query k tb"
| "table_find (QLt k ord) tb = table_query_lt k ord tb"
| "table_find (QGt k ord) tb = table_query_gt k ord tb"
| "table_find (QIn lo hi ord) tb = table_query_in lo hi ord tb"
| "table_find (QAll ord) tb = table_all ord tb"

fun query_keys :: "query \<Rightarrow> key list" where
  "query_keys (QEq k) = [k]"
| "query_keys (QLt k ord) = [k]"
| "query_keys (QGt k ord) = [k]"
| "query_keys (QIn lo hi ord) = [lo, hi]"
| "query_keys (QAll ord) = []"

text \<open>What a query means: which keys it asks for, in which direction, and which queries are accepted.\<close>

fun query_sel :: "'a schema_scheme \<Rightarrow> query \<Rightarrow> int list list \<Rightarrow> bool" where
  "query_sel s (QEq k) x = (x = smk_ord s k)"
| "query_sel s (QLt k ord) x = (x < smk_ord s k)"
| "query_sel s (QGt k ord) x = (smk_ord s k < x)"
| "query_sel s (QIn lo hi ord) x = (smk_ord s lo < x \<and> x < smk_ord s hi)"
| "query_sel s (QAll ord) x = True"

fun query_order :: "query \<Rightarrow> symbol" where
  "query_order (QEq k) = ORD_ASC"
| "query_order (QLt k ord) = ord"
| "query_order (QGt k ord) = ord"
| "query_order (QIn lo hi ord) = ord"
| "query_order (QAll ord) = ord"

definition query_valid :: "'a schema_scheme \<Rightarrow> query \<Rightarrow> bool" where
  "query_valid s q \<longleftrightarrow> (\<forall>k \<in> set (query_keys q). length k = length (key_cols_id s)) \<and> query_order q \<in> {ORD_ASC, ORD_DESC, ORD_ANY}
     \<and> (case q of QIn lo hi ord \<Rightarrow> smk_ord s lo < smk_ord s hi | _ \<Rightarrow> True)"

text \<open>The keys of a query are without a NaN.\<close>

definition query_ok :: "'a schema_scheme \<Rightarrow> query \<Rightarrow> bool" where
  "query_ok s q \<longleftrightarrow> (\<forall>k \<in> set (query_keys q). length k = length (key_cols_id s) \<longrightarrow> key_ok s k)"

lemma exI2: "P a b \<Longrightarrow> \<exists>a b. P a b"
  by blast

lemma table_find_ok:
  assumes "table_inv tb h" "query_ok (tb_schema tb) q"
  shows "\<not> query_valid (tb_schema tb) q \<Longrightarrow> table_find q tb = None"
    and "query_valid (tb_schema tb) q \<Longrightarrow> \<exists>a b. a \<le> b \<and> b \<le> length (tb_rows tb) \<and> table_find q tb = Some (cursor_new (query_order q = ORD_DESC) a b (tb_rows tb))
      \<and> mm_range a b (tb_rows tb) = filter (\<lambda>e. query_sel (tb_schema tb) q (smk_ord (tb_schema tb) (fst e))) (tb_rows tb)"
proof -
  let ?s = "tb_schema tb" and ?m = "tb_rows tb"
  note C = table_keys_ok[OF assms(1)]
  have srt: "mm_sorted (smk_less ?s) ?m"
    using table_invD(3)[OF assms(1)] by (simp add: tb_lt_def)
  have lts: "smk_less ?s (fst e) k \<longleftrightarrow> smk_ord ?s (fst e) < smk_ord ?s k" "smk_less ?s k (fst e) \<longleftrightarrow> smk_ord ?s k < smk_ord ?s (fst e)"
    if "e \<in> set ?m" "key_ok ?s k" for e k
    using that C smk_less_ord by blast+
  show "table_find q tb = None" if "\<not> query_valid ?s q"
    using that assms(2) by (cases q) (auto simp: query_valid_def query_ok_def table_query_def table_query_lt_def table_query_gt_def
        table_query_in_def table_all_def smk_new_def verify_order_def tb_lt_def smk_less_ord verify_simps)
  have low: "take (mm_lower_bound (smk_less ?s) k ?m) ?m = filter (\<lambda>e. smk_ord ?s (fst e) < smk_ord ?s k) ?m"
    "drop (mm_upper_bound (smk_less ?s) k ?m) ?m = filter (\<lambda>e. smk_ord ?s k < smk_ord ?s (fst e)) ?m" if "key_ok ?s k" for k
    using smk.take_lower[OF srt C] smk.drop_upper[OF srt C] that lts by (auto intro!: filter_cong)
  have bounds: "mm_lower_bound lt k ?m \<le> length ?m" "mm_upper_bound lt k ?m \<le> length ?m" for lt k
    by (simp_all add: mm_lower_bound_def mm_upper_bound_def length_takeWhile_le)
  show "\<exists>a b. a \<le> b \<and> b \<le> length ?m \<and> table_find q tb = Some (cursor_new (query_order q = ORD_DESC) a b ?m)
      \<and> mm_range a b ?m = filter (\<lambda>e. query_sel ?s q (smk_ord ?s (fst e))) ?m" if v: "query_valid ?s q"
  proof (cases q)
    case (QEq k)
    then show ?thesis
      using tb_equal_range[OF assms(1), of k] v assms(2)
      by (intro exI2[of _ "mm_lower_bound (tb_lt tb) k ?m" "mm_upper_bound (tb_lt tb) k ?m"])
        (simp add: query_valid_def query_ok_def table_query_def smk_new_def verify_simps Let_def)
  next
    case (QLt k ord)
    then show ?thesis
      using low(1)[of k] bounds v assms(2)
      by (intro exI2[of _ 0 "mm_lower_bound (tb_lt tb) k ?m"])
        (auto simp: query_valid_def query_ok_def table_query_lt_def smk_new_def verify_order_def mm_range_def tb_lt_def verify_simps Let_def)
  next
    case (QGt k ord)
    then show ?thesis
      using low(2)[of k] bounds v assms(2)
      by (intro exI2[of _ "mm_upper_bound (tb_lt tb) k ?m" "length ?m"])
        (auto simp: query_valid_def query_ok_def table_query_gt_def smk_new_def verify_order_def mm_range_def tb_lt_def verify_simps Let_def)
  next
    case (QIn lo hi ord)
    then have k: "key_ok ?s lo" "key_ok ?s hi" "smk_less ?s lo hi"
      using v assms(2) by (auto simp: query_valid_def query_ok_def smk_less_ord)
    have "mm_range (mm_upper_bound (smk_less ?s) lo ?m) (mm_lower_bound (smk_less ?s) hi ?m) ?m
        = filter (\<lambda>e. smk_ord ?s lo < smk_ord ?s (fst e) \<and> smk_ord ?s (fst e) < smk_ord ?s hi) ?m"
      using smk.open_range[OF srt C, of lo hi] k lts by (auto intro!: filter_cong)
    then show ?thesis
      using smk.upper_le_lower[OF srt C, of lo hi] bounds v k QIn
      by (intro exI2[of _ "mm_upper_bound (tb_lt tb) lo ?m" "mm_lower_bound (tb_lt tb) hi ?m"])
        (auto simp: query_valid_def table_query_in_def smk_new_def verify_order_def tb_lt_def verify_simps Let_def)
  next
    case (QAll ord)
    then show ?thesis
      using v by (intro exI2[of _ 0 "length ?m"])
        (auto simp: query_valid_def table_all_def verify_order_def mm_range_def verify_simps Let_def)
  qed
qed

subsection \<open>Tables as sets of rows\<close>

datatype table_op =
    TNew nat "mvalue list"
  | TInsert nat
  | TUpdate nat nat mvalue
  | TRemoveKey key
  | TRemoveRow nat
  | TRemoveCursor query
  | TClear

text \<open>The calls of a program that works with one table and keeps no further references to its rows.\<close>

fun table_step :: "table_op \<Rightarrow> sorted_table \<times> heap \<Rightarrow> (sorted_table \<times> heap) option" where
  "table_step (TNew p vs) (tb, h) = do {
     r \<leftarrow> row_create_list (tb_sid tb) (tb_schema tb) vs;
     h' \<leftarrow> row_alloc p r h;
     Some (tb, h')
   }"
| "table_step (TInsert p) (tb, h) = table_insert p tb h"
| "table_step (TUpdate p i v) (tb, h) = table_row_update p i v tb h"
| "table_step (TRemoveKey k) (tb, h) = table_remove_key k tb h"
| "table_step (TRemoveRow p) (tb, h) = table_remove_row p True tb h"
| "table_step (TRemoveCursor q) (tb, h) = do { c \<leftarrow> table_find q tb; table_remove_cursor c tb h }"
| "table_step TClear (tb, h) = table_clear tb h"

fun table_run :: "table_op list \<Rightarrow> sorted_table \<times> heap \<Rightarrow> (sorted_table \<times> heap) option" where
  "table_run [] st = Some st"
| "table_run (a # as) st = Option.bind (table_step a st) (table_run as)"

text \<open>The specification: the set of the rows in the table and the values of the columns of every row.\<close>

record table_view =
  tv_in :: "nat set"
  tv_cols :: "nat \<Rightarrow> mvalue option list option"

definition tview :: "sorted_table \<times> heap \<Rightarrow> table_view" where
  "tview st = (case st of (tb, h) \<Rightarrow> \<lparr>tv_in = members tb, tv_cols = (\<lambda>p. map_option (row_columns (tb_schema tb)) (hp_row h p))\<rparr>)"

definition cols_ord :: "'a schema_scheme \<Rightarrow> mvalue option list \<Rightarrow> int list list" where
  "cols_ord s cs = map (\<lambda>c. case cs ! c of Some v \<Rightarrow> value_ord v | None \<Rightarrow> []) (key_cols_id s)"

definition init_cols :: "'a schema_scheme \<Rightarrow> mvalue list \<Rightarrow> mvalue option list" where
  "init_cols s vs = map Some vs @ map (\<lambda>c. read_binary (ci_type c) (replicate (fixed_size (ci_type c)) 0)) (drop (length vs) (col_info s))"

definition view_sel :: "'a schema_scheme \<Rightarrow> query \<Rightarrow> table_view \<Rightarrow> nat set" where
  "view_sel s q v = {p \<in> tv_in v. \<exists>cs. tv_cols v p = Some cs \<and> query_sel s q (cols_ord s cs)}"

definition view_remove :: "nat set \<Rightarrow> table_view \<Rightarrow> table_view" where
  "view_remove E v = \<lparr>tv_in = tv_in v - E, tv_cols = (\<lambda>p. if p \<in> E then None else tv_cols v p)\<rparr>"

fun view_step :: "'a schema_scheme \<Rightarrow> table_op \<Rightarrow> table_view \<Rightarrow> table_view option" where
  "view_step s (TNew p vs) v = (if tv_cols v p = None then Some (v\<lparr>tv_cols := (tv_cols v)(p := Some (init_cols s vs))\<rparr>) else None)"
| "view_step s (TInsert p) v = (if tv_cols v p \<noteq> None \<and> p \<notin> tv_in v then Some (v\<lparr>tv_in := insert p (tv_in v)\<rparr>) else None)"
| "view_step s (TUpdate p i x) v = (case tv_cols v p of
     Some cs \<Rightarrow> if i < length (col_info s) \<and> get_kind x = ci_type (col_info s ! i)
       then Some (v\<lparr>tv_cols := (tv_cols v)(p := Some (cs[i := Some x]))\<rparr>) else None
   | None \<Rightarrow> None)"
| "view_step s (TRemoveKey k) v = (if length k = length (key_cols_id s) then Some (view_remove (view_sel s (QEq k) v) v) else None)"
| "view_step s (TRemoveRow p) v = (if tv_cols v p = None then None else Some (if p \<in> tv_in v then view_remove {p} v else v))"
| "view_step s (TRemoveCursor q) v = (if query_valid s q \<and> query_order q \<noteq> ORD_DESC then Some (view_remove (view_sel s q v) v) else None)"
| "view_step s TClear v = Some (view_remove (tv_in v) v)"

fun view_run :: "'a schema_scheme \<Rightarrow> table_op list \<Rightarrow> table_view \<Rightarrow> table_view option" where
  "view_run s [] v = Some v"
| "view_run s (a # as) v = Option.bind (view_step s a v) (view_run s as)"

text \<open>Calls without a NaN, whose new rows have values of the kinds of the columns.\<close>

fun op_ok :: "'a schema_scheme \<Rightarrow> table_op \<Rightarrow> bool" where
  "op_ok s (TNew p vs) = (length vs = columns_count s \<and> kinds_match s vs \<and> (\<forall>v \<in> set vs. comparable v))"
| "op_ok s (TUpdate p i v) = comparable v"
| "op_ok s (TRemoveKey k) = query_ok s (QEq k)"
| "op_ok s (TRemoveCursor q) = query_ok s q"
| "op_ok s _ = True"

lemma view_sel_rows:
  assumes "table_inv tb h"
  shows "snd ` set (filter (\<lambda>e. query_sel (tb_schema tb) q (smk_ord (tb_schema tb) (fst e))) (tb_rows tb)) = view_sel (tb_schema tb) q (tview (tb, h))"
proof -
  note D = table_invD[OF assms]
  have ord: "\<exists>r. hp_row h p = Some r \<and> smk_ord (tb_schema tb) k = cols_ord (tb_schema tb) (row_columns (tb_schema tb) r)"
    if "(k, p) \<in> set (tb_rows tb)" for k p
    using D(5)[OF that] D(6) row_invD(1) smk_ord_row_key[OF D(1)] by (fastforce simp: cols_ord_def)
  show ?thesis
  proof (intro set_eqI iffI)
    fix p
    assume "p \<in> snd ` set (filter (\<lambda>e. query_sel (tb_schema tb) q (smk_ord (tb_schema tb) (fst e))) (tb_rows tb))"
    then obtain k where k: "(k, p) \<in> set (tb_rows tb)" "query_sel (tb_schema tb) q (smk_ord (tb_schema tb) k)"
      by auto
    then show "p \<in> view_sel (tb_schema tb) q (tview (tb, h))"
      using ord[OF k(1)] by (force simp: view_sel_def tview_def)
  next
    fix p
    assume "p \<in> view_sel (tb_schema tb) q (tview (tb, h))"
    then obtain r k where "(k, p) \<in> set (tb_rows tb)" "hp_row h p = Some r"
        "query_sel (tb_schema tb) q (cols_ord (tb_schema tb) (row_columns (tb_schema tb) r))"
      by (auto simp: view_sel_def tview_def)
    then show "p \<in> snd ` set (filter (\<lambda>e. query_sel (tb_schema tb) q (smk_ord (tb_schema tb) (fst e))) (tb_rows tb))"
      using ord[of k p] by force
  qed
qed

lemma tview_drop: "tview (drop_rows E tb, free_rows E h) = view_remove E (tview (tb, h))"
  by (auto simp: tview_def view_remove_def free_rows_def fun_eq_iff)

lemma row_create_view:
  assumes "schema_ok s" "hidden_not_str s" "length vs = columns_count s" "kinds_match s vs" "\<forall>v \<in> set vs. comparable v"
  shows "\<exists>r. row_create_list sid s vs = Some r \<and> row_ok s r \<and> row_tbl r = None \<and> \<not> rdonly r \<and> row_sid r = sid
    \<and> row_columns s r = init_cols s vs \<and> key_ok s (row_key s r)"
proof -
  have "\<forall>i < length (col_info s). length vs \<le> i \<longrightarrow> ci_type (col_info s ! i) \<noteq> KSTR"
    using assms(2,3) by (simp add: hidden_not_str_def)
  then obtain r where r: "row_create sid s vs = Some r" "row_ok s r" "row_tbl r = None" "\<not> rdonly r" "row_sid r = sid"
      "\<And>i. i < length vs \<Longrightarrow> value_bytes (vs ! i) = Some (col_bytes s r i)"
      "\<And>i. i < length (col_info s) \<Longrightarrow> length vs \<le> i \<Longrightarrow> col_bytes s r i = replicate (fixed_size (ci_type (col_info s ! i))) 0"
    using row_create_ok[OF assms(1,4), of sid] by blast
  have vis: "get_column s i r = Some (vs ! i)" if "i < length vs" for i
    using get_column_ok[OF assms(1) r(2), of i] read_value_bytes[OF r(6)[OF that]] that assms(4) by (simp add: kinds_match_def)
  have len: "length vs \<le> length (col_info s)"
    using assms(4) by (simp add: kinds_match_def)
  have cols: "row_columns s r = init_cols s vs"
    using vis r(7) get_column_ok[OF assms(1) r(2)] len
    by (intro nth_equalityI) (auto simp: row_columns_def init_cols_def nth_append)
  have "row_columns s r ! c = Some (vs ! c) \<and> comparable (vs ! c)" if "c \<in> set (key_cols_id s)" for c
    using schema_okD(10)[OF assms(1) that] assms(3,5) cols by (simp add: init_cols_def nth_append)
  then show ?thesis
    using r cols assms(3) key_ok_columns[OF assms(1) r(2)] by (intro exI[of _ r]) (auto simp: row_create_list_def verify_simps)
qed

definition refines_at :: "table_op \<Rightarrow> sorted_table \<Rightarrow> heap \<Rightarrow> bool" where
  "refines_at a tb h \<longleftrightarrow> (case table_step a (tb, h) of
     None \<Rightarrow> view_step (tb_schema tb) a (tview (tb, h)) = None
   | Some (tb', h') \<Rightarrow> view_step (tb_schema tb) a (tview (tb, h)) = Some (tview (tb', h')) \<and> table_inv tb' h' \<and> tb_schema tb' = tb_schema tb)"

lemma refines_new:
  assumes "table_inv tb h" "op_ok (tb_schema tb) (TNew p vs)"
  shows "refines_at (TNew p vs) tb h"
proof -
  note D = table_invD[OF assms(1)]
  obtain r where r: "row_create_list (tb_sid tb) (tb_schema tb) vs = Some r" "row_ok (tb_schema tb) r" "row_tbl r = None" "\<not> rdonly r"
      "row_sid r = tb_sid tb" "row_columns (tb_schema tb) r = init_cols (tb_schema tb) vs" "key_ok (tb_schema tb) (row_key (tb_schema tb) r)"
    using row_create_view[OF D(1,2), of vs "tb_sid tb"] assms(2) by auto
  show ?thesis
  proof (cases "hp_row h p")
    case None
    let ?h = "h\<lparr>hp_row := (hp_row h)(p := Some r), hp_ref := (hp_ref h)(p := 1)\<rparr>"
    have p: "p \<notin> members tb"
      using D(5) None by fastforce
    have "table_inv tb ?h"
    proof (rule table_invI)
      show "\<exists>r. hp_row ?h q = Some r \<and> k = row_key (tb_schema tb) r" if "(k, q) \<in> set (tb_rows tb)" for k q
        using that D(5)[OF that] None by (cases "q = p") auto
      show "row_inv tb (members tb) q x \<and> hp_ref ?h q = 1" if "hp_row ?h q = Some x" for q x
        using that D(6,7)[of q] r p by (cases "q = p") (auto simp: row_inv_def Let_def)
    qed (use D in simp_all)
    then show ?thesis
      using r(1,6) None by (auto simp: refines_at_def row_alloc_def verify_simps tview_def fun_eq_iff)
  qed (use r(1) in \<open>simp add: refines_at_def row_alloc_def verify_simps tview_def\<close>)
qed

lemma refines_insert:
  assumes "table_inv tb h"
  shows "refines_at (TInsert p) tb h"
proof (cases "hp_row h p")
  case (Some r)
  note ins = table_insert_ok[OF assms Some]
  show ?thesis
    using ins Some by (cases "p \<in> members tb") (auto simp: refines_at_def tview_def fun_eq_iff)
qed (simp add: refines_at_def table_insert_def tview_def)

lemma refines_update:
  assumes "table_inv tb h" "comparable v"
  shows "refines_at (TUpdate p i v) tb h"
proof (cases "hp_row h p")
  case (Some r)
  show ?thesis
  proof (cases "i < length (col_info (tb_schema tb)) \<and> get_kind v = ci_type (col_info (tb_schema tb) ! i)")
    case True
    then obtain tb' h' r' where u: "table_row_update p i v tb h = Some (tb', h')" "table_inv tb' h'" "members tb' = members tb"
        "tb_schema tb' = tb_schema tb" "hp_row h' = (hp_row h)(p := Some r')"
        "row_columns (tb_schema tb) r' = (row_columns (tb_schema tb) r)[i := Some v]"
      using table_row_update_ok[OF assms(1) Some _ _ assms(2), of i] by blast
    then have "tview (tb', h') = (tview (tb, h))\<lparr>tv_cols := (tv_cols (tview (tb, h)))(p := Some ((row_columns (tb_schema tb) r)[i := Some v]))\<rparr>"
      by (auto simp: tview_def fun_eq_iff)
    moreover have "tv_cols (tview (tb, h)) p = Some (row_columns (tb_schema tb) r)"
      using Some by (simp add: tview_def)
    ultimately show ?thesis
      using u(1,2,4) True by (simp add: refines_at_def)
  next
    case False
    then have "table_row_update p i v tb h = None"
      using Some by (auto simp: table_row_update_def update_same_def get_column_info_def verify_simps)
    then show ?thesis
      using False Some by (auto simp: refines_at_def tview_def)
  qed
qed (simp add: refines_at_def table_row_update_def tview_def)

lemma refines_remove_row:
  assumes "table_inv tb h"
  shows "refines_at (TRemoveRow p) tb h"
proof (cases "hp_row h p")
  case (Some r)
  note rm = table_remove_row_ok[OF assms Some]
  have "tv_in (tview (tb, h)) = members tb" "tv_cols (tview (tb, h)) p \<noteq> None"
    using Some by (simp_all add: tview_def)
  then show ?thesis
    using rm(1,3,5) assms tview_drop[of "{p}" tb h] by (cases "p \<in> members tb") (auto simp: refines_at_def)
qed (simp add: refines_at_def table_remove_row_def tview_def)

lemma refines_range:
  assumes "table_inv tb h" "query_ok (tb_schema tb) q" "query_valid (tb_schema tb) q"
  obtains a b where "a \<le> b" "table_find q tb = Some (cursor_new (query_order q = ORD_DESC) a b (tb_rows tb))"
    "table_remove_n a (b - a) tb h = Some (drop_rows (view_sel (tb_schema tb) q (tview (tb, h))) tb, free_rows (view_sel (tb_schema tb) q (tview (tb, h))) h)"
    "table_inv (drop_rows (view_sel (tb_schema tb) q (tview (tb, h))) tb) (free_rows (view_sel (tb_schema tb) q (tview (tb, h))) h)"
proof -
  obtain a b where ab: "a \<le> b" "b \<le> length (tb_rows tb)" "table_find q tb = Some (cursor_new (query_order q = ORD_DESC) a b (tb_rows tb))"
      "mm_range a b (tb_rows tb) = filter (\<lambda>e. query_sel (tb_schema tb) q (smk_ord (tb_schema tb) (fst e))) (tb_rows tb)"
    using table_find_ok(2)[OF assms] by blast
  have "snd ` set (mm_range a b (tb_rows tb)) = view_sel (tb_schema tb) q (tview (tb, h))"
    unfolding ab(4) by (rule view_sel_rows[OF assms(1)])
  then show ?thesis
    using that[OF ab(1,3)] table_remove_range_ok[OF assms(1) ab(1,2)] by simp
qed

lemma refines_remove_cursor:
  assumes "table_inv tb h" "query_ok (tb_schema tb) q"
  shows "refines_at (TRemoveCursor q) tb h"
proof (cases "query_valid (tb_schema tb) q")
  case True
  obtain a b where ab: "table_find q tb = Some (cursor_new (query_order q = ORD_DESC) a b (tb_rows tb))"
    "table_remove_n a (b - a) tb h = Some (drop_rows (view_sel (tb_schema tb) q (tview (tb, h))) tb, free_rows (view_sel (tb_schema tb) q (tview (tb, h))) h)"
    "table_inv (drop_rows (view_sel (tb_schema tb) q (tview (tb, h))) tb) (free_rows (view_sel (tb_schema tb) q (tview (tb, h))) h)"
    using refines_range[OF assms True] by blast
  then show ?thesis
    using True by (simp add: refines_at_def table_remove_cursor_def cursor_new_def verify_simps tview_drop)
next
  case False
  then show ?thesis
    using table_find_ok(1)[OF assms] by (simp add: refines_at_def)
qed

lemma refines_remove_key:
  assumes "table_inv tb h" "query_ok (tb_schema tb) (QEq k)"
  shows "refines_at (TRemoveKey k) tb h"
proof (cases "length k = length (key_cols_id (tb_schema tb))")
  case True
  then have v: "query_valid (tb_schema tb) (QEq k)"
    by (simp add: query_valid_def)
  obtain a b where ab: "a \<le> b" "table_find (QEq k) tb = Some (cursor_new False a b (tb_rows tb))"
    "table_remove_n a (b - a) tb h = Some (drop_rows (view_sel (tb_schema tb) (QEq k) (tview (tb, h))) tb, free_rows (view_sel (tb_schema tb) (QEq k) (tview (tb, h))) h)"
    "table_inv (drop_rows (view_sel (tb_schema tb) (QEq k) (tview (tb, h))) tb) (free_rows (view_sel (tb_schema tb) (QEq k) (tview (tb, h))) h)"
    using refines_range[OF assms v] by auto
  have "a = mm_lower_bound (tb_lt tb) k (tb_rows tb)" "b = mm_upper_bound (tb_lt tb) k (tb_rows tb)"
    using ab(2) True by (simp_all add: table_query_def smk_new_def verify_simps Let_def cursor_new_def)
  then have "table_remove_key k tb h = table_remove_n a (b - a) tb h"
    using True by (simp add: table_remove_key_def smk_new_def verify_simps Let_def)
  then show ?thesis
    using ab(3,4) True by (simp add: refines_at_def tview_drop)
qed (simp add: refines_at_def table_remove_key_def smk_new_def verify_simps)

lemma refines_clear:
  assumes "table_inv tb h"
  shows "refines_at TClear tb h"
proof -
  note D = table_invD[OF assms]
  have "release_all (map snd (tb_rows tb)) h = Some (free_rows (members tb) h)"
    using release_all_free[of "map snd (tb_rows tb)" h] D(4,5,7) by fastforce
  moreover have "drop_rows (members tb) tb = tb\<lparr>tb_rows := []\<rparr>"
    by (auto simp: drop_rows_def filter_empty_conv)
  moreover have "table_inv (drop_rows (members tb) tb) (free_rows (members tb) h)"
    by (rule table_inv_drop[OF assms]) (auto simp: free_rows_def)
  moreover have "tv_in (tview (tb, h)) = members tb"
    by (simp add: tview_def)
  ultimately show ?thesis
    using tview_drop[of "members tb" tb h] by (simp add: refines_at_def table_clear_def)
qed

lemma table_step_refines: "table_inv tb h \<Longrightarrow> op_ok (tb_schema tb) a \<Longrightarrow> refines_at a tb h"
  by (cases a) (auto intro: refines_new refines_insert refines_update refines_remove_row refines_remove_cursor refines_remove_key refines_clear
      simp del: table_step.simps)

lemma table_run_refines:
  assumes "table_inv tb h" "\<forall>a \<in> set as. op_ok (tb_schema tb) a"
  shows "map_option tview (table_run as (tb, h)) = view_run (tb_schema tb) as (tview (tb, h))
    \<and> (\<forall>tb' h'. table_run as (tb, h) = Some (tb', h') \<longrightarrow> table_inv tb' h' \<and> tb_schema tb' = tb_schema tb)"
  using assms
proof (induction as arbitrary: tb h)
  case (Cons a as)
  have ref: "refines_at a tb h"
    using table_step_refines Cons.prems by simp
  show ?case
  proof (cases "table_step a (tb, h)")
    case None
    then show ?thesis
      using ref by (simp add: refines_at_def)
  next
    case (Some st)
    obtain tb1 h1 where st: "st = (tb1, h1)"
      by (cases st)
    then have "view_step (tb_schema tb) a (tview (tb, h)) = Some (tview (tb1, h1))" "table_inv tb1 h1" "tb_schema tb1 = tb_schema tb"
      using ref Some by (simp_all add: refines_at_def)
    then show ?thesis
      using Cons.IH[of tb1 h1] Cons.prems(2) Some st by simp
  qed
qed simp

lemma hidden_not_str_freeze [simp]: "hidden_not_str (schema_freeze s) = hidden_not_str s"
  by (simp add: hidden_not_str_def schema_freeze_def columns_count_def)

lemma table_inv_new: "schema_ok s \<Longrightarrow> hidden_not_str s \<Longrightarrow> table_inv (table_new t sid s) heap_empty"
  by (rule table_invI) (simp_all add: table_new_def heap_empty_def mm_sorted_def)

definition view_empty :: table_view where
  "view_empty = \<lparr>tv_in = {}, tv_cols = (\<lambda>_. None)\<rparr>"

lemma tview_new: "tview (table_new t sid s, heap_empty) = view_empty"
  by (simp add: tview_def table_new_def heap_empty_def view_empty_def)


definition demo_ops :: "table_op list" where
  "demo_ops = [TNew 1 [VI32 5, VStr [104], VI64 9], TInsert 1, TNew 2 [VI32 3, VStr [105], VI64 8], TInsert 2,
     TUpdate 1 0 (VI32 2), TRemoveKey [word_bytes 4 (3 :: u32)]]"

lemma demo_ops_ok: "\<forall>a \<in> set demo_ops. op_ok (schema_freeze demo_schema) a"
  using demo_schema_ok(1,3)
  by (simp add: demo_ops_def kinds_match_def schema_freeze_def demo_schema_def schema_new_def All_less_Suc numeral_3_eq_3 columns_count_def
      query_ok_def key_ok_def key_value_def read_binary_def schema_ok_def col_ok_def)

lemma demo_frozen:
  "key_cols_id (schema_freeze demo_schema) = [0]" "ci_type (col_info (schema_freeze demo_schema) ! 0) = I32"
  "length (col_info (schema_freeze demo_schema)) = 3" "schema_ok (schema_freeze demo_schema)"
  unfolding schema_ok_freeze using demo_schema_ok(1) by (simp_all add: schema_freeze_def demo_schema_def schema_new_def)

lemma demo_view: "view_run (schema_freeze demo_schema) demo_ops view_empty
    = Some \<lparr>tv_in = {1}, tv_cols = [1 \<mapsto> [Some (VI32 2), Some (VStr [104]), Some (VI64 9)]]\<rparr>"
  by (auto simp: demo_ops_def view_empty_def demo_frozen init_cols_def view_remove_def view_sel_def cols_ord_def smk_ord_def key_ord_def
      key_value_def read_binary_def fun_eq_iff)


lemma cu_drain_eq: "cu_next c \<le> length (cu_rows c) \<Longrightarrow> cu_drain c = Some (drop (cu_next c) (cu_rows c))"
proof (induction c rule: cu_drain.induct)
  case (1 c)
  show ?case
  proof (cases "cu_has_next c")
    case True
    then have lt: "cu_next c < length (cu_rows c)"
      using 1(2) by (simp add: cu_has_next_def)
    let ?c = "c\<lparr>cu_next := cu_next c + 1\<rparr>"
    have n: "cu_next_row c = Some (cu_rows c ! cu_next c, ?c)"
      using True by (simp add: cu_next_row_def verify_simps)
    have "cu_drain ?c = Some (drop (cu_next ?c) (cu_rows ?c))"
      using 1(1)[OF True n refl] lt by simp
    then show ?thesis
      using True n lt by (subst cu_drain.simps) (simp add: Cons_nth_drop_Suc)
  qed (subst cu_drain.simps, simp add: cu_has_next_def)
qed

declare cu_drain.simps [simp del]

text \<open>The order of a query's answer: by the keys of the rows, ascending or descending.\<close>

definition view_ord :: "'a schema_scheme \<Rightarrow> table_view \<Rightarrow> nat \<Rightarrow> int list list" where
  "view_ord s v p = (case tv_cols v p of Some cs \<Rightarrow> cols_ord s cs | None \<Rightarrow> [])"

lemma rows_ascending:
  assumes "table_inv tb h"
  shows "sorted_wrt (\<lambda>x y. view_ord (tb_schema tb) (tview (tb, h)) (snd x) \<le> view_ord (tb_schema tb) (tview (tb, h)) (snd y)) (tb_rows tb)"
proof -
  note D = table_invD[OF assms]
  have ord: "view_ord (tb_schema tb) (tview (tb, h)) (snd e) = smk_ord (tb_schema tb) (fst e) \<and> key_ok (tb_schema tb) (fst e)" if "e \<in> set (tb_rows tb)" for e
  proof -
    obtain r where r: "hp_row h (snd e) = Some r" "fst e = row_key (tb_schema tb) r"
      using D(5)[of "fst e" "snd e"] \<open>e \<in> set (tb_rows tb)\<close> by auto
    then show ?thesis
      using row_invD(1,4)[OF D(6)[OF r(1)]] smk_ord_row_key[OF D(1)] by (simp add: view_ord_def tview_def cols_ord_def)
  qed
  have "sorted_wrt (\<lambda>x y. \<not> smk_less (tb_schema tb) (fst y) (fst x)) (tb_rows tb)"
    using D(3) by (simp add: mm_sorted_def tb_lt_def)
  then show ?thesis
  proof (rule sorted_wrt_mono_rel[rotated])
    fix x y
    assume xy: "x \<in> set (tb_rows tb)" "y \<in> set (tb_rows tb)" "\<not> smk_less (tb_schema tb) (fst y) (fst x)"
    then show "view_ord (tb_schema tb) (tview (tb, h)) (snd x) \<le> view_ord (tb_schema tb) (tview (tb, h)) (snd y)"
      using ord smk_less_ord[of "tb_schema tb" "fst y" "fst x"] by (metis not_le)
  qed
qed


lemma demo_table:
  obtains tb h where "table_run demo_ops (table_new 0 7 demo_schema, heap_empty) = Some (tb, h)" "table_inv tb h"
    "tview (tb, h) = \<lparr>tv_in = {1}, tv_cols = [1 \<mapsto> [Some (VI32 2), Some (VStr [104]), Some (VI64 9)]]\<rparr>"
  using table_run_refines[OF table_inv_new[OF demo_schema_ok(1,2), of 0 7], of demo_ops] demo_ops_ok demo_view tview_new[of 0 7 demo_schema]
  by (auto simp: table_new_def)


subsection \<open>Rows that outlive their place in the table\<close>

text \<open>Removing rows by key, by cursor or by clearing the table leaves their table pointer set. A row that was kept by
  another reference can therefore not be inserted again, and an update of one of its indexed columns stops the
  program.\<close>

theorem remove_key_keeps_table_pointer:
  assumes "table_inv tb h" "(k, p) \<in> set (tb_rows tb)"
  shows "\<exists>h1 tb2 h2 r. ref_copy p h = Some h1 \<and> table_remove_key k tb h1 = Some (tb2, h2) \<and> p \<notin> members tb2
    \<and> hp_row h2 p = Some r \<and> row_tbl r = Some (tb_id tb) \<and> table_insert p tb2 h2 = None"
proof -
  note D = table_invD[OF assms(1)]
  obtain r where r: "hp_row h p = Some r" "k = row_key (tb_schema tb) r"
    using D(5)[OF assms(2)] by blast
  note R = row_invD[OF D(6)[OF r(1)]]
  have mem: "p \<in> members tb"
    using assms(2) by force
  define h1 where "h1 = h\<lparr>hp_ref := (hp_ref h)(p := 2)\<rparr>"
  let ?a = "mm_lower_bound (tb_lt tb) k (tb_rows tb)" and ?b = "mm_upper_bound (tb_lt tb) k (tb_rows tb)"
  define E where "E = map snd (mm_range ?a ?b (tb_rows tb))"
  have kok: "key_ok (tb_schema tb) k"
    using R(4) r(2) by simp
  note rg = tb_equal_range[OF assms(1) kok]
  have E: "distinct E" "p \<in> set E"
    using assms(2) D(4) rg(1) by (force simp: E_def distinct_map_filter)+
  have "\<exists>r. hp_row h q = Some r \<and> hp_ref h q = 1" if "q \<in> set E" for q
    using that D(5,7) unfolding E_def rg(1) by fastforce
  then have "\<forall>q \<in> set E. hp_row h1 q \<noteq> None \<and> hp_ref h1 q > 0"
    by (fastforce simp: h1_def)
  then obtain h2 where h2: "release_all E h1 = Some h2" "hp_row h2 p = hp_row h1 p"
    using release_all_keeps[OF E(1), of h1 p] by (auto simp: h1_def)
  let ?tb2 = "tb\<lparr>tb_rows := mm_erase_range ?a ?b (tb_rows tb)\<rparr>"
  have "table_remove_key k tb h1 = Some (?tb2, h2)"
    using table_remove_n_release[of ?a "?b - ?a" tb h1] rg(2,3) h2(1) r(2)
    by (simp add: table_remove_key_def E_def)
  moreover have "p \<notin> members ?tb2"
    using mm_erase_filter[OF D(4) rg(2)] E(2) by (force simp: E_def)
  moreover have "table_insert p ?tb2 h2 = None"
    using h2(2) r(1) R mem by (auto simp: table_insert_def set_table_def verify_simps h1_def)
  ultimately show ?thesis
    using r(1) D(7)[OF r(1)] h2(2) R(5) mem by (intro exI[of _ h1] exI2[of _ ?tb2 h2]) (simp add: ref_copy_def h1_def numeral_2_eq_2)
qed

theorem remove_key_keeps_table_pointer_witness:
  "\<exists>tb h k h1 tb2 h2. table_run demo_ops (table_new 0 7 demo_schema, heap_empty) = Some (tb, h) \<and> ref_copy 1 h = Some h1
     \<and> table_remove_key k tb h1 = Some (tb2, h2) \<and> table_insert 1 tb2 h2 = None"
proof -
  obtain tb h where st: "table_run demo_ops (table_new 0 7 demo_schema, heap_empty) = Some (tb, h)" "table_inv tb h"
      "tview (tb, h) = \<lparr>tv_in = {1}, tv_cols = [1 \<mapsto> [Some (VI32 2), Some (VStr [104]), Some (VI64 9)]]\<rparr>"
    using demo_table by blast
  then have "1 \<in> members tb"
    by (simp add: tview_def)
  then obtain k where "(k, 1) \<in> set (tb_rows tb)"
    by auto
  then show ?thesis
    using remove_key_keeps_table_pointer[OF st(2)] st(1) by blast
qed

text \<open>With a NaN in a key column the comparison is no longer a strict weak order, which \<open>std::multimap\<close> requires: the NaN
  is equivalent to every key, also to two keys of which one is below the other.\<close>

lemma smk_less_nan:
  assumes "f64_nan (bytes_word a)" "ci_type (col_info s ! c) = DOUBLE" "key_cols_id s = [c]"
  shows "\<not> smk_less s [a] [b] \<and> \<not> smk_less s [b] [a]"
  using assms by (auto simp: smk_less_def smk_compare_def get_column_info_def blob_compare_def f64_less_def verify_simps Let_def split: if_splits)

end
