(* ===== verification/DepGraph.thy ===== *)
theory DepGraph
  imports Std_Map
begin

text \<open>
  \<open>deptran/graph.hpp\<close>, \<open>deptran/txn_info.h\<close>, \<open>deptran/dep_graph.cc\<close> and the dependency tracking of \<open>deptran/rcc/rcc.cpp\<close>: the
  graph of transactions of a server. A vertex is at an address; its incoming and outgoing edges are ordered maps
  from addresses to relations, so loops over them run in the order of the addresses. The unordered set of all vertexes is a
  list in the order a loop over it happens to take. The order of addresses carries no meaning for the protocol.
\<close>

unbundle bit_operations_syntax

subsection \<open>Transactions\<close>

type_synonym i8 = "8 word"
type_synonym vid = nat
type_synonym ball = nat

definition TXN_UKN :: i8 where "TXN_UKN = 0"
definition TXN_STD :: i8 where "TXN_STD = 1"
definition TXN_CMT :: i8 where "TXN_CMT = 2"
definition TXN_DCD :: i8 where "TXN_DCD = 4"

definition EDGE_D :: i8 where "EDGE_D = 1"
definition EDGE_I :: i8 where "EDGE_I = 2"
definition WW :: i8 where "WW = 1"

record txn_info =
  ti_status :: i8
  ti_id :: u64
  ti_ts :: u64
  ti_servers :: "u32 set"
  ti_committed :: bool
  ti_during_commit :: bool
  ti_during_asking :: bool
  ti_res :: "nat option"
  ti_events :: "(i8 \<times> ball list) list"

definition txn_info_new :: txn_info where
  "txn_info_new = \<lparr>ti_status = TXN_UKN, ti_id = 0, ti_ts = 0, ti_servers = {}, ti_committed = False, ti_during_commit = False,
     ti_during_asking = False, ti_res = None, ti_events = []\<rparr>"

definition is_commit :: "txn_info \<Rightarrow> bool" where
  "is_commit t \<longleftrightarrow> ti_status t AND TXN_DCD \<noteq> 0"

definition is_finish :: "txn_info \<Rightarrow> bool" where
  "is_finish t \<longleftrightarrow> ti_status t AND TXN_CMT \<noteq> 0"

definition is_involved :: "u32 \<Rightarrow> txn_info \<Rightarrow> bool" where
  "is_involved site t \<longleftrightarrow> site \<in> ti_servers t"

text \<open>\<open>trigger\<close> takes the balls out of the lists of all statuses up to the current one, the newest of a list first; the
  result also has the balls in the order in which they are triggered.\<close>

definition ti_trigger :: "txn_info \<Rightarrow> txn_info \<times> ball list" where
  "ti_trigger t =
    (t\<lparr>ti_events := map (\<lambda>(st, bs). if st \<le>s ti_status t then (st, []) else (st, bs)) (ti_events t)\<rparr>,
     concat (map (\<lambda>(st, bs). if st \<le>s ti_status t then rev bs else []) (ti_events t)))"

definition union_status :: "u32 \<Rightarrow> i8 \<Rightarrow> bool \<Rightarrow> bool \<Rightarrow> txn_info \<Rightarrow> txn_info \<times> ball list" where
  "union_status site st is_trigger is_server t =
    (let t' = (if is_server \<and> is_involved site t then t else t\<lparr>ti_status := ti_status t OR st\<rparr>) in
     if is_trigger then ti_trigger t' else (t', []))"

definition union_data :: "u32 \<Rightarrow> txn_info \<Rightarrow> bool \<Rightarrow> bool \<Rightarrow> txn_info \<Rightarrow> txn_info \<times> ball list" where
  "union_data site ti is_trigger is_server t =
     union_status site (ti_status ti) is_trigger is_server (t\<lparr>ti_servers := ti_servers t \<union> ti_servers ti\<rparr>)"

text \<open>\<open>register_event\<close> triggers the ball at once when the status has been reached.\<close>

definition register_event :: "i8 \<Rightarrow> ball \<Rightarrow> txn_info \<Rightarrow> txn_info \<times> ball list" where
  "register_event st b t =
    (if st \<le>s ti_status t then (t, [b])
     else (t\<lparr>ti_events := smap_put st (case map_of (ti_events t) st of Some bs \<Rightarrow> bs @ [b] | None \<Rightarrow> [b]) (ti_events t)\<rparr>, []))"

subsection \<open>Graphs\<close>

record vertex =
  vx_from :: "(vid, i8) smap"
  vx_to :: "(vid, i8) smap"
  vx_data :: txn_info

definition vertex_new :: "txn_info \<Rightarrow> vertex" where
  "vertex_new d = \<lparr>vx_from = [], vx_to = [], vx_data = d\<rparr>"

record graph =
  g_vertex :: "vid \<Rightarrow> vertex option"
  g_vertex_index :: "vid list"
  g_id_index :: "u64 \<Rightarrow> vid option"

definition graph_new :: graph where
  "graph_new = \<lparr>g_vertex = (\<lambda>_. None), g_vertex_index = [], g_id_index = (\<lambda>_. None)\<rparr>"

definition graph_size :: "graph \<Rightarrow> nat" where
  "graph_size g = length (g_vertex_index g)"

definition graph_find :: "u64 \<Rightarrow> graph \<Rightarrow> vid option" where
  "graph_find i g = g_id_index g i"

text \<open>The outgoing and incoming neighbours of a vertex, in the order of the maps.\<close>

definition to_edges :: "graph \<Rightarrow> vid \<Rightarrow> (vid, i8) smap" where
  "to_edges g v = (case g_vertex g v of Some x \<Rightarrow> vx_to x | None \<Rightarrow> [])"

definition from_edges :: "graph \<Rightarrow> vid \<Rightarrow> (vid, i8) smap" where
  "from_edges g v = (case g_vertex g v of Some x \<Rightarrow> vx_from x | None \<Rightarrow> [])"

text \<open>The id of the transaction of a vertex.\<close>

definition vkey :: "graph \<Rightarrow> vid \<Rightarrow> u64" where
  "vkey g v = (case g_vertex g v of Some x \<Rightarrow> ti_id (vx_data x) | None \<Rightarrow> 0)"

definition upd_vertex :: "vid \<Rightarrow> (vertex \<Rightarrow> vertex) \<Rightarrow> graph \<Rightarrow> graph" where
  "upd_vertex v f g = g\<lparr>g_vertex := (g_vertex g)(v := map_option f (g_vertex g v))\<rparr>"

definition or_edge :: "vid \<Rightarrow> i8 \<Rightarrow> (vid, i8) smap \<Rightarrow> (vid, i8) smap" where
  "or_edge v rel m = smap_put v ((case map_of m v of Some x \<Rightarrow> x | None \<Rightarrow> 0) OR rel) m"

text \<open>\<open>a->to_[b] |= rel; b->from_[a] |= rel;\<close>\<close>

definition add_edge :: "vid \<Rightarrow> vid \<Rightarrow> i8 \<Rightarrow> graph \<Rightarrow> graph" where
  "add_edge a b rel g =
     upd_vertex b (\<lambda>x. x\<lparr>vx_from := or_edge a rel (vx_from x)\<rparr>) (upd_vertex a (\<lambda>x. x\<lparr>vx_to := or_edge b rel (vx_to x)\<rparr>) g)"

text \<open>A new vertex at an address that is not in use.\<close>

definition new_vertex :: "vid \<Rightarrow> txn_info \<Rightarrow> graph \<Rightarrow> graph" where
  "new_vertex v d g = g\<lparr>g_vertex := (g_vertex g)(v := Some (vertex_new d)), g_vertex_index := v # g_vertex_index g,
     g_id_index := (g_id_index g)(ti_id d := Some v)\<rparr>"

definition find_or_insert :: "vid \<Rightarrow> u64 \<Rightarrow> u64 \<Rightarrow> graph \<Rightarrow> vid \<times> graph" where
  "find_or_insert fresh i ts g = (case g_id_index g i of
     Some v \<Rightarrow> (v, g)
   | None \<Rightarrow> (fresh, new_vertex fresh (txn_info_new\<lparr>ti_id := i, ti_ts := ts\<rparr>) g))"

definition find_or_insert_data :: "vid \<Rightarrow> txn_info \<Rightarrow> graph \<Rightarrow> vid \<times> graph" where
  "find_or_insert_data fresh d g = (case g_id_index g (ti_id d) of
     Some v \<Rightarrow> (v, g)
   | None \<Rightarrow> (fresh, new_vertex fresh d g))"

text \<open>\<open>start_pie\<close>: the vertex of the transaction, with this server among its servers.\<close>

definition start_pie :: "u32 \<Rightarrow> vid \<Rightarrow> u64 \<Rightarrow> u64 \<Rightarrow> graph \<Rightarrow> vid \<times> graph" where
  "start_pie site fresh tid ts g = (case find_or_insert fresh tid ts g of
     (v, g') \<Rightarrow> (v, upd_vertex v (\<lambda>x. x\<lparr>vx_data := (vx_data x)\<lparr>ti_servers := insert site (ti_servers (vx_data x))\<rparr>\<rparr>) g'))"

text \<open>\<open>kiss\<close>: a piece touches a column of a row. The entry of the column remembers a transaction.\<close>

definition kiss :: "bool \<Rightarrow> vid \<Rightarrow> vid option \<Rightarrow> graph \<Rightarrow> vid option \<times> graph" where
  "kiss immediate tv lst g =
    (let edge_type = (if immediate then EDGE_I else EDGE_D) in
     case lst of
       Some l \<Rightarrow> (lst, add_edge l tv edge_type g)
     | None \<Rightarrow> (Some tv, g))"

text \<open>The branch of \<open>kiss\<close> for read-only transactions: the transaction to wait for.\<close>

definition kiss_ro :: "vid option \<Rightarrow> vid list \<Rightarrow> vid list" where
  "kiss_ro lst conflict_txns = (case lst of Some l \<Rightarrow> conflict_txns @ [l] | None \<Rightarrow> conflict_txns)"

subsection \<open>Ancestors\<close>

text \<open>The loop of \<open>find_ancestor\<close>: the set of the vertexes gone through and the stack, its top first.\<close>

partial_function (option) anc_loop :: "graph \<Rightarrow> vid set \<Rightarrow> vid list \<Rightarrow> vid set option" where
  "anc_loop g ret togo = (case togo of
     [] \<Rightarrow> Some ret
   | v # togo' \<Rightarrow>
       if v \<notin> ret
       then (let ret' = insert v ret in
         anc_loop g ret' (rev (filter (\<lambda>w. w \<notin> ret') (map fst (from_edges g v))) @ togo'))
       else anc_loop g ret togo')"

definition find_ancestor :: "vid \<Rightarrow> graph \<Rightarrow> vid set option" where
  "find_ancestor v g = map_option (\<lambda>ret. ret - {v}) (anc_loop g {} [v])"

text \<open>\<open>find_txn_anc_opt\<close>: only ancestors that are not decided, and only through such.\<close>

definition undecided :: "graph \<Rightarrow> vid \<Rightarrow> bool" where
  "undecided g v \<longleftrightarrow> (case g_vertex g v of Some x \<Rightarrow> \<not> is_commit (vx_data x) | None \<Rightarrow> False)"

fun visit_parents :: "graph \<Rightarrow> vid list \<Rightarrow> vid set \<Rightarrow> vid list \<Rightarrow> vid set \<times> vid list" where
  "visit_parents g [] ret stack = (ret, stack)"
| "visit_parents g (p # ps) ret stack =
    (if undecided g p \<and> p \<notin> ret then visit_parents g ps (insert p ret) (p # stack) else visit_parents g ps ret stack)"

partial_function (option) anc_opt_loop :: "graph \<Rightarrow> vid set \<Rightarrow> vid list \<Rightarrow> vid set option" where
  "anc_opt_loop g ret stack = (case stack of
     [] \<Rightarrow> Some ret
   | v # stack' \<Rightarrow> (case visit_parents g (map fst (from_edges g v)) ret stack' of
       (ret', stack'') \<Rightarrow> anc_opt_loop g ret' stack''))"

definition find_txn_anc_opt :: "vid \<Rightarrow> vid set \<Rightarrow> graph \<Rightarrow> vid set option" where
  "find_txn_anc_opt source ret_set g = map_option (\<lambda>ret. ret - {source}) (anc_opt_loop g ret_set [source])"

definition sub_txn_graph :: "u64 \<Rightarrow> vid set \<Rightarrow> graph \<Rightarrow> vid set option" where
  "sub_txn_graph tid ret_set g = do {
     source \<leftarrow> graph_find tid g;
     ret \<leftarrow> find_txn_anc_opt source ret_set g;
     Some (insert source ret)
   }"

definition find_txn_nearest_anc :: "vid \<Rightarrow> vid set \<Rightarrow> graph \<Rightarrow> vid set" where
  "find_txn_nearest_anc v ret_set g = ret_set \<union> fst ` set (from_edges g v)"

subsection \<open>The ancestors found\<close>

definition parent_rel :: "graph \<Rightarrow> (vid \<times> vid) set" where
  "parent_rel g = {(v, w). w \<in> fst ` set (from_edges g v)}"

definition all_vids :: "graph \<Rightarrow> vid set" where
  "all_vids g = (\<Union>v \<in> dom (g_vertex g). fst ` set (from_edges g v) \<union> fst ` set (to_edges g v))"

lemma all_vids:
  assumes "finite (dom (g_vertex g))"
  shows "finite (all_vids g)" "(v, w) \<in> parent_rel g \<Longrightarrow> w \<in> all_vids g" "w \<in> fst ` set (to_edges g v) \<Longrightarrow> w \<in> all_vids g"
proof -
  show "finite (all_vids g)"
    using assms by (simp add: all_vids_def)
  have d: "v \<in> dom (g_vertex g)" if "x \<in> set (from_edges g v) \<or> x \<in> set (to_edges g v)" for x
    using that by (cases "g_vertex g v") (auto simp: from_edges_def to_edges_def)
  show "w \<in> all_vids g" if vw: "(v, w) \<in> parent_rel g"
  proof -
    obtain x where "x \<in> set (from_edges g v)" "w = fst x"
      using vw by (auto simp: parent_rel_def)
    then show ?thesis
      using d[of x] unfolding all_vids_def by blast
  qed
  show "w \<in> all_vids g" if vw: "w \<in> fst ` set (to_edges g v)"
  proof -
    obtain x where "x \<in> set (to_edges g v)" "w = fst x"
      using vw by auto
    then show ?thesis
      using d[of x] unfolding all_vids_def by blast
  qed
qed

lemma rtrancl_Image_step: "X \<subseteq> R\<^sup>* `` Y \<Longrightarrow> R\<^sup>* `` X \<subseteq> R\<^sup>* `` Y"
proof
  fix z
  assume X: "X \<subseteq> R\<^sup>* `` Y" and "z \<in> R\<^sup>* `` X"
  then obtain x y where "(x, z) \<in> R\<^sup>*" "(y, x) \<in> R\<^sup>*" "y \<in> Y"
    by blast
  then show "z \<in> R\<^sup>* `` Y"
    using rtrancl_trans[of y x R z] by blast
qed

lemma trancl_Image_step: "X \<subseteq> R\<^sup>+ `` Y \<Longrightarrow> R\<^sup>+ `` (Y \<union> X) \<subseteq> R\<^sup>+ `` Y"
proof
  fix z
  assume X: "X \<subseteq> R\<^sup>+ `` Y" and "z \<in> R\<^sup>+ `` (Y \<union> X)"
  then consider "z \<in> R\<^sup>+ `` Y" | x y where "(x, z) \<in> R\<^sup>+" "(y, x) \<in> R\<^sup>+" "y \<in> Y"
    by blast
  then show "z \<in> R\<^sup>+ `` Y"
  proof cases
    case (2 x y)
    then show ?thesis
      using trancl_trans[of y x R z] by blast
  qed
qed

lemma anc_loop_ok:
  assumes "finite A" "parent_rel g `` A \<subseteq> A" "ret \<subseteq> A" "set togo \<subseteq> A" "parent_rel g `` ret \<subseteq> ret \<union> set togo"
  shows "\<exists>r. anc_loop g ret togo = Some r \<and> ret \<union> set togo \<subseteq> r \<and> r \<subseteq> (parent_rel g)\<^sup>* `` (ret \<union> set togo) \<and> parent_rel g `` r \<subseteq> r"
  using assms(3-5)
proof (induction "card (A - ret)" arbitrary: ret togo rule: less_induct)
  case less
  show ?case
    using less(2-4)
  proof (induction togo)
    case Nil
    then show ?case by (subst anc_loop.simps) auto
  next
    case (Cons v togo)
    show ?case
    proof (cases "v \<in> ret")
      case True
      then have "ret \<union> set (v # togo) = ret \<union> set togo"
        by auto
      then show ?thesis
        using Cons True by (subst anc_loop.simps) simp
    next
      case False
      let ?ret = "insert v ret"
      let ?ns = "rev (filter (\<lambda>w. w \<notin> ?ret) (map fst (from_edges g v))) @ togo"
      have ns: "parent_rel g `` {v} \<subseteq> ?ret \<union> set ?ns" "set ?ns \<subseteq> parent_rel g `` {v} \<union> set togo"
        by (auto simp: parent_rel_def)
      have "card (A - ?ret) < card (A - ret)"
        using assms(1) False Cons.prems(2) by (intro psubset_card_mono) auto
      moreover have "set ?ns \<subseteq> A"
        using ns(2) Cons.prems(2) assms(2) by auto
      moreover have "parent_rel g `` ?ret \<subseteq> ?ret \<union> set ?ns"
        using ns(1) Cons.prems(3) by auto
      ultimately obtain r where r: "anc_loop g ?ret ?ns = Some r" "?ret \<union> set ?ns \<subseteq> r" "r \<subseteq> (parent_rel g)\<^sup>* `` (?ret \<union> set ?ns)" "parent_rel g `` r \<subseteq> r"
        using less(1)[of ?ret ?ns] Cons.prems by auto
      have "parent_rel g `` {v} \<subseteq> (parent_rel g)\<^sup>* `` (ret \<union> set (v # togo))" "?ret \<union> set togo \<subseteq> (parent_rel g)\<^sup>* `` (ret \<union> set (v # togo))"
        by (auto intro: r_into_rtrancl)
      then have "?ret \<union> set ?ns \<subseteq> (parent_rel g)\<^sup>* `` (ret \<union> set (v # togo))"
        using ns(2) by blast
      then have "r \<subseteq> (parent_rel g)\<^sup>* `` (ret \<union> set (v # togo))"
        using r(3) rtrancl_Image_step by blast
      then show ?thesis
        using r(1,2,4) False by (subst anc_loop.simps) (auto simp: Let_def)
    qed
  qed
qed

text \<open>\<open>find_ancestor\<close> ends on every finite graph, cyclic or not, and returns exactly the vertexes from which the vertex
  can be reached, other than the vertex itself.\<close>

theorem find_ancestor_exact:
  assumes "finite (dom (g_vertex g))"
  shows "find_ancestor v g = Some ((parent_rel g)\<^sup>* `` {v} - {v})"
proof -
  note A = all_vids[OF assms]
  obtain r where r: "anc_loop g {} [v] = Some r" "v \<in> r" "r \<subseteq> (parent_rel g)\<^sup>* `` {v}" "parent_rel g `` r \<subseteq> r"
    using anc_loop_ok[of "insert v (all_vids g)" g "{}" "[v]"] A(1,2) by auto
  have "w \<in> r" if "(v, w) \<in> (parent_rel g)\<^sup>*" for w
    using that r(2,4) by (induction rule: rtrancl_induct) auto
  then have "r = (parent_rel g)\<^sup>* `` {v}"
    using r(3) by auto
  then show ?thesis
    using r(1) by (simp add: find_ancestor_def)
qed

definition undecided_rel :: "graph \<Rightarrow> (vid \<times> vid) set" where
  "undecided_rel g = {(v, w) \<in> parent_rel g. undecided g w}"

lemma visit_parents_eq:
  "\<exists>ns. visit_parents g ps ret stack = (ret \<union> set ns, ns @ stack) \<and> set ns = {p \<in> set ps. undecided g p} - ret"
proof (induction ps arbitrary: ret stack)
  case (Cons p ps)
  show ?case
  proof (cases "undecided g p \<and> p \<notin> ret")
    case True
    obtain ns where "visit_parents g ps (insert p ret) (p # stack) = (insert p ret \<union> set ns, ns @ p # stack)"
        "set ns = {q \<in> set ps. undecided g q} - insert p ret"
      using Cons.IH by blast
    then show ?thesis
      using True by (intro exI[of _ "ns @ [p]"]) auto
  next
    case False
    obtain ns where "visit_parents g ps ret stack = (ret \<union> set ns, ns @ stack)" "set ns = {q \<in> set ps. undecided g q} - ret"
      using Cons.IH by blast
    then show ?thesis
      using False by (intro exI[of _ ns]) auto
  qed
qed simp

lemma anc_opt_loop_ok:
  assumes "finite A" "parent_rel g `` UNIV \<subseteq> A" "ret \<subseteq> A" "\<forall>x \<in> X - set stack. undecided_rel g `` {x} \<subseteq> ret"
    and "ret \<subseteq> X" "X \<subseteq> insert source ret" "set stack \<subseteq> X"
  shows "\<exists>r. anc_opt_loop g ret stack = Some r \<and> ret \<subseteq> r \<and> r \<subseteq> ret \<union> (undecided_rel g)\<^sup>+ `` X \<and> undecided_rel g `` (X \<union> r) \<subseteq> r"
  using assms(3-7)
proof (induction "(card (A - ret), length stack)" arbitrary: ret stack X rule: wf_induct_rule[OF wf_lex_prod[OF wf_less_than wf_less_than], case_names less])
  case (less ret stack X)
  show ?case
  proof (cases stack)
    case Nil
    then show ?thesis
      using less(3,4) by (subst anc_opt_loop.simps) auto
  next
    case (Cons v stack')
    let ?ps = "map fst (from_edges g v)"
    obtain ns where ns: "visit_parents g ?ps ret stack' = (ret \<union> set ns, ns @ stack')" "set ns = {p \<in> set ?ps. undecided g p} - ret"
      using visit_parents_eq by blast
    have ns': "set ns = undecided_rel g `` {v} - ret"
      using ns(2) by (auto simp: undecided_rel_def parent_rel_def)
    let ?ret = "ret \<union> set ns" and ?stack = "ns @ stack'" and ?X = "X \<union> set ns"
    have sub: "?ret \<subseteq> A"
      using less(2) ns' assms(2) unfolding undecided_rel_def by blast
    have "((card (A - ?ret), length ?stack), (card (A - ret), length stack)) \<in> less_than <*lex*> less_than"
    proof (cases "ns = []")
      case False
      then obtain y where "y \<in> set ns"
        using hd_in_set by blast
      then have "y \<in> A - ret" "y \<notin> A - ?ret"
        using ns' sub by auto
      then have "card (A - ?ret) < card (A - ret)"
        using assms(1) by (intro psubset_card_mono) auto
      then show ?thesis
        by simp
    qed (simp add: Cons)
    then have "\<exists>r. anc_opt_loop g ?ret ?stack = Some r \<and> ?ret \<subseteq> r \<and> r \<subseteq> ?ret \<union> (undecided_rel g)\<^sup>+ `` ?X \<and> undecided_rel g `` (?X \<union> r) \<subseteq> r"
    proof (rule less(1))
      show "\<forall>x \<in> ?X - set ?stack. undecided_rel g `` {x} \<subseteq> ?ret"
        using less(3) ns' Cons by auto
    qed (use sub less(4-6) Cons in auto)
    then obtain r where r: "anc_opt_loop g ?ret ?stack = Some r" "?ret \<subseteq> r" "r \<subseteq> ?ret \<union> (undecided_rel g)\<^sup>+ `` ?X" "undecided_rel g `` (?X \<union> r) \<subseteq> r"
      by blast
    have v: "v \<in> X"
      using less(6) Cons by simp
    then have "set ns \<subseteq> (undecided_rel g)\<^sup>+ `` X"
      using ns' by auto
    then have "(undecided_rel g)\<^sup>+ `` ?X \<subseteq> (undecided_rel g)\<^sup>+ `` X"
      by (rule trancl_Image_step)
    then have "r \<subseteq> ret \<union> (undecided_rel g)\<^sup>+ `` X"
      using r(3) \<open>set ns \<subseteq> _\<close> by blast
    then show ?thesis
      using r ns(1) Cons by (subst anc_opt_loop.simps) auto
  qed
qed

lemma find_txn_anc_opt_ok:
  assumes "finite (dom (g_vertex g))"
  shows "find_txn_anc_opt v {} g = Some ((undecided_rel g)\<^sup>+ `` {v} - {v})"
proof -
  note A = all_vids[OF assms]
  have "parent_rel g `` UNIV \<subseteq> all_vids g"
    using A(2) by auto
  then obtain r where r: "anc_opt_loop g {} [v] = Some r" "r \<subseteq> (undecided_rel g)\<^sup>+ `` {v}" "undecided_rel g `` ({v} \<union> r) \<subseteq> r"
    using anc_opt_loop_ok[of "all_vids g" g "{}" "{v}" "[v]" v] A(1) by auto
  have "w \<in> r" if "(v, w) \<in> (undecided_rel g)\<^sup>+" for w
    using that r(3) by (induction rule: trancl_induct) auto
  then have "r = (undecided_rel g)\<^sup>+ `` {v}"
    using r(2) by auto
  then show ?thesis
    using r(1) by (simp add: find_txn_anc_opt_def)
qed

text \<open>C28: The search for the ancestors a transaction must wait for ends on every finite graph and returns exactly the
  vertexes from which the transaction can be reached through transactions that are not decided; decided ones are
  neither returned nor followed.\<close>

theorem find_txn_anc_opt_exact:
  assumes "finite (dom (g_vertex g))"
  shows "find_txn_anc_opt v {} g = Some ((undecided_rel g)\<^sup>+ `` {v} - {v})"
  using find_txn_anc_opt_ok[OF assms] .

subsection \<open>A small graph\<close>

text \<open>Three transactions in a cycle: 10 before 20 and 20 before 30 by immediate pieces, 30 before 10 by a deferred one.\<close>

definition ring_graph :: graph where
  "ring_graph = add_edge 2 0 EDGE_D (add_edge 1 2 EDGE_I (add_edge 0 1 EDGE_I
     (snd (find_or_insert 2 30 0 (snd (find_or_insert 1 20 0 (snd (find_or_insert 0 10 0 graph_new))))))))"

lemmas graph_eval = ring_graph_def add_edge_def upd_vertex_def or_edge_def find_or_insert_def new_vertex_def vertex_new_def graph_new_def
  txn_info_new_def

lemma ring_graph:
  "dom (g_vertex ring_graph) = {0, 1, 2}"
  "from_edges ring_graph 0 = [(2, 1)]" "from_edges ring_graph 1 = [(0, 2)]" "from_edges ring_graph 2 = [(1, 2)]"
  "to_edges ring_graph 0 = [(1, 2)]" "to_edges ring_graph 1 = [(2, 2)]" "to_edges ring_graph 2 = [(0, 1)]"
  "undecided ring_graph 0" "undecided ring_graph 1" "undecided ring_graph 2"
  by (simp_all add: graph_eval from_edges_def to_edges_def undecided_def is_commit_def EDGE_D_def EDGE_I_def TXN_UKN_def)
    (auto simp: dom_def)

theorem find_ancestor_exact_witness:
  "finite (dom (g_vertex ring_graph)) \<and> find_ancestor 0 ring_graph = Some {1, 2} \<and> (parent_rel ring_graph)\<^sup>* `` {0} - {0} = {1, 2}"
proof -
  have fin: "finite (dom (g_vertex ring_graph))"
    by (simp add: ring_graph)
  have eval: "find_ancestor 0 ring_graph = Some {1, 2}"
    by (simp add: find_ancestor_def anc_loop.simps ring_graph Let_def del: One_nat_def) auto
  show ?thesis
    using find_ancestor_exact[OF fin, of 0] eval fin by simp
qed

theorem find_txn_anc_opt_exact_witness:
  "finite (dom (g_vertex ring_graph)) \<and> find_txn_anc_opt 1 {} ring_graph = Some {0, 2} \<and> (undecided_rel ring_graph)\<^sup>+ `` {1} - {1} = {0, 2}"
proof -
  have fin: "finite (dom (g_vertex ring_graph))"
    by (simp add: ring_graph)
  have eval: "find_txn_anc_opt 1 {} ring_graph = Some {0, 2}"
    by (simp add: find_txn_anc_opt_def anc_opt_loop.simps ring_graph del: One_nat_def) auto
  show ?thesis
    using find_txn_anc_opt_exact[OF fin, of 1] eval fin by simp
qed

end
