(* ===== verification/Tarjan.thy ===== *)
theory Tarjan
  imports DepGraph
begin

text \<open>
  \<open>strong_connect\<close> and \<open>find_scc\<close> of \<open>deptran/graph.hpp\<close>: the depth-first search that finds the strongly connected component
  of a vertex. The recursion carries a bound on its depth; a bound of the number of vertexes is
  enough, which is part of what is shown. The stack \<open>S\<close> has its top first.
\<close>

record sc_state =
  sc_idx :: "vid \<Rightarrow> nat option"
  sc_low :: "vid \<Rightarrow> nat"
  sc_index :: nat
  sc_S :: "vid list"

definition sc_init :: sc_state where
  "sc_init = \<lparr>sc_idx = (\<lambda>_. None), sc_low = (\<lambda>_. 0), sc_index = 0, sc_S = []\<rparr>"

definition sc_enter :: "vid \<Rightarrow> sc_state \<Rightarrow> sc_state" where
  "sc_enter v st = st\<lparr>sc_idx := (sc_idx st)(v := Some (sc_index st)), sc_low := (sc_low st)(v := sc_index st),
     sc_index := sc_index st + 1, sc_S := v # sc_S st\<rparr>"

definition sc_min :: "vid \<Rightarrow> nat \<Rightarrow> sc_state \<Rightarrow> sc_state" where
  "sc_min v n st = st\<lparr>sc_low := (sc_low st)(v := (if sc_low st v < n then sc_low st v else n))\<rparr>"

text \<open>The loop that takes vertexes from the stack up to \<open>v\<close>; taking from the empty stack is undefined.\<close>

fun pop_until :: "vid \<Rightarrow> vid list \<Rightarrow> (vid list \<times> vid list) option" where
  "pop_until v [] = None"
| "pop_until v (w # S) = (if w = v then Some ([w], S) else map_option (\<lambda>(ret, S'). (w # ret, S')) (pop_until v S))"

definition sc_finish :: "vid \<Rightarrow> sc_state \<Rightarrow> (vid list \<times> sc_state) option" where
  "sc_finish v st =
    (if Some (sc_low st v) = sc_idx st v
     then map_option (\<lambda>(ret, S). (ret, st\<lparr>sc_S := S\<rparr>)) (pop_until v (sc_S st))
     else Some ([], st))"

function (sequential) strong_connect :: "nat \<Rightarrow> graph \<Rightarrow> vid \<Rightarrow> sc_state \<Rightarrow> (vid list \<times> sc_state) option"
  and sc_children :: "nat \<Rightarrow> graph \<Rightarrow> vid \<Rightarrow> vid list \<Rightarrow> sc_state \<Rightarrow> sc_state option" where
  "strong_connect 0 g v st = None"
| "strong_connect (Suc n) g v st = do {
     st' \<leftarrow> sc_children n g v (map fst (to_edges g v)) (sc_enter v st);
     sc_finish v st'
   }"
| "sc_children n g v [] st = Some st"
| "sc_children n g v (w # ws) st = (case sc_idx st w of
     None \<Rightarrow> do {
       (_, st1) \<leftarrow> strong_connect n g w st;
       sc_children n g v ws (sc_min v (sc_low st1 w) st1)
     }
   | Some i \<Rightarrow> sc_children n g v ws (if w \<in> set (sc_S st) then sc_min v i st else st))"
  by pat_completeness auto
termination
  by (relation "measures [\<lambda>x. case x of Inl (n, _) \<Rightarrow> n | Inr (n, _) \<Rightarrow> n,
      \<lambda>x. case x of Inl _ \<Rightarrow> 0 | Inr (_, _, _, ws, _) \<Rightarrow> Suc (length ws)]") auto

definition find_scc :: "vid \<Rightarrow> graph \<Rightarrow> vid list option" where
  "find_scc v g = map_option fst (strong_connect (Suc (card (all_vids g))) g v sc_init)"

subsection \<open>The state of the search\<close>

definition edge_rel :: "graph \<Rightarrow> (vid \<times> vid) set" where
  "edge_rel g = {(v, w). w \<in> fst ` set (to_edges g v)}"

abbreviation num :: "sc_state \<Rightarrow> vid \<Rightarrow> nat" where
  "num st x \<equiv> the (sc_idx st x)"

text \<open>\<open>G\<close> are the vertexes whose calls have not returned. The stack is numbered in order; a vertex whose call has returned has
  no edge to an unseen vertex, and one that has left the stack none to the stack; on the stack every vertex reaches all
  later ones, and an earlier one that is still being visited.\<close>

definition sc_inv :: "graph \<Rightarrow> vid set \<Rightarrow> sc_state \<Rightarrow> bool" where
  "sc_inv g G st \<longleftrightarrow>
     (\<forall>x i. sc_idx st x = Some i \<longrightarrow> i < sc_index st)
   \<and> set (sc_S st) \<subseteq> dom (sc_idx st) \<and> sorted_wrt (\<lambda>x y. num st y < num st x) (sc_S st) \<and> G \<subseteq> set (sc_S st)
   \<and> (\<forall>x \<in> dom (sc_idx st) - G. edge_rel g `` {x} \<subseteq> dom (sc_idx st))
   \<and> (\<forall>x \<in> dom (sc_idx st) - set (sc_S st). edge_rel g `` {x} \<subseteq> dom (sc_idx st) - set (sc_S st))
   \<and> (\<forall>x \<in> set (sc_S st). \<forall>y \<in> set (sc_S st). num st x \<le> num st y \<longrightarrow> (x, y) \<in> (edge_rel g)\<^sup>*)
   \<and> (\<forall>x \<in> set (sc_S st). \<exists>y \<in> G. num st y \<le> num st x \<and> (x, y) \<in> (edge_rel g)\<^sup>*)"

lemma sc_invD:
  assumes "sc_inv g G st"
  shows "sc_idx st x = Some i \<Longrightarrow> i < sc_index st"
    and "set (sc_S st) \<subseteq> dom (sc_idx st)" "sorted_wrt (\<lambda>x y. num st y < num st x) (sc_S st)" "G \<subseteq> set (sc_S st)"
    and "x \<in> dom (sc_idx st) \<Longrightarrow> x \<notin> G \<Longrightarrow> (x, w) \<in> edge_rel g \<Longrightarrow> w \<in> dom (sc_idx st)"
    and "x \<in> dom (sc_idx st) \<Longrightarrow> x \<notin> set (sc_S st) \<Longrightarrow> (x, w) \<in> edge_rel g \<Longrightarrow> w \<in> dom (sc_idx st) - set (sc_S st)"
    and "x \<in> set (sc_S st) \<Longrightarrow> y \<in> set (sc_S st) \<Longrightarrow> num st x \<le> num st y \<Longrightarrow> (x, y) \<in> (edge_rel g)\<^sup>*"
    and "x \<in> set (sc_S st) \<Longrightarrow> \<exists>y \<in> G. num st y \<le> num st x \<and> (x, y) \<in> (edge_rel g)\<^sup>*"
  using assms unfolding sc_inv_def by blast+

lemma sc_invI:
  assumes "\<And>x i. sc_idx st x = Some i \<Longrightarrow> i < sc_index st"
    and "set (sc_S st) \<subseteq> dom (sc_idx st)" "sorted_wrt (\<lambda>x y. num st y < num st x) (sc_S st)" "G \<subseteq> set (sc_S st)"
    and "\<And>x w. x \<in> dom (sc_idx st) \<Longrightarrow> x \<notin> G \<Longrightarrow> (x, w) \<in> edge_rel g \<Longrightarrow> w \<in> dom (sc_idx st)"
    and "\<And>x w. x \<in> dom (sc_idx st) \<Longrightarrow> x \<notin> set (sc_S st) \<Longrightarrow> (x, w) \<in> edge_rel g \<Longrightarrow> w \<in> dom (sc_idx st) - set (sc_S st)"
    and "\<And>x y. x \<in> set (sc_S st) \<Longrightarrow> y \<in> set (sc_S st) \<Longrightarrow> num st x \<le> num st y \<Longrightarrow> (x, y) \<in> (edge_rel g)\<^sup>*"
    and "\<And>x. x \<in> set (sc_S st) \<Longrightarrow> \<exists>y \<in> G. num st y \<le> num st x \<and> (x, y) \<in> (edge_rel g)\<^sup>*"
  shows "sc_inv g G st"
  using assms unfolding sc_inv_def by blast

text \<open>The changes since an earlier state.\<close>

definition sc_ext :: "sc_state \<Rightarrow> sc_state \<Rightarrow> bool" where
  "sc_ext st0 st \<longleftrightarrow> (\<forall>x \<in> dom (sc_idx st0). sc_idx st x = sc_idx st0 x \<and> sc_low st x = sc_low st0 x) \<and> sc_index st0 \<le> sc_index st
     \<and> (\<forall>x i. sc_idx st x = Some i \<and> x \<notin> dom (sc_idx st0) \<longrightarrow> sc_index st0 \<le> i)"

lemma sc_extD:
  assumes "sc_ext st0 st"
  shows "x \<in> dom (sc_idx st0) \<Longrightarrow> sc_idx st x = sc_idx st0 x" "x \<in> dom (sc_idx st0) \<Longrightarrow> sc_low st x = sc_low st0 x"
    "sc_index st0 \<le> sc_index st" "sc_idx st x = Some i \<Longrightarrow> x \<notin> dom (sc_idx st0) \<Longrightarrow> sc_index st0 \<le> i"
    "dom (sc_idx st0) \<subseteq> dom (sc_idx st)"
  using assms unfolding sc_ext_def by (blast, blast, blast, blast, force)

lemma sc_ext_min: "sc_ext st0 st \<Longrightarrow> v \<notin> dom (sc_idx st0) \<Longrightarrow> sc_ext st0 (sc_min v n st)"
  unfolding sc_ext_def sc_min_def by auto

lemma sc_ext_trans:
  assumes "sc_ext st0 st" "sc_ext st st1"
  shows "sc_ext st0 st1"
proof -
  note A = sc_extD[OF assms(1)] and B = sc_extD[OF assms(2)]
  have "sc_index st0 \<le> i" if "sc_idx st1 x = Some i" "x \<notin> dom (sc_idx st0)" for x i
  proof (cases "x \<in> dom (sc_idx st)")
    case True
    then show ?thesis
      using that A(4) B(1) by auto
  next
    case False
    then show ?thesis
      using that(1) A(3) B(4)[OF that(1) False] by simp
  qed
  then show ?thesis
    unfolding sc_ext_def using A(1-3,5) B(1-3) by (auto simp: subset_iff)
qed

text \<open>What the call for \<open>v\<close> guarantees when it returns: either \<open>v\<close> has left the stack with everything visited from it, or it reaches
  an older vertex on the stack, the one its low link numbers; no edge from the new part of the stack goes below the low link.\<close>

definition sc_post :: "graph \<Rightarrow> vid set \<Rightarrow> vid \<Rightarrow> sc_state \<Rightarrow> sc_state \<Rightarrow> bool" where
  "sc_post g G v st0 st \<longleftrightarrow> sc_inv g G st \<and> v \<in> dom (sc_idx st) \<and> sc_ext st0 st
     \<and> (\<exists>pre. sc_S st = pre @ sc_S st0 \<and> set pre \<inter> dom (sc_idx st0) = {}
        \<and> (sc_low st v = num st v \<or> (\<exists>y \<in> set (sc_S st0). num st y = sc_low st v \<and> (v, y) \<in> (edge_rel g)\<^sup>*))
        \<and> (\<forall>x \<in> set pre. \<forall>w \<in> set (sc_S st0). (x, w) \<in> edge_rel g \<longrightarrow> sc_low st v \<le> num st w))"

text \<open>The state of the loop over the edges of \<open>v\<close>, after the targets \<open>W\<close>.\<close>

definition sc_loop :: "graph \<Rightarrow> vid set \<Rightarrow> vid \<Rightarrow> sc_state \<Rightarrow> vid set \<Rightarrow> sc_state \<Rightarrow> bool" where
  "sc_loop g G v st0 W st \<longleftrightarrow> sc_inv g (insert v G) st \<and> v \<notin> dom (sc_idx st0) \<and> sc_idx st v = Some (sc_index st0) \<and> sc_ext st0 st
     \<and> W \<subseteq> dom (sc_idx st) \<and> (\<forall>w \<in> W \<inter> set (sc_S st0). sc_low st v \<le> num st w)
     \<and> sc_low st v \<le> num st v \<and> (sc_low st v = num st v \<or> (\<exists>y \<in> set (sc_S st0). num st y = sc_low st v \<and> (v, y) \<in> (edge_rel g)\<^sup>*))
     \<and> (\<exists>pre. sc_S st = pre @ v # sc_S st0 \<and> set pre \<inter> dom (sc_idx st0) = {}
        \<and> (\<forall>x \<in> set pre. \<forall>w \<in> set (sc_S st0). (x, w) \<in> edge_rel g \<longrightarrow> sc_low st v \<le> num st w))"

lemma sc_enter_loop:
  assumes "sc_inv g G st0" "v \<notin> dom (sc_idx st0)" "\<forall>y \<in> G. (y, v) \<in> (edge_rel g)\<^sup>*"
  shows "sc_loop g G v st0 {} (sc_enter v st0)"
proof -
  note D = sc_invD[OF assms(1)]
  let ?st = "sc_enter v st0"
  have vS: "v \<notin> set (sc_S st0)" and old: "x \<in> set (sc_S st0) \<Longrightarrow> num ?st x = num st0 x" for x
    using assms(2) D(2) by (auto simp: sc_enter_def)
  have lt: "x \<in> set (sc_S st0) \<Longrightarrow> num st0 x < sc_index st0" for x
    using D(1,2) by force
  have inv: "sc_inv g (insert v G) ?st"
  proof (rule sc_invI)
    show "i < sc_index ?st" if "sc_idx ?st x = Some i" for x i
      using that D(1)[of x i] by (auto simp: sc_enter_def split: if_splits)
    show "set (sc_S ?st) \<subseteq> dom (sc_idx ?st)" "insert v G \<subseteq> set (sc_S ?st)"
      using D(2,4) by (auto simp: sc_enter_def)
    have "sorted_wrt (\<lambda>x y. num ?st y < num ?st x) (sc_S st0)"
      using D(3) old by (auto intro: sorted_wrt_mono_rel)
    then show "sorted_wrt (\<lambda>x y. num ?st y < num ?st x) (sc_S ?st)"
      using lt old by (auto simp: sc_enter_def)
    show "w \<in> dom (sc_idx ?st)" if "x \<in> dom (sc_idx ?st)" "x \<notin> insert v G" "(x, w) \<in> edge_rel g" for x w
      using that D(5)[of x w] by (auto simp: sc_enter_def split: if_splits)
    show "w \<in> dom (sc_idx ?st) - set (sc_S ?st)" if "x \<in> dom (sc_idx ?st)" "x \<notin> set (sc_S ?st)" "(x, w) \<in> edge_rel g" for x w
      using that D(6)[of x w] assms(2) by (auto simp: sc_enter_def split: if_splits)
    have toV: "(x, v) \<in> (edge_rel g)\<^sup>*" if "x \<in> set (sc_S st0)" for x
      using D(8)[OF that] assms(3) by (meson rtrancl_trans)
    show "(x, y) \<in> (edge_rel g)\<^sup>*" if "x \<in> set (sc_S ?st)" "y \<in> set (sc_S ?st)" "num ?st x \<le> num ?st y" for x y
    proof -
      consider "x = v" "y = v" | "x = v" "y \<in> set (sc_S st0)" "y \<noteq> v" | "x \<in> set (sc_S st0)" "y = v" | "x \<in> set (sc_S st0)" "y \<in> set (sc_S st0)" "x \<noteq> v" "y \<noteq> v"
        using \<open>x \<in> set (sc_S ?st)\<close> \<open>y \<in> set (sc_S ?st)\<close> by (auto simp: sc_enter_def)
      then show ?thesis
      proof cases
        case 2
        then show ?thesis
          using \<open>num ?st x \<le> num ?st y\<close> lt[of y] by (simp add: sc_enter_def)
      qed (use toV D(7)[of x y] \<open>num ?st x \<le> num ?st y\<close> in \<open>auto simp: sc_enter_def\<close>)
    qed
    show "\<exists>y \<in> insert v G. num ?st y \<le> num ?st x \<and> (x, y) \<in> (edge_rel g)\<^sup>*" if "x \<in> set (sc_S ?st)" for x
    proof (cases "x = v")
      case False
      then have x: "x \<in> set (sc_S st0)"
        using that by (simp add: sc_enter_def)
      then obtain y where "y \<in> G" "num st0 y \<le> num st0 x" "(x, y) \<in> (edge_rel g)\<^sup>*"
        using D(8) by blast
      then show ?thesis
        using old[OF x] old[of y] D(4) by auto
    qed auto
  qed
  moreover have "sc_ext st0 ?st"
    using assms(2) by (auto simp: sc_ext_def sc_enter_def)
  ultimately show ?thesis
    using assms(2) by (auto simp: sc_loop_def) (simp_all add: sc_enter_def)
qed

lemma sc_inv_low: "sc_inv g G (st\<lparr>sc_low := f\<rparr>) = sc_inv g G st"
  by (simp add: sc_inv_def)

lemma sc_loopD:
  assumes "sc_loop g G v st0 W st"
  shows "sc_inv g (insert v G) st" "v \<notin> dom (sc_idx st0)" "sc_idx st v = Some (sc_index st0)" "sc_ext st0 st" "W \<subseteq> dom (sc_idx st)"
    and "w \<in> W \<Longrightarrow> w \<in> set (sc_S st0) \<Longrightarrow> sc_low st v \<le> num st w" "sc_low st v \<le> num st v"
    and "sc_low st v = num st v \<or> (\<exists>y \<in> set (sc_S st0). num st y = sc_low st v \<and> (v, y) \<in> (edge_rel g)\<^sup>*)"
    and "\<exists>pre. sc_S st = pre @ v # sc_S st0 \<and> set pre \<inter> dom (sc_idx st0) = {}
        \<and> (\<forall>x \<in> set pre. \<forall>w \<in> set (sc_S st0). (x, w) \<in> edge_rel g \<longrightarrow> sc_low st v \<le> num st w)"
  using assms unfolding sc_loop_def by blast+

text \<open>Vertexes above \<open>v\<close> on the stack have larger numbers, those below smaller ones.\<close>

lemma sc_loop_order:
  assumes "sc_loop g G v st0 W st" "sc_S st = pre @ v # sc_S st0"
  shows "x \<in> set pre \<Longrightarrow> num st v < num st x" "y \<in> set (sc_S st0) \<Longrightarrow> num st y < num st v" "v \<notin> set pre" "v \<notin> set (sc_S st0)"
  using sc_invD(3)[OF sc_loopD(1)[OF assms(1)]] unfolding assms(2) by (auto simp: sorted_wrt_append)

text \<open>Taking the minimum with the number of a stack vertex that \<open>v\<close> reaches, or with a larger number, keeps the loop's state.\<close>

lemma sc_loop_min:
  assumes "sc_loop g G v st0 W st" "W' \<subseteq> dom (sc_idx st)" "W \<subseteq> W'"
    and "num st v \<le> n \<or> (\<exists>y \<in> set (sc_S st0). num st y = n \<and> (v, y) \<in> (edge_rel g)\<^sup>*)"
    and "\<And>w. w \<in> W' - W \<Longrightarrow> w \<in> set (sc_S st0) \<Longrightarrow> n \<le> num st w"
  shows "sc_loop g G v st0 W' (sc_min v n st)"
proof -
  note L = sc_loopD[OF assms(1)]
  obtain pre where pre: "sc_S st = pre @ v # sc_S st0" "set pre \<inter> dom (sc_idx st0) = {}"
      "\<And>x w. x \<in> set pre \<Longrightarrow> w \<in> set (sc_S st0) \<Longrightarrow> (x, w) \<in> edge_rel g \<Longrightarrow> sc_low st v \<le> num st w"
    using L(9) by blast
  have low: "sc_low (sc_min v n st) v = min (sc_low st v) n"
    by (simp add: sc_min_def)
  have st: "sc_idx (sc_min v n st) = sc_idx st" "sc_S (sc_min v n st) = sc_S st"
    by (simp_all add: sc_min_def)
  have "\<forall>w \<in> W' \<inter> set (sc_S st0). min (sc_low st v) n \<le> num st w"
    using L(6) assms(5) by (force simp: min_le_iff_disj)
  moreover have "min (sc_low st v) n = num st v \<or> (\<exists>y \<in> set (sc_S st0). num st y = min (sc_low st v) n \<and> (v, y) \<in> (edge_rel g)\<^sup>*)"
  proof (cases "sc_low st v \<le> n")
    case True
    then show ?thesis
      using L(8) by (simp add: min_absorb1)
  next
    case False
    then show ?thesis
      using L(7) assms(4) by (simp add: min_absorb2)
  qed
  moreover have "\<forall>x \<in> set pre. \<forall>w \<in> set (sc_S st0). (x, w) \<in> edge_rel g \<longrightarrow> min (sc_low st v) n \<le> num st w"
    using pre(3) by (force simp: min_le_iff_disj)
  moreover have "sc_inv g (insert v G) (sc_min v n st)"
    using L(1) by (simp add: sc_min_def sc_inv_low)
  ultimately show ?thesis
    unfolding sc_loop_def low st using L(2,3,7) sc_ext_min[OF L(4,2)] assms(2) pre(1,2) by auto
qed

lemma sc_loop_seen:
  assumes "sc_loop g G v st0 W st" "sc_idx st w = Some i" "(v, w) \<in> edge_rel g"
  shows "sc_loop g G v st0 (insert w W) (if w \<in> set (sc_S st) then sc_min v i st else st)"
proof (cases "w \<in> set (sc_S st)")
  case True
  note L = sc_loopD[OF assms(1)]
  obtain pre where pre: "sc_S st = pre @ v # sc_S st0"
    using L(9) by blast
  note o = sc_loop_order[OF assms(1) pre]
  have "num st v \<le> i \<or> (\<exists>y \<in> set (sc_S st0). num st y = i \<and> (v, y) \<in> (edge_rel g)\<^sup>*)"
    using True o(1)[of w] assms(2,3) unfolding pre by fastforce
  then have "sc_loop g G v st0 (insert w W) (sc_min v i st)"
    by (intro sc_loop_min[OF assms(1)]) (use L(5) assms(2) in auto)
  then show ?thesis
    using True by simp
next
  case False
  note L = sc_loopD[OF assms(1)]
  have "w \<notin> set (sc_S st0)"
    using False L(9) by auto
  then show ?thesis
    using assms(1,2) False unfolding sc_loop_def by auto
qed

lemma sc_loop_call:
  assumes "sc_loop g G v st0 W st" "w \<notin> dom (sc_idx st)" "(v, w) \<in> edge_rel g" "sc_post g (insert v G) w st st1"
  shows "sc_loop g G v st0 (insert w W) (sc_min v (sc_low st1 w) st1)"
proof -
  note L = sc_loopD[OF assms(1)]
  obtain pre where pre: "sc_S st = pre @ v # sc_S st0" "set pre \<inter> dom (sc_idx st0) = {}"
      "\<And>x u. x \<in> set pre \<Longrightarrow> u \<in> set (sc_S st0) \<Longrightarrow> (x, u) \<in> edge_rel g \<Longrightarrow> sc_low st v \<le> num st u"
    using L(9) by blast
  note o = sc_loop_order[OF assms(1) pre(1)] and SD = sc_invD(2)[OF L(1)]
  obtain pre1 where p1: "sc_S st1 = pre1 @ sc_S st" "set pre1 \<inter> dom (sc_idx st) = {}"
      "sc_low st1 w = num st1 w \<or> (\<exists>y \<in> set (sc_S st). num st1 y = sc_low st1 w \<and> (w, y) \<in> (edge_rel g)\<^sup>*)"
      "\<And>x u. x \<in> set pre1 \<Longrightarrow> u \<in> set (sc_S st) \<Longrightarrow> (x, u) \<in> edge_rel g \<Longrightarrow> sc_low st1 w \<le> num st1 u"
    and inv1: "sc_inv g (insert v G) st1" and w1: "w \<in> dom (sc_idx st1)" and ext: "sc_ext st st1"
    using assms(4) unfolding sc_post_def by blast
  note X = sc_extD[OF ext] and X0 = sc_extD[OF L(4)]
  have vd: "v \<in> dom (sc_idx st)"
    using L(3) by blast
  have S0: "u \<in> set (sc_S st0) \<Longrightarrow> u \<in> dom (sc_idx st)" for u
    using SD pre(1) by auto
  have same: "x \<in> dom (sc_idx st) \<Longrightarrow> num st1 x = num st x" for x
    using X(1) by simp
  have nw: "num st v \<le> num st1 w"
    using X(4)[of w] w1 assms(2) sc_invD(1)[OF L(1) L(3)] L(3) by fastforce
  have ext0: "sc_ext st0 st1"
    by (rule sc_ext_trans[OF L(4) ext])
  \<comment> \<open>the low link of \<open>w\<close> is that of a vertex below \<open>v\<close>, or not below \<open>v\<close>\<close>
  have low: "num st1 v \<le> sc_low st1 w \<or> (\<exists>y \<in> set (sc_S st0). num st1 y = sc_low st1 w \<and> (v, y) \<in> (edge_rel g)\<^sup>*)"
    using p1(3)
  proof (elim disjE bexE conjE)
    fix y
    assume y: "y \<in> set (sc_S st)" "num st1 y = sc_low st1 w" "(w, y) \<in> (edge_rel g)\<^sup>*"
    then consider "y \<in> set pre" | "y = v" | "y \<in> set (sc_S st0)"
      unfolding pre(1) by auto
    then show ?thesis
    proof cases
      case 1
      then show ?thesis
        using o(1)[of y] y SD same[OF vd] same[of y] by (auto simp: subset_iff)
    next
      case 3
      then show ?thesis
        using y(2,3) assms(3) by (blast intro: converse_rtrancl_into_rtrancl)
    qed (use y in simp)
  qed (use nw same[OF vd] in simp)
  let ?n = "sc_low st1 w"
  let ?l = "min (sc_low st v) ?n"
  have st: "sc_low (sc_min v ?n st1) v = ?l" "sc_idx (sc_min v ?n st1) = sc_idx st1" "sc_S (sc_min v ?n st1) = sc_S st1"
    using X(2)[OF vd] by (simp_all add: sc_min_def)
  have "\<forall>u \<in> insert w W \<inter> set (sc_S st0). ?l \<le> num st1 u"
    using L(6) S0 assms(2) same by (force simp: min_le_iff_disj)
  moreover have "?l = num st1 v \<or> (\<exists>y \<in> set (sc_S st0). num st1 y = ?l \<and> (v, y) \<in> (edge_rel g)\<^sup>*)"
  proof (cases "sc_low st v \<le> ?n")
    case True
    then show ?thesis
      using L(8) same S0 same[OF vd] by (force simp: min_absorb1)
  next
    case False
    then show ?thesis
      using L(7) low same[OF vd] by (simp add: min_absorb2)
  qed
  moreover have "?l \<le> num st1 u" if "x \<in> set (pre1 @ pre)" "u \<in> set (sc_S st0)" "(x, u) \<in> edge_rel g" for x u
    using that p1(4)[of x u] pre(3)[of x u] same[OF S0[OF that(2)]] unfolding pre(1) by (auto simp: min_le_iff_disj)
  moreover have "set (pre1 @ pre) \<inter> dom (sc_idx st0) = {}"
    using p1(2) pre(2) X0(5) unfolding set_append by blast
  moreover have "sc_S st1 = (pre1 @ pre) @ v # sc_S st0"
    using p1(1) pre(1) by simp
  moreover have "sc_inv g (insert v G) (sc_min v ?n st1)"
    using inv1 by (simp add: sc_min_def sc_inv_low)
  moreover have "insert w W \<subseteq> dom (sc_idx st1)" "sc_idx st1 v = Some (sc_index st0)" "?l \<le> num st1 v"
    using L(3,5,7) X(1)[OF vd] X(5) w1 same[OF vd] by (auto simp: min_le_iff_disj)
  ultimately show ?thesis
    unfolding sc_loop_def st using L(2) sc_ext_min[OF ext0 L(2)] by blast
qed

lemma pop_until_append: "v \<notin> set pre \<Longrightarrow> pop_until v (pre @ v # S) = Some (pre @ [v], S)"
  by (induction pre) auto

text \<open>The end of the call for \<open>v\<close>, after all its edges.\<close>

lemma sc_loop_edges:
  assumes "sc_loop g G v st0 (edge_rel g `` {v}) st" "sc_S st = pre @ v # sc_S st0"
  shows "x \<in> dom (sc_idx st) \<Longrightarrow> x \<notin> G \<Longrightarrow> (x, w) \<in> edge_rel g \<Longrightarrow> w \<in> dom (sc_idx st)"
    and "sc_low st v = num st v \<Longrightarrow> x \<in> insert v (set pre) \<Longrightarrow> (x, w) \<in> edge_rel g \<Longrightarrow> w \<notin> set (sc_S st0)"
proof -
  note L = sc_loopD[OF assms(1)] and o = sc_loop_order[OF assms]
  show "w \<in> dom (sc_idx st)" if "x \<in> dom (sc_idx st)" "x \<notin> G" "(x, w) \<in> edge_rel g"
    using that sc_invD(5)[OF L(1), of x w] L(5) by (cases "x = v") auto
  obtain pre' where "sc_S st = pre' @ v # sc_S st0"
      "\<And>x w. x \<in> set pre' \<Longrightarrow> w \<in> set (sc_S st0) \<Longrightarrow> (x, w) \<in> edge_rel g \<Longrightarrow> sc_low st v \<le> num st w"
    using L(9) by blast
  then have bound: "x \<in> set pre \<Longrightarrow> w \<in> set (sc_S st0) \<Longrightarrow> (x, w) \<in> edge_rel g \<Longrightarrow> sc_low st v \<le> num st w" for x w
    using assms(2) by (metis append_same_eq)
  show "w \<notin> set (sc_S st0)" if x: "sc_low st v = num st v" "x \<in> insert v (set pre)" "(x, w) \<in> edge_rel g"
  proof
    assume w: "w \<in> set (sc_S st0)"
    then have "sc_low st v \<le> num st w"
      using x(2,3) bound[of x w] L(6)[of w] by auto
    then show False
      using o(2)[OF w] x(1) by simp
  qed
qed

lemma sc_finish_pop:
  assumes "sc_inv g G st0" "sc_loop g G v st0 (edge_rel g `` {v}) st" "sc_low st v = num st v"
  shows "\<exists>ret st'. sc_finish v st = Some (ret, st') \<and> sc_post g G v st0 st' \<and> ret @ sc_S st0 = sc_S st"
proof -
  note L = sc_loopD[OF assms(2)] and D0 = sc_invD[OF assms(1)]
  note D = sc_invD[OF L(1)]
  obtain pre where pre: "sc_S st = pre @ v # sc_S st0"
    using L(9) by blast
  note o = sc_loop_order[OF assms(2) pre] and e = sc_loop_edges[OF assms(2) pre]
  let ?st = "st\<lparr>sc_S := sc_S st0\<rparr>"
  have fin: "sc_finish v st = Some (pre @ [v], ?st)"
    using assms(3) L(3) pop_until_append[OF o(3)] pre by (simp add: sc_finish_def)
  have same: "x \<in> set (sc_S st0) \<Longrightarrow> num st x = num st0 x" for x
    using sc_extD(1)[OF L(4)] D0(2) by (auto simp: subset_iff)
  have "sc_inv g G ?st"
  proof (rule sc_invI)
    show "i < sc_index ?st" if "sc_idx ?st x = Some i" for x i
      using that D(1) by simp
    show "set (sc_S ?st) \<subseteq> dom (sc_idx ?st)" "sorted_wrt (\<lambda>x y. num ?st y < num ?st x) (sc_S ?st)" "G \<subseteq> set (sc_S ?st)"
      using D(2,3) D0(4) pre by (auto simp: sorted_wrt_append)
    show "w \<in> dom (sc_idx ?st)" if "x \<in> dom (sc_idx ?st)" "x \<notin> G" "(x, w) \<in> edge_rel g" for x w
      using e(1) that by simp
    show "w \<in> dom (sc_idx ?st) - set (sc_S ?st)" if "x \<in> dom (sc_idx ?st)" "x \<notin> set (sc_S ?st)" "(x, w) \<in> edge_rel g" for x w
    proof (cases "x \<in> insert v (set pre)")
      case True
      then show ?thesis
        using e(1)[of x w] e(2)[OF assms(3) True] that D0(4) by auto
    next
      case False
      then show ?thesis
        using D(6)[of x w] that pre by auto
    qed
    show "(x, y) \<in> (edge_rel g)\<^sup>*" if "x \<in> set (sc_S ?st)" "y \<in> set (sc_S ?st)" "num ?st x \<le> num ?st y" for x y
      using D(7)[of x y] that pre by simp
    show "\<exists>y \<in> G. num ?st y \<le> num ?st x \<and> (x, y) \<in> (edge_rel g)\<^sup>*" if x: "x \<in> set (sc_S ?st)" for x
    proof -
      obtain y where y: "y \<in> G" "num st0 y \<le> num st0 x" "(x, y) \<in> (edge_rel g)\<^sup>*"
        using D0(8)[of x] x by auto
      then have "num ?st y \<le> num ?st x"
        using same[of y] same[of x] D0(4) x by auto
      then show ?thesis
        using y by blast
    qed
  qed
  moreover have "sc_ext st0 ?st" "v \<in> dom (sc_idx ?st)"
    using L(3,4) by (auto simp: sc_ext_def)
  ultimately show ?thesis
    using fin assms(3) pre by (auto simp: sc_post_def)
qed

lemma sc_finish_keep:
  assumes "sc_inv g G st0" "sc_loop g G v st0 (edge_rel g `` {v}) st" "sc_low st v \<noteq> num st v"
  shows "\<exists>ret st'. sc_finish v st = Some (ret, st') \<and> sc_post g G v st0 st'"
proof -
  note L = sc_loopD[OF assms(2)] and D0 = sc_invD[OF assms(1)]
  note D = sc_invD[OF L(1)]
  obtain pre where pre: "sc_S st = pre @ v # sc_S st0" "set pre \<inter> dom (sc_idx st0) = {}"
      "\<And>x w. x \<in> set pre \<Longrightarrow> w \<in> set (sc_S st0) \<Longrightarrow> (x, w) \<in> edge_rel g \<Longrightarrow> sc_low st v \<le> num st w"
    using L(9) by blast
  note e = sc_loop_edges[OF assms(2) pre(1)]
  have same: "x \<in> set (sc_S st0) \<Longrightarrow> num st x = num st0 x" for x
    using sc_extD(1)[OF L(4)] D0(2) by (auto simp: subset_iff)
  obtain y where y: "y \<in> set (sc_S st0)" "num st y = sc_low st v" "(v, y) \<in> (edge_rel g)\<^sup>*"
    using L(8) assms(3) by blast
  obtain z where z0: "z \<in> G" "num st0 z \<le> num st0 y" "(y, z) \<in> (edge_rel g)\<^sup>*"
    using D0(8)[OF y(1)] by blast
  then have z: "z \<in> G" "num st z \<le> num st y" "(y, z) \<in> (edge_rel g)\<^sup>*"
    using same[of z] same[OF y(1)] D0(4) by auto
  have "sc_inv g G st"
  proof (rule sc_invI)
    show "i < sc_index st" if "sc_idx st x = Some i" for x i
      using that D(1) by simp
    show "set (sc_S st) \<subseteq> dom (sc_idx st)" "sorted_wrt (\<lambda>x y. num st y < num st x) (sc_S st)" "G \<subseteq> set (sc_S st)"
      using D(2,3) D0(4) pre by auto
    show "w \<in> dom (sc_idx st)" if "x \<in> dom (sc_idx st)" "x \<notin> G" "(x, w) \<in> edge_rel g" for x w
      using e(1) that .
    show "w \<in> dom (sc_idx st) - set (sc_S st)" if "x \<in> dom (sc_idx st)" "x \<notin> set (sc_S st)" "(x, w) \<in> edge_rel g" for x w
      using D(6) that .
    show "(x, y) \<in> (edge_rel g)\<^sup>*" if "x \<in> set (sc_S st)" "y \<in> set (sc_S st)" "num st x \<le> num st y" for x y
      using D(7) that .
    show "\<exists>y \<in> G. num st y \<le> num st x \<and> (x, y) \<in> (edge_rel g)\<^sup>*" if x: "x \<in> set (sc_S st)" for x
    proof -
      obtain u where u: "u \<in> insert v G" "num st u \<le> num st x" "(x, u) \<in> (edge_rel g)\<^sup>*"
        using D(8)[OF x] by blast
      show ?thesis
      proof (cases "u = v")
        case True
        then have "num st z \<le> num st x" "(x, z) \<in> (edge_rel g)\<^sup>*"
          using u z y L(7) by (auto intro: rtrancl_trans)
        then show ?thesis
          using z(1) by blast
      qed (use u in blast)
    qed
  qed
  moreover have "sc_S st = (pre @ [v]) @ sc_S st0" "set (pre @ [v]) \<inter> dom (sc_idx st0) = {}"
    using pre(1,2) L(2) by auto
  moreover have "sc_low st v \<le> num st w" if "x \<in> set (pre @ [v])" "w \<in> set (sc_S st0)" "(x, w) \<in> edge_rel g" for x w
    using that pre(3)[of x w] L(6)[of w] by auto
  ultimately have "sc_post g G v st0 st"
    unfolding sc_post_def using L(3,4,8) by blast
  then show ?thesis
    using assms(3) L(3) by (simp add: sc_finish_def)
qed

subsection \<open>The search returns and finds the component\<close>

lemma strong_connect_ok:
  fixes A :: "vid set"
  assumes A: "finite A" "edge_rel g `` A \<subseteq> A"
  shows "v \<in> A \<Longrightarrow> v \<notin> dom (sc_idx st) \<Longrightarrow> sc_inv g G st \<Longrightarrow> \<forall>y \<in> G. (y, v) \<in> (edge_rel g)\<^sup>* \<Longrightarrow> card (A - dom (sc_idx st)) \<le> n
      \<Longrightarrow> \<exists>ret st'. strong_connect n g v st = Some (ret, st') \<and> sc_post g G v st st'"
    and "sc_loop g G v st0 W st \<Longrightarrow> set ws \<subseteq> edge_rel g `` {v} \<Longrightarrow> set ws \<subseteq> A \<Longrightarrow> \<forall>y \<in> G. (y, v) \<in> (edge_rel g)\<^sup>* \<Longrightarrow> card (A - dom (sc_idx st)) \<le> n
      \<Longrightarrow> \<exists>st'. sc_children n g v ws st = Some st' \<and> sc_loop g G v st0 (W \<union> set ws) st'"
  using A(2)
proof (induction n g v st and n g v ws st arbitrary: G and G st0 W rule: strong_connect_sc_children.induct)
  case (1 g v st)
  then have "A - dom (sc_idx st) = {}"
    using A(1) by (simp add: card_eq_0_iff)
  then show ?case
    using 1(1,2) by blast
next
  case (2 n g v st)
  have ws: "set (map fst (to_edges g v)) = edge_rel g `` {v}"
    by (auto simp: edge_rel_def)
  have "A - dom (sc_idx (sc_enter v st)) \<subset> A - dom (sc_idx st)"
    using 2(2,3) by (auto simp: sc_enter_def)
  then have "card (A - dom (sc_idx (sc_enter v st))) \<le> n"
    using psubset_card_mono[of "A - dom (sc_idx st)" "A - dom (sc_idx (sc_enter v st))"] A(1) 2(6) by simp
  then obtain st' where st': "sc_children n g v (map fst (to_edges g v)) (sc_enter v st) = Some st'" "sc_loop g G v st (edge_rel g `` {v}) st'"
    using 2(1)[OF sc_enter_loop[OF 2(4,3,5)]] 2(2,5,7) ws by force
  then show ?case
    using sc_finish_pop[OF 2(4) st'(2)] sc_finish_keep[OF 2(4) st'(2)] by (cases "sc_low st' v = num st' v") auto
next
  case (3 n g v st)
  then show ?case by simp
next
  case (4 n g v w ws st)
  have vw: "(v, w) \<in> edge_rel g"
    using 4(5) by simp
  show ?case
  proof (cases "sc_idx st w")
    case None
    have "\<forall>y \<in> insert v G. (y, w) \<in> (edge_rel g)\<^sup>*"
      using 4(7) vw by (auto intro: rtrancl_into_rtrancl)
    then obtain ret st1 where st1: "strong_connect n g w st = Some (ret, st1)" "sc_post g (insert v G) w st st1"
      using 4(1)[OF None, of "insert v G"] sc_loopD(1)[OF 4(4)] 4(6,8,9) None by auto
    let ?st = "sc_min v (sc_low st1 w) st1"
    have lp: "sc_loop g G v st0 (insert w W) ?st"
      using sc_loop_call[OF 4(4) _ vw st1(2)] None by blast
    have "dom (sc_idx st) \<subseteq> dom (sc_idx ?st)"
      using st1(2) sc_extD(5)[of st st1] by (simp add: sc_post_def sc_min_def)
    then have "A - dom (sc_idx ?st) \<subseteq> A - dom (sc_idx st)"
      by blast
    then have "card (A - dom (sc_idx ?st)) \<le> n"
      using card_mono[of "A - dom (sc_idx st)"] A(1) 4(8) by (meson finite_Diff order_trans)
    then show ?thesis
      using 4(2)[OF None st1(1) refl lp] 4(5-7,9) st1(1) None by auto
  next
    case (Some i)
    let ?st = "if w \<in> set (sc_S st) then sc_min v i st else st"
    have lp: "sc_loop g G v st0 (insert w W) ?st"
      using sc_loop_seen[OF 4(4) Some vw] .
    have "card (A - dom (sc_idx ?st)) \<le> n"
      using 4(8) by (simp add: sc_min_def)
    then show ?thesis
      using 4(3)[OF Some lp] 4(5-7,9) Some by auto
  qed
qed

lemma sc_inv_init: "sc_inv g {} sc_init"
  by (rule sc_invI) (simp_all add: sc_init_def)

definition scc_of :: "graph \<Rightarrow> vid \<Rightarrow> vid set" where
  "scc_of g v = {w. (v, w) \<in> (edge_rel g)\<^sup>* \<and> (w, v) \<in> (edge_rel g)\<^sup>*}"

text \<open>When the loop of the first call has ended, the stack is the component.\<close>

lemma sc_loop_scc:
  assumes "sc_loop g {} v sc_init (edge_rel g `` {v}) st"
  shows "set (sc_S st) = scc_of g v" "distinct (sc_S st)" "sc_low st v = num st v"
proof -
  note L = sc_loopD[OF assms]
  note D = sc_invD[OF L(1)]
  obtain pre where "sc_S st = pre @ v # sc_S sc_init"
    using L(9) by blast
  then have pre: "sc_S st = pre @ [v]"
    by (simp add: sc_init_def)
  show "distinct (sc_S st)"
    using D(3) by (auto simp: distinct_conv_nth sorted_wrt_iff_nth_less) (metis less_irrefl linorder_neqE_nat)
  show "sc_low st v = num st v"
    using L(8) by (simp add: sc_init_def)
  have v0: "num st v = 0"
    using L(3) by (simp add: sc_init_def)
  have sub: "set (sc_S st) \<subseteq> scc_of g v"
    using D(7)[of v] D(8) v0 pre by (auto simp: scc_of_def)
  have vis: "w \<in> dom (sc_idx st)" if "(v, w) \<in> (edge_rel g)\<^sup>*" for w
    using that
  proof (induction rule: rtrancl_induct)
    case (step y z)
    then show ?case
      using sc_loop_edges(1)[OF assms _ step(3)] pre by (simp add: sc_init_def)
  qed (use L(3) in blast)
  have "w \<in> set (sc_S st)" if w: "(v, w) \<in> (edge_rel g)\<^sup>*" "(w, v) \<in> (edge_rel g)\<^sup>*" for w
  proof (rule ccontr)
    assume out: "w \<notin> set (sc_S st)"
    have "v \<in> dom (sc_idx st) - set (sc_S st)"
      using w(2)
    proof (induction rule: rtrancl_induct)
      case (step y z)
      then show ?case
        using D(6)[of y z] by blast
    qed (use vis[OF w(1)] out in blast)
    then show False
      using pre by simp
  qed
  then show "set (sc_S st) = scc_of g v"
    using sub by (auto simp: scc_of_def)
qed

lemma find_scc_ok:
  assumes "finite (dom (g_vertex g))"
  shows "\<exists>ret. find_scc v g = Some ret \<and> distinct ret \<and> set ret = scc_of g v"
proof -
  let ?A = "insert v (all_vids g)" and ?n = "card (all_vids g)"
  have A: "finite ?A" "edge_rel g `` ?A \<subseteq> ?A"
    using all_vids(1,3)[OF assms] by (auto simp: edge_rel_def)
  have enter: "sc_loop g {} v sc_init {} (sc_enter v sc_init)"
    by (rule sc_enter_loop[OF sc_inv_init]) (simp_all add: sc_init_def)
  have ws: "set (map fst (to_edges g v)) = edge_rel g `` {v}"
    by (auto simp: edge_rel_def)
  have "?A - dom (sc_idx (sc_enter v sc_init)) \<subseteq> all_vids g"
    by (auto simp: sc_enter_def sc_init_def)
  then have "card (?A - dom (sc_idx (sc_enter v sc_init))) \<le> ?n"
    using card_mono all_vids(1)[OF assms] by blast
  then obtain st where st: "sc_children ?n g v (map fst (to_edges g v)) (sc_enter v sc_init) = Some st"
      "sc_loop g {} v sc_init (edge_rel g `` {v}) st"
    using strong_connect_ok(2)[OF A enter, of "map fst (to_edges g v)" ?n] ws A(2) by auto
  obtain ret st' where "sc_finish v st = Some (ret, st')" "ret @ sc_S sc_init = sc_S st"
    using sc_finish_pop[OF sc_inv_init st(2) sc_loop_scc(3)[OF st(2)]] by blast
  then show ?thesis
    using st(1) sc_loop_scc(1,2)[OF st(2)] by (auto simp: find_scc_def sc_init_def)
qed

text \<open>C15: \<open>find_scc\<close> returns on every finite graph, without touching an empty stack, and its result lists exactly the vertexes that
  the vertex reaches and that reach it, each once.\<close>

theorem find_scc_exact:
  assumes "finite (dom (g_vertex g))"
  shows "\<exists>ret. find_scc v g = Some ret \<and> distinct ret \<and> set ret = scc_of g v"
  using find_scc_ok[OF assms] .

lemma ring_all_vids: "all_vids ring_graph = {0, 1, 2}"
  unfolding all_vids_def ring_graph(1) by (simp add: ring_graph del: One_nat_def) auto

lemma ring_scc: "find_scc 0 ring_graph = Some [2, 1, 0]"
proof -
  have fuel: "Suc (card (all_vids ring_graph)) = Suc (Suc (Suc (Suc 0)))"
    by (simp add: ring_all_vids)
  show ?thesis
    unfolding find_scc_def fuel by (simp add: ring_graph sc_init_def sc_enter_def sc_min_def sc_finish_def del: One_nat_def)
qed

theorem find_scc_exact_witness:
  "finite (dom (g_vertex ring_graph)) \<and> find_scc 0 ring_graph = Some [2, 1, 0] \<and> scc_of ring_graph 0 = {0, 1, 2}"
proof -
  have fin: "finite (dom (g_vertex ring_graph))"
    by (simp add: ring_graph)
  obtain ret where "find_scc 0 ring_graph = Some ret" "set ret = scc_of ring_graph 0"
    using find_scc_exact[OF fin, of 0] by blast
  then have "scc_of ring_graph 0 = set [2, 1, 0]"
    unfolding ring_scc by blast
  then show ?thesis
    using fin ring_scc by auto
qed

end
