(* ===== verification/QSort.thy ===== *)
theory QSort
  imports DepGraph "HOL-Library.Multiset"
begin

text \<open>
  \<open>qsort_vv\<close> and \<open>sort_vv\<close> of \<open>deptran/graph.hpp\<close>: the quicksort in place by which vertexes are ordered by the ids of their
  transactions. Positions are integers, since the recursion uses positions before the first; \<open>key\<close> gives the id of a vertex.
\<close>

definition swap_at :: "int \<Rightarrow> int \<Rightarrow> vid list \<Rightarrow> vid list" where
  "swap_at a b vv = vv[nat a := vv ! nat b, nat b := vv ! nat a]"

function part_loop :: "(vid \<Rightarrow> u64) \<Rightarrow> u64 \<Rightarrow> int \<Rightarrow> int \<Rightarrow> int \<Rightarrow> vid list \<Rightarrow> int \<times> vid list" where
  "part_loop key x r j i vv =
    (if j < r
     then if key (vv ! nat j) < x
       then part_loop key x r (j + 1) (i + 1) (swap_at j (i + 1) vv)
       else part_loop key x r (j + 1) i vv
     else (i, vv))"
  by pat_completeness auto
termination
  by (relation "measure (\<lambda>(_, _, r, j, _, _). nat (r - j))") auto

declare part_loop.simps [simp del]

lemma part_loop_bounds: "part_loop key x r j i vv = (i', vv') \<Longrightarrow> i \<le> i' \<and> (j \<le> r \<longrightarrow> i' \<le> i + (r - j))"
proof (induction key x r j i vv rule: part_loop.induct)
  case (1 key x r j i vv)
  show ?case
    using 1(3) 1(1,2) by (subst (asm) part_loop.simps) (force split: if_splits)
qed

function qsort_vv :: "(vid \<Rightarrow> u64) \<Rightarrow> int \<Rightarrow> int \<Rightarrow> vid list \<Rightarrow> vid list" where
  "qsort_vv key p r vv =
    (if p \<ge> r then vv
     else
       let x = vv ! nat r;
           (i, vv1) = part_loop key (key x) r p (p - 1) vv;
           q = i + 1;
           vv2 = swap_at r q vv1;
           vv3 = qsort_vv key p (q - 1) vv2
       in qsort_vv key (q + 1) r vv3)"
  by pat_completeness auto
termination
  by (relation "measure (\<lambda>(_, p, r, _). nat (r - p + 1))") (auto dest!: part_loop_bounds[OF sym])

declare qsort_vv.simps [simp del]

definition sort_vv :: "(vid \<Rightarrow> u64) \<Rightarrow> bool \<Rightarrow> vid list \<Rightarrow> vid list" where
  "sort_vv key flag vv = (let vv' = qsort_vv key 0 (int (length vv) - 1) vv in if flag then rev vv' else vv')"

subsection \<open>Segments\<close>

text \<open>Two lists that differ only inside a segment and have the same elements.\<close>

definition seg_perm :: "int \<Rightarrow> int \<Rightarrow> vid list \<Rightarrow> vid list \<Rightarrow> bool" where
  "seg_perm a b xs ys \<longleftrightarrow> mset xs = mset ys \<and> (\<forall>k < length xs. int k < a \<or> b < int k \<longrightarrow> ys ! k = xs ! k)"

lemma seg_perm_refl [simp]: "seg_perm a b xs xs"
  by (simp add: seg_perm_def)

lemma seg_perm_length: "seg_perm a b xs ys \<Longrightarrow> length ys = length xs"
  by (metis seg_perm_def size_mset)

lemma seg_perm_trans: "seg_perm a b xs ys \<Longrightarrow> seg_perm a b ys zs \<Longrightarrow> seg_perm a b xs zs"
  using seg_perm_length[of a b xs ys] by (simp add: seg_perm_def)

lemma seg_perm_mono: "seg_perm a b xs ys \<Longrightarrow> a' \<le> a \<Longrightarrow> b \<le> b' \<Longrightarrow> seg_perm a' b' xs ys"
  by (auto simp: seg_perm_def)

lemma seg_perm_swap:
  assumes "0 \<le> i" "i < int (length xs)" "0 \<le> j" "j < int (length xs)" "a \<le> i" "i \<le> b" "a \<le> j" "j \<le> b"
  shows "seg_perm a b xs (swap_at i j xs)"
proof -
  have "mset (swap_at i j xs) = mset xs"
    unfolding swap_at_def using assms by (intro mset_swap) auto
  then show ?thesis
    using assms by (auto simp: seg_perm_def swap_at_def nth_list_update)
qed

text \<open>The elements of the segment are the same.\<close>

lemma seg_perm_segment:
  assumes "seg_perm a b xs ys" "0 \<le> a" "a \<le> b" "b < int (length xs)"
  shows "mset (drop (nat a) (take (nat b + 1) ys)) = mset (drop (nat a) (take (nat b + 1) xs))"
proof -
  let ?n = "nat b + 1"
  have len: "length ys = length xs"
    using seg_perm_length[OF assms(1)] .
  have split: "mset zs = mset (take (nat a) zs) + mset (drop (nat a) (take ?n zs)) + mset (drop ?n zs)" if "length zs = length xs" for zs
  proof -
    have "take ?n zs = take (nat a) zs @ drop (nat a) (take ?n zs)"
      using append_take_drop_id[of "nat a" "take ?n zs"] assms(3) by (simp add: min_absorb1)
    then have "mset (take ?n zs) = mset (take (nat a) zs) + mset (drop (nat a) (take ?n zs))"
      by (metis mset_append)
    moreover have "mset zs = mset (take ?n zs) + mset (drop ?n zs)"
      by (metis append_take_drop_id mset_append)
    ultimately show ?thesis
      by simp
  qed
  have "take (nat a) ys = take (nat a) xs"
    using assms len by (intro nth_equalityI) (auto simp: seg_perm_def)
  moreover have "drop ?n ys = drop ?n xs"
    using assms len by (intro nth_equalityI) (auto simp: seg_perm_def)
  ultimately show ?thesis
    using split[of xs] split[of ys] len assms(1) by (simp add: seg_perm_def)
qed

lemma seg_perm_all:
  assumes "seg_perm a b xs ys" "0 \<le> a" "b < int (length xs)" "\<And>k. a \<le> k \<Longrightarrow> k \<le> b \<Longrightarrow> P (xs ! nat k)" "a \<le> k" "k \<le> b"
  shows "P (ys ! nat k)"
proof -
  have ab: "a \<le> b"
    using assms(5,6) by simp
  have len: "length ys = length xs"
    using seg_perm_length[OF assms(1)] .
  let ?seg = "\<lambda>zs. drop (nat a) (take (nat b + 1) zs)"
  have "ys ! nat k = ?seg ys ! (nat k - nat a)" "nat k - nat a < length (?seg ys)"
    using assms len by auto
  then have "ys ! nat k \<in> set (?seg xs)"
    using seg_perm_segment[OF assms(1,2) ab assms(3)] by (metis nth_mem set_mset_mset)
  then obtain l where "l < length (?seg xs)" "ys ! nat k = ?seg xs ! l"
    by (metis in_set_conv_nth)
  then have "ys ! nat k = xs ! nat (a + int l)" "a + int l \<le> b"
    using assms by (auto simp: nat_add_distrib)
  then show ?thesis
    using assms(4)[of "a + int l"] by simp
qed

subsection \<open>Partition\<close>

lemma part_loop_ok:
  assumes "part_loop key x r j i vv = (i', vv')" "0 \<le> p" "p - 1 \<le> i" "i < j" "p \<le> j" "j \<le> r" "r < int (length vv)"
    and "\<And>k. p \<le> k \<Longrightarrow> k \<le> i \<Longrightarrow> key (vv ! nat k) < x" "\<And>k. i < k \<Longrightarrow> k < j \<Longrightarrow> x \<le> key (vv ! nat k)"
  shows "seg_perm p (r - 1) vv vv' \<and> (\<forall>k. p \<le> k \<and> k \<le> i' \<longrightarrow> key (vv' ! nat k) < x) \<and> (\<forall>k. i' < k \<and> k < r \<longrightarrow> x \<le> key (vv' ! nat k))"
  using assms
proof (induction key x r j i vv rule: part_loop.induct)
  case (1 key x r j i vv)
  note pre = 1(4-9) and low = 1(10) and high = 1(11)
  show ?case
  proof (cases "j < r")
    case False
    then have "i' = i" "vv' = vv" "j = r"
      using 1(3) pre(5) by (auto simp: part_loop.simps)
    then show ?thesis
      using low high by auto
  next
    case True
    show ?thesis
    proof (cases "key (vv ! nat j) < x")
      case small: True
      let ?vv = "swap_at j (i + 1) vv"
      have at: "?vv ! nat k = (if k = j then vv ! nat (i + 1) else if k = i + 1 then vv ! nat j else vv ! nat k)" if "0 \<le> k" for k
        using pre True that by (auto simp: swap_at_def nth_list_update)
      have step: "part_loop key x r (j + 1) (i + 1) ?vv = (i', vv')"
        using 1(3) True small by (simp add: part_loop.simps[of key x r j])
      have "seg_perm p (r - 1) ?vv vv' \<and> (\<forall>k. p \<le> k \<and> k \<le> i' \<longrightarrow> key (vv' ! nat k) < x) \<and> (\<forall>k. i' < k \<and> k < r \<longrightarrow> x \<le> key (vv' ! nat k))"
      proof (rule 1(1)[OF True small step])
        show "key (?vv ! nat k) < x" if "p \<le> k" "k \<le> i + 1" for k
          using that low[of k] small pre at[of k] by auto
        show "x \<le> key (?vv ! nat k)" if "i + 1 < k" "k < j + 1" for k
          using that high[of k] high[of "i + 1"] pre at[of k] by auto
      qed (use pre True in \<open>auto simp: swap_at_def\<close>)
      moreover have "seg_perm p (r - 1) vv ?vv"
        using pre True by (intro seg_perm_swap) auto
      ultimately show ?thesis
        using seg_perm_trans by blast
    next
      case big: False
      have step: "part_loop key x r (j + 1) i vv = (i', vv')"
        using 1(3) True big by (simp add: part_loop.simps[of key x r j])
      show ?thesis
      proof (rule 1(2)[OF True big step])
        show "x \<le> key (vv ! nat k)" if "i < k" "k < j + 1" for k
          using that high[of k] big by (cases "k = j") auto
      qed (use pre True low in auto)
    qed
  qed
qed

text \<open>The array after the pivot has been put at its place \<open>q\<close>.\<close>

lemma partition_ok:
  assumes "part_loop key (key (vv ! nat r)) r p (p - 1) vv = (i, vv1)" "0 \<le> p" "p < r" "r < int (length vv)"
  defines "q \<equiv> i + 1" and "vv2 \<equiv> swap_at r (i + 1) vv1"
  shows "p \<le> q" "q \<le> r" "seg_perm p r vv vv2" "vv2 ! nat q = vv ! nat r"
    and "\<And>k. p \<le> k \<Longrightarrow> k < q \<Longrightarrow> key (vv2 ! nat k) < key (vv2 ! nat q)" "\<And>k. q \<le> k \<Longrightarrow> k \<le> r \<Longrightarrow> key (vv2 ! nat q) \<le> key (vv2 ! nat k)"
proof -
  let ?x = "vv ! nat r"
  show bounds: "p \<le> q" "q \<le> r"
    using part_loop_bounds[OF assms(1)] assms(3) by (auto simp: q_def)
  have P: "seg_perm p (r - 1) vv vv1" "\<And>k. p \<le> k \<Longrightarrow> k \<le> i \<Longrightarrow> key (vv1 ! nat k) < key ?x" "\<And>k. i < k \<Longrightarrow> k < r \<Longrightarrow> key ?x \<le> key (vv1 ! nat k)"
    using part_loop_ok[OF assms(1,2)] assms(2-4) by auto
  have len: "length vv1 = length vv"
    using seg_perm_length[OF P(1)] .
  have x: "vv1 ! nat r = ?x"
    using P(1) assms(2-4) by (auto simp: seg_perm_def)
  have at: "vv2 ! nat k = (if k = q then ?x else if k = r then vv1 ! nat q else vv1 ! nat k)" if "0 \<le> k" for k
    using that bounds assms(2-4) len x by (auto simp: vv2_def q_def swap_at_def nth_list_update)
  show q: "vv2 ! nat q = ?x"
    using at[of q] bounds assms(2) by simp
  have "seg_perm p r vv1 vv2"
    unfolding vv2_def using bounds assms(2-4) len by (intro seg_perm_swap) (auto simp: q_def)
  then show "seg_perm p r vv vv2"
    using seg_perm_trans[OF seg_perm_mono[OF P(1), of p r]] by simp
  show "key (vv2 ! nat k) < key (vv2 ! nat q)" if "p \<le> k" "k < q" for k
    using that P(2)[of k] at[of k] q bounds assms(2) by (auto simp: q_def)
  show "key (vv2 ! nat q) \<le> key (vv2 ! nat k)" if "q \<le> k" "k \<le> r" for k
    using that P(3)[of k] P(3)[of q] at[of k] q bounds assms(2) by (auto simp: q_def)
qed

subsection \<open>Sorting\<close>

definition seg_sorted :: "(vid \<Rightarrow> u64) \<Rightarrow> int \<Rightarrow> int \<Rightarrow> vid list \<Rightarrow> bool" where
  "seg_sorted key p r vv \<longleftrightarrow> (\<forall>k l. p \<le> k \<and> k \<le> l \<and> l \<le> r \<longrightarrow> key (vv ! nat k) \<le> key (vv ! nat l))"

text \<open>Sorting both sides of the pivot sorts the whole segment.\<close>

lemma qsort_join:
  assumes "0 \<le> p" "p \<le> q" "q \<le> r" "r < int (length vv2)"
    and "\<And>k. p \<le> k \<Longrightarrow> k < q \<Longrightarrow> key (vv2 ! nat k) < key (vv2 ! nat q)" "\<And>k. q \<le> k \<Longrightarrow> k \<le> r \<Longrightarrow> key (vv2 ! nat q) \<le> key (vv2 ! nat k)"
    and "seg_perm p (q - 1) vv2 vv3" "seg_sorted key p (q - 1) vv3" "seg_perm (q + 1) r vv3 vv4" "seg_sorted key (q + 1) r vv4"
  shows "seg_perm p r vv2 vv4 \<and> seg_sorted key p r vv4"
proof -
  have len: "length vv3 = length vv2"
    using seg_perm_length[OF assms(7)] .
  have keep3: "vv3 ! nat k = vv2 ! nat k" if "q - 1 < k" "k \<le> r" for k
    using assms(1-4,7) that by (auto simp: seg_perm_def)
  have keep4: "vv4 ! nat k = vv3 ! nat k" if "p \<le> k" "k \<le> q" for k
    using assms(1-4,9) that len by (auto simp: seg_perm_def)
  have mid: "vv4 ! nat q = vv2 ! nat q"
    using keep4[of q] keep3[of q] assms(2,3) by simp
  have low: "key (vv4 ! nat k) < key (vv4 ! nat q)" if "p \<le> k" "k < q" for k
    using seg_perm_all[OF assms(7,1), of "\<lambda>v. key v < key (vv2 ! nat q)" k] assms(3-5) that keep4[of k] mid by auto
  have high: "key (vv4 ! nat q) \<le> key (vv4 ! nat k)" if "q < k" "k \<le> r" for k
    using seg_perm_all[OF assms(9), of "\<lambda>v. key (vv2 ! nat q) \<le> key v" k] assms(1-4,6) keep3 that len mid by auto
  have "key (vv4 ! nat k) \<le> key (vv4 ! nat l)" if kl: "p \<le> k" "k \<le> l" "l \<le> r" for k l
  proof -
    consider "l < q" | "k < q" "l = q" | "k < q" "q < l" | "k = q" "l = q" | "k = q" "q < l" | "q < k"
      using kl by linarith
    then show ?thesis
    proof cases
      case 1
      then show ?thesis
        using assms(8) keep4[of k] keep4[of l] kl by (auto simp: seg_sorted_def)
    next
      case 6
      then show ?thesis
        using assms(10) kl by (auto simp: seg_sorted_def)
    qed (use low[of k] high[of l] kl in auto)
  qed
  moreover have "seg_perm p r vv2 vv4"
    using seg_perm_trans[OF seg_perm_mono[OF assms(7)] seg_perm_mono[OF assms(9)]] assms(2,3) by simp
  ultimately show ?thesis
    by (simp add: seg_sorted_def)
qed

lemma qsort_vv_ok:
  assumes "0 \<le> p" "r < int (length vv)"
  shows "seg_perm p r vv (qsort_vv key p r vv) \<and> seg_sorted key p r (qsort_vv key p r vv)"
  using assms
proof (induction key p r vv rule: qsort_vv.induct)
  case (1 key p r vv)
  show ?case
  proof (cases "p \<ge> r")
    case True
    have "k = l" if "p \<le> k" "k \<le> l" "l \<le> r" for k l
      using that True by simp
    then have "seg_sorted key p r vv"
      unfolding seg_sorted_def by (metis order_refl)
    then show ?thesis
      using True by (subst (1 2) qsort_vv.simps) simp
  next
    case False
    obtain i vv1 where part: "part_loop key (key (vv ! nat r)) r p (p - 1) vv = (i, vv1)"
      by force
    let ?q = "i + 1"
    define vv2 where "vv2 = swap_at r ?q vv1"
    define vv3 where "vv3 = qsort_vv key p (?q - 1) vv2"
    have res: "qsort_vv key p r vv = qsort_vv key (?q + 1) r vv3"
      using False part by (subst qsort_vv.simps) (simp add: Let_def vv2_def vv3_def)
    note P = partition_ok[OF part 1(3) _ 1(4), folded vv2_def]
    have len2: "length vv2 = length vv"
      using seg_perm_length[OF P(3)] False by simp
    have S3: "seg_perm p (?q - 1) vv2 vv3 \<and> seg_sorted key p (?q - 1) vv3"
      unfolding vv3_def using 1(1)[OF False refl part[symmetric] refl refl refl, folded vv2_def] 1(3,4) P(1,2) False len2 by auto
    have "length vv3 = length vv"
      using seg_perm_length S3 len2 by metis
    then have S4: "seg_perm (?q + 1) r vv3 (qsort_vv key (?q + 1) r vv3) \<and> seg_sorted key (?q + 1) r (qsort_vv key (?q + 1) r vv3)"
      using 1(2)[OF False refl part[symmetric] refl refl refl refl, folded vv2_def] 1(3,4) P(1,2) False by (auto simp: vv3_def)
    have pr: "p < r"
      using False by simp
    have "seg_perm p r vv2 (qsort_vv key (?q + 1) r vv3) \<and> seg_sorted key p r (qsort_vv key (?q + 1) r vv3)"
    proof (rule qsort_join[OF 1(3) P(1)[OF pr] P(2)[OF pr], where ?vv3.0 = vv3])
      show "key (vv2 ! nat k) < key (vv2 ! nat ?q)" if "p \<le> k" "k < ?q" for k
        using P(5)[OF pr that] .
      show "key (vv2 ! nat ?q) \<le> key (vv2 ! nat k)" if "?q \<le> k" "k \<le> r" for k
        using P(6)[OF pr that] .
    qed (use S3 S4 1(4) len2 in simp_all)
    then show ?thesis
      unfolding res using seg_perm_trans[OF P(3)[OF pr]] by blast
  qed
qed

lemma sort_vv_mset: "mset (sort_vv key flag vv) = mset vv"
  using qsort_vv_ok[of 0 "int (length vv) - 1" vv key] by (simp add: sort_vv_def seg_perm_def Let_def)

lemma sort_vv_ok:
  "map key (sort_vv key flag vv) = (if flag then rev (sort (map key vv)) else sort (map key vv))"
proof -
  define ws where "ws = qsort_vv key 0 (int (length vv) - 1) vv"
  have ok: "seg_perm 0 (int (length vv) - 1) vv ws" "\<And>k l. 0 \<le> k \<Longrightarrow> k \<le> l \<Longrightarrow> l \<le> int (length vv) - 1 \<Longrightarrow> key (ws ! nat k) \<le> key (ws ! nat l)"
    using qsort_vv_ok[of 0 "int (length vv) - 1" vv key] by (auto simp: ws_def seg_sorted_def)
  have len: "length ws = length vv"
    using seg_perm_length[OF ok(1)] .
  have "sorted (map key ws)"
    unfolding sorted_iff_nth_mono
  proof (intro allI impI)
    fix i j
    assume "i \<le> j" "j < length (map key ws)"
    then show "map key ws ! i \<le> map key ws ! j"
      using ok(2)[of "int i" "int j"] len by simp
  qed
  moreover have "mset (map key ws) = mset (map key vv)"
    using ok(1) by (simp add: seg_perm_def)
  ultimately have "map key ws = sort (map key vv)"
    using properties_for_sort by metis
  then show ?thesis
    by (simp add: sort_vv_def Let_def ws_def[symmetric] rev_map[symmetric])
qed

text \<open>\<open>sort_vv\<close> sorts: the ids of the result are those of the argument in ascending order, or in descending order when the
  flag is set.\<close>

theorem sort_vv_sorts:
  "map key (sort_vv key flag vv) = (if flag then rev (sort (map key vv)) else sort (map key vv))"
  by (rule sort_vv_ok)

end
