(* ===== verification/GraphUnion.thy ===== *)
theory GraphUnion
  imports DepGraph
begin

text \<open>
  The operations of \<open>deptran/graph.hpp\<close> that build and merge graphs, the invariant they keep, and what they do to a graph seen
  through the ids of its transactions: \<open>node\<close> is the data of an id and \<open>edge\<close> the relation between two ids. Addresses
  for new vertexes come from an allocator, a function that is only known to return unused addresses.
\<close>

subsection \<open>Operations\<close>

type_synonym allocator = "graph \<Rightarrow> vid"

definition upd_data :: "vid \<Rightarrow> (txn_info \<Rightarrow> txn_info) \<Rightarrow> graph \<Rightarrow> graph" where
  "upd_data v f = upd_vertex v (\<lambda>x. x\<lparr>vx_data := f (vx_data x)\<rparr>)"

text \<open>One vertex of the other graph: it is inserted with its data, or its data is merged.\<close>

definition union_vertex :: "u32 \<Rightarrow> bool \<Rightarrow> allocator \<Rightarrow> txn_info \<Rightarrow> graph \<Rightarrow> vid \<times> graph" where
  "union_vertex site is_server alloc d g = (case g_id_index g (ti_id d) of
     None \<Rightarrow> (alloc g, new_vertex (alloc g) d g)
   | Some v \<Rightarrow> (v, upd_data v (\<lambda>d0. fst (union_data site d False is_server d0)) g))"

text \<open>Its outgoing edges. An edge to a vertex that does not exist is a dangling pointer.\<close>

fun union_edges :: "allocator \<Rightarrow> graph \<Rightarrow> vid \<Rightarrow> (vid \<times> i8) list \<Rightarrow> graph \<Rightarrow> graph option" where
  "union_edges alloc gra new_ov [] g = Some g"
| "union_edges alloc gra new_ov ((tv, relation) # es) g = (case g_vertex gra tv of
     None \<Rightarrow> None
   | Some tx \<Rightarrow> (case find_or_insert_data (alloc g) (vx_data tx) g of
       (new_tv, g') \<Rightarrow> union_edges alloc gra new_ov es (add_edge new_ov new_tv relation g')))"

fun union_vertexes :: "u32 \<Rightarrow> bool \<Rightarrow> allocator \<Rightarrow> graph \<Rightarrow> vid list \<Rightarrow> vid set \<Rightarrow> graph \<Rightarrow> (vid set \<times> graph) option" where
  "union_vertexes site is_server alloc gra [] new_vs g = Some (new_vs, g)"
| "union_vertexes site is_server alloc gra (v # vs) new_vs g = (case g_vertex gra v of
     None \<Rightarrow> None
   | Some x \<Rightarrow> (case union_vertex site is_server alloc (vx_data x) g of
       (new_ov, g1) \<Rightarrow> do {
         g2 \<leftarrow> union_edges alloc gra new_ov (vx_to x) g1;
         union_vertexes site is_server alloc gra vs (insert new_ov new_vs) g2
       }))"

definition trigger_at :: "vid \<Rightarrow> graph \<Rightarrow> graph \<times> ball list" where
  "trigger_at v g = (case g_vertex g v of
     None \<Rightarrow> (g, [])
   | Some x \<Rightarrow> (upd_data v (\<lambda>d. fst (ti_trigger d)) g, snd (ti_trigger (vx_data x))))"

fun trigger_all :: "vid list \<Rightarrow> graph \<Rightarrow> graph \<times> ball list" where
  "trigger_all [] g = (g, [])"
| "trigger_all (v # vs) g = (case trigger_at v g of (g1, bs) \<Rightarrow> (case trigger_all vs g1 of (g2, bs') \<Rightarrow> (g2, bs @ bs')))"

definition union_graph :: "u32 \<Rightarrow> allocator \<Rightarrow> bool \<Rightarrow> graph \<Rightarrow> graph \<Rightarrow> (graph \<times> ball list) option" where
  "union_graph site alloc is_server gra g = do {
     verify (graph_size gra > 0);
     (new_vs, g') \<leftarrow> union_vertexes site is_server alloc gra (g_vertex_index gra) {} g;
     Some (trigger_all (sorted_list_of_set new_vs) g')
   }"

subsection \<open>The invariant of graphs\<close>

text \<open>The indexes describe the vertexes, and both ends of an edge know it with the same relation.\<close>

definition graph_inv :: "graph \<Rightarrow> bool" where
  "graph_inv g \<longleftrightarrow> set (g_vertex_index g) = dom (g_vertex g) \<and> distinct (g_vertex_index g)
     \<and> (\<forall>i v. g_id_index g i = Some v \<longleftrightarrow> v \<in> dom (g_vertex g) \<and> vkey g v = i)
     \<and> (\<forall>v. smap_inv (to_edges g v) \<and> smap_inv (from_edges g v))
     \<and> (\<forall>v w. map_of (to_edges g v) w = map_of (from_edges g w) v)"

lemma graph_invD:
  assumes "graph_inv g"
  shows "set (g_vertex_index g) = dom (g_vertex g)" "distinct (g_vertex_index g)"
    "\<And>i v. g_id_index g i = Some v \<longleftrightarrow> v \<in> dom (g_vertex g) \<and> vkey g v = i"
    "\<And>v. smap_inv (to_edges g v)" "\<And>v. smap_inv (from_edges g v)"
    "\<And>v w. map_of (to_edges g v) w = map_of (from_edges g w) v"
  using assms unfolding graph_inv_def by blast+

lemma graph_inv_finite: "graph_inv g \<Longrightarrow> finite (dom (g_vertex g))"
  using graph_invD(1) List.finite_set by metis

lemma graph_inv_edge_dom:
  assumes "graph_inv g" "map_of (to_edges g v) w = Some r"
  shows "v \<in> dom (g_vertex g)" "w \<in> dom (g_vertex g)"
proof -
  show "v \<in> dom (g_vertex g)"
    using assms(2) by (cases "g_vertex g v") (auto simp: to_edges_def)
  have "map_of (from_edges g w) v = Some r"
    using assms graph_invD(6) by simp
  then show "w \<in> dom (g_vertex g)"
    by (cases "g_vertex g w") (auto simp: from_edges_def)
qed

lemma graph_inv_new: "graph_inv graph_new"
  by (auto simp: graph_inv_def graph_new_def to_edges_def from_edges_def smap_inv_def)

lemma graph_inv_new_vertex:
  assumes "graph_inv g" "v \<notin> dom (g_vertex g)" "g_id_index g (ti_id d) = None"
  shows "graph_inv (new_vertex v d g)"
proof -
  note D = graph_invD[OF assms(1)]
  have to: "to_edges (new_vertex v d g) = to_edges g" "from_edges (new_vertex v d g) = from_edges g"
    using assms(2) by (auto simp: fun_eq_iff to_edges_def from_edges_def new_vertex_def vertex_new_def dom_def)
  have key: "vkey (new_vertex v d g) w = (if w = v then ti_id d else vkey g w)" for w
    by (simp add: vkey_def new_vertex_def vertex_new_def)
  have none: "\<And>w. w \<in> dom (g_vertex g) \<Longrightarrow> vkey g w \<noteq> ti_id d"
    using D(3)[of "ti_id d"] assms(3) by auto
  show ?thesis
    unfolding graph_inv_def to key
  proof (intro conjI allI)
    fix i w
    show "(g_id_index (new_vertex v d g) i = Some w) =
        (w \<in> dom (g_vertex (new_vertex v d g)) \<and> (if w = v then ti_id d else vkey g w) = i)"
      using none[of w] assms(2) D(3)[of i w] by (auto simp: new_vertex_def)
  qed (use D assms(2) in \<open>auto simp: new_vertex_def\<close>)
qed

lemma to_edges_upd_data [simp]: "to_edges (upd_data v f g) = to_edges g" "from_edges (upd_data v f g) = from_edges g"
  by (auto simp: fun_eq_iff to_edges_def from_edges_def upd_data_def upd_vertex_def split: option.splits)

lemma upd_vertex_dom [simp]: "dom (g_vertex (upd_vertex v f g)) = dom (g_vertex g)"
  "g_vertex_index (upd_vertex v f g) = g_vertex_index g" "g_id_index (upd_vertex v f g) = g_id_index g"
  by (auto simp: upd_vertex_def dom_def)

lemma upd_data_dom [simp]: "dom (g_vertex (upd_data v f g)) = dom (g_vertex g)"
  "g_vertex_index (upd_data v f g) = g_vertex_index g" "g_id_index (upd_data v f g) = g_id_index g"
  by (simp_all add: upd_data_def)

lemma vkey_upd_data: "(\<And>d. ti_id (f d) = ti_id d) \<Longrightarrow> vkey (upd_data v f g) = vkey g"
  by (auto simp: fun_eq_iff vkey_def upd_data_def upd_vertex_def split: option.splits)

lemma graph_inv_upd_data:
  assumes "graph_inv g" "\<And>d. ti_id (f d) = ti_id d"
  shows "graph_inv (upd_data v f g)"
  using graph_invD[OF assms(1)] unfolding graph_inv_def vkey_upd_data[of f, OF assms(2)] by simp

lemma add_edge_dom [simp]: "dom (g_vertex (add_edge a b rel g)) = dom (g_vertex g)"
  "g_vertex_index (add_edge a b rel g) = g_vertex_index g" "g_id_index (add_edge a b rel g) = g_id_index g"
  by (simp_all add: add_edge_def)

lemma vkey_add_edge [simp]: "vkey (add_edge a b rel g) = vkey g"
  by (auto simp: fun_eq_iff vkey_def add_edge_def upd_vertex_def split: option.splits)

lemma edges_add_edge:
  assumes "a \<in> dom (g_vertex g)" "b \<in> dom (g_vertex g)"
  shows "to_edges (add_edge a b rel g) = (to_edges g)(a := or_edge b rel (to_edges g a))"
    "from_edges (add_edge a b rel g) = (from_edges g)(b := or_edge a rel (from_edges g b))"
  using assms by (auto simp: fun_eq_iff to_edges_def from_edges_def add_edge_def upd_vertex_def split: option.splits)

lemma graph_inv_add_edge:
  assumes "graph_inv g" "a \<in> dom (g_vertex g)" "b \<in> dom (g_vertex g)"
  shows "graph_inv (add_edge a b rel g)"
proof -
  note D = graph_invD[OF assms(1)]
  note E = edges_add_edge[OF assms(2,3)]
  have "smap_inv (or_edge c rel (to_edges g v))" "smap_inv (or_edge c rel (from_edges g v))" for c v
    using D(4,5) by (auto simp: or_edge_def intro: smap_inv_put)
  moreover have "map_of (or_edge c rel m) w = (if w = c then Some ((case map_of m c of Some x \<Rightarrow> x | None \<Rightarrow> 0) OR rel) else map_of m w)"
    if "smap_inv m" for c m w
    using that by (simp add: or_edge_def smap_lookup_put)
  ultimately show ?thesis
    using D unfolding graph_inv_def E by simp
qed

subsection \<open>Graphs by ids\<close>

definition node :: "graph \<Rightarrow> u64 \<Rightarrow> txn_info option" where
  "node g i = Option.bind (g_id_index g i) (\<lambda>v. map_option vx_data (g_vertex g v))"

definition edge :: "graph \<Rightarrow> u64 \<Rightarrow> u64 \<Rightarrow> i8 option" where
  "edge g i j = Option.bind (g_id_index g i) (\<lambda>v. Option.bind (g_id_index g j) (map_of (to_edges g v)))"

fun or_opt :: "i8 option \<Rightarrow> i8 option \<Rightarrow> i8 option" where
  "or_opt None b = b"
| "or_opt a None = a"
| "or_opt (Some x) (Some y) = Some (x OR y)"

lemma or_opt_simps [simp]: "or_opt a None = a"
  by (cases a) auto

lemma or_opt_ac: "or_opt a b = or_opt b a" "or_opt (or_opt a b) c = or_opt a (or_opt b c)" "or_opt a a = a"
  "or_opt b (or_opt a c) = or_opt a (or_opt b c)"
  by (cases a; cases b; simp add: ac_simps) (cases a; cases b; cases c; simp add: ac_simps)+

lemma node_id: "graph_inv g \<Longrightarrow> node g i = Some d \<Longrightarrow> ti_id d = i"
  using graph_invD(3)[of g i] by (auto simp: node_def vkey_def bind_eq_Some_conv)

lemma node_None: "graph_inv g \<Longrightarrow> node g i = None \<longleftrightarrow> g_id_index g i = None"
proof -
  assume "graph_inv g"
  then show ?thesis
    using graph_invD(3)[of g i] by (cases "g_id_index g i") (auto simp: node_def)
qed

lemma node_vkey:
  assumes "graph_inv g" "g_vertex g v = Some x"
  shows "node g (vkey g v) = Some (vx_data x)" "g_id_index g (vkey g v) = Some v" "ti_id (vx_data x) = vkey g v"
proof -
  show *: "g_id_index g (vkey g v) = Some v"
    using graph_invD(3)[OF assms(1)] assms(2) by auto
  show "node g (vkey g v) = Some (vx_data x)" "ti_id (vx_data x) = vkey g v"
    using * assms(2) by (simp_all add: node_def vkey_def)
qed

lemma edge_vkey:
  assumes "graph_inv g" "v \<in> dom (g_vertex g)" "w \<in> dom (g_vertex g)"
  shows "edge g (vkey g v) (vkey g w) = map_of (to_edges g v) w"
proof -
  have "g_id_index g (vkey g v) = Some v" "g_id_index g (vkey g w) = Some w"
    using graph_invD(3)[OF assms(1)] assms(2,3) by auto
  then show ?thesis
    by (simp add: edge_def)
qed

lemma edge_None: "g_id_index g i = None \<or> g_id_index g j = None \<Longrightarrow> edge g i j = None"
  by (cases "g_id_index g i") (auto simp: edge_def)

lemma node_new_vertex:
  assumes "graph_inv g" "v \<notin> dom (g_vertex g)" "g_id_index g (ti_id d) = None"
  shows "node (new_vertex v d g) = (node g)(ti_id d \<mapsto> d)" "edge (new_vertex v d g) = edge g"
proof -
  have ix: "g_id_index (new_vertex v d g) = (g_id_index g)(ti_id d \<mapsto> v)"
    by (simp add: new_vertex_def)
  have ne: "g_id_index g i = Some w \<Longrightarrow> w \<noteq> v" for i w
    using graph_invD(3)[OF assms(1)] assms(2) by blast
  have to: "to_edges (new_vertex v d g) = to_edges g"
    using assms(2) by (auto simp: fun_eq_iff to_edges_def new_vertex_def vertex_new_def dom_def)
  show "node (new_vertex v d g) = (node g)(ti_id d \<mapsto> d)"
  proof
    fix i
    show "node (new_vertex v d g) i = ((node g)(ti_id d \<mapsto> d)) i"
      using ne[of i] by (cases "g_id_index g i") (auto simp: node_def ix new_vertex_def vertex_new_def)
  qed
  have none: "to_edges g v = []"
    using assms(2) by (simp add: to_edges_def dom_def)
  have nov: "map_of (to_edges g w) v = None" for w
    using graph_inv_edge_dom(2)[OF assms(1), of w v] assms(2) by (cases "map_of (to_edges g w) v") auto
  show "edge (new_vertex v d g) = edge g"
  proof (intro ext)
    fix i j
    show "edge (new_vertex v d g) i j = edge g i j"
      using assms(3) none nov by (cases "i = ti_id d"; cases "j = ti_id d"; cases "g_id_index g i") (simp_all add: edge_def ix to)
  qed
qed

lemma node_upd_data:
  assumes "graph_inv g" "g_id_index g i = Some v"
  shows "node (upd_data v f g) = (node g)(i := map_option f (node g i))" "edge (upd_data v f g) = edge g"
proof -
  have "node (upd_data v f g) j = ((node g)(i := map_option f (node g i))) j" for j
  proof (cases "j = i")
    case True
    then show ?thesis
      using assms(2) by (simp add: node_def upd_data_def upd_vertex_def option.map_comp o_def)
  next
    case False
    then have "g_id_index g j \<noteq> Some v"
      using assms(2) graph_invD(3)[OF assms(1), of j v] graph_invD(3)[OF assms(1), of i v] by blast
    then show ?thesis
      using False by (cases "g_id_index g j") (simp_all add: node_def upd_data_def upd_vertex_def)
  qed
  then show "node (upd_data v f g) = (node g)(i := map_option f (node g i))"
    by blast
  show "edge (upd_data v f g) = edge g"
    by (simp add: fun_eq_iff edge_def)
qed

lemma node_add_edge:
  assumes "graph_inv g" "g_id_index g i = Some a" "g_id_index g j = Some b"
  shows "node (add_edge a b rel g) = node g"
    "edge (add_edge a b rel g) = (edge g)(i := (edge g i)(j := or_opt (edge g i j) (Some rel)))"
proof -
  note D = graph_invD(3)[OF assms(1)]
  have ab: "a \<in> dom (g_vertex g)" "b \<in> dom (g_vertex g)"
    using D assms(2,3) by blast+
  have data: "map_option vx_data (g_vertex (add_edge a b rel g) v) = map_option vx_data (g_vertex g v)" for v
    by (simp add: add_edge_def upd_vertex_def option.map_comp o_def)
  show "node (add_edge a b rel g) = node g"
    unfolding fun_eq_iff node_def data by simp
  have ii: "g_id_index g i' = Some a \<longleftrightarrow> i' = i" for i'
    using D[of i' a] D[of i a] assms(2) by blast
  have jj: "g_id_index g j' = Some b \<longleftrightarrow> j' = j" for j'
    using D[of j' b] D[of j b] assms(3) by blast
  have m: "map_of (or_edge b rel (to_edges g a)) w = (if w = b then or_opt (map_of (to_edges g a) b) (Some rel) else map_of (to_edges g a) w)" for w
    using smap_lookup_put[OF graph_invD(4)[OF assms(1), of a]] by (cases "map_of (to_edges g a) b") (auto simp: or_edge_def)
  show "edge (add_edge a b rel g) = (edge g)(i := (edge g i)(j := or_opt (edge g i j) (Some rel)))"
  proof (intro ext)
    fix i' j'
    show "edge (add_edge a b rel g) i' j' = ((edge g)(i := (edge g i)(j := or_opt (edge g i j) (Some rel)))) i' j'"
    proof (cases "i' = i")
      case True
      then show ?thesis
        using jj[of j'] assms(2,3) by (cases "g_id_index g j'") (auto simp: edge_def edges_add_edge[OF ab] m)
    next
      case False
      then show ?thesis
        using ii[of i'] by (cases "g_id_index g i'") (auto simp: edge_def edges_add_edge[OF ab])
    qed
  qed
qed

subsection \<open>Union\<close>

definition alloc_ok :: "allocator \<Rightarrow> bool" where
  "alloc_ok alloc \<longleftrightarrow> (\<forall>g. finite (dom (g_vertex g)) \<longrightarrow> alloc g \<notin> dom (g_vertex g))"

lemma alloc_okD: "alloc_ok alloc \<Longrightarrow> graph_inv g \<Longrightarrow> alloc g \<notin> dom (g_vertex g)"
  using graph_inv_finite unfolding alloc_ok_def by blast

text \<open>Some vertexes of the other graph have been inserted with their data.\<close>

definition grown :: "graph \<Rightarrow> graph \<Rightarrow> graph \<Rightarrow> bool" where
  "grown gra g g' \<longleftrightarrow> g_id_index g \<subseteq>\<^sub>m g_id_index g' \<and> (\<forall>i. node g' i = node g i \<or> node g i = None \<and> node g' i = node gra i)"

lemma grown_refl [simp]: "grown gra g g"
  by (simp add: grown_def)

lemma grown_trans:
  assumes "grown gra g1 g2" "grown gra g2 g3"
  shows "grown gra g1 g3"
  unfolding grown_def
proof (intro conjI allI)
  show "g_id_index g1 \<subseteq>\<^sub>m g_id_index g3"
    using assms map_le_trans unfolding grown_def by blast
  fix i
  show "node g3 i = node g1 i \<or> node g1 i = None \<and> node g3 i = node gra i"
    using assms unfolding grown_def by metis
qed

lemma find_or_insert_data_ok:
  assumes "graph_inv g" "fresh \<notin> dom (g_vertex g)"
  obtains v g' where "find_or_insert_data fresh d g = (v, g')" "graph_inv g'" "g_id_index g' (ti_id d) = Some v"
    "node gra (ti_id d) = Some d \<Longrightarrow> grown gra g g'" "edge g' = edge g"
proof (cases "g_id_index g (ti_id d)")
  case None
  have "node g (ti_id d) = None"
    using node_None[OF assms(1)] None by simp
  then have "node gra (ti_id d) = Some d \<Longrightarrow> grown gra g (new_vertex fresh d g)"
    using None unfolding grown_def node_new_vertex[OF assms None] by (auto simp: new_vertex_def map_le_def)
  then show ?thesis
    using that[of fresh "new_vertex fresh d g"] None graph_inv_new_vertex[OF assms None] node_new_vertex(2)[OF assms None]
    by (simp add: find_or_insert_data_def new_vertex_def)
next
  case (Some v)
  then show ?thesis
    using that[of v g] assms(1) by (simp add: find_or_insert_data_def)
qed

abbreviation edge_list :: "graph \<Rightarrow> (vid \<times> i8) list \<Rightarrow> (u64 \<times> i8) list" where
  "edge_list gra \<equiv> map (\<lambda>(tv, r). (vkey gra tv, r))"

lemma union_edges_ok:
  assumes "alloc_ok alloc" "graph_inv gra" "graph_inv g" "g_id_index g i = Some nv"
    and "fst ` set es \<subseteq> dom (g_vertex gra)" "distinct (map fst es)"
  shows "\<exists>g'. union_edges alloc gra nv es g = Some g' \<and> graph_inv g' \<and> grown gra g g'
    \<and> edge g' = (edge g)(i := \<lambda>j. or_opt (edge g i j) (map_of (edge_list gra es) j))"
  using assms(3-6)
proof (induction es arbitrary: g)
  case (Cons e es)
  obtain tv r where e: "e = (tv, r)"
    by force
  then obtain tx where tx: "g_vertex gra tv = Some tx"
    using Cons.prems(3) by auto
  note k = node_vkey[OF assms(2) tx]
  obtain nt g1 where g1: "find_or_insert_data (alloc g) (vx_data tx) g = (nt, g1)" "graph_inv g1"
      "g_id_index g1 (ti_id (vx_data tx)) = Some nt" "node gra (ti_id (vx_data tx)) = Some (vx_data tx) \<Longrightarrow> grown gra g g1" "edge g1 = edge g"
    using find_or_insert_data_ok[OF Cons.prems(1) alloc_okD[OF assms(1) Cons.prems(1)]] by blast
  have nt: "g_id_index g1 (vkey gra tv) = Some nt" "grown gra g g1"
    using g1(3,4) k by simp_all
  have nv: "g_id_index g1 i = Some nv"
    using nt(2) Cons.prems(2) unfolding grown_def map_le_def by (metis domI)
  define g2 where "g2 = add_edge nv nt r g1"
  note N = node_add_edge[OF g1(2) nv nt(1), of r, folded g2_def]
  have "graph_inv g2"
    unfolding g2_def using graph_inv_add_edge[OF g1(2)] graph_invD(3)[OF g1(2)] nv nt(1) by blast
  moreover have ix: "g_id_index g2 = g_id_index g1"
    by (simp add: g2_def)
  moreover have "fst ` set es \<subseteq> dom (g_vertex gra)" "distinct (map fst es)"
    using Cons.prems(3,4) by simp_all
  ultimately obtain g3 where g3: "union_edges alloc gra nv es g2 = Some g3" "graph_inv g3" "grown gra g2 g3"
      "edge g3 = (edge g2)(i := \<lambda>j. or_opt (edge g2 i j) (map_of (edge_list gra es) j))"
    using Cons.IH[of g2] nv by metis
  have "grown gra g g3"
    using grown_trans[OF nt(2), of g3] g3(3) N(1) ix unfolding grown_def by simp
  moreover have "edge g3 = (edge g)(i := \<lambda>j. or_opt (edge g i j) (map_of (edge_list gra (e # es)) j))"
  proof -
    have "vkey gra tv \<notin> fst ` set (edge_list gra es)"
    proof
      assume "vkey gra tv \<in> fst ` set (edge_list gra es)"
      then obtain tv' where tv': "tv' \<in> fst ` set es" "vkey gra tv' = vkey gra tv"
        by force
      then have "tv' = tv"
        using k(2) graph_invD(3)[OF assms(2), of "vkey gra tv" tv'] Cons.prems(3) by force
      then show False
        using tv'(1) Cons.prems(4) e by auto
    qed
    then have "map_of (edge_list gra es) (vkey gra tv) = None"
      by (simp add: map_of_eq_None_iff)
    then show ?thesis
      unfolding g3(4) N(2) g1(5) e by (auto simp: fun_eq_iff)
  qed
  moreover have "union_edges alloc gra nv (e # es) g = Some g3"
    using g3(1) g1(1) tx e by (simp add: g2_def)
  ultimately show ?case
    using g3(2) by blast
qed (auto simp: fun_eq_iff)

lemma edge_list_edge:
  assumes "graph_inv gra" "g_vertex gra v = Some x"
  shows "map_of (edge_list gra (vx_to x)) j = edge gra (vkey gra v) j" "fst ` set (vx_to x) \<subseteq> dom (g_vertex gra)" "distinct (map fst (vx_to x))"
proof -
  have to: "to_edges gra v = vx_to x"
    using assms(2) by (simp add: to_edges_def)
  have inv: "smap_inv (vx_to x)"
    using graph_invD(4)[OF assms(1), of v] to by simp
  then show dist: "distinct (map fst (vx_to x))"
    by (rule smap_inv_distinct)
  show sub: "fst ` set (vx_to x) \<subseteq> dom (g_vertex gra)"
  proof
    fix w
    assume "w \<in> fst ` set (vx_to x)"
    then obtain r where "map_of (to_edges gra v) w = Some r"
      using dist to by force
    then show "w \<in> dom (g_vertex gra)"
      using graph_inv_edge_dom(2)[OF assms(1)] by simp
  qed
  have inj: "inj_on (vkey gra) (dom (g_vertex gra))"
    using graph_invD(3)[OF assms(1)] by (intro inj_onI) (metis option.inject)
  have v: "v \<in> dom (g_vertex gra)"
    using assms(2) by auto
  show "map_of (edge_list gra (vx_to x)) j = edge gra (vkey gra v) j"
  proof (cases "g_id_index gra j")
    case None
    have "j \<noteq> vkey gra w" if "w \<in> dom (g_vertex gra)" for w
      using None graph_invD(3)[OF assms(1), of j w] that by auto
    then have "j \<notin> fst ` set (edge_list gra (vx_to x))"
      using sub by (force simp: image_iff)
    then show ?thesis
      using None edge_None map_of_eq_None_iff by metis
  next
    case (Some w)
    then have w: "w \<in> dom (g_vertex gra)" "vkey gra w = j"
      using graph_invD(3)[OF assms(1)] by blast+
    have "map_of (edge_list gra es) (vkey gra w) = map_of es w" if "fst ` set es \<subseteq> dom (g_vertex gra)" for es
      using that
    proof (induction es)
      case (Cons e es)
      then have "vkey gra (fst e) = vkey gra w \<longleftrightarrow> fst e = w"
        using inj_on_eq_iff[OF inj _ w(1), of "fst e"] by auto
      then show ?case
        using Cons by (cases e) auto
    qed simp
    then show ?thesis
      using sub w edge_vkey[OF assms(1) v w(1)] to by simp
  qed
qed

text \<open>The data of a transaction after a merge.\<close>

definition node_union :: "u32 \<Rightarrow> bool \<Rightarrow> txn_info option \<Rightarrow> txn_info option \<Rightarrow> txn_info option" where
  "node_union site is_server a b = (case b of
     None \<Rightarrow> a
   | Some d \<Rightarrow> (case a of None \<Rightarrow> Some d | Some d0 \<Rightarrow> Some (fst (union_data site d False is_server d0))))"

lemma union_data_id [simp]: "ti_id (fst (union_data site d b is_server d0)) = ti_id d0" "ti_id (fst (ti_trigger d0)) = ti_id d0"
  by (simp_all add: union_data_def union_status_def Let_def ti_trigger_def)

lemma union_data_self: "fst (union_data site d False is_server d) = d"
  by (cases d) (simp add: union_data_def union_status_def Let_def)

lemma union_vertex_ok:
  assumes "alloc_ok alloc" "graph_inv g" "ti_id d = i"
  shows "\<exists>nv g'. union_vertex site is_server alloc d g = (nv, g') \<and> graph_inv g' \<and> g_id_index g' i = Some nv
    \<and> g_id_index g \<subseteq>\<^sub>m g_id_index g' \<and> node g' = (node g)(i := node_union site is_server (node g i) (Some d)) \<and> edge g' = edge g"
proof (cases "g_id_index g i")
  case None
  note new = alloc_okD[OF assms(1,2)] None[folded assms(3)]
  have "node g i = None"
    using node_None[OF assms(2)] None by simp
  then show ?thesis
    using None graph_inv_new_vertex[OF assms(2) new] node_new_vertex[OF assms(2) new] assms(3)
    by (auto simp: union_vertex_def node_union_def new_vertex_def map_le_def)
next
  case (Some v)
  obtain d0 where "node g i = Some d0"
    using node_None[OF assms(2), of i] Some by auto
  then show ?thesis
    using Some assms(3) node_upd_data[OF assms(2) Some] graph_inv_upd_data[OF assms(2)]
    by (simp add: union_vertex_def node_union_def)
qed

text \<open>The state of the loop over the vertexes: those with the ids \<open>S\<close> are merged with their edges.\<close>

definition union_state :: "u32 \<Rightarrow> bool \<Rightarrow> graph \<Rightarrow> graph \<Rightarrow> u64 set \<Rightarrow> vid set \<Rightarrow> graph \<Rightarrow> bool" where
  "union_state site is_server gra g0 S new_vs g \<longleftrightarrow> graph_inv g \<and> new_vs = {v. \<exists>i \<in> S. g_id_index g i = Some v}
     \<and> (\<forall>i \<in> S. node g i = node_union site is_server (node g0 i) (node gra i))
     \<and> (\<forall>i. i \<notin> S \<longrightarrow> node g i = node g0 i \<or> node g0 i = None \<and> node g i = node gra i)
     \<and> (\<forall>i j. edge g i j = or_opt (edge g0 i j) (if i \<in> S then edge gra i j else None))"

lemma union_stateD:
  assumes "union_state site is_server gra g0 S new_vs g"
  shows "graph_inv g" "new_vs = {v. \<exists>i \<in> S. g_id_index g i = Some v}"
    "\<And>i. i \<in> S \<Longrightarrow> node g i = node_union site is_server (node g0 i) (node gra i)"
    "\<And>i. i \<notin> S \<Longrightarrow> node g i = node g0 i \<or> node g0 i = None \<and> node g i = node gra i"
    "\<And>i j. edge g i j = or_opt (edge g0 i j) (if i \<in> S then edge gra i j else None)"
  using assms unfolding union_state_def by blast+

lemma union_state_step:
  assumes "alloc_ok alloc" "graph_inv gra" "g_vertex gra v = Some x" "vkey gra v \<notin> S" and st: "union_state site is_server gra g0 S new_vs g"
  shows "\<exists>nv g1 g2. union_vertex site is_server alloc (vx_data x) g = (nv, g1) \<and> union_edges alloc gra nv (vx_to x) g1 = Some g2
    \<and> union_state site is_server gra g0 (insert (vkey gra v) S) (insert nv new_vs) g2"
proof -
  let ?i = "vkey gra v"
  note U = union_stateD[OF st]
  note k = node_vkey[OF assms(2,3)]
  obtain nv g1 where g1: "union_vertex site is_server alloc (vx_data x) g = (nv, g1)" "graph_inv g1" "g_id_index g1 ?i = Some nv"
      "g_id_index g \<subseteq>\<^sub>m g_id_index g1" "node g1 = (node g)(?i := node_union site is_server (node g ?i) (Some (vx_data x)))" "edge g1 = edge g"
    using union_vertex_ok[OF assms(1) U(1) k(3)] by blast
  obtain g2 where g2: "union_edges alloc gra nv (vx_to x) g1 = Some g2" "graph_inv g2" "grown gra g1 g2"
      "edge g2 = (edge g1)(?i := \<lambda>j. or_opt (edge g1 ?i j) (map_of (edge_list gra (vx_to x)) j))"
    using union_edges_ok[OF assms(1,2) g1(2,3) edge_list_edge(2,3)[OF assms(2,3)]] by blast
  have ni: "node g1 ?i = node_union site is_server (node g0 ?i) (node gra ?i)"
    using U(4)[OF assms(4)] k(1) unfolding g1(5) by (auto simp: node_union_def union_data_self)
  have mono: "g_id_index g2 i = Some w" if "g_id_index g i = Some w \<or> g_id_index g1 i = Some w" for i w
    using that g1(4) g2(3) unfolding grown_def map_le_def by (metis domI)
  have n2: "node g2 i = node g1 i \<or> node g1 i = None \<and> node g2 i = node gra i" for i
    using g2(3) unfolding grown_def by blast
  have merged: "node g2 i = node_union site is_server (node g0 i) (node gra i)" if "i \<in> insert ?i S" for i
  proof -
    have "node g1 i = node_union site is_server (node g0 i) (node gra i)"
      using that ni U(3) g1(5) by (cases "i = ?i") auto
    then show ?thesis
      using n2[of i] by (auto simp: node_union_def split: option.splits)
  qed
  have rest: "node g2 i = node g0 i \<or> node g0 i = None \<and> node g2 i = node gra i" if "i \<notin> insert ?i S" for i
    using that n2[of i] U(4)[of i] g1(5) by auto
  have edges: "edge g2 i j = or_opt (edge g0 i j) (if i \<in> insert ?i S then edge gra i j else None)" for i j
    using U(5)[of i j] assms(4) unfolding g2(4) g1(6) edge_list_edge(1)[OF assms(2,3)] by auto
  have vs: "insert nv new_vs = {v. \<exists>i \<in> insert ?i S. g_id_index g2 i = Some v}"
  proof -
    have "g_id_index g i \<noteq> None" if "i \<in> S" "g_id_index g2 i = Some w" for i w
      using that U(3)[OF that(1)] merged[of i] node_None[OF U(1), of i] node_None[OF g2(2), of i] by auto
    then show ?thesis
      using mono g1(3) unfolding U(2) by fastforce
  qed
  show ?thesis
    using g1(1) g2(1,2) merged rest edges vs unfolding union_state_def by blast
qed

lemma union_vertexes_ok:
  assumes "alloc_ok alloc" "graph_inv gra" "set vs \<subseteq> dom (g_vertex gra)" "distinct vs"
    and "S \<inter> vkey gra ` set vs = {}" "union_state site is_server gra g0 S new_vs g"
  shows "\<exists>new_vs' g'. union_vertexes site is_server alloc gra vs new_vs g = Some (new_vs', g')
    \<and> union_state site is_server gra g0 (S \<union> vkey gra ` set vs) new_vs' g'"
  using assms(3-6)
proof (induction vs arbitrary: S new_vs g)
  case (Cons v vs)
  obtain x where x: "g_vertex gra v = Some x"
    using Cons.prems(1) by auto
  have "vkey gra v \<notin> S"
    using Cons.prems(3) by auto
  then obtain nv g1 g2 where st: "union_vertex site is_server alloc (vx_data x) g = (nv, g1)" "union_edges alloc gra nv (vx_to x) g1 = Some g2"
      "union_state site is_server gra g0 (insert (vkey gra v) S) (insert nv new_vs) g2"
    using union_state_step[OF assms(1,2) x _ Cons.prems(4)] by blast
  have sub: "set vs \<subseteq> dom (g_vertex gra)" "distinct vs"
    using Cons.prems(1,2) by simp_all
  have "vkey gra v \<notin> vkey gra ` set vs"
  proof
    assume "vkey gra v \<in> vkey gra ` set vs"
    then obtain w where w: "w \<in> set vs" "vkey gra w = vkey gra v"
      by force
    then have "w = v"
      using graph_invD(3)[OF assms(2), of "vkey gra v" w] node_vkey(2)[OF assms(2) x] sub(1) by auto
    then show False
      using w(1) Cons.prems(2) by simp
  qed
  then have dis: "insert (vkey gra v) S \<inter> vkey gra ` set vs = {}"
    using Cons.prems(3) by auto
  have "insert (vkey gra v) S \<union> vkey gra ` set vs = S \<union> vkey gra ` set (v # vs)"
    by auto
  then show ?case
    using Cons.IH[OF sub dis st(3)] st(1,2) x by simp
qed simp

lemma trigger_all_ok:
  assumes "graph_inv g" "distinct vs" "set vs \<subseteq> dom (g_vertex g)"
  shows "\<exists>g' bs. trigger_all vs g = (g', bs) \<and> graph_inv g' \<and> edge g' = edge g \<and> g_id_index g' = g_id_index g
    \<and> (\<forall>i. node g' i = (if g_id_index g i \<in> Some ` set vs then map_option (\<lambda>d. fst (ti_trigger d)) (node g i) else node g i))
    \<and> set bs = {b. \<exists>i d. g_id_index g i \<in> Some ` set vs \<and> node g i = Some d \<and> b \<in> set (snd (ti_trigger d))}"
  using assms
proof (induction vs arbitrary: g)
  case (Cons v vs)
  obtain x where x: "g_vertex g v = Some x"
    using Cons.prems(3) by auto
  note k = node_vkey[OF Cons.prems(1) x]
  let ?f = "\<lambda>d. fst (ti_trigger d)" and ?i = "vkey g v"
  define g1 where "g1 = upd_data v ?f g"
  have g1: "graph_inv g1" "node g1 = (node g)(?i := map_option ?f (node g ?i))" "edge g1 = edge g" "g_id_index g1 = g_id_index g"
    using graph_inv_upd_data[OF Cons.prems(1), of ?f v] node_upd_data[OF Cons.prems(1) k(2), of ?f] by (simp_all add: g1_def)
  have "distinct vs" "set vs \<subseteq> dom (g_vertex g1)"
    using Cons.prems(2,3) by (simp_all add: g1_def)
  then obtain g2 bs where g2: "trigger_all vs g1 = (g2, bs)" "graph_inv g2" "edge g2 = edge g1" "g_id_index g2 = g_id_index g1"
      "\<And>i. node g2 i = (if g_id_index g1 i \<in> Some ` set vs then map_option ?f (node g1 i) else node g1 i)"
      "set bs = {b. \<exists>i d. g_id_index g1 i \<in> Some ` set vs \<and> node g1 i = Some d \<and> b \<in> set (snd (ti_trigger d))}"
    using Cons.IH[OF g1(1)] by blast
  have v: "g_id_index g i = Some v \<longleftrightarrow> i = ?i" for i
    using graph_invD(3)[OF Cons.prems(1), of i v] k(2) by auto
  have ni: "g_id_index g ?i \<notin> Some ` set vs"
    using k(2) Cons.prems(2) by auto
  have iff: "g_id_index g i \<in> Some ` set (v # vs) \<longleftrightarrow> i = ?i \<or> g_id_index g i \<in> Some ` set vs" for i
    using v[of i] by auto
  have "node g2 i = (if g_id_index g i \<in> Some ` set (v # vs) then map_option ?f (node g i) else node g i)" for i
    unfolding g2(5) g1(4) iff using ni by (cases "i = ?i") (simp_all add: g1(2))
  moreover have "set (snd (ti_trigger (vx_data x)) @ bs)
      = {b. \<exists>i d. g_id_index g i \<in> Some ` set (v # vs) \<and> node g i = Some d \<and> b \<in> set (snd (ti_trigger d))}"
  proof -
    have "node g1 i = node g i" if "g_id_index g i \<in> Some ` set vs" for i
      using that ni g1(2) by auto
    then have "set bs = {b. \<exists>i d. g_id_index g i \<in> Some ` set vs \<and> node g i = Some d \<and> b \<in> set (snd (ti_trigger d))}"
      unfolding g2(6) g1(4) by auto
    then show ?thesis
      unfolding iff using k(1) by auto
  qed
  moreover have "trigger_all (v # vs) g = (g2, snd (ti_trigger (vx_data x)) @ bs)"
    using x g2(1) by (simp add: trigger_at_def g1_def)
  ultimately show ?case
    using g2(2-4) g1(3,4) by (intro exI[of _ g2] exI[of _ "snd (ti_trigger (vx_data x)) @ bs"]) simp
qed simp

lemma union_graph_ok:
  assumes "alloc_ok alloc" "graph_inv g" "graph_inv gra" "g_vertex_index gra \<noteq> []"
  shows "\<exists>g' bs. union_graph site alloc is_server gra g = Some (g', bs) \<and> graph_inv g'
    \<and> (\<forall>i j. edge g' i j = or_opt (edge g i j) (edge gra i j))
    \<and> (\<forall>i. node g' i = (if node gra i = None then node g i
         else map_option (\<lambda>d. fst (ti_trigger d)) (node_union site is_server (node g i) (node gra i))))
    \<and> set bs = {b. \<exists>i d. node gra i \<noteq> None \<and> node_union site is_server (node g i) (node gra i) = Some d \<and> b \<in> set (snd (ti_trigger d))}"
proof -
  let ?S = "vkey gra ` set (g_vertex_index gra)"
  note G = graph_invD[OF assms(3)]
  have "union_state site is_server gra g {} {} g"
    using assms(2) by (simp add: union_state_def)
  then obtain new_vs g1 where g1: "union_vertexes site is_server alloc gra (g_vertex_index gra) {} g = Some (new_vs, g1)"
      "union_state site is_server gra g ?S new_vs g1"
    using union_vertexes_ok[OF assms(1,3), of "g_vertex_index gra" "{}"] G(1,2) by force
  note U = union_stateD[OF g1(2)]
  have S: "i \<in> ?S \<longleftrightarrow> node gra i \<noteq> None" for i
  proof -
    have "i \<in> ?S \<longleftrightarrow> (\<exists>v. g_id_index gra i = Some v)"
      unfolding G(1) G(3) by blast
    then show ?thesis
      using node_None[OF assms(3), of i] by auto
  qed
  have sub: "new_vs \<subseteq> dom (g_vertex g1)"
    using U(2) graph_invD(3)[OF U(1)] by blast
  have fin: "finite new_vs"
    using finite_subset[OF sub graph_inv_finite[OF U(1)]] .
  have mem: "g_id_index g1 i \<in> Some ` set (sorted_list_of_set new_vs) \<longleftrightarrow> node gra i \<noteq> None" for i
  proof -
    have "g_id_index g1 i = Some v \<Longrightarrow> g_id_index g1 j = Some v \<Longrightarrow> i = j" for j v
      using graph_invD(3)[OF U(1)] by auto
    then have "g_id_index g1 i \<in> Some ` new_vs \<longleftrightarrow> i \<in> ?S \<and> g_id_index g1 i \<noteq> None"
      unfolding U(2) by blast
    moreover have "g_id_index g1 i \<noteq> None" if "i \<in> ?S"
      using U(3)[OF that] S[of i] that node_None[OF U(1), of i] by (auto simp: node_union_def split: option.splits)
    ultimately show ?thesis
      using fin S by auto
  qed
  obtain g2 bs where g2: "trigger_all (sorted_list_of_set new_vs) g1 = (g2, bs)" "graph_inv g2" "edge g2 = edge g1"
      "\<And>i. node g2 i = (if node gra i \<noteq> None then map_option (\<lambda>d. fst (ti_trigger d)) (node g1 i) else node g1 i)"
      "set bs = {b. \<exists>i d. node gra i \<noteq> None \<and> node g1 i = Some d \<and> b \<in> set (snd (ti_trigger d))}"
    using trigger_all_ok[OF U(1), of "sorted_list_of_set new_vs"] sub fin unfolding mem by auto
  have n: "node g1 i = (if node gra i = None then node g i else node_union site is_server (node g i) (node gra i))" for i
    using U(3,4)[of i] S[of i] by auto
  have "edge gra i j = None" if "node gra i = None" for i j
    using that node_None[OF assms(3)] edge_None by blast
  then have "edge g2 i j = or_opt (edge g i j) (edge gra i j)" for i j
    unfolding g2(3) U(5) S by auto
  moreover have "union_graph site alloc is_server gra g = Some (g2, bs)"
    using g1(1) g2(1) assms(4) by (simp add: union_graph_def verify_def graph_size_def)
  moreover have "set bs = {b. \<exists>i d. node gra i \<noteq> None \<and> node_union site is_server (node g i) (node gra i) = Some d \<and> b \<in> set (snd (ti_trigger d))}"
    unfolding g2(5) n by auto
  moreover have "node g2 i = (if node gra i = None then node g i
      else map_option (\<lambda>d. fst (ti_trigger d)) (node_union site is_server (node g i) (node gra i)))" for i
    unfolding g2(4) n by simp
  ultimately show ?thesis
    using g2(2) by blast
qed

text \<open>C12: Merging the graph of another server into a graph returns whenever the other graph is not empty. The result keeps the invariant; its
  edges are the edges of both graphs with the relations of common edges combined; a transaction of the other graph is taken over or
  merged, after which exactly the events of the merged transactions whose status has been reached fire; all other transactions are untouched. The
  order in which the vertexes are visited plays no role.\<close>

theorem union_graph_exact:
  assumes "alloc_ok alloc" "graph_inv g" "graph_inv gra" "g_vertex_index gra \<noteq> []"
  shows "\<exists>g' bs. union_graph site alloc is_server gra g = Some (g', bs) \<and> graph_inv g'
    \<and> (\<forall>i j. edge g' i j = or_opt (edge g i j) (edge gra i j))
    \<and> (\<forall>i. node g' i = (if node gra i = None then node g i
         else map_option (\<lambda>d. fst (ti_trigger d)) (node_union site is_server (node g i) (node gra i))))
    \<and> set bs = {b. \<exists>i d. node gra i \<noteq> None \<and> node_union site is_server (node g i) (node gra i) = Some d \<and> b \<in> set (snd (ti_trigger d))}"
  using union_graph_ok[OF assms] .

text \<open>What servers exchange about a transaction; the relations of edges and the sets of servers only grow.\<close>

definition servers_of :: "graph \<Rightarrow> u64 \<Rightarrow> u32 set option" where
  "servers_of g i = map_option ti_servers (node g i)"

definition status_of :: "graph \<Rightarrow> u64 \<Rightarrow> i8 option" where
  "status_of g i = map_option ti_status (node g i)"

fun join_opt :: "('a \<Rightarrow> 'a \<Rightarrow> 'a) \<Rightarrow> 'a option \<Rightarrow> 'a option \<Rightarrow> 'a option" where
  "join_opt f None b = b"
| "join_opt f a None = a"
| "join_opt f (Some x) (Some y) = Some (f x y)"

lemma union_graph_view:
  assumes "alloc_ok alloc" "graph_inv g" "graph_inv gra" "g_vertex_index gra \<noteq> []"
  obtains g' bs where "union_graph site alloc is_server gra g = Some (g', bs)" "graph_inv g'"
    "\<And>i j. edge g' i j = or_opt (edge g i j) (edge gra i j)" "\<And>i. servers_of g' i = join_opt (\<union>) (servers_of g i) (servers_of gra i)"
    "\<And>i. \<not> is_server \<Longrightarrow> status_of g' i = join_opt (OR) (status_of g i) (status_of gra i)"
proof -
  obtain g' bs where g': "union_graph site alloc is_server gra g = Some (g', bs)" "graph_inv g'"
      "\<And>i j. edge g' i j = or_opt (edge g i j) (edge gra i j)"
      "\<And>i. node g' i = (if node gra i = None then node g i
         else map_option (\<lambda>d. fst (ti_trigger d)) (node_union site is_server (node g i) (node gra i)))"
    using union_graph_ok[OF assms] by blast
  have trig: "ti_servers (fst (ti_trigger d)) = ti_servers d" "ti_status (fst (ti_trigger d)) = ti_status d" for d
    by (simp_all add: ti_trigger_def)
  have "servers_of g' i = join_opt (\<union>) (servers_of g i) (servers_of gra i)" for i
    unfolding servers_of_def g'(4)
    by (cases "node g i"; cases "node gra i") (simp_all add: node_union_def trig union_data_def union_status_def Let_def)
  moreover have "status_of g' i = join_opt (OR) (status_of g i) (status_of gra i)" if "\<not> is_server" for i
    unfolding status_of_def g'(4) using that
    by (cases "node g i"; cases "node gra i") (simp_all add: node_union_def trig union_data_def union_status_def Let_def)
  ultimately show thesis
    using that[OF g'(1-3)] by blast
qed

lemma join_opt_swap: "join_opt (\<union>) (join_opt (\<union>) a b) c = join_opt (\<union>) (join_opt (\<union>) a c) (b :: 'a set option)"
  "join_opt (OR) (join_opt (OR) s t) u = join_opt (OR) (join_opt (OR) s u) (t :: i8 option)"
  by (cases a; cases b; cases c; force) (cases s; cases t; cases u; simp add: ac_simps)


subsection \<open>Graphs a server can have\<close>

text \<open>How the graph of a server comes about: pieces start, touch columns that earlier transactions have touched, and graphs of other servers,
  which keep the invariant, are merged.\<close>

inductive graph_reach :: "u32 \<Rightarrow> allocator \<Rightarrow> graph \<Rightarrow> bool" for site alloc where
  new: "graph_reach site alloc graph_new"
| start: "graph_reach site alloc g \<Longrightarrow> graph_reach site alloc (snd (start_pie site (alloc g) tid ts g))"
| kiss: "graph_reach site alloc g \<Longrightarrow> tv \<in> dom (g_vertex g) \<Longrightarrow> set_option lst \<subseteq> dom (g_vertex g)
    \<Longrightarrow> graph_reach site alloc (snd (kiss immediate tv lst g))"
| union: "graph_reach site alloc g \<Longrightarrow> graph_inv gra \<Longrightarrow> union_graph site alloc is_server gra g = Some (g', bs) \<Longrightarrow> graph_reach site alloc g'"
| status: "graph_reach site alloc g \<Longrightarrow> graph_reach site alloc (upd_data v (\<lambda>d. fst (union_status site st is_trigger is_server d)) g)"

lemma find_or_insert_data_eq:
  "find_or_insert fresh i ts g = find_or_insert_data fresh (txn_info_new\<lparr>ti_id := i, ti_ts := ts\<rparr>) g"
  by (simp add: find_or_insert_def find_or_insert_data_def)

lemma graph_inv_start_pie:
  assumes "graph_inv g" "fresh \<notin> dom (g_vertex g)"
  shows "graph_inv (snd (start_pie site fresh tid ts g))"
proof -
  obtain v g' where "find_or_insert fresh tid ts g = (v, g')" "graph_inv g'"
    unfolding find_or_insert_data_eq using find_or_insert_data_ok[OF assms] by blast
  then show ?thesis
    using graph_inv_upd_data[of g' "\<lambda>d. d\<lparr>ti_servers := insert site (ti_servers d)\<rparr>" v] by (simp add: start_pie_def upd_data_def)
qed

lemma graph_inv_union:
  assumes "alloc_ok alloc" "graph_inv g" "graph_inv gra" "union_graph site alloc is_server gra g = Some (g', bs)"
  shows "graph_inv g'"
proof -
  have "g_vertex_index gra \<noteq> []"
    using assms(4) by (auto simp: union_graph_def verify_def graph_size_def split: if_splits)
  then show ?thesis
    using union_graph_ok[OF assms(1-3), of site is_server] assms(4) by auto
qed

text \<open>C29: Every graph a server can have is consistent: its indexes describe exactly its vertexes, the id of a transaction names one vertex,
  and both ends of every edge know it with the same relation.\<close>

theorem graph_reach_inv:
  assumes "graph_reach site alloc g" "alloc_ok alloc"
  shows "graph_inv g"
  using assms(1)
proof induction
  case new
  show ?case by (rule graph_inv_new)
next
  case (start g tid ts)
  then show ?case
    using graph_inv_start_pie alloc_okD[OF assms(2)] by blast
next
  case (kiss g tv lst immediate)
  then show ?case
    using graph_inv_add_edge by (cases lst) (auto simp: kiss_def Let_def)
next
  case (union g gra is_server g' bs)
  then show ?case
    using graph_inv_union[OF assms(2)] by blast
next
  case (status g v st is_trigger is_server)
  then show ?case
    using graph_inv_upd_data by (simp add: union_status_def Let_def ti_trigger_def)
qed

subsection \<open>Examples\<close>

definition max_alloc :: allocator where
  "max_alloc g = Suc (Max (insert 0 (dom (g_vertex g))))"

lemma max_alloc_ok: "alloc_ok max_alloc"
  unfolding alloc_ok_def
proof (intro allI impI notI)
  fix g
  assume "finite (dom (g_vertex g))" "max_alloc g \<in> dom (g_vertex g)"
  then have "max_alloc g \<le> Max (insert 0 (dom (g_vertex g)))"
    by simp
  then show False
    by (simp add: max_alloc_def)
qed

lemma graph_inv_find_or_insert: "graph_inv g \<Longrightarrow> fresh \<notin> dom (g_vertex g) \<Longrightarrow> graph_inv (snd (find_or_insert fresh i ts g))"
  unfolding find_or_insert_data_eq using find_or_insert_data_ok by (metis snd_conv)

lemma ring_graph_inv: "graph_inv ring_graph"
  unfolding ring_graph_def
  by (intro graph_inv_add_edge graph_inv_find_or_insert graph_inv_new) (simp_all add: graph_eval)

lemma ring_graph_view: "edge ring_graph 10 20 = Some 2" "edge ring_graph 30 10 = Some 1" "edge ring_graph 10 30 = None"
  "node ring_graph 30 = Some (txn_info_new\<lparr>ti_id := 30\<rparr>)" "g_vertex_index ring_graph \<noteq> []" "g_id_index ring_graph 10 = Some 0"
  by (simp_all add: edge_def node_def graph_eval to_edges_def EDGE_D_def EDGE_I_def)

text \<open>A graph with one transaction that starts at this server and is also in the cycle.\<close>

definition solo_graph :: graph where
  "solo_graph = snd (start_pie 7 5 20 1 graph_new)"

lemma solo_graph_inv: "graph_inv solo_graph"
  unfolding solo_graph_def by (rule graph_inv_start_pie[OF graph_inv_new]) (simp add: graph_new_def)

lemma solo_graph_view: "edge solo_graph i j = None" "servers_of solo_graph 20 = Some {7}" "node solo_graph 10 = None" "g_vertex_index solo_graph \<noteq> []"
  by (auto simp: solo_graph_def start_pie_def graph_eval edge_def node_def servers_of_def to_edges_def bind_eq_Some_conv split: if_splits)

theorem union_graph_exact_witness:
  "alloc_ok max_alloc \<and> graph_inv solo_graph \<and> graph_inv ring_graph \<and> g_vertex_index ring_graph \<noteq> []
    \<and> (\<exists>g' bs. union_graph 7 max_alloc True ring_graph solo_graph = Some (g', bs) \<and> edge g' 10 20 = Some 2 \<and> node g' 30 \<noteq> None)"
proof -
  obtain g' bs where g': "union_graph 7 max_alloc True ring_graph solo_graph = Some (g', bs)"
      "\<forall>i j. edge g' i j = or_opt (edge solo_graph i j) (edge ring_graph i j)"
      "\<forall>i. node g' i = (if node ring_graph i = None then node solo_graph i
         else map_option (\<lambda>d. fst (ti_trigger d)) (node_union 7 True (node solo_graph i) (node ring_graph i)))"
    using union_graph_exact[OF max_alloc_ok solo_graph_inv ring_graph_inv ring_graph_view(5), of 7 True] by blast
  have "edge g' 10 20 = Some 2" "node g' 30 \<noteq> None"
    using g'(2,3) by (simp_all add: solo_graph_view ring_graph_view node_union_def split: option.splits)
  then show ?thesis
    using g'(1) max_alloc_ok solo_graph_inv ring_graph_inv ring_graph_view(5) by blast
qed


theorem graph_reach_inv_witness:
  "graph_reach 7 max_alloc (snd (start_pie 7 (max_alloc graph_new) 20 1 graph_new)) \<and> alloc_ok max_alloc
    \<and> graph_inv (snd (start_pie 7 (max_alloc graph_new) 20 1 graph_new))"
proof -
  have r: "graph_reach 7 max_alloc (snd (start_pie 7 (max_alloc graph_new) 20 1 graph_new))"
    by (rule graph_reach.start[OF graph_reach.new])
  show ?thesis
    using graph_reach_inv[OF r max_alloc_ok] r max_alloc_ok by simp
qed

end
