(* ===== verification/SortedScc.thy ===== *)
theory SortedScc
  imports Tarjan QSort GraphUnion
begin

text \<open>
  \<open>sorted_scc\<close> of \<open>deptran/graph.hpp\<close>: the order in which the transactions of a component are executed. Edges of immediate
  pieces, here called strong, must be respected; everything else is decided by the ids of the transactions, so that all servers find the same order.
\<close>

text \<open>The first loop: the members without a strong edge from another member, in the order of the set.\<close>

definition no_type2 :: "graph \<Rightarrow> vid set \<Rightarrow> vid \<Rightarrow> bool" where
  "no_type2 g scc v \<longleftrightarrow> (\<forall>(vt, relation) \<in> set (from_edges g v). \<not> (WW <s relation \<and> vt \<in> scc))"

definition scc_children :: "graph \<Rightarrow> vid set \<Rightarrow> vid \<Rightarrow> vid list" where
  "scc_children g scc v = map fst (filter (\<lambda>(vt, relation). 2 \<le>s relation \<and> vt \<in> scc) (to_edges g v))"

definition all_parents_visited :: "graph \<Rightarrow> vid set \<Rightarrow> vid \<Rightarrow> bool" where
  "all_parents_visited g visited cv \<longleftrightarrow> (\<forall>(p, relation) \<in> set (from_edges g cv). relation <s 2 \<or> p \<in> visited)"

text \<open>The second loop; \<open>start_vv\<close> has its back first. Every turn appends a vertex to the result, whose length must be that of the component
  in the end: a run that takes more turns never passes the check, so the turns are counted.\<close>

fun sscc_loop :: "graph \<Rightarrow> vid set \<Rightarrow> nat \<Rightarrow> vid list \<Rightarrow> vid set \<Rightarrow> vid list \<Rightarrow> vid list option" where
  "sscc_loop g scc n [] visited ret2 = Some ret2"
| "sscc_loop g scc 0 (v # start_vv) visited ret2 = None"
| "sscc_loop g scc (Suc n) (v # start_vv) visited ret2 =
    (let visited' = insert v visited;
         children = sort_vv (vkey g) False (scc_children g scc v);
         ready = filter (all_parents_visited g visited') children
     in sscc_loop g scc n (rev ready @ start_vv) visited' (ret2 @ [v]))"

definition sorted_scc :: "vid \<Rightarrow> graph \<Rightarrow> vid list option" where
  "sorted_scc v g = do {
     ret \<leftarrow> find_scc v g;
     verify (length ret > 0);
     let scc_set = set ret;
     verify (card scc_set = length ret);
     let start_vv = filter (no_type2 g scc_set) (sorted_list_of_set scc_set);
     verify (length start_vv > 0);
     let start_vv' = sort_vv (vkey g) True start_vv;
     ret2 \<leftarrow> sscc_loop g scc_set (length ret) (rev start_vv') {} [];
     verify (length ret2 = length ret);
     Some ret2
   }"

text \<open>\<open>find_txn_scc_nearest_anc\<close> and \<open>find_scc_ancestor\<close>, which use the component.\<close>

definition find_txn_scc_nearest_anc :: "vid \<Rightarrow> graph \<Rightarrow> vid set option" where
  "find_txn_scc_nearest_anc v g = do {
     scc \<leftarrow> find_scc v g;
     let ret_set = fold (\<lambda>u ret. find_txn_nearest_anc u ret g) scc {};
     Some (ret_set - set scc)
   }"

definition find_scc_ancestor :: "vid \<Rightarrow> graph \<Rightarrow> vid set option" where
  "find_scc_ancestor v g = do {
     ret \<leftarrow> find_ancestor v g;
     scc \<leftarrow> find_scc v g;
     Some (ret - set scc)
   }"

definition find_txn_scc_anc_opt :: "u64 \<Rightarrow> graph \<Rightarrow> vid set option" where
  "find_txn_scc_anc_opt txn_id g = do {
     v \<leftarrow> graph_find txn_id g;
     scc \<leftarrow> find_scc v g;
     verify (length scc > 0);
     ret \<leftarrow> find_txn_anc_opt (scc ! 0) {} g;
     Some (ret - set scc)
   }"

subsection \<open>Strong edges\<close>

text \<open>A graph in which both ends of an edge know it, with different ids for different vertexes.\<close>

definition graph_ok :: "graph \<Rightarrow> bool" where
  "graph_ok g \<longleftrightarrow> finite (dom (g_vertex g)) \<and> (\<forall>v w r. (w, r) \<in> set (to_edges g v) \<longleftrightarrow> (v, r) \<in> set (from_edges g w))
     \<and> (\<forall>v. distinct (map fst (to_edges g v)) \<and> distinct (map fst (from_edges g v))) \<and> inj_on (vkey g) (dom (g_vertex g))"

definition strong :: "graph \<Rightarrow> (vid \<times> vid) set" where
  "strong g = {(v, w). \<exists>r. (w, r) \<in> set (to_edges g v) \<and> 2 \<le>s r}"

lemma graph_okD:
  assumes "graph_ok g"
  shows "finite (dom (g_vertex g))" "(w, r) \<in> set (to_edges g v) \<longleftrightarrow> (v, r) \<in> set (from_edges g w)"
    "distinct (map fst (to_edges g v))" "inj_on (vkey g) (dom (g_vertex g))"
  using assms unfolding graph_ok_def by blast+

lemma WW_less: "WW <s r \<longleftrightarrow> 2 \<le>s r"
  by (auto simp: WW_def word_sless_alt word_sle_eq)

lemma no_type2_strong: "graph_ok g \<Longrightarrow> no_type2 g scc v \<longleftrightarrow> (\<forall>u \<in> scc. (u, v) \<notin> strong g)"
  by (auto simp: no_type2_def strong_def graph_okD(2) WW_less)

lemma scc_children_strong: "set (scc_children g scc v) = {w \<in> scc. (v, w) \<in> strong g}"
  by (force simp: scc_children_def strong_def)

lemma parents_visited_strong: "graph_ok g \<Longrightarrow> all_parents_visited g V w \<longleftrightarrow> (\<forall>u. (u, w) \<in> strong g \<longrightarrow> u \<in> V)"
  by (auto simp: all_parents_visited_def strong_def graph_okD(2) word_sless_alt word_sle_eq) (metis not_less)+

lemma sort_vv_set [simp]: "set (sort_vv key flag vv) = set vv" "length (sort_vv key flag vv) = length vv"
  "distinct (sort_vv key flag vv) = distinct vv"
  using sort_vv_mset[of key flag vv] by (metis set_mset_mset, metis size_mset, metis mset_eq_imp_distinct_iff)

lemma scc_children_distinct: "graph_ok g \<Longrightarrow> distinct (scc_children g scc v)"
  using graph_okD(3)[of g v] by (simp add: scc_children_def distinct_map_filter)

lemma graph_ok_dom:
  assumes "graph_ok g" "(w, r) \<in> set (to_edges g v)"
  shows "v \<in> dom (g_vertex g)" "w \<in> dom (g_vertex g)"
proof -
  show "v \<in> dom (g_vertex g)"
    using assms(2) by (cases "g_vertex g v") (auto simp: to_edges_def)
  have "(v, r) \<in> set (from_edges g w)"
    using assms graph_okD(2) by blast
  then show "w \<in> dom (g_vertex g)"
    by (cases "g_vertex g w") (auto simp: from_edges_def)
qed

lemma strong_dom: "graph_ok g \<Longrightarrow> (v, w) \<in> strong g \<Longrightarrow> v \<in> dom (g_vertex g) \<and> w \<in> dom (g_vertex g)"
  using graph_ok_dom unfolding strong_def by blast

lemma scc_of_dom:
  assumes "graph_ok g" "v \<in> dom (g_vertex g)"
  shows "scc_of g v \<subseteq> dom (g_vertex g)"
proof
  fix w
  assume "w \<in> scc_of g v"
  then have "(v, w) \<in> (edge_rel g)\<^sup>*"
    by (simp add: scc_of_def)
  then show "w \<in> dom (g_vertex g)"
  proof (cases rule: rtranclE)
    case (step u)
    then obtain r where "(w, r) \<in> set (to_edges g u)"
      by (auto simp: edge_rel_def)
    then show ?thesis
      using graph_ok_dom(2)[OF assms(1)] by blast
  qed (use assms(2) in simp)
qed

lemma scc_of_finite:
  assumes "graph_ok g"
  shows "finite (scc_of g v)"
proof -
  obtain ret where "set ret = scc_of g v"
    using find_scc_ok[OF graph_okD(1)[OF assms]] by blast
  then show ?thesis
    by (metis List.finite_set)
qed

subsection \<open>The main loop\<close>

text \<open>What holds whenever a vertex is about to be taken: the waiting vertexes are new, everything listed or waiting comes after its
  strong parents of the component, and a vertex that is neither listed nor waiting has a strong parent in the component and one that is not listed.\<close>

definition sscc_inv :: "graph \<Rightarrow> vid set \<Rightarrow> vid list \<Rightarrow> vid list \<Rightarrow> bool" where
  "sscc_inv g scc start ret2 \<longleftrightarrow> distinct (ret2 @ start) \<and> set (ret2 @ start) \<subseteq> scc
     \<and> (\<forall>i < length ret2. \<forall>u \<in> scc. (u, ret2 ! i) \<in> strong g \<longrightarrow> u \<in> set (take i ret2))
     \<and> (\<forall>w \<in> set start. \<forall>u \<in> scc. (u, w) \<in> strong g \<longrightarrow> u \<in> set ret2)
     \<and> (\<forall>w \<in> set (ret2 @ start). (\<forall>u \<in> scc. (u, w) \<notin> strong g) \<or> (\<forall>u. (u, w) \<in> strong g \<longrightarrow> u \<in> scc))
     \<and> (\<forall>w \<in> scc - set (ret2 @ start). (\<exists>u \<in> scc. (u, w) \<in> strong g) \<and> (\<exists>u. (u, w) \<in> strong g \<and> u \<notin> set ret2))"

lemma sscc_invD:
  assumes "sscc_inv g scc start ret2"
  shows "distinct (ret2 @ start)" "set (ret2 @ start) \<subseteq> scc"
    "\<And>i u. i < length ret2 \<Longrightarrow> u \<in> scc \<Longrightarrow> (u, ret2 ! i) \<in> strong g \<Longrightarrow> u \<in> set (take i ret2)"
    "\<And>w u. w \<in> set start \<Longrightarrow> u \<in> scc \<Longrightarrow> (u, w) \<in> strong g \<Longrightarrow> u \<in> set ret2"
    "\<And>w u u'. w \<in> set (ret2 @ start) \<Longrightarrow> u \<in> scc \<Longrightarrow> (u, w) \<in> strong g \<Longrightarrow> (u', w) \<in> strong g \<Longrightarrow> u' \<in> scc"
    "\<And>w. w \<in> scc \<Longrightarrow> w \<notin> set (ret2 @ start) \<Longrightarrow> (\<exists>u \<in> scc. (u, w) \<in> strong g) \<and> (\<exists>u. (u, w) \<in> strong g \<and> u \<notin> set ret2)"
  using assms unfolding sscc_inv_def by blast+

lemma sscc_inv_listed:
  assumes "sscc_inv g scc start ret2" "w \<in> set ret2" "u \<in> scc" "(u, w) \<in> strong g"
  shows "u \<in> set ret2"
proof -
  obtain i where "i < length ret2" "ret2 ! i = w"
    using assms(2) by (auto simp: in_set_conv_nth)
  then show ?thesis
    using sscc_invD(3)[OF assms(1)] assms(3,4) set_take_subset by fast
qed

lemma sscc_inv_step:
  assumes ok: "graph_ok g" and inv: "sscc_inv g scc (v # start) ret2"
    and ready: "distinct ready" "set ready = {w \<in> scc. (v, w) \<in> strong g \<and> (\<forall>u. (u, w) \<in> strong g \<longrightarrow> u \<in> insert v (set ret2))}"
  shows "sscc_inv g scc (rev ready @ start) (ret2 @ [v])"
proof -
  note D = sscc_invD[OF inv]
  have v: "v \<in> scc" "v \<notin> set ret2" "v \<notin> set start"
    using D(1,2) by auto
  have new: "w \<notin> set ret2 \<and> w \<notin> set (v # start)" if "w \<in> set ready" for w
    using that ready(2) v sscc_inv_listed[OF inv, of w v] D(4)[of w v] by blast
  have rest: "(\<exists>u \<in> scc. (u, w) \<in> strong g) \<and> (\<exists>u. (u, w) \<in> strong g \<and> u \<notin> set (ret2 @ [v]))"
    if w: "w \<in> scc" "w \<notin> set ((ret2 @ [v]) @ rev ready @ start)" for w
  proof -
    have "w \<notin> set (ret2 @ v # start)" "w \<notin> set ready"
      using w(2) by auto
    then show ?thesis
      using D(6)[OF w(1)] w(1) ready(2) by auto
  qed
  have order: "u \<in> set (take i (ret2 @ [v]))" if "i < length (ret2 @ [v])" "u \<in> scc" "(u, (ret2 @ [v]) ! i) \<in> strong g" for i u
  proof (cases "i < length ret2")
    case True
    then show ?thesis
      using D(3)[of i u] that by (simp add: nth_append)
  next
    case False
    then have "i = length ret2"
      using that(1) by simp
    then show ?thesis
      using D(4)[of v u] that by simp
  qed
  show ?thesis
    unfolding sscc_inv_def
  proof (intro conjI)
    show "distinct ((ret2 @ [v]) @ rev ready @ start)"
      using D(1) ready(1) new by auto
    show "set ((ret2 @ [v]) @ rev ready @ start) \<subseteq> scc"
      using D(2) ready(2) by auto
    show "\<forall>w\<in>set (rev ready @ start). \<forall>u\<in>scc. (u, w) \<in> strong g \<longrightarrow> u \<in> set (ret2 @ [v])"
      using D(4) ready(2) by auto
    show "\<forall>w\<in>set ((ret2 @ [v]) @ rev ready @ start). (\<forall>u\<in>scc. (u, w) \<notin> strong g) \<or> (\<forall>u. (u, w) \<in> strong g \<longrightarrow> u \<in> scc)"
    proof
      fix w
      assume "w \<in> set ((ret2 @ [v]) @ rev ready @ start)"
      then consider "w \<in> set ready" | "w \<in> set (ret2 @ v # start)"
        by auto
      then show "(\<forall>u\<in>scc. (u, w) \<notin> strong g) \<or> (\<forall>u. (u, w) \<in> strong g \<longrightarrow> u \<in> scc)"
      proof cases
        case 1
        then show ?thesis
          using ready(2) D(2) v(1) by auto
      next
        case 2
        then show ?thesis
          using D(5) by blast
      qed
    qed
  qed (use order rest in blast)+
qed

lemma sscc_loop_ok:
  assumes "graph_ok g" "finite scc" "sscc_inv g scc start ret2" "card scc \<le> n + length ret2"
  shows "\<exists>r. sscc_loop g scc n start (set ret2) ret2 = Some r \<and> sscc_inv g scc [] r"
  using assms(3,4)
proof (induction n arbitrary: start ret2)
  case 0
  then have "length (ret2 @ start) \<le> length ret2"
    using card_mono[OF assms(2) sscc_invD(2)[OF 0(1)]] distinct_card[OF sscc_invD(1)[OF 0(1)]] by linarith
  then show ?case
    using 0 by simp
next
  case (Suc n)
  show ?case
  proof (cases start)
    case (Cons v start')
    let ?ready = "filter (all_parents_visited g (insert v (set ret2))) (sort_vv (vkey g) False (scc_children g scc v))"
    have "distinct ?ready"
      using scc_children_distinct[OF assms(1)] by simp
    moreover have "set ?ready = {w \<in> scc. (v, w) \<in> strong g \<and> (\<forall>u. (u, w) \<in> strong g \<longrightarrow> u \<in> insert v (set ret2))}"
      by (auto simp: scc_children_strong parents_visited_strong[OF assms(1)])
    ultimately have "sscc_inv g scc (rev ?ready @ start') (ret2 @ [v])"
      using sscc_inv_step[OF assms(1)] Suc.prems(1) Cons by blast
    then show ?thesis
      using Suc.IH[of "rev ?ready @ start'" "ret2 @ [v]"] Suc.prems(2) Cons by (simp add: Let_def)
  qed (use Suc.prems in simp)
qed

lemma sscc_inv_start:
  assumes "graph_ok g" "finite scc"
  shows "sscc_inv g scc (rev (sort_vv (vkey g) True (filter (no_type2 g scc) (sorted_list_of_set scc)))) []"
  using assms unfolding sscc_inv_def by (auto simp: no_type2_strong)

text \<open>What is left at the end: a member that was not listed has an unlisted strong parent.\<close>

lemma sscc_inv_end:
  assumes "sscc_inv g scc [] r" "finite scc" "acyclic (strong g \<inter> scc \<times> scc)"
    and "\<forall>w \<in> scc. (\<exists>u \<in> scc. (u, w) \<in> strong g) \<longrightarrow> (\<forall>u. (u, w) \<in> strong g \<longrightarrow> u \<in> scc)"
  shows "set r = scc"
proof (rule ccontr)
  note D = sscc_invD[OF assms(1)]
  let ?R = "strong g \<inter> scc \<times> scc"
  assume "set r \<noteq> scc"
  then obtain w where "w \<in> scc - set r"
    using D(2) by auto
  moreover have "wf ?R"
    using assms(2,3) by (intro finite_acyclic_wf) auto
  ultimately obtain z where z: "z \<in> scc - set r" "\<And>u. (u, z) \<in> ?R \<Longrightarrow> u \<notin> scc - set r"
    using wfE_min[of ?R w "scc - set r"] by blast
  then have "(\<exists>u \<in> scc. (u, z) \<in> strong g) \<and> (\<exists>u. (u, z) \<in> strong g \<and> u \<notin> set r)"
    using D(6)[of z] by simp
  then obtain u where "(u, z) \<in> strong g" "u \<notin> set r" "u \<in> scc"
    using assms(4) z(1) by blast
  then show False
    using z by blast
qed

lemma before_acyclic:
  assumes "\<And>i u. i < length r \<Longrightarrow> u \<in> set r \<Longrightarrow> (u, r ! i) \<in> R \<Longrightarrow> u \<in> set (take i r)"
  shows "acyclic (R \<inter> set r \<times> set r)"
proof -
  define pos where "pos x = (LEAST i. i < length r \<and> r ! i = x)" for x
  have pos: "pos x < length r \<and> r ! pos x = x" if "x \<in> set r" for x
    using that LeastI_ex[of "\<lambda>i. i < length r \<and> r ! i = x"] unfolding pos_def in_set_conv_nth by blast
  have "pos u < pos w" if uw: "(u, w) \<in> R \<inter> set r \<times> set r" for u w
  proof -
    have "u \<in> set (take (pos w) r)"
      using uw assms[of "pos w" u] pos[of w] by auto
    then obtain j where j: "j < pos w" "j < length r" "r ! j = u"
      by (auto simp: in_set_conv_nth)
    have "pos u \<le> j"
      unfolding pos_def by (rule Least_le) (use j in simp)
    then show ?thesis
      using j(1) by simp
  qed
  then show ?thesis
    by (intro acyclic_subset[OF wf_acyclic[OF wf_measure[of pos]]]) auto
qed

subsection \<open>The order of a component\<close>

text \<open>When the order exists: the strong edges inside the component have no cycle, and a member with a strong parent inside the component
  has none outside.\<close>

definition scc_sortable :: "graph \<Rightarrow> vid set \<Rightarrow> bool" where
  "scc_sortable g scc \<longleftrightarrow> acyclic (strong g \<inter> scc \<times> scc)
     \<and> (\<forall>w \<in> scc. (\<exists>u \<in> scc. (u, w) \<in> strong g) \<longrightarrow> (\<forall>u. (u, w) \<in> strong g \<longrightarrow> u \<in> scc))"

text \<open>The vertexes from which the loop starts.\<close>

definition scc_start :: "graph \<Rightarrow> vid set \<Rightarrow> vid list" where
  "scc_start g scc = filter (no_type2 g scc) (sorted_list_of_set scc)"

lemma sorted_scc_loop:
  assumes "graph_ok g"
  shows "\<exists>r. sscc_inv g (scc_of g v) [] r
    \<and> sscc_loop g (scc_of g v) (card (scc_of g v)) (rev (sort_vv (vkey g) True (scc_start g (scc_of g v)))) {} [] = Some r
    \<and> sorted_scc v g = (if scc_start g (scc_of g v) \<noteq> [] \<and> length r = card (scc_of g v) then Some r else None)"
proof -
  define C where "C = scc_of g v"
  obtain ret where ret: "find_scc v g = Some ret" "distinct ret" "set ret = C"
    using find_scc_ok[OF graph_okD(1)[OF assms]] C_def by blast
  have card: "card C = length ret"
    using ret(2,3) distinct_card by metis
  have "v \<in> set ret"
    by (simp add: ret(3) C_def scc_of_def)
  then have ne: "ret \<noteq> []"
    by auto
  have fin: "finite C"
    using scc_of_finite[OF assms] C_def by simp
  have "sscc_inv g C (rev (sort_vv (vkey g) True (scc_start g C))) []"
    using sscc_inv_start[OF assms fin] by (simp add: scc_start_def)
  then obtain r where r: "sscc_inv g C [] r" "sscc_loop g C (length ret) (rev (sort_vv (vkey g) True (scc_start g C))) {} [] = Some r"
    using sscc_loop_ok[OF assms fin, of _ "[]" "length ret"] card by auto
  have "sorted_scc v g = (if scc_start g C \<noteq> [] \<and> length r = length ret then Some r else None)"
    unfolding sorted_scc_def ret(1) using ret(3) card ne r(2) by (simp add: verify_def scc_start_def[symmetric])
  then show ?thesis
    using r card unfolding C_def[symmetric] by auto
qed

lemma sorted_scc_order:
  assumes "graph_ok g" "sorted_scc v g = Some vs"
  shows "sscc_inv g (scc_of g v) [] vs" "set vs = scc_of g v" "distinct vs"
proof -
  obtain r where r: "sscc_inv g (scc_of g v) [] r"
      "sorted_scc v g = (if scc_start g (scc_of g v) \<noteq> [] \<and> length r = card (scc_of g v) then Some r else None)"
    using sorted_scc_loop[OF assms(1)] by blast
  then have vs: "vs = r" "length r = card (scc_of g v)"
    using assms(2) by (auto split: if_splits)
  show "sscc_inv g (scc_of g v) [] vs" "distinct vs"
    using r(1) vs sscc_invD(1)[OF r(1)] by simp_all
  have sub: "set r \<subseteq> scc_of g v" and "card (set r) = length r"
    using sscc_invD(1,2)[OF r(1)] distinct_card[of r] by simp_all
  then show "set vs = scc_of g v"
    using card_subset_eq[OF scc_of_finite[OF assms(1)] sub] vs by simp
qed

text \<open>C26: The order in which a component is executed lists its transactions, each once, and every transaction comes after all members of the
  component from which it has a strong edge.\<close>

theorem sorted_scc_topological:
  assumes "graph_ok g" "sorted_scc v g = Some vs"
  shows "distinct vs \<and> set vs = scc_of g v
    \<and> (\<forall>i j. i < length vs \<and> j < length vs \<and> (vs ! i, vs ! j) \<in> strong g \<longrightarrow> i < j)"
proof (intro conjI allI impI)
  note O = sorted_scc_order[OF assms]
  fix i j
  assume ij: "i < length vs \<and> j < length vs \<and> (vs ! i, vs ! j) \<in> strong g"
  then have "vs ! i \<in> scc_of g v"
    using O(2) nth_mem by metis
  then have "vs ! i \<in> set (take j vs)"
    using ij sscc_invD(3)[OF O(1), of j "vs ! i"] by blast
  then obtain k where "k < j" "k < length vs" "vs ! k = vs ! i"
    by (auto simp: in_set_conv_nth)
  then show "i < j"
    using ij O(3) nth_eq_iff_index_eq by metis
qed (use sorted_scc_order[OF assms] in auto)

lemma sorted_scc_iff:
  assumes "graph_ok g"
  shows "(\<exists>vs. sorted_scc v g = Some vs) \<longleftrightarrow> scc_sortable g (scc_of g v)"
proof
  let ?C = "scc_of g v"
  assume "\<exists>vs. sorted_scc v g = Some vs"
  then obtain vs where vs: "sorted_scc v g = Some vs"
    by blast
  note O = sorted_scc_order[OF assms vs]
  have "acyclic (strong g \<inter> ?C \<times> ?C)"
    using before_acyclic[of vs "strong g"] sscc_invD(3)[OF O(1)] O(2) by simp
  moreover have "\<forall>w \<in> ?C. (\<exists>u \<in> ?C. (u, w) \<in> strong g) \<longrightarrow> (\<forall>u. (u, w) \<in> strong g \<longrightarrow> u \<in> ?C)"
  proof (intro ballI impI allI)
    fix w u
    assume "w \<in> ?C" "\<exists>u \<in> ?C. (u, w) \<in> strong g" "(u, w) \<in> strong g"
    then obtain u' where "u' \<in> ?C" "(u', w) \<in> strong g" "w \<in> set (vs @ [])" "(u, w) \<in> strong g"
      using O(2) by auto
    then show "u \<in> ?C"
      using sscc_invD(5)[OF O(1), of w u' u] by blast
  qed
  ultimately show "scc_sortable g ?C"
    unfolding scc_sortable_def by (rule conjI)
next
  let ?C = "scc_of g v" and ?R = "strong g \<inter> scc_of g v \<times> scc_of g v"
  assume S: "scc_sortable g ?C"
  have fin: "finite ?C"
    using scc_of_finite[OF assms] .
  have "v \<in> ?C"
    by (simp add: scc_of_def)
  moreover have "wf ?R"
  proof (rule finite_acyclic_wf)
    show "finite ?R"
      using fin by simp
    show "acyclic ?R"
      using S unfolding scc_sortable_def by (rule conjunct1)
  qed
  ultimately obtain z where "z \<in> ?C" "\<And>u. (u, z) \<in> ?R \<Longrightarrow> u \<notin> ?C"
    using wfE_min[of ?R v ?C] by blast
  then have "z \<in> ?C" "no_type2 g ?C z"
    unfolding no_type2_strong[OF assms] by blast+
  then have "z \<in> set (scc_start g ?C)"
    using fin by (simp add: scc_start_def)
  then have ne: "scc_start g ?C \<noteq> []"
    by (metis empty_iff empty_set)
  obtain r where r: "sscc_inv g ?C [] r"
      "sorted_scc v g = (if scc_start g ?C \<noteq> [] \<and> length r = card ?C then Some r else None)"
    using sorted_scc_loop[OF assms] by blast
  have "set r = ?C"
    using sscc_inv_end[OF r(1) fin] S unfolding scc_sortable_def by blast
  then have "length r = card ?C"
    using sscc_invD(1)[OF r(1)] distinct_card by fastforce
  then show "\<exists>vs. sorted_scc v g = Some vs"
    using r(2) ne by auto
qed

text \<open>C27: \<open>sorted_scc\<close> returns exactly when the strong edges of the component have no cycle and no member has strong parents both inside
  and outside the component; in all other cases one of the checks of the function stops the server.\<close>

theorem sorted_scc_returns_iff:
  assumes "graph_ok g"
  shows "(\<exists>vs. sorted_scc v g = Some vs) \<longleftrightarrow> scc_sortable g (scc_of g v)"
  using sorted_scc_iff[OF assms] .

subsection \<open>The order depends on the ids only\<close>

text \<open>The same computation on the ids of the transactions, for a component \<open>C\<close> and the strong edges \<open>S\<close> that lead into it.\<close>

definition ids_ready :: "(u64 \<times> u64) set \<Rightarrow> u64 set \<Rightarrow> u64 set \<Rightarrow> u64 \<Rightarrow> u64 list" where
  "ids_ready S C visited k = filter (\<lambda>w. \<forall>u. (u, w) \<in> S \<longrightarrow> u \<in> visited) (sorted_list_of_set {w \<in> C. (k, w) \<in> S})"

fun ids_loop :: "(u64 \<times> u64) set \<Rightarrow> u64 set \<Rightarrow> nat \<Rightarrow> u64 list \<Rightarrow> u64 set \<Rightarrow> u64 list \<Rightarrow> u64 list option" where
  "ids_loop S C n [] visited ret2 = Some ret2"
| "ids_loop S C 0 (k # start) visited ret2 = None"
| "ids_loop S C (Suc n) (k # start) visited ret2 =
     ids_loop S C n (rev (ids_ready S C (insert k visited) k) @ start) (insert k visited) (ret2 @ [k])"

definition ids_order :: "(u64 \<times> u64) set \<Rightarrow> u64 set \<Rightarrow> u64 list option" where
  "ids_order S C = (let start = sorted_list_of_set {w \<in> C. \<forall>u \<in> C. (u, w) \<notin> S} in
     case ids_loop S C (card C) start {} [] of
       None \<Rightarrow> None
     | Some r \<Rightarrow> if start \<noteq> [] \<and> length r = card C then Some r else None)"

definition strong_into :: "graph \<Rightarrow> vid set \<Rightarrow> (u64 \<times> u64) set" where
  "strong_into g scc = {(vkey g u, vkey g w) | u w. (u, w) \<in> strong g \<and> w \<in> scc}"

lemma strong_into:
  assumes "graph_ok g" "u \<in> dom (g_vertex g)" "w \<in> scc" "scc \<subseteq> dom (g_vertex g)"
  shows "(vkey g u, vkey g w) \<in> strong_into g scc \<longleftrightarrow> (u, w) \<in> strong g"
proof
  assume "(vkey g u, vkey g w) \<in> strong_into g scc"
  then obtain u' w' where *: "vkey g u = vkey g u'" "vkey g w = vkey g w'" "(u', w') \<in> strong g"
    unfolding strong_into_def by blast
  then have "u = u'" "w = w'"
    using inj_onD[OF graph_okD(4)[OF assms(1)] *(1)] inj_onD[OF graph_okD(4)[OF assms(1)] *(2)] strong_dom[OF assms(1) *(3)] assms(2-4)
    by auto
  then show "(u, w) \<in> strong g"
    using * by simp
qed (use assms(3) in \<open>unfold strong_into_def, blast\<close>)

lemma sort_vv_ids:
  assumes "inj_on key (set xs)" "distinct xs"
  shows "map key (sort_vv key False xs) = sorted_list_of_set (key ` set xs)"
    "map key (rev (sort_vv key True xs)) = sorted_list_of_set (key ` set xs)"
proof -
  have "distinct (map key xs)"
    using assms by (simp add: distinct_map)
  then have "sort (map key xs) = sorted_list_of_set (key ` set xs)"
    using sorted_list_of_set_sort_remdups[of "map key xs"] by (simp add: distinct_remdups_id)
  then show "map key (sort_vv key False xs) = sorted_list_of_set (key ` set xs)"
      "map key (rev (sort_vv key True xs)) = sorted_list_of_set (key ` set xs)"
    by (simp_all add: sort_vv_ok rev_map[symmetric])
qed

lemma ids_ready_map:
  assumes "graph_ok g" "scc \<subseteq> dom (g_vertex g)" "v \<in> scc" "V \<subseteq> dom (g_vertex g)"
  shows "map (vkey g) (filter (all_parents_visited g V) (sort_vv (vkey g) False (scc_children g scc v)))
    = ids_ready (strong_into g scc) (vkey g ` scc) (vkey g ` V) (vkey g v)"
proof -
  let ?S = "strong_into g scc"
  have inj: "inj_on (vkey g) (dom (g_vertex g))"
    using graph_okD(4)[OF assms(1)] .
  have v: "v \<in> dom (g_vertex g)"
    using assms(2,3) by blast
  have ch: "set (scc_children g scc v) = {w \<in> scc. (v, w) \<in> strong g}"
    by (rule scc_children_strong)
  have img: "vkey g ` {w \<in> scc. (v, w) \<in> strong g} = {k \<in> vkey g ` scc. (vkey g v, k) \<in> ?S}"
    using strong_into[OF assms(1) v _ assms(2)] by auto
  have par: "all_parents_visited g V w \<longleftrightarrow> (\<forall>u. (u, vkey g w) \<in> ?S \<longrightarrow> u \<in> vkey g ` V)" if w: "w \<in> scc" for w
  proof
    assume "all_parents_visited g V w"
    then have *: "\<And>u. (u, w) \<in> strong g \<Longrightarrow> u \<in> V"
      using parents_visited_strong[OF assms(1)] by blast
    show "\<forall>u. (u, vkey g w) \<in> ?S \<longrightarrow> u \<in> vkey g ` V"
    proof (intro allI impI)
      fix k
      assume "(k, vkey g w) \<in> ?S"
      then obtain u w' where u: "k = vkey g u" "vkey g w = vkey g w'" "(u, w') \<in> strong g" "w' \<in> scc"
        unfolding strong_into_def by blast
      then have "w = w'"
        using inj_onD[OF inj u(2)] w assms(2) by blast
      then show "k \<in> vkey g ` V"
        using * u by blast
    qed
  next
    assume *: "\<forall>u. (u, vkey g w) \<in> ?S \<longrightarrow> u \<in> vkey g ` V"
    have "u \<in> V" if u: "(u, w) \<in> strong g" for u
    proof -
      have "vkey g u \<in> vkey g ` V" "u \<in> dom (g_vertex g)"
        using * u w strong_dom[OF assms(1) u] unfolding strong_into_def by blast+
      then show ?thesis
        using inj_on_image_mem_iff[OF inj _ assms(4)] by blast
    qed
    then show "all_parents_visited g V w"
      using parents_visited_strong[OF assms(1)] by blast
  qed
  have "map (vkey g) (filter (all_parents_visited g V) (sort_vv (vkey g) False (scc_children g scc v)))
      = filter (\<lambda>w. \<forall>u. (u, w) \<in> ?S \<longrightarrow> u \<in> vkey g ` V) (map (vkey g) (sort_vv (vkey g) False (scc_children g scc v)))"
    unfolding filter_map o_def by (rule arg_cong[where f = "map (vkey g)"], rule filter_cong[OF refl]) (use par ch in simp)
  also have "map (vkey g) (sort_vv (vkey g) False (scc_children g scc v)) = sorted_list_of_set {k \<in> vkey g ` scc. (vkey g v, k) \<in> ?S}"
  proof -
    have "{w \<in> scc. (v, w) \<in> strong g} \<subseteq> dom (g_vertex g)"
      using assms(2) by blast
    then have "inj_on (vkey g) (set (scc_children g scc v))"
      unfolding ch using inj_on_subset[OF inj] by blast
    then show ?thesis
      using sort_vv_ids(1) scc_children_distinct[OF assms(1)] unfolding img[symmetric] ch[symmetric] by blast
  qed
  finally show ?thesis
    by (simp only: ids_ready_def)
qed

lemma ids_loop_map:
  assumes "graph_ok g" "scc \<subseteq> dom (g_vertex g)" "set start \<subseteq> scc" "V \<subseteq> dom (g_vertex g)"
  shows "map_option (map (vkey g)) (sscc_loop g scc n start V ret2)
    = ids_loop (strong_into g scc) (vkey g ` scc) n (map (vkey g) start) (vkey g ` V) (map (vkey g) ret2)"
  using assms(3,4)
proof (induction n arbitrary: start V ret2)
  case (Suc n)
  show ?case
  proof (cases start)
    case (Cons v start')
    let ?ready = "filter (all_parents_visited g (insert v V)) (sort_vv (vkey g) False (scc_children g scc v))"
    have V: "insert v V \<subseteq> dom (g_vertex g)" "v \<in> scc"
      using Suc.prems assms(2) Cons by auto
    have "set (rev ?ready @ start') \<subseteq> scc"
      using Suc.prems(1) Cons scc_children_strong[of g scc v] by auto
    moreover have "sscc_loop g scc (Suc n) start V ret2 = sscc_loop g scc n (rev ?ready @ start') (insert v V) (ret2 @ [v])"
      using Cons by (simp add: Let_def)
    moreover have "map (vkey g) (rev ?ready @ start')
        = rev (ids_ready (strong_into g scc) (vkey g ` scc) (insert (vkey g v) (vkey g ` V)) (vkey g v)) @ map (vkey g) start'"
      using ids_ready_map[OF assms(1,2) V(2,1)] by (simp add: rev_map[symmetric])
    ultimately show ?thesis
      using Suc.IH[of "rev ?ready @ start'" "insert v V" "ret2 @ [v]"] V Cons by simp
  qed simp
next
  case 0
  then show ?case by (cases start) simp_all
qed

lemma scc_start_ids:
  assumes "graph_ok g" "scc \<subseteq> dom (g_vertex g)" "finite scc"
  shows "map (vkey g) (rev (sort_vv (vkey g) True (scc_start g scc)))
    = sorted_list_of_set {k \<in> vkey g ` scc. \<forall>u \<in> vkey g ` scc. (u, k) \<notin> strong_into g scc}"
proof -
  have "set (scc_start g scc) = {w \<in> scc. \<forall>u \<in> scc. (u, w) \<notin> strong g}"
    using assms(3) by (auto simp: scc_start_def no_type2_strong[OF assms(1)])
  also have "vkey g ` \<dots> = {k \<in> vkey g ` scc. \<forall>u \<in> vkey g ` scc. (u, k) \<notin> strong_into g scc}"
  proof -
    have "(vkey g u, vkey g w) \<in> strong_into g scc \<longleftrightarrow> (u, w) \<in> strong g" if "u \<in> scc" "w \<in> scc" for u w
      using strong_into[OF assms(1) _ that(2) assms(2)] that(1) assms(2) by blast
    then show ?thesis
      by auto
  qed
  finally have img: "vkey g ` set (scc_start g scc) = {k \<in> vkey g ` scc. \<forall>u \<in> vkey g ` scc. (u, k) \<notin> strong_into g scc}" .
  have "set (scc_start g scc) \<subseteq> dom (g_vertex g)"
    using assms(2,3) by (auto simp: scc_start_def)
  then have "inj_on (vkey g) (set (scc_start g scc))" "distinct (scc_start g scc)"
    using inj_on_subset[OF graph_okD(4)[OF assms(1)]] by (auto simp: scc_start_def)
  then show ?thesis
    using sort_vv_ids(2) unfolding img[symmetric] by blast
qed

lemma sorted_scc_ids:
  assumes "graph_ok g" "v \<in> dom (g_vertex g)"
  shows "map_option (map (vkey g)) (sorted_scc v g) = ids_order (strong_into g (scc_of g v)) (vkey g ` scc_of g v)"
proof -
  define C where "C = scc_of g v"
  have C: "C \<subseteq> dom (g_vertex g)" "finite C"
    using scc_of_dom[OF assms] scc_of_finite[OF assms(1)] by (simp_all add: C_def)
  obtain r where r: "sscc_loop g C (card C) (rev (sort_vv (vkey g) True (scc_start g C))) {} [] = Some r"
      "sorted_scc v g = (if scc_start g C \<noteq> [] \<and> length r = card C then Some r else None)"
    using sorted_scc_loop[OF assms(1), of v] C_def by blast
  have card: "card (vkey g ` C) = card C"
    using card_image inj_on_subset[OF graph_okD(4)[OF assms(1)] C(1)] by blast
  define start where "start = rev (sort_vv (vkey g) True (scc_start g C))"
  have "set start \<subseteq> C"
    using C(2) by (auto simp: start_def scc_start_def)
  then have "ids_loop (strong_into g C) (vkey g ` C) (card C) (map (vkey g) start) {} [] = Some (map (vkey g) r)"
    using ids_loop_map[OF assms(1) C(1), of start "{}" "card C" "[]"] r(1) start_def by simp
  moreover define X where "X = sorted_list_of_set {k \<in> vkey g ` C. \<forall>u \<in> vkey g ` C. (u, k) \<notin> strong_into g C}"
  moreover have X: "map (vkey g) start = X"
    using scc_start_ids[OF assms(1) C] start_def X_def by simp
  moreover have "X = [] \<longleftrightarrow> scc_start g C = []"
    by (metis X length_0_conv length_rev map_is_Nil_conv sort_vv_set(2) start_def)
  ultimately show ?thesis
    using r(2) card unfolding C_def[symmetric] ids_order_def Let_def X_def[symmetric] by simp
qed

text \<open>C8: Two servers whose graphs agree on the transactions of a component and on the strong edges into it execute the component in the
  same order, wherever their vertexes are in memory and whatever else their graphs contain; if one of them stops, so does the other.\<close>

theorem sorted_scc_same_order:
  assumes "graph_ok g1" "graph_ok g2" "v1 \<in> dom (g_vertex g1)" "v2 \<in> dom (g_vertex g2)"
    and "vkey g1 ` scc_of g1 v1 = vkey g2 ` scc_of g2 v2" "strong_into g1 (scc_of g1 v1) = strong_into g2 (scc_of g2 v2)"
  shows "map_option (map (vkey g1)) (sorted_scc v1 g1) = map_option (map (vkey g2)) (sorted_scc v2 g2)"
  using assms by (simp add: sorted_scc_ids)

subsection \<open>Columns and edges\<close>

lemma graph_inv_ok:
  assumes "graph_inv g"
  shows "graph_ok g"
proof -
  note D = graph_invD[OF assms]
  have dist: "distinct (map fst (to_edges g v))" "distinct (map fst (from_edges g v))" for v
    using D(4,5) smap_inv_distinct by blast+
  have "(w, r) \<in> set (to_edges g v) \<longleftrightarrow> (v, r) \<in> set (from_edges g w)" for v w r
    using D(6)[of v w] map_of_eq_Some_iff[OF dist(1)] map_of_eq_Some_iff[OF dist(2)] by metis
  moreover have "inj_on (vkey g) (dom (g_vertex g))"
    using D(3) by (intro inj_onI) (metis option.inject)
  ultimately show ?thesis
    using graph_inv_finite[OF assms] dist unfolding graph_ok_def by blast
qed

text \<open>The touches of one column by a sequence of pieces.\<close>

fun touch_column :: "(bool \<times> vid) list \<Rightarrow> vid option \<Rightarrow> graph \<Rightarrow> vid option \<times> graph" where
  "touch_column [] lst g = (lst, g)"
| "touch_column ((immediate, tv) # ts) lst g = (case kiss immediate tv lst g of (lst', g') \<Rightarrow> touch_column ts lst' g')"

lemma kiss_to_edges: "x \<noteq> u \<Longrightarrow> to_edges (snd (kiss immediate tv (Some u) g)) x = to_edges g x"
  by (auto simp: kiss_def Let_def add_edge_def upd_vertex_def to_edges_def split: option.splits)

lemma touch_column_first:
  "fst (touch_column ts (Some u) g) = Some u \<and> (x \<noteq> u \<longrightarrow> to_edges (snd (touch_column ts (Some u) g)) x = to_edges g x)"
proof (induction ts arbitrary: g)
  case (Cons t ts)
  obtain imm tv where t: "t = (imm, tv)"
    by force
  obtain g' where g': "kiss imm tv (Some u) g = (Some u, g')"
    by (simp add: kiss_def Let_def)
  then show ?case
    using Cons[of g'] t kiss_to_edges[of x u imm tv g] by simp
qed simp

text \<open>C35: However many transactions touch a column, its entry keeps the first of them, and only that transaction gets edges to the others:
  between two later transactions that conflict on the column no edge is recorded.\<close>

theorem kiss_orders_first_only:
  assumes "x \<noteq> u"
  shows "fst (touch_column ((immediate, u) # ts) None g) = Some u \<and> to_edges (snd (touch_column ((immediate, u) # ts) None g)) x = to_edges g x"
  using touch_column_first assms by (simp add: kiss_def Let_def)

text \<open>C36: A transaction that touches a column a second time with an immediate piece, as the first and only one to touch it, gets a strong edge to itself;
  \<open>sorted_scc\<close> then stops the server when the transaction commits.\<close>

theorem kiss_twice_stops:
  assumes "graph_inv g" "v \<in> dom (g_vertex g)" "map_of (to_edges g v) v = None"
  shows "sorted_scc v (snd (touch_column [(imm, v), (True, v)] None g)) = None"
proof -
  let ?g = "add_edge v v EDGE_I g"
  have ok: "graph_ok ?g"
    using graph_inv_ok[OF graph_inv_add_edge[OF assms(1,2,2)]] .
  have "map_of (to_edges ?g v) v = Some EDGE_I"
    using assms(3) smap_lookup_put[OF graph_invD(4)[OF assms(1), of v]] by (simp add: edges_add_edge[OF assms(2,2)] or_edge_def)
  then have "(v, v) \<in> strong ?g"
    unfolding strong_def EDGE_I_def by (auto dest!: map_of_SomeD)
  moreover have "v \<in> scc_of ?g v"
    by (simp add: scc_of_def)
  ultimately have "\<not> scc_sortable ?g (scc_of ?g v)"
    unfolding scc_sortable_def acyclic_def by blast
  then have "sorted_scc v ?g = None"
    using sorted_scc_iff[OF ok] by (metis not_Some_eq)
  then show ?thesis
    by (simp add: kiss_def Let_def)
qed

subsection \<open>Examples\<close>

lemma ring_graph_ok: "graph_ok ring_graph"
  using graph_inv_ok[OF ring_graph_inv] .

lemma ring_vkey: "vkey ring_graph 0 = 10" "vkey ring_graph 1 = 20" "vkey ring_graph 2 = 30"
  by (simp_all add: vkey_def graph_eval)

lemma relation_eval: "(1 :: i8) <s 2" "\<not> (1 :: i8) <s 1" "\<not> (2 :: i8) <s 2" "2 \<le>s (2 :: i8)" "\<not> 2 \<le>s (1 :: i8)"
  by code_simp+

lemma sort_vv_short [simp]: "sort_vv key flag [] = []" "sort_vv key flag [x] = [x]"
  by (simp_all add: sort_vv_def qsort_vv.simps Let_def)

lemma ring_sorted: "sorted_scc 0 ring_graph = Some [0, 1, 2]"
proof -
  have start: "no_type2 ring_graph {2, 1, 0} 0" "\<not> no_type2 ring_graph {2, 1, 0} 1" "\<not> no_type2 ring_graph {2, 1, 0} 2"
    by (simp_all add: no_type2_def ring_graph WW_def relation_eval del: One_nat_def)
  show ?thesis
    unfolding sorted_scc_def ring_scc
    by (simp add: start verify_def scc_children_def all_parents_visited_def ring_graph relation_eval Let_def del: One_nat_def)
qed

text \<open>The same cycle at other addresses, with a further transaction after it.\<close>

definition ring_graph2 :: graph where
  "ring_graph2 = add_edge 5 1 EDGE_I (add_edge 5 4 EDGE_D (add_edge 3 5 EDGE_I (add_edge 4 3 EDGE_I
     (snd (find_or_insert 1 40 0 (snd (find_or_insert 5 30 0 (snd (find_or_insert 3 20 0 (snd (find_or_insert 4 10 0 graph_new)))))))))))"

lemma ring_graph2_ok: "graph_ok ring_graph2"
proof (rule graph_inv_ok)
  show "graph_inv ring_graph2"
    unfolding ring_graph2_def
    by (intro graph_inv_add_edge graph_inv_find_or_insert graph_inv_new) (simp_all add: graph_eval)
qed

lemma ring_graph2:
  "dom (g_vertex ring_graph2) = {1, 3, 4, 5}" "vkey ring_graph2 4 = 10" "vkey ring_graph2 3 = 20" "vkey ring_graph2 5 = 30"
  "to_edges ring_graph2 4 = [(3, 2)]" "to_edges ring_graph2 3 = [(5, 2)]" "to_edges ring_graph2 5 = [(1, 2), (4, 1)]" "to_edges ring_graph2 1 = []"
  by (simp_all add: ring_graph2_def graph_eval vkey_def to_edges_def EDGE_D_def EDGE_I_def)
    (auto simp: dom_def)

lemma strong_iff: "dom (g_vertex g) = V \<Longrightarrow> strong g = (\<Union>v \<in> V. {v} \<times> {w. \<exists>r. (w, r) \<in> set (to_edges g v) \<and> 2 \<le>s r})"
proof -
  assume V: "dom (g_vertex g) = V"
  have "v \<in> V" if "x \<in> set (to_edges g v)" for v x
    using that V by (cases "g_vertex g v") (auto simp: to_edges_def)
  then show ?thesis
    unfolding strong_def by blast
qed

lemma ring_strong: "strong ring_graph = {(0, 1), (1, 2)}" "strong ring_graph2 = {(4, 3), (3, 5), (5, 1)}"
  unfolding strong_iff[OF ring_graph(1)] strong_iff[OF ring_graph2(1)]
  by (auto simp: ring_graph ring_graph2 relation_eval simp del: One_nat_def)

lemma ring_graph2_from:
  "from_edges ring_graph2 4 = [(5, 1)]" "from_edges ring_graph2 3 = [(4, 2)]" "from_edges ring_graph2 5 = [(3, 2)]" "from_edges ring_graph2 1 = [(5, 2)]"
  by (simp_all add: ring_graph2_def graph_eval from_edges_def EDGE_D_def EDGE_I_def)

lemma ring_scc2: "find_scc 4 ring_graph2 = Some [5, 3, 4]"
proof -
  have "all_vids ring_graph2 = {1, 3, 4, 5}"
    unfolding all_vids_def ring_graph2(1) by (simp add: ring_graph2 ring_graph2_from del: One_nat_def) auto
  then have fuel: "Suc (card (all_vids ring_graph2)) = Suc (Suc (Suc (Suc (Suc 0))))"
    by simp
  show ?thesis
    unfolding find_scc_def fuel by (simp add: ring_graph2 sc_init_def sc_enter_def sc_min_def sc_finish_def del: One_nat_def)
qed

lemma scc_of_found: "finite (dom (g_vertex g)) \<Longrightarrow> find_scc v g = Some ret \<Longrightarrow> scc_of g v = set ret"
  using find_scc_ok[of g v] by auto

lemma ring_scc_of: "scc_of ring_graph 0 = {0, 1, 2}" "scc_of ring_graph2 4 = {3, 4, 5}"
  using scc_of_found[OF _ ring_scc] scc_of_found[OF _ ring_scc2] by (auto simp: ring_graph ring_graph2 simp del: One_nat_def)

lemma ring_strong_into: "strong_into ring_graph {0, 1, 2} = {(10, 20), (20, 30)}" "strong_into ring_graph2 {3, 4, 5} = {(10, 20), (20, 30)}"
proof -
  have "strong_into g scc = (\<lambda>(u, w). (vkey g u, vkey g w)) ` {(u, w) \<in> strong g. w \<in> scc}" for g scc
    by (force simp: strong_into_def)
  moreover have "{(u, w) \<in> strong ring_graph. w \<in> {0, 1, 2}} = {(0, 1), (1, 2)}" "{(u, w) \<in> strong ring_graph2. w \<in> {3, 4, 5}} = {(4, 3), (3, 5)}"
    unfolding ring_strong by auto
  ultimately show "strong_into ring_graph {0, 1, 2} = {(10, 20), (20, 30)}" "strong_into ring_graph2 {3, 4, 5} = {(10, 20), (20, 30)}"
    by (simp_all add: ring_vkey ring_graph2 del: One_nat_def)
qed

theorem sorted_scc_topological_witness:
  "graph_ok ring_graph \<and> sorted_scc 0 ring_graph = Some [0, 1, 2] \<and> set [0, 1, 2] = scc_of ring_graph 0 \<and> (0, 1) \<in> strong ring_graph"
  using sorted_scc_topological[OF ring_graph_ok ring_sorted] ring_graph_ok ring_sorted by (simp add: ring_strong del: One_nat_def)

theorem sorted_scc_returns_iff_witness:
  "graph_ok ring_graph \<and> sorted_scc 0 ring_graph = Some [0, 1, 2] \<and> scc_sortable ring_graph (scc_of ring_graph 0)"
  using sorted_scc_returns_iff[OF ring_graph_ok, of 0] ring_graph_ok ring_sorted by simp

theorem sorted_scc_same_order_witness:
  "graph_ok ring_graph \<and> graph_ok ring_graph2 \<and> 0 \<in> dom (g_vertex ring_graph) \<and> 4 \<in> dom (g_vertex ring_graph2)
    \<and> vkey ring_graph ` scc_of ring_graph 0 = vkey ring_graph2 ` scc_of ring_graph2 4
    \<and> strong_into ring_graph (scc_of ring_graph 0) = strong_into ring_graph2 (scc_of ring_graph2 4)
    \<and> map_option (map (vkey ring_graph2)) (sorted_scc 4 ring_graph2) = Some [10, 20, 30]"
proof -
  have dom: "0 \<in> dom (g_vertex ring_graph)" "4 \<in> dom (g_vertex ring_graph2)"
    by (simp_all add: ring_graph ring_graph2)
  have ids: "vkey ring_graph ` scc_of ring_graph 0 = vkey ring_graph2 ` scc_of ring_graph2 4"
    by (auto simp: ring_scc_of ring_vkey ring_graph2 simp del: One_nat_def)
  have into: "strong_into ring_graph (scc_of ring_graph 0) = strong_into ring_graph2 (scc_of ring_graph2 4)"
    by (simp only: ring_scc_of ring_strong_into)
  have "map_option (map (vkey ring_graph)) (sorted_scc 0 ring_graph) = Some [10, 20, 30]"
    by (simp add: ring_sorted ring_vkey del: One_nat_def)
  then show ?thesis
    using sorted_scc_same_order[OF ring_graph_ok ring_graph2_ok dom ids into] ring_graph_ok ring_graph2_ok dom ids into by simp
qed

theorem kiss_orders_first_only_witness:
  "(1 :: vid) \<noteq> 0 \<and> fst (touch_column [(True, 0), (True, 1), (True, 2)] None graph_new) = Some 0
    \<and> to_edges (snd (touch_column [(True, 0), (True, 1), (True, 2)] None graph_new)) 1 = []"
  using kiss_orders_first_only[of 1 0 True "[(True, 1), (True, 2)]" graph_new] by (simp add: to_edges_def graph_new_def)

theorem kiss_twice_stops_witness:
  "graph_inv solo_graph \<and> 5 \<in> dom (g_vertex solo_graph) \<and> map_of (to_edges solo_graph 5) 5 = None
    \<and> sorted_scc 5 (snd (touch_column [(True, 5), (True, 5)] None solo_graph)) = None"
proof -
  have "5 \<in> dom (g_vertex solo_graph)" "map_of (to_edges solo_graph 5) 5 = None"
    by (simp_all add: solo_graph_def start_pie_def graph_eval to_edges_def)
  then show ?thesis
    using kiss_twice_stops[OF solo_graph_inv, of 5 True] solo_graph_inv by blast
qed

end
