(* ===== verification/GraphCopy.thy ===== *)
theory GraphCopy
  imports GraphUnion
begin

text \<open>
  The copy constructor, the assignment operator and \<open>insert\<close> of \<open>deptran/graph.hpp\<close>. Loops over the index of ids take a list of
  the ids in the order of the loop; the old and the new vertexes live at different addresses.
\<close>

subsection \<open>Operations\<close>

definition copy_vertex :: "vid \<Rightarrow> u64 \<Rightarrow> txn_info \<Rightarrow> graph \<Rightarrow> graph" where
  "copy_vertex new_v i d g = g\<lparr>g_vertex := (g_vertex g)(new_v := Some (vertex_new d)), g_vertex_index := new_v # g_vertex_index g,
     g_id_index := (g_id_index g)(i := Some new_v)\<rparr>"

fun copy_vertexes :: "allocator \<Rightarrow> graph \<Rightarrow> u64 list \<Rightarrow> graph \<Rightarrow> graph option" where
  "copy_vertexes alloc gra [] g = Some g"
| "copy_vertexes alloc gra (i # ids) g = do {
     old_v \<leftarrow> g_id_index gra i;
     x \<leftarrow> g_vertex gra old_v;
     copy_vertexes alloc gra ids (copy_vertex (alloc g) i (vx_data x) g)
   }"

text \<open>\<open>new_sv->to_[new_tv] = relation; new_tv->from_[k] = relation;\<close>\<close>

definition set_edge :: "vid \<Rightarrow> vid \<Rightarrow> vid \<Rightarrow> i8 \<Rightarrow> graph \<Rightarrow> graph" where
  "set_edge new_sv new_tv k relation g =
     upd_vertex new_tv (\<lambda>x. x\<lparr>vx_from := smap_put k relation (vx_from x)\<rparr>)
       (upd_vertex new_sv (\<lambda>x. x\<lparr>vx_to := smap_put new_tv relation (vx_to x)\<rparr>) g)"

text \<open>The edges of a vertex: the copy constructor enters the old target as the parent of the new target, the assignment the new source. A
  target that is not in the index is a null pointer: undefined in the constructor, a failed check in the assignment.\<close>

fun copy_edges :: "bool \<Rightarrow> graph \<Rightarrow> vid \<Rightarrow> (vid \<times> i8) list \<Rightarrow> graph \<Rightarrow> graph option" where
  "copy_edges ctor gra new_sv [] g = Some g"
| "copy_edges ctor gra new_sv ((old_tv, relation) # es) g = do {
     tx \<leftarrow> g_vertex gra old_tv;
     new_tv \<leftarrow> g_id_index g (ti_id (vx_data tx));
     copy_edges ctor gra new_sv es (set_edge new_sv new_tv (if ctor then old_tv else new_sv) relation g)
   }"

fun copy_all_edges :: "bool \<Rightarrow> graph \<Rightarrow> u64 list \<Rightarrow> graph \<Rightarrow> graph option" where
  "copy_all_edges ctor gra [] g = Some g"
| "copy_all_edges ctor gra (i # ids) g = do {
     old_sv \<leftarrow> g_id_index gra i;
     x \<leftarrow> g_vertex gra old_sv;
     new_sv \<leftarrow> g_id_index g i;
     g' \<leftarrow> copy_edges ctor gra new_sv (vx_to x) g;
     copy_all_edges ctor gra ids g'
   }"

definition graph_copy :: "allocator \<Rightarrow> u64 list \<Rightarrow> graph \<Rightarrow> graph option" where
  "graph_copy alloc ids gra = do {
     g \<leftarrow> copy_vertexes alloc gra ids graph_new;
     copy_all_edges True gra ids g
   }"

text \<open>The assignment deletes its own vertexes first, so that the result does not depend on them; assigning a graph to itself is not considered.\<close>

definition graph_assign :: "allocator \<Rightarrow> u64 list \<Rightarrow> graph \<Rightarrow> graph option" where
  "graph_assign alloc ids gra = do {
     g \<leftarrow> copy_vertexes alloc gra ids graph_new;
     verify (card (dom (g_id_index g)) = length ids);
     copy_all_edges False gra ids g
   }"

text \<open>\<open>insert\<close> of a vertex that already has its edges.\<close>

definition graph_insert :: "vid \<Rightarrow> vertex \<Rightarrow> graph \<Rightarrow> bool \<times> graph" where
  "graph_insert v x g =
    (if v \<in> set (g_vertex_index g) then (False, g)
     else
       let g1 = g\<lparr>g_vertex := (g_vertex g)(v := Some x), g_vertex_index := v # g_vertex_index g,
                  g_id_index := (g_id_index g)(ti_id (vx_data x) := Some v)\<rparr>;
           g2 = fold (\<lambda>(a, r). upd_vertex a (\<lambda>y. y\<lparr>vx_to := or_edge v r (vx_to y)\<rparr>)) (vx_from x) g1;
           g3 = fold (\<lambda>(d, r). upd_vertex d (\<lambda>y. y\<lparr>vx_from := or_edge v r (vx_from y)\<rparr>)) (to_edges g2 v) g2
       in (True, g3))"

subsection \<open>The copied vertexes\<close>

definition ids_of :: "u64 list \<Rightarrow> graph \<Rightarrow> bool" where
  "ids_of ids gra \<longleftrightarrow> distinct ids \<and> set ids = dom (g_id_index gra)"

lemma copy_vertex_new: "ti_id d = i \<Longrightarrow> copy_vertex v i d g = new_vertex v d g"
  by (simp add: copy_vertex_def new_vertex_def)

lemma copy_vertexes_ok:
  assumes "alloc_ok alloc" "graph_inv gra" "graph_inv g" "set ids \<subseteq> dom (g_id_index gra)" "distinct ids" "set ids \<inter> dom (g_id_index g) = {}"
  shows "\<exists>g'. copy_vertexes alloc gra ids g = Some g' \<and> graph_inv g' \<and> edge g' = edge g
    \<and> (\<forall>i. node g' i = (if i \<in> set ids then node gra i else node g i)) \<and> dom (g_id_index g') = set ids \<union> dom (g_id_index g)"
  using assms(3-6)
proof (induction ids arbitrary: g)
  case (Cons i ids)
  obtain v where v: "g_id_index gra i = Some v"
    using Cons.prems(2) by auto
  then obtain x where x: "g_vertex gra v = Some x" "vkey gra v = i"
    using graph_invD(3)[OF assms(2)] by auto
  note k = node_vkey[OF assms(2) x(1), unfolded x(2)]
  have none: "g_id_index g (ti_id (vx_data x)) = None"
    using Cons.prems(4) k(3) by (auto simp: dom_def)
  note fresh = alloc_okD[OF assms(1) Cons.prems(1)]
  let ?g = "new_vertex (alloc g) (vx_data x) g"
  note N = graph_inv_new_vertex[OF Cons.prems(1) fresh none] node_new_vertex[OF Cons.prems(1) fresh none]
  have d: "dom (g_id_index ?g) = insert i (dom (g_id_index g))"
    using k(3) by (simp add: new_vertex_def)
  then have "set ids \<inter> dom (g_id_index ?g) = {}" "set ids \<subseteq> dom (g_id_index gra)" "distinct ids"
    using Cons.prems(2-4) by auto
  then obtain g' where g': "copy_vertexes alloc gra ids ?g = Some g'" "graph_inv g'" "edge g' = edge ?g"
      "\<And>i. node g' i = (if i \<in> set ids then node gra i else node ?g i)" "dom (g_id_index g') = set ids \<union> dom (g_id_index ?g)"
    using Cons.IH[OF N(1)] by blast
  have "copy_vertexes alloc gra (i # ids) g = Some g'"
    using g'(1) v x copy_vertex_new[OF k(3)] by simp
  moreover have "node g' j = (if j \<in> set (i # ids) then node gra j else node g j)" for j
    using g'(4)[of j] N(2) k by auto
  ultimately show ?case
    using g'(2,3,5) N(3) d by auto
qed simp

lemma set_edge_new:
  assumes "graph_inv g" "a \<in> dom (g_vertex g)" "b \<in> dom (g_vertex g)" "map_of (to_edges g a) b = None"
  shows "set_edge a b a r g = add_edge a b r g"
proof -
  obtain x y where xy: "g_vertex g a = Some x" "g_vertex g b = Some y"
    using assms(2,3) by auto
  have "map_of (vx_to x) b = None" "map_of (vx_from y) a = None"
    using assms(4) graph_invD(6)[OF assms(1), of a b] xy by (simp_all add: to_edges_def from_edges_def)
  then show ?thesis
    using xy by (auto simp: set_edge_def add_edge_def upd_vertex_def or_edge_def)
qed

lemma copy_edges_ok:
  assumes "graph_inv gra" "graph_inv g" "dom (g_id_index g) = dom (g_id_index gra)" "g_id_index g i = Some nv"
    and "fst ` set es \<subseteq> dom (g_vertex gra)" "distinct (map fst es)" "\<forall>w \<in> fst ` set es. edge g i (vkey gra w) = None"
  shows "\<exists>g'. copy_edges False gra nv es g = Some g' \<and> graph_inv g' \<and> g_id_index g' = g_id_index g \<and> node g' = node g
    \<and> edge g' = (edge g)(i := \<lambda>j. or_opt (edge g i j) (map_of (edge_list gra es) j))"
  using assms(2-7)
proof (induction es arbitrary: g)
  case (Cons e es)
  obtain tv r where e: "e = (tv, r)"
    by force
  then obtain tx where tx: "g_vertex gra tv = Some tx"
    using Cons.prems(4) by auto
  note k = node_vkey[OF assms(1) tx]
  obtain nt where nt: "g_id_index g (vkey gra tv) = Some nt"
    using k(2) Cons.prems(2) by blast
  have nv: "nv \<in> dom (g_vertex g)" "nt \<in> dom (g_vertex g)" "vkey g nv = i" "vkey g nt = vkey gra tv"
    using graph_invD(3)[OF Cons.prems(1)] Cons.prems(3) nt by blast+
  have "map_of (to_edges g nv) nt = None"
    using edge_vkey[OF Cons.prems(1) nv(1,2)] nv(3,4) Cons.prems(6) e by simp
  note se = set_edge_new[OF Cons.prems(1) nv(1,2) this]
  let ?g = "add_edge nv nt r g"
  note N = node_add_edge[OF Cons.prems(1,3) nt, of r]
  have inv: "graph_inv ?g"
    using graph_inv_add_edge[OF Cons.prems(1) nv(1,2)] .
  have diff: "vkey gra w \<noteq> vkey gra tv" if "w \<in> fst ` set es" for w
  proof
    assume "vkey gra w = vkey gra tv"
    then have "w = tv"
      using graph_invD(3)[OF assms(1), of "vkey gra tv" w] k(2) that Cons.prems(4) by auto
    then show False
      using that Cons.prems(5) e by auto
  qed
  then have "\<forall>w \<in> fst ` set es. edge ?g i (vkey gra w) = None"
    unfolding N(2) using Cons.prems(6) by auto
  moreover have "fst ` set es \<subseteq> dom (g_vertex gra)" "distinct (map fst es)" "dom (g_id_index ?g) = dom (g_id_index gra)" "g_id_index ?g i = Some nv"
    using Cons.prems(2-5) by simp_all
  ultimately obtain g' where g': "copy_edges False gra nv es ?g = Some g'" "graph_inv g'" "g_id_index g' = g_id_index ?g" "node g' = node ?g"
      "edge g' = (edge ?g)(i := \<lambda>j. or_opt (edge ?g i j) (map_of (edge_list gra es) j))"
    using Cons.IH[OF inv] by blast
  have "map_of (edge_list gra es) (vkey gra tv) = None"
    using diff by (force simp: map_of_eq_None_iff)
  then have "edge g' = (edge g)(i := \<lambda>j. or_opt (edge g i j) (map_of (edge_list gra (e # es)) j))"
    unfolding g'(5) N(2) e by (auto simp: fun_eq_iff)
  moreover have "copy_edges False gra nv (e # es) g = Some g'"
    using e tx nt k(3) g'(1) se by simp
  moreover have "g_id_index g' = g_id_index g" "node g' = node g"
    using g'(3,4) N(1) by simp_all
  ultimately show ?case
    using g'(2) by blast
qed (auto simp: fun_eq_iff)

lemma copy_all_edges_ok:
  assumes "graph_inv gra" "graph_inv g" "dom (g_id_index g) = dom (g_id_index gra)" "set ids \<subseteq> dom (g_id_index gra)" "distinct ids"
    and "\<forall>i \<in> set ids. \<forall>j. edge g i j = None"
  shows "\<exists>g'. copy_all_edges False gra ids g = Some g' \<and> graph_inv g' \<and> node g' = node g \<and> g_id_index g' = g_id_index g
    \<and> (\<forall>i j. edge g' i j = (if i \<in> set ids then edge gra i j else edge g i j))"
  using assms(2-6)
proof (induction ids arbitrary: g)
  case (Cons i ids)
  obtain v where v: "g_id_index gra i = Some v"
    using Cons.prems(3) by auto
  then obtain x where x: "g_vertex gra v = Some x" "vkey gra v = i"
    using graph_invD(3)[OF assms(1)] by auto
  obtain nv where nv: "g_id_index g i = Some nv"
    using Cons.prems(2,3) by auto
  note E = edge_list_edge[OF assms(1) x(1), unfolded x(2)]
  have "\<forall>w \<in> fst ` set (vx_to x). edge g i (vkey gra w) = None"
    using Cons.prems(5) by simp
  then obtain g1 where g1: "copy_edges False gra nv (vx_to x) g = Some g1" "graph_inv g1" "g_id_index g1 = g_id_index g" "node g1 = node g"
      "edge g1 = (edge g)(i := \<lambda>j. or_opt (edge g i j) (map_of (edge_list gra (vx_to x)) j))"
    using copy_edges_ok[OF assms(1) Cons.prems(1,2) nv E(2,3)] by blast
  have e1: "edge g1 = (edge g)(i := edge gra i)"
    unfolding g1(5) E(1) using Cons.prems(5) by (simp add: fun_eq_iff)
  have "dom (g_id_index g1) = dom (g_id_index gra)" "set ids \<subseteq> dom (g_id_index gra)" "distinct ids" "\<forall>i \<in> set ids. \<forall>j. edge g1 i j = None"
    using Cons.prems(2-5) g1(3) e1 by auto
  then obtain g' where g': "copy_all_edges False gra ids g1 = Some g'" "graph_inv g'" "node g' = node g1" "g_id_index g' = g_id_index g1"
      "\<forall>i j. edge g' i j = (if i \<in> set ids then edge gra i j else edge g1 i j)"
    using Cons.IH[OF g1(2)] by blast
  have "copy_all_edges False gra (i # ids) g = Some g'"
    using v x nv g1(1) g'(1) by simp
  moreover have "\<forall>k j. edge g' k j = (if k \<in> set (i # ids) then edge gra k j else edge g k j)"
    using g'(5) e1 by auto
  ultimately show ?case
    using g'(2-4) g1(3,4) by auto
qed simp

text \<open>The assignment makes a graph with the same transactions and edges.\<close>

lemma graph_assign_ok:
  assumes "alloc_ok alloc" "graph_inv gra" "ids_of ids gra"
  shows "\<exists>g. graph_assign alloc ids gra = Some g \<and> graph_inv g \<and> node g = node gra \<and> edge g = edge gra"
proof -
  have ids: "distinct ids" "set ids = dom (g_id_index gra)"
    using assms(3) by (simp_all add: ids_of_def)
  have e0: "edge graph_new i j = None" "node graph_new i = None" "dom (g_id_index graph_new) = {}" for i j
    by (simp_all add: edge_def node_def graph_new_def)
  obtain g where g: "copy_vertexes alloc gra ids graph_new = Some g" "graph_inv g" "edge g = edge graph_new"
      "\<And>i. node g i = (if i \<in> set ids then node gra i else node graph_new i)" "dom (g_id_index g) = set ids"
    using copy_vertexes_ok[OF assms(1,2) graph_inv_new, of ids] ids e0 by auto
  have n: "node g = node gra"
  proof
    fix i
    show "node g i = node gra i"
      using g(4)[of i] ids(2) node_None[OF assms(2), of i] e0(2)[of i] by (cases "g_id_index gra i") auto
  qed
  obtain g' where g': "copy_all_edges False gra ids g = Some g'" "graph_inv g'" "node g' = node g"
      "\<forall>i j. edge g' i j = (if i \<in> set ids then edge gra i j else edge g i j)"
    using copy_all_edges_ok[OF assms(2) g(2), of ids] g(3,5) ids e0 by auto
  have "edge gra i j = None" if "i \<notin> set ids" for i j
    using that ids(2) edge_None[of gra i j] by (auto simp: dom_def)
  then have "edge g' = edge gra"
    using g'(4) g(3) e0 by (auto simp: fun_eq_iff)
  moreover have "graph_assign alloc ids gra = Some g'"
    using g(1,5) g'(1) ids distinct_card[OF ids(1)] by (simp add: graph_assign_def verify_def)
  ultimately show ?thesis
    using g'(2,3) n by auto
qed

subsection \<open>The copy constructor\<close>

lemma from_edges_set_edge:
  "fst ` set (from_edges (set_edge a b k r g) v) \<subseteq> insert k (fst ` set (from_edges g v))"
proof (cases "g_vertex g v")
  case (Some x)
  have "from_edges (set_edge a b k r g) v = (if v = b then smap_put k r (vx_from x) else vx_from x)" "from_edges g v = vx_from x"
    using Some by (auto simp: set_edge_def upd_vertex_def from_edges_def)
  then show ?thesis
    using smap_put_keys[of k r "vx_from x"] by auto
next
  case None
  then have "from_edges (set_edge a b k r g) v = []"
    by (auto simp: set_edge_def upd_vertex_def from_edges_def)
  then show ?thesis
    by simp
qed

lemma copy_edges_parents:
  assumes "copy_edges True gra nv es g = Some g'" "\<forall>v. fst ` set (from_edges g v) \<subseteq> dom (g_vertex gra)"
  shows "\<forall>v. fst ` set (from_edges g' v) \<subseteq> dom (g_vertex gra)"
  using assms
proof (induction es arbitrary: g)
  case (Cons e es)
  obtain tv r where e: "e = (tv, r)"
    by force
  then obtain tx nt where s: "g_vertex gra tv = Some tx" "copy_edges True gra nv es (set_edge nv nt tv r g) = Some g'"
    using Cons.prems(1) by (auto simp: bind_eq_Some_conv)
  have "\<forall>v. fst ` set (from_edges (set_edge nv nt tv r g) v) \<subseteq> dom (g_vertex gra)"
  proof
    fix v
    show "fst ` set (from_edges (set_edge nv nt tv r g) v) \<subseteq> dom (g_vertex gra)"
      using from_edges_set_edge[of nv nt tv r g v] Cons.prems(2) s(1) by blast
  qed
  then show ?case
    using Cons.IH[OF s(2)] by blast
qed simp

text \<open>Every parent that a copied vertex knows is a vertex of the original graph.\<close>

lemma graph_copy_parents:
  assumes "graph_copy alloc ids gra = Some c" "(v, w) \<in> parent_rel c"
  shows "w \<in> dom (g_vertex gra)"
proof -
  obtain g where g: "copy_vertexes alloc gra ids graph_new = Some g" "copy_all_edges True gra ids g = Some c"
    using assms(1) by (auto simp: graph_copy_def bind_eq_Some_conv)
  have cv: "\<forall>u. from_edges (copy_vertex nv i d h) u = []" if "\<forall>u. from_edges h u = []" for nv i d h
    using that by (auto simp: copy_vertex_def from_edges_def vertex_new_def)
  have "\<forall>u. from_edges g u = []" if "copy_vertexes alloc gra js h = Some g" "\<forall>u. from_edges h u = []" for js h
    using that
  proof (induction js arbitrary: h)
    case (Cons j js)
    obtain x :: vertex where "copy_vertexes alloc gra js (copy_vertex (alloc h) j (vx_data x) h) = Some g"
      using Cons.prems(1) by (auto simp: bind_eq_Some_conv)
    then show ?case
      using Cons.IH[OF _ cv[OF Cons.prems(2)]] by blast
  qed simp
  moreover have "\<forall>u. from_edges graph_new u = []"
    by (simp add: from_edges_def graph_new_def)
  ultimately have "\<forall>u. from_edges g u = []"
    using g(1) by blast
  then have start: "\<forall>u. fst ` set (from_edges g u) \<subseteq> dom (g_vertex gra)"
    by simp
  have "\<forall>u. fst ` set (from_edges c u) \<subseteq> dom (g_vertex gra)"
    if "copy_all_edges True gra js h = Some c" "\<forall>u. fst ` set (from_edges h u) \<subseteq> dom (g_vertex gra)" for js h
    using that
  proof (induction js arbitrary: h)
    case (Cons j js)
    obtain x :: vertex and nv h' where "copy_edges True gra nv (vx_to x) h = Some h'" "copy_all_edges True gra js h' = Some c"
      using Cons.prems(1) by (auto simp: bind_eq_Some_conv)
    then show ?case
      using Cons.IH[of h'] copy_edges_parents Cons.prems(2) by blast
  qed simp
  then have "fst ` set (from_edges c v) \<subseteq> dom (g_vertex gra)"
    using g(2) start by blast
  then show ?thesis
    using assms(2) unfolding parent_rel_def by blast
qed

end
