(* ===== verification/RO6.thy ===== *)
theory RO6
  imports MemRow DepGraph "HOL-Library.Product_Lexorder"
begin

text \<open>
  \<open>deptran/ro6/ro6_row.hpp\<close>, \<open>ro6_row.cpp\<close> and the parts of \<open>ro6.cpp\<close> that work on rows: rows that keep the old values of their
  columns, and the tracker that tells a read-only transaction which version of a column to read. Versions are numbered by a counter
  shared by all rows. The clock is an argument, in milliseconds. An iterator into the map of old values is the key it points to.
\<close>

type_synonym version_t = u64

definition VERSION_SAFE_TIME :: i64 where "VERSION_SAFE_TIME = 5000"
definition GC_THRESHOLD :: nat where "GC_THRESHOLD = 10000"

subsection \<open>The tracker of read transactions\<close>

text \<open>For each column the recorded read transactions, with the version to read and the time of the record.\<close>

record tracker =
  tk_ids :: "(nat, (i64, i64 \<times> i64) smap) smap"
  tk_access :: "(nat, i64) smap"

definition tracker_new :: tracker where
  "tracker_new = \<lparr>tk_ids = [], tk_access = []\<rparr>"

definition clear_context :: "tracker \<Rightarrow> tracker" where
  "clear_context t = \<lparr>tk_ids = [], tk_access = []\<rparr>"

text \<open>\<open>operator[]\<close>: an absent entry reads as a new one.\<close>

definition tk_entry :: "nat \<Rightarrow> tracker \<Rightarrow> (i64, i64 \<times> i64) smap" where
  "tk_entry c t = (case map_of (tk_ids t) c of Some m \<Rightarrow> m | None \<Rightarrow> [])"

definition tk_accessed :: "nat \<Rightarrow> tracker \<Rightarrow> i64" where
  "tk_accessed c t = (case map_of (tk_access t) c of Some x \<Rightarrow> x | None \<Rightarrow> 0)"

definition stale :: "i64 \<Rightarrow> (i64, i64 \<times> i64) smap \<Rightarrow> bool" where
  "stale now m \<longleftrightarrow> (\<exists>e \<in> set m. snd (snd e) < now - VERSION_SAFE_TIME)"

text \<open>Erasing an entry from the map in the loop over it leaves the loop with an invalid iterator, which is undefined.\<close>

definition check_recorded :: "nat \<Rightarrow> i64 \<Rightarrow> bool \<Rightarrow> version_t \<Rightarrow> i64 \<Rightarrow> tracker \<Rightarrow> (version_t \<times> tracker) option" where
  "check_recorded c txn forWrites chosen now t =
    (let txnTime = (if forWrites then chosen else 0);
         entry = (sint txnTime, now);
         m = tk_entry c t in
     if m = []
     then Some (0, t\<lparr>tk_ids := smap_put c [(txn, entry)] (tk_ids t), tk_access := smap_put c now (tk_access t)\<rparr>)
     else
       let old = tk_accessed c t < now - VERSION_SAFE_TIME;
           t' = t\<lparr>tk_access := smap_put c (if old then now else tk_accessed c t) (tk_access t)\<rparr> in do {
         verify (\<not> (old \<and> stale now m));
         case map_of m txn of
           None \<Rightarrow> Some (0, t'\<lparr>tk_ids := smap_put c (smap_put txn entry m) (tk_ids t)\<rparr>)
         | Some (v, rt) \<Rightarrow>
             Some (word_of_int v,
                   if forWrites \<and> txnTime < word_of_int v
                   then t'\<lparr>tk_ids := smap_put c (smap_put txn (sint txnTime, rt) m) (tk_ids t)\<rparr> else t')
       })"

definition get_read_txn_ids :: "nat \<Rightarrow> i64 \<Rightarrow> tracker \<Rightarrow> (i64 list \<times> tracker) option" where
  "get_read_txn_ids c now t = (case map_of (tk_ids t) c of
     None \<Rightarrow> Some ([], t)
   | Some m \<Rightarrow> do {
       verify (\<not> stale now m);
       Some (map fst m, t\<lparr>tk_access := smap_put c now (tk_access t)\<rparr>)
     })"

fun check_all :: "nat \<Rightarrow> i64 list \<Rightarrow> version_t \<Rightarrow> i64 \<Rightarrow> tracker \<Rightarrow> tracker option" where
  "check_all c [] chosen now t = Some t"
| "check_all c (i # is) chosen now t = do {
     (_, t') \<leftarrow> check_recorded c i True chosen now t;
     check_all c is chosen now t'
   }"

subsection \<open>Rows with old versions\<close>

record ro6_row =
  r6_row :: row
  r6_old :: "nat \<Rightarrow> (i64, mvalue) smap"
  r6_segment :: "nat \<Rightarrow> (i64, i64) smap"
  r6_tracker :: tracker
  r6_dep :: "vid option list"

definition ro6_create :: "nat \<Rightarrow> 'a schema_scheme \<Rightarrow> mvalue list \<Rightarrow> ro6_row option" where
  "ro6_create sid s vs = map_option (\<lambda>r. \<lparr>r6_row = r, r6_old = (\<lambda>_. []), r6_segment = (\<lambda>_. []), r6_tracker = tracker_new,
     r6_dep = replicate (columns_count s) None\<rparr>) (row_create_list sid s vs)"

text \<open>Copying a row copies the row and its entries in the dependency graph only, as the source says; the copy has no old versions.\<close>

definition ro6_copy :: "'a schema_scheme \<Rightarrow> ro6_row \<Rightarrow> ro6_row option" where
  "ro6_copy s r = map_option (\<lambda>x. \<lparr>r6_row = x, r6_old = (\<lambda>_. []), r6_segment = (\<lambda>_. []), r6_tracker = tracker_new,
     r6_dep = r6_dep r\<rparr>) (row_copy s (r6_row r))"

definition get_current_version :: "nat \<Rightarrow> ro6_row \<Rightarrow> version_t" where
  "get_current_version c r = (if r6_old r c = [] then 0 else word_of_int (fst (last (r6_old r c))))"

definition get_column_by_version :: "'a schema_scheme \<Rightarrow> nat \<Rightarrow> i64 \<Rightarrow> ro6_row \<Rightarrow> mvalue option" where
  "get_column_by_version s c ver r = (case map_of (r6_old r c) ver of
     Some v \<Rightarrow> Some v
   | None \<Rightarrow> get_column s c (r6_row r))"

text \<open>\<open>get_column\<close> for a read-only transaction; the value that is read for version 0 is thrown away.\<close>

definition ro6_get_column :: "'a schema_scheme \<Rightarrow> nat \<Rightarrow> i64 \<Rightarrow> i64 \<Rightarrow> ro6_row \<Rightarrow> (mvalue \<times> ro6_row) option" where
  "ro6_get_column s c txn now r = do {
     (ver, t) \<leftarrow> check_recorded c txn False 0 now (r6_tracker r);
     let r' = r\<lparr>r6_tracker := t\<rparr>;
     _ \<leftarrow> (if ver = 0 then map_option (\<lambda>_. ()) (get_column s c (r6_row r')) else Some ());
     v \<leftarrow> get_column_by_version s c (sint ver) r';
     Some (v, r')
   }"

text \<open>Garbage collection: the time and the newest version are noted; the versions up to the last note that is old enough are erased.\<close>

definition map_insert :: "'k :: linorder \<Rightarrow> 'v \<Rightarrow> ('k, 'v) smap \<Rightarrow> ('k, 'v) smap" where
  "map_insert k v m = (if map_of m k = None then smap_put k v m else m)"

definition garbage_collection :: "nat \<Rightarrow> i64 \<Rightarrow> i64 \<Rightarrow> ro6_row \<Rightarrow> ro6_row option" where
  "garbage_collection c itr now r =
    (let cut = now - VERSION_SAFE_TIME;
         segment = map_insert now itr (r6_segment r c);
         pre = takeWhile (\<lambda>e. fst e \<le> cut) segment;
         post = dropWhile (\<lambda>e. fst e \<le> cut) segment;
         r1 = r\<lparr>r6_segment := (r6_segment r)(c := segment)\<rparr> in
     if post = [] \<or> pre = [] then Some r1
     else do {
       let recorded = snd (last pre);
       verify (map_of (r6_old r c) recorded \<noteq> None);
       Some (r1\<lparr>r6_segment := (r6_segment r)(c := post), r6_old := (r6_old r)(c := filter (\<lambda>e. recorded < fst e) (r6_old r c))\<rparr>)
     })"

text \<open>\<open>update_internal\<close>; the result also has the counter of versions.\<close>

definition update_internal ::
  "'a schema_scheme \<Rightarrow> nat \<Rightarrow> mvalue \<Rightarrow> i64 list \<Rightarrow> i64 \<Rightarrow> version_t \<Rightarrow> ro6_row \<Rightarrow> (version_t \<times> ro6_row) option" where
  "update_internal s c v txnIds now ver_s r = do {
     currentValue \<leftarrow> get_column s c (r6_row r);
     let currentVersionNumber = get_current_version c r;
     let ver' = ver_s + 1;
     let key = sint ver';
     let r1 = r\<lparr>r6_old := (r6_old r)(c := map_insert key currentValue (r6_old r c))\<rparr>;
     r2 \<leftarrow> (if length (r6_old r1 c) mod GC_THRESHOLD = 0 then garbage_collection c key now r1 else Some r1);
     t \<leftarrow> check_all c txnIds currentVersionNumber now (r6_tracker r2);
     x \<leftarrow> row_update s c v (r6_row r2);
     Some (ver', r2\<lparr>r6_tracker := t, r6_row := x\<rparr>)
   }"

subsection \<open>Transactions\<close>

record ro6_txn =
  rt_tid :: i64
  rt_read_only :: bool
  rt_ro :: "i64 set"
  rt_cells :: "(nat \<times> nat) set"
  rt_tv :: vid
  rt_conflict :: "vid list"

text \<open>The rows of the server by address. \<open>kiss\<close> enters the transaction into the dependency graph, or notes the transaction to wait for,
  and then collects the recorded readers of the column and remembers the cell.\<close>

definition rcc_kiss :: "nat \<Rightarrow> nat \<Rightarrow> bool \<Rightarrow> ro6_txn \<Rightarrow> (nat \<Rightarrow> ro6_row option) \<Rightarrow> graph \<Rightarrow> (ro6_txn \<times> (nat \<Rightarrow> ro6_row option) \<times> graph) option" where
  "rcc_kiss a c immediate tx rows g = do {
     r \<leftarrow> rows a;
     verify (c < length (r6_dep r));
     if rt_read_only tx then Some (tx\<lparr>rt_conflict := kiss_ro (r6_dep r ! c) (rt_conflict tx)\<rparr>, rows, g)
     else (case kiss immediate (rt_tv tx) (r6_dep r ! c) g of (lst, g') \<Rightarrow> Some (tx, rows(a \<mapsto> r\<lparr>r6_dep := (r6_dep r)[c := lst]\<rparr>), g'))
   }"

definition ro6_kiss ::
  "nat \<Rightarrow> nat \<Rightarrow> bool \<Rightarrow> i64 \<Rightarrow> ro6_txn \<Rightarrow> (nat \<Rightarrow> ro6_row option) \<Rightarrow> graph \<Rightarrow> (ro6_txn \<times> (nat \<Rightarrow> ro6_row option) \<times> graph) option" where
  "ro6_kiss a c immediate now tx rows g = do {
     (tx1, rows1, g1) \<leftarrow> rcc_kiss a c immediate tx rows g;
     if rt_read_only tx1 then Some (tx1, rows1, g1)
     else do {
       r \<leftarrow> rows1 a;
       (ids, t) \<leftarrow> get_read_txn_ids c now (r6_tracker r);
       Some (tx1\<lparr>rt_ro := rt_ro tx1 \<union> set ids, rt_cells := insert (a, c) (rt_cells tx1)\<rparr>, rows1(a \<mapsto> r\<lparr>r6_tracker := t\<rparr>), g1)
     }
   }"

text \<open>\<open>commit\<close>, before the commit of the dependency protocol: the readers the coordinator collected are recorded with the current versions.\<close>

fun record_cells :: "(nat \<times> nat) list \<Rightarrow> i64 list \<Rightarrow> i64 \<Rightarrow> (nat \<Rightarrow> ro6_row option) \<Rightarrow> (nat \<Rightarrow> ro6_row option) option" where
  "record_cells [] ids now rows = Some rows"
| "record_cells ((a, c) # cells) ids now rows = do {
     r \<leftarrow> rows a;
     t \<leftarrow> check_all c ids (get_current_version c r) now (r6_tracker r);
     record_cells cells ids now (rows(a \<mapsto> r\<lparr>r6_tracker := t\<rparr>))
   }"

definition record_readers :: "i64 list \<Rightarrow> i64 \<Rightarrow> ro6_txn \<Rightarrow> (nat \<Rightarrow> ro6_row option) \<Rightarrow> (nat \<Rightarrow> ro6_row option) option" where
  "record_readers ids now tx rows = record_cells (sorted_list_of_set (rt_cells tx)) ids now rows"

definition ro6_read_column :: "'a schema_scheme \<Rightarrow> nat \<Rightarrow> nat \<Rightarrow> i64 \<Rightarrow> ro6_txn \<Rightarrow> (nat \<Rightarrow> ro6_row option) \<Rightarrow> (mvalue \<times> (nat \<Rightarrow> ro6_row option)) option" where
  "ro6_read_column s a c now tx rows = do {
     r \<leftarrow> rows a;
     if rt_read_only tx
     then do {
       (v, r') \<leftarrow> ro6_get_column s c (rt_tid tx) now r;
       Some (v, rows(a \<mapsto> r'))
     }
     else do {
       v \<leftarrow> get_column s c (r6_row r);
       Some (v, rows)
     }
   }"

subsection \<open>Which versions are kept\<close>

text \<open>What can happen to a row: updates, reads by read-only transactions, and updates of other rows, which draw versions. The history of
  a column has the version, the replaced value and the time of each update of it.\<close>

datatype ro6_op = RUpdate nat mvalue "i64 list" i64 | RRead nat i64 i64 | ROther

type_synonym history = "(i64 \<times> mvalue \<times> i64) list"

fun ro6_step :: "'a schema_scheme \<Rightarrow> nat \<Rightarrow> ro6_op \<Rightarrow> version_t \<times> ro6_row \<times> history \<Rightarrow> (version_t \<times> ro6_row \<times> history) option" where
  "ro6_step s c (RUpdate c' v ids now) (ver, r, h) = do {
     cur \<leftarrow> get_column s c' (r6_row r);
     (ver', r') \<leftarrow> update_internal s c' v ids now ver r;
     Some (ver', r', if c' = c then h @ [(sint ver', cur, now)] else h)
   }"
| "ro6_step s c (RRead c' txn now) (ver, r, h) = do {
     (_, r') \<leftarrow> ro6_get_column s c' txn now r;
     Some (ver, r', h)
   }"
| "ro6_step s c ROther (ver, r, h) = Some (ver + 1, r, h)"

fun ro6_run :: "'a schema_scheme \<Rightarrow> nat \<Rightarrow> ro6_op list \<Rightarrow> version_t \<times> ro6_row \<times> history \<Rightarrow> (version_t \<times> ro6_row \<times> history) option" where
  "ro6_run s c [] st = Some st"
| "ro6_run s c (a # as) st = Option.bind (ro6_step s c a st) (ro6_run s c as)"

fun update_time :: "ro6_op \<Rightarrow> i64 option" where
  "update_time (RUpdate c v ids now) = Some now"
| "update_time _ = None"

text \<open>The updates happen in the order of the clock, not before \<open>T\<close>.\<close>

fun clocked :: "i64 \<Rightarrow> ro6_op list \<Rightarrow> bool" where
  "clocked T [] = True"
| "clocked T (a # as) = (case update_time a of Some now \<Rightarrow> T \<le> now \<and> clocked now as | None \<Rightarrow> clocked T as)"

fun last_time :: "i64 \<Rightarrow> ro6_op list \<Rightarrow> i64" where
  "last_time T [] = T"
| "last_time T (a # as) = (case update_time a of Some now \<Rightarrow> last_time now as | None \<Rightarrow> last_time T as)"

text \<open>The old values are the history above some version \<open>b\<close>; everything up to it is old enough. A note of the garbage
  collector is at a version that is kept, and everything up to it was there at the time of the note.\<close>

definition kept :: "nat \<Rightarrow> nat \<Rightarrow> i64 \<Rightarrow> i64 \<Rightarrow> ro6_row \<times> history \<Rightarrow> bool" where
  "kept c n b T = (\<lambda>(r, h).
     sorted_wrt (<) (map fst h) \<and> (\<forall>e \<in> set h. fst e \<le> int n \<and> snd (snd e) \<le> T)
     \<and> r6_old r c = map (\<lambda>e. (fst e, fst (snd e))) (filter (\<lambda>e. b < fst e) h)
     \<and> (\<forall>e \<in> set h. fst e \<le> b \<longrightarrow> snd (snd e) \<le> T - VERSION_SAFE_TIME)
     \<and> smap_inv (r6_segment r c)
     \<and> (\<forall>t k. (t, k) \<in> set (r6_segment r c) \<longrightarrow> b < k \<and> t \<le> T \<and> k \<in> fst ` set h)
     \<and> (\<forall>t k e. (t, k) \<in> set (r6_segment r c) \<longrightarrow> e \<in> set h \<longrightarrow> fst e \<le> k \<longrightarrow> snd (snd e) \<le> t)
     \<and> (\<forall>t k t' k'. (t, k) \<in> set (r6_segment r c) \<longrightarrow> (t', k') \<in> set (r6_segment r c) \<longrightarrow> t < t' \<longrightarrow> k < k')
     \<and> b \<le> int n)"

lemma smap_put_end: "\<forall>x \<in> fst ` set m. x < k \<Longrightarrow> smap_put k v m = m @ [(k, v)]"
  by (induction m) auto

lemma map_insert_end: "\<forall>x \<in> fst ` set m. x < k \<Longrightarrow> map_insert k v m = m @ [(k, v)]"
  using smap_put_end[of m k v] by (auto simp: map_insert_def map_of_eq_None_iff)

lemma map_insert_inv: "smap_inv m \<Longrightarrow> smap_inv (map_insert k v m)"
  by (simp add: map_insert_def smap_inv_put)

lemma map_insert_set: "set (map_insert k v m) \<subseteq> insert (k, v) (set m)" if "smap_inv m"
  using that
proof -
  have "x \<in> insert (k, v) (set m)" if "x \<in> set (smap_put k v m)" for x
    using that by (induction m) (auto split: if_splits)
  then show ?thesis
    by (auto simp: map_insert_def)
qed

lemma keptD:
  assumes "kept c n b T (r, h)"
  shows "sorted_wrt (<) (map fst h)" "\<And>e. e \<in> set h \<Longrightarrow> fst e \<le> int n" "\<And>e. e \<in> set h \<Longrightarrow> snd (snd e) \<le> T"
    "r6_old r c = map (\<lambda>e. (fst e, fst (snd e))) (filter (\<lambda>e. b < fst e) h)"
    "\<And>e. e \<in> set h \<Longrightarrow> fst e \<le> b \<Longrightarrow> snd (snd e) \<le> T - VERSION_SAFE_TIME"
    "smap_inv (r6_segment r c)"
    "\<And>t k. (t, k) \<in> set (r6_segment r c) \<Longrightarrow> b < k \<and> t \<le> T \<and> k \<in> fst ` set h"
    "\<And>t k e. (t, k) \<in> set (r6_segment r c) \<Longrightarrow> e \<in> set h \<Longrightarrow> fst e \<le> k \<Longrightarrow> snd (snd e) \<le> t"
    "\<And>t k t' k'. (t, k) \<in> set (r6_segment r c) \<Longrightarrow> (t', k') \<in> set (r6_segment r c) \<Longrightarrow> t < t' \<Longrightarrow> k < k'" "b \<le> int n"
  using assms unfolding kept_def prod.case by blast+

lemma keptI:
  assumes "sorted_wrt (<) (map fst h)" "\<And>e. e \<in> set h \<Longrightarrow> fst e \<le> int n" "\<And>e. e \<in> set h \<Longrightarrow> snd (snd e) \<le> T"
    "r6_old r c = map (\<lambda>e. (fst e, fst (snd e))) (filter (\<lambda>e. b < fst e) h)"
    "\<And>e. e \<in> set h \<Longrightarrow> fst e \<le> b \<Longrightarrow> snd (snd e) \<le> T - VERSION_SAFE_TIME"
    "smap_inv (r6_segment r c)"
    "\<And>t k. (t, k) \<in> set (r6_segment r c) \<Longrightarrow> b < k \<and> t \<le> T \<and> k \<in> fst ` set h"
    "\<And>t k e. (t, k) \<in> set (r6_segment r c) \<Longrightarrow> e \<in> set h \<Longrightarrow> fst e \<le> k \<Longrightarrow> snd (snd e) \<le> t"
    "\<And>t k t' k'. (t, k) \<in> set (r6_segment r c) \<Longrightarrow> (t', k') \<in> set (r6_segment r c) \<Longrightarrow> t < t' \<Longrightarrow> k < k'" "b \<le> int n"
  shows "kept c n b T (r, h)"
  unfolding kept_def prod.case
  by (intro conjI ballI allI impI; (rule assms(1,4,6,10) | erule assms(2,3) | erule (1) assms(5) | erule assms(7)[THEN conjunct1]
      | erule assms(7)[THEN conjunct2, THEN conjunct1] | erule assms(7)[THEN conjunct2, THEN conjunct2] | erule (2) assms(8,9)))

lemma kept_note:
  assumes K: "kept c n b now (r, h)" and itr: "itr \<in> fst ` set h" "b < itr" "\<And>t k. (t, k) \<in> set (r6_segment r c) \<Longrightarrow> k < itr"
  shows "kept c n b now (r\<lparr>r6_segment := (r6_segment r)(c := map_insert now itr (r6_segment r c))\<rparr>, h)"
proof -
  note D = keptD[OF K]
  let ?seg = "map_insert now itr (r6_segment r c)"
  have mem: "(t, k) \<in> set (r6_segment r c) \<or> t = now \<and> k = itr" if "(t, k) \<in> set ?seg" for t k
    using that map_insert_set[OF D(6), of now itr] by auto
  have "b < k \<and> t \<le> now \<and> k \<in> fst ` set h" if "(t, k) \<in> set ?seg" for t k
    using mem[OF that] D(7) itr(1,2) by auto
  moreover have "snd (snd e) \<le> t" if "(t, k) \<in> set ?seg" "e \<in> set h" "fst e \<le> k" for t k e
    using mem[OF that(1)] D(3)[OF that(2)] D(8)[OF _ that(2,3)] by auto
  moreover have "k < k'" if "(t, k) \<in> set ?seg" "(t', k') \<in> set ?seg" "t < t'" for t k t' k'
    using mem[OF that(1)] mem[OF that(2)] that(3) D(7,9) itr(3) by fastforce
  ultimately show ?thesis
    using D(1-5,10) map_insert_inv[OF D(6)] by (intro keptI) simp_all
qed

lemma gc_kept:
  assumes K: "kept c n b now (r, h)" and itr: "itr \<in> fst ` set h" "b < itr" "\<And>t k. (t, k) \<in> set (r6_segment r c) \<Longrightarrow> k < itr"
  shows "\<exists>r' b'. garbage_collection c itr now r = Some r' \<and> kept c n b' now (r', h) \<and> r6_row r' = r6_row r \<and> r6_tracker r' = r6_tracker r"
proof -
  let ?cut = "now - VERSION_SAFE_TIME"
  define seg where "seg = map_insert now itr (r6_segment r c)"
  define pre where "pre = takeWhile (\<lambda>e. fst e \<le> ?cut) seg"
  define post where "post = dropWhile (\<lambda>e. fst e \<le> ?cut) seg"
  define r1 where "r1 = r\<lparr>r6_segment := (r6_segment r)(c := seg)\<rparr>"
  have K1: "kept c n b now (r1, h)"
    using kept_note[OF assms] by (simp add: r1_def seg_def)
  note D = keptD[OF K1]
  have seg: "r6_segment r1 c = seg" "r6_old r1 = r6_old r" "seg = pre @ post"
    by (simp_all add: r1_def pre_def post_def)
  show ?thesis
  proof (cases "post = [] \<or> pre = []")
    case True
    then have "garbage_collection c itr now r = Some r1"
      unfolding garbage_collection_def Let_def seg_def[symmetric] pre_def[symmetric] post_def[symmetric] r1_def[symmetric] by (rule if_P)
    then show ?thesis
      using K1 by (auto simp: r1_def)
  next
    case False
    obtain t k where tk: "last pre = (t, k)"
      by force
    then have "(t, k) \<in> set pre"
      using False last_in_set by metis
    then have mem: "(t, k) \<in> set seg" and t: "t \<le> ?cut"
      using set_takeWhileD[of "(t, k)" "\<lambda>e. fst e \<le> ?cut" seg] unfolding pre_def by simp_all
    have b: "b < k" "k \<in> fst ` set h"
      using D(7)[of t k] mem seg(1) by auto
    have later: "t < t'" if "(t', k') \<in> set post" for t' k'
    proof -
      have "sorted_wrt (<) (map fst pre @ map fst post)"
        using D(6) seg(1,3) by (simp add: smap_inv_def)
      moreover have "t \<in> set (map fst pre)"
        using \<open>(t, k) \<in> set pre\<close> by force
      ultimately show ?thesis
        using that by (force simp: sorted_wrt_append)
    qed
    define r2 where "r2 = r1\<lparr>r6_segment := (r6_segment r)(c := post), r6_old := (r6_old r)(c := filter (\<lambda>e. k < fst e) (r6_old r c))\<rparr>"
    have "k \<in> fst ` set (r6_old r c)"
      using D(4) b seg(2) by force
    then have "map_of (r6_old r c) k \<noteq> None"
      by (simp add: map_of_eq_None_iff)
    then have "garbage_collection c itr now r = Some r2"
      unfolding garbage_collection_def Let_def seg_def[symmetric] pre_def[symmetric] post_def[symmetric] r1_def[symmetric]
      using False tk by (simp add: verify_def r2_def)
    moreover have "kept c n k now (r2, h)"
    proof (rule keptI)
      show "r6_old r2 c = map (\<lambda>e. (fst e, fst (snd e))) (filter (\<lambda>e. k < fst e) h)"
        using D(4) b(1) seg(2) by (auto simp: r2_def filter_map o_def intro!: arg_cong[where f = "map _"] filter_cong)
      show "snd (snd e) \<le> ?cut" if "e \<in> set h" "fst e \<le> k" for e
        using D(8)[of t k e] mem seg(1) that t by simp
      have inv: "smap_inv seg"
        using D(6) seg(1) by simp
      then show "smap_inv (r6_segment r2 c)"
        using seg(3) by (simp add: r2_def smap_inv_def sorted_wrt_append)
      have sub: "r6_segment r2 c = post" "set post \<subseteq> set (r6_segment r1 c)"
        using seg by (auto simp: r2_def)
      show "k < k' \<and> t' \<le> now \<and> k' \<in> fst ` set h" if "(t', k') \<in> set (r6_segment r2 c)" for t' k'
        using that sub D(7)[of t' k'] D(9)[of t k t' k'] later mem seg(1) by auto
      show "snd (snd e) \<le> t'" if "(t', k') \<in> set (r6_segment r2 c)" "e \<in> set h" "fst e \<le> k'" for t' k' e
        using that sub D(8)[of t' k' e] by auto
      show "k1 < k2" if "(t1, k1) \<in> set (r6_segment r2 c)" "(t2, k2) \<in> set (r6_segment r2 c)" "t1 < t2" for t1 k1 t2 k2
        using that sub D(9)[of t1 k1 t2 k2] by auto
      show "k \<le> int n"
        using b(2) D(2) by auto
    qed (use D(1-3) in auto)
    ultimately show ?thesis
      by (auto simp: r2_def r1_def)
  qed
qed

lemma kept_mono:
  assumes "kept c n b T (r, h)" "n \<le> n'" "T \<le> T'" "r6_old r' c = r6_old r c" "r6_segment r' c = r6_segment r c"
  shows "kept c n' b T' (r', h)"
proof -
  note D = keptD[OF assms(1)]
  show ?thesis
  proof (rule keptI)
    show "fst e \<le> int n'" "snd (snd e) \<le> T'" if "e \<in> set h" for e
      using D(2,3)[OF that] assms(2,3) by simp_all
    show "snd (snd e) \<le> T' - VERSION_SAFE_TIME" if "e \<in> set h" "fst e \<le> b" for e
      using D(5)[OF that] assms(3) by simp
    show "b < k \<and> t \<le> T' \<and> k \<in> fst ` set h" if "(t, k) \<in> set (r6_segment r' c)" for t k
      using D(7)[of t k] that assms(3,5) by auto
  qed (use D assms in auto)
qed

lemma kept_append:
  assumes "kept c n b T (r, h)" "T \<le> now" "int n < key" "key \<le> int n'"
    and "r6_old r' c = r6_old r c @ [(key, v)]" "r6_segment r' c = r6_segment r c"
  shows "kept c n' b now (r', h @ [(key, v, now)])"
proof -
  note D = keptD[OF assms(1)]
  let ?h = "h @ [(key, v, now)]"
  have lt: "fst e < key" if "e \<in> set h" for e
    using D(2)[OF that] assms(3) by simp
  have seg: "k < key" if "(t, k) \<in> set (r6_segment r c)" for t k
    using D(7)[OF that] lt by auto
  show ?thesis
  proof (rule keptI)
    show "sorted_wrt (<) (map fst ?h)"
      using D(1) lt by (auto simp: sorted_wrt_append)
    show "fst e \<le> int n'" if "e \<in> set ?h" for e
      using that D(2) assms(3,4) by fastforce
    show "snd (snd e) \<le> now" if "e \<in> set ?h" for e
      using that D(3) assms(2) by fastforce
    show "r6_old r' c = map (\<lambda>e. (fst e, fst (snd e))) (filter (\<lambda>e. b < fst e) ?h)"
      using D(4,10) assms(3,5) by simp
    show "snd (snd e) \<le> now - VERSION_SAFE_TIME" if "e \<in> set ?h" "fst e \<le> b" for e
      using that D(5)[of e] D(10) assms(2,3) by auto
    show "b < k \<and> t \<le> now \<and> k \<in> fst ` set ?h" if "(t, k) \<in> set (r6_segment r' c)" for t k
      using D(7)[of t k] that assms(2,6) by auto
    show "snd (snd e) \<le> t" if "(t, k) \<in> set (r6_segment r' c)" "e \<in> set ?h" "fst e \<le> k" for t k e
      using that D(8)[of t k e] seg[of t k] assms(6) by auto
  qed (use D assms in auto)
qed

lemma version_next:
  assumes "Suc (unat v) < 2 ^ 63"
  shows "sint (v + 1 :: version_t) = int (Suc (unat v))" "unat (v + 1) = Suc (unat v)"
proof -
  have "Suc (unat v) mod 2 ^ 64 = Suc (unat v)"
    using assms by (intro mod_less) simp
  then show u: "unat (v + 1) = Suc (unat v)"
    by (simp add: unat_word_ariths)
  have b: "int (Suc (unat v)) < 2 ^ 63"
    using assms by (metis of_nat_less_iff of_nat_numeral of_nat_power)
  have "sint (v + 1) = signed_take_bit 63 (int (Suc (unat v)))"
    by (simp add: sint_uint uint_nat u del: of_nat_Suc)
  also have "\<dots> = int (Suc (unat v))"
    using b by (intro signed_take_bit_int_eq_self) linarith+
  finally show "sint (v + 1) = int (Suc (unat v))" .
qed

lemma update_kept:
  assumes K: "kept c (unat ver) b T (r, h)" and now: "T \<le> now" and bound: "Suc (unat ver) < 2 ^ 63"
    and cur: "get_column s c' (r6_row r) = Some cur" and upd: "update_internal s c' v ids now ver r = Some (ver', r')"
  shows "ver' = ver + 1 \<and> (\<exists>b'. kept c (Suc (unat ver)) b' now (r', if c' = c then h @ [(sint ver', cur, now)] else h))"
proof -
  note D = keptD[OF K]
  let ?key = "sint (ver + 1)"
  define r1 where "r1 = r\<lparr>r6_old := (r6_old r)(c' := map_insert ?key cur (r6_old r c'))\<rparr>"
  define G where "G = (if length (r6_old r1 c') mod GC_THRESHOLD = 0 then garbage_collection c' ?key now r1 else Some r1)"
  have eq: "update_internal s c' v ids now ver r = do {
      r2 \<leftarrow> G;
      t \<leftarrow> check_all c' ids (get_current_version c' r) now (r6_tracker r2);
      x \<leftarrow> row_update s c' v (r6_row r2);
      Some (ver + 1, r2\<lparr>r6_tracker := t, r6_row := x\<rparr>)
    }"
    unfolding update_internal_def cur G_def r1_def by (simp add: Let_def)
  obtain r2 t x where r2: "G = Some r2" "ver' = ver + 1" "r' = r2\<lparr>r6_tracker := t, r6_row := x\<rparr>"
    using upd unfolding eq by (auto simp: bind_eq_Some_conv)
  note key = version_next[OF bound]
  have "\<exists>b'. kept c (Suc (unat ver)) b' now (r2, if c' = c then h @ [(?key, cur, now)] else h)"
  proof (cases "c' = c")
    case False
    have "r6_old r2 c = r6_old r c" "r6_segment r2 c = r6_segment r c"
      using r2(1) False by (auto simp: G_def r1_def garbage_collection_def Let_def bind_eq_Some_conv split: if_splits)
    then show ?thesis
      using kept_mono[OF K _ now, of "Suc (unat ver)" r2] False by auto
  next
    case True
    have "x < ?key" if "x \<in> fst ` set (r6_old r c)" for x
      using that D(2,4) key(1) by force
    then have old: "r6_old r1 c = r6_old r c @ [(?key, cur)]" "r6_segment r1 c = r6_segment r c"
      using map_insert_end[of "r6_old r c" ?key cur] True by (simp_all add: r1_def)
    have K1: "kept c (Suc (unat ver)) b now (r1, h @ [(?key, cur, now)])"
      using kept_append[OF K now _ _ old] key(1) by simp
    have "k < ?key" if "(u, k) \<in> set (r6_segment r1 c)" for u k
      using that old(2) D(7)[of u k] D(2) key(1) by force
    moreover have "?key \<in> fst ` set (h @ [(?key, cur, now)])" "b < ?key"
      using D(10) key(1) by auto
    ultimately obtain r3 b' where "garbage_collection c ?key now r1 = Some r3" "kept c (Suc (unat ver)) b' now (r3, h @ [(?key, cur, now)])"
      using gc_kept[OF K1, of ?key] by blast
    then show ?thesis
      using r2(1) K1 True by (auto simp: G_def split: if_splits)
  qed
  then obtain b' where "kept c (Suc (unat ver)) b' now (r2, if c' = c then h @ [(?key, cur, now)] else h)"
    by blast
  then have "kept c (Suc (unat ver)) b' now (r', if c' = c then h @ [(?key, cur, now)] else h)"
    using kept_mono[of c "Suc (unat ver)" b' now r2 _ _ now r'] r2(3) by simp
  then show ?thesis
    using r2(2) by auto
qed

lemma ro6_get_column_row: "ro6_get_column s c txn now r = Some (v, r') \<Longrightarrow> r6_old r' = r6_old r \<and> r6_segment r' = r6_segment r \<and> r6_row r' = r6_row r"
  by (auto simp: ro6_get_column_def Let_def bind_eq_Some_conv split: if_splits)

lemma run_kept:
  assumes "ro6_run s c ops (ver, r, h) = Some (ver', r', h')" "kept c (unat ver) b T (r, h)" "clocked T ops" "unat ver + length ops < 2 ^ 63"
  shows "\<exists>b'. kept c (unat ver') b' (last_time T ops) (r', h')"
  using assms
proof (induction ops arbitrary: ver r h b T)
  case (Cons a ops)
  obtain ver1 r1 h1 where st: "ro6_step s c a (ver, r, h) = Some (ver1, r1, h1)" "ro6_run s c ops (ver1, r1, h1) = Some (ver', r', h')"
    using Cons.prems(1) by (auto simp: bind_eq_Some_conv)
  have bound: "Suc (unat ver) < 2 ^ 63"
    using Cons.prems(4) by simp
  note next_ver = version_next(2)[OF bound]
  have "\<exists>b1. kept c (unat ver1) b1 (case update_time a of Some now \<Rightarrow> now | None \<Rightarrow> T) (r1, h1) \<and> unat ver1 \<le> Suc (unat ver)"
  proof (cases a)
    case (RUpdate c' v ids now)
    then obtain cur where *: "get_column s c' (r6_row r) = Some cur" "update_internal s c' v ids now ver r = Some (ver1, r1)"
        "h1 = (if c' = c then h @ [(sint ver1, cur, now)] else h)"
      using st(1) by (auto simp: bind_eq_Some_conv)
    have "T \<le> now"
      using Cons.prems(3) RUpdate by simp
    then show ?thesis
      using update_kept[OF Cons.prems(2) _ bound *(1,2)] *(3) RUpdate next_ver by auto
  next
    case (RRead c' txn now)
    then obtain v where "ro6_get_column s c' txn now r = Some (v, r1)" "ver1 = ver" "h1 = h"
      using st(1) by (auto simp: bind_eq_Some_conv)
    then show ?thesis
      using kept_mono[OF Cons.prems(2), of "unat ver" T r1] ro6_get_column_row RRead by fastforce
  next
    case ROther
    then show ?thesis
      using st(1) kept_mono[OF Cons.prems(2), of "Suc (unat ver)" T r] next_ver by auto
  qed
  then obtain b1 where b1: "kept c (unat ver1) b1 (case update_time a of Some now \<Rightarrow> now | None \<Rightarrow> T) (r1, h1)" "unat ver1 \<le> Suc (unat ver)"
    by blast
  have "clocked (case update_time a of Some now \<Rightarrow> now | None \<Rightarrow> T) ops"
    using Cons.prems(3) by (cases a) simp_all
  moreover have "unat ver1 + length ops < 2 ^ 63"
    using Cons.prems(4) b1(2) by simp
  moreover have "last_time (case update_time a of Some now \<Rightarrow> now | None \<Rightarrow> T) ops = last_time T (a # ops)"
    by (cases a) simp_all
  ultimately show ?case
    using Cons.IH[OF st(2) b1(1)] by simp
qed auto

lemma kept_fresh: "r6_old r c = [] \<Longrightarrow> r6_segment r c = [] \<Longrightarrow> kept c n 0 T (r, [])"
  by (rule keptI) (simp_all add: smap_inv_def)

text \<open>C38: Whatever updates and reads happen to a row, in the order of the clock, every value of a column that was replaced in the last five
  seconds is found under the version of the update that replaced it, and every old value that is kept is one of the history: the garbage
  collection removes old versions only.\<close>

theorem ro6_recent_versions_kept:
  assumes "ro6_run s c ops (0, r, []) = Some (ver, r', h)" "clocked T ops" "length ops < 2 ^ 63" "r6_old r c = []" "r6_segment r c = []"
  shows "(\<forall>k v t. (k, v, t) \<in> set h \<and> last_time T ops - VERSION_SAFE_TIME < t \<longrightarrow> get_column_by_version s c k r' = Some v)
    \<and> (\<forall>k v. map_of (r6_old r' c) k = Some v \<longrightarrow> (\<exists>t. (k, v, t) \<in> set h))"
proof -
  obtain b where K: "kept c (unat ver) b (last_time T ops) (r', h)"
    using run_kept[OF assms(1), of 0 T] kept_fresh[OF assms(4,5)] assms(2,3) by auto
  note D = keptD[OF K]
  let ?old = "map (\<lambda>e. (fst e, fst (snd e))) (filter (\<lambda>e. b < fst e) h)"
  have "sorted_wrt (<) (map fst (filter (\<lambda>e. b < fst e) h))"
    using D(1) by (simp add: sorted_wrt_map sorted_wrt_filter)
  then have dist: "distinct (map fst ?old)"
    by (simp add: o_def strict_sorted_iff)
  have "get_column_by_version s c k r' = Some v" if "(k, v, t) \<in> set h" "last_time T ops - VERSION_SAFE_TIME < t" for k v t
  proof -
    have "b < k"
      using D(5)[OF that(1)] that(2) by force
    then have "(k, v) \<in> set ?old"
      using that(1) by force
    then show ?thesis
      using map_of_is_SomeI[OF dist] D(4) by (simp add: get_column_by_version_def)
  qed
  moreover have "\<exists>t. (k, v, t) \<in> set h" if "map_of (r6_old r' c) k = Some v" for k v
    using map_of_SomeD[OF that] D(4) by force
  ultimately show ?thesis
    by blast
qed

subsection \<open>Which version a reader gets\<close>

lemma row_update_get:
  assumes "schema_ok s" "row_ok s r" "c < length (col_info s)" "get_kind v = ci_type (col_info s ! c)" "\<not> rdonly r"
  obtains r' where "row_update s c v r = Some r'" "row_ok s r'" "\<not> rdonly r'" "get_column s c r' = Some v"
proof -
  obtain r' where r': "row_update s c v r = Some r'" "row_ok s r'" "row_columns s r' = (row_columns s r)[c := Some v]" "rdonly r' = rdonly r"
    using row_update_ok[OF assms] by blast
  then have "row_columns s r' ! c = Some v"
    using assms(3) by (simp add: row_columns_def)
  then have "get_column s c r' = Some v"
    using assms(3) by (simp add: row_columns_def)
  then show thesis
    using that r' assms(5) by simp
qed

lemma check_all_fresh:
  assumes "t = tracker_new"
  shows "check_all c [rid] ver now t = Some \<lparr>tk_ids = [(c, [(rid, (sint ver, now))])], tk_access = [(c, now)]\<rparr>"
    "check_recorded c rid False 0 now \<lparr>tk_ids = [(c, [(rid, (sint ver, now))])], tk_access = [(c, now)]\<rparr>
       = Some (ver, \<lparr>tk_ids = [(c, [(rid, (sint ver, now))])], tk_access = [(c, now)]\<rparr>)"
  using assms by (simp_all add: tracker_new_def check_recorded_def tk_entry_def tk_accessed_def Let_def verify_def VERSION_SAFE_TIME_def)

lemma update_fresh:
  assumes "get_column s c (r6_row r) = Some v0" "r6_old r c = old" "\<forall>x \<in> fst ` set old. x < sint (ver + 1)" "length old < 9999"
    and "check_all c ids (get_current_version c r) now (r6_tracker r) = Some t" "row_update s c v (r6_row r) = Some x"
  shows "update_internal s c v ids now ver r
    = Some (ver + 1, r\<lparr>r6_old := (r6_old r)(c := old @ [(sint (ver + 1), v0)]), r6_tracker := t, r6_row := x\<rparr>)"
proof -
  have "length (old @ [(sint (ver + 1), v0)]) mod GC_THRESHOLD \<noteq> 0"
    using assms(4) by (simp add: GC_THRESHOLD_def)
  then show ?thesis
    using assms map_insert_end[OF assms(3), of v0] by (simp add: update_internal_def Let_def)
qed

text \<open>C39: A reader that a write records does not get the value the write replaces: on the first update of a column it gets the new value, and
  on the second the value from before the first.\<close>

theorem ro6_reader_misses_replaced:
  assumes "schema_ok s" "row_ok s (r6_row r)" "c < length (col_info s)" "get_kind v1 = ci_type (col_info s ! c)" "get_kind v2 = ci_type (col_info s ! c)"
    and "\<not> rdonly (r6_row r)" "r6_old r = (\<lambda>_. [])" "r6_tracker r = tracker_new" "get_column s c (r6_row r) = Some v0" "unat ver + 2 < 2 ^ 63"
  shows "(\<exists>r1 r1'. update_internal s c v1 [rid] now ver r = Some (ver + 1, r1) \<and> ro6_get_column s c rid now r1 = Some (v1, r1'))
    \<and> (\<exists>r1 r2 r2'. update_internal s c v1 [] now ver r = Some (ver + 1, r1) \<and> get_column s c (r6_row r1) = Some v1
        \<and> update_internal s c v2 [rid] now (ver + 1) r1 = Some (ver + 2, r2) \<and> ro6_get_column s c rid now r2 = Some (v0, r2'))"
proof (rule conjI)
  have b: "Suc (unat ver) < 2 ^ 63"
    using assms(10) by simp
  note n = version_next[OF b]
  obtain x where x: "row_update s c v1 (r6_row r) = Some x" "row_ok s x" "\<not> rdonly x" "get_column s c x = Some v1"
    using row_update_get[OF assms(1-4,6)] by blast
  have pos: "sint (ver + 1) \<noteq> 0"
    using n(1) by linarith
  have cv: "get_current_version c r = 0"
    using assms(7) by (simp add: get_current_version_def)
  define tr where "tr w = \<lparr>tk_ids = [(c, [(rid, (sint w, now))])], tk_access = [(c, now)]\<rparr>" for w :: version_t
  have ca: "check_all c [rid] w now tracker_new = Some (tr w)" and cr: "check_recorded c rid False 0 now (tr w) = Some (w, tr w)" for w
    using check_all_fresh[OF refl, of c rid] by (simp_all add: tr_def)
  let ?r1 = "r\<lparr>r6_old := (r6_old r)(c := [(sint (ver + 1), v0)]), r6_tracker := tr 0, r6_row := x\<rparr>"
  have "update_internal s c v1 [rid] now ver r = Some (ver + 1, ?r1)"
    using update_fresh[OF assms(9), of "[]" ver "[rid]" now "tr 0" v1 x] assms(7) ca assms(8) x(1) cv by simp
  moreover have "ro6_get_column s c rid now ?r1 = Some (v1, ?r1)"
    using cr x(4) pos by (simp add: ro6_get_column_def Let_def get_column_by_version_def)
  ultimately show "\<exists>r1 r1'. update_internal s c v1 [rid] now ver r = Some (ver + 1, r1) \<and> ro6_get_column s c rid now r1 = Some (v1, r1')"
    by blast
  let ?r2 = "r\<lparr>r6_old := (r6_old r)(c := [(sint (ver + 1), v0)]), r6_tracker := tracker_new, r6_row := x\<rparr>"
  have u1: "update_internal s c v1 [] now ver r = Some (ver + 1, ?r2)"
    using update_fresh[OF assms(9), of "[]" ver "[]" now tracker_new v1 x] assms(7,8) x(1) by simp
  obtain y where y: "row_update s c v2 x = Some y"
    using row_update_get[OF assms(1) x(2) assms(3,5) x(3)] by blast
  have b2: "Suc (unat (ver + 1)) < 2 ^ 63"
    using assms(10) n(2) by simp
  note n2 = version_next[OF b2]
  have two: "ver + 1 + 1 = ver + 2"
    by simp
  have lt: "sint (ver + 1) < sint (ver + 2)"
    using n n2 two by simp
  have ne: "ver + 1 \<noteq> 0"
    using n(2) by (metis nat.distinct(1) unat_0)
  let ?r3 = "?r2\<lparr>r6_old := (r6_old ?r2)(c := [(sint (ver + 1), v0), (sint (ver + 2), v1)]), r6_tracker := tr (ver + 1), r6_row := y\<rparr>"
  have cv2: "get_current_version c ?r2 = ver + 1"
    by (simp add: get_current_version_def)
  have u2: "update_internal s c v2 [rid] now (ver + 1) ?r2 = Some (ver + 2, ?r3)"
    using update_fresh[of s c ?r2 v1 "[(sint (ver + 1), v0)]" "ver + 1" "[rid]" now "tr (ver + 1)" v2 y] x(4) lt y
      ca cv2 two by simp
  have "ro6_get_column s c rid now ?r3 = Some (v0, ?r3)"
    using cr ne by (simp add: ro6_get_column_def Let_def get_column_by_version_def)
  then show "\<exists>r1 r2 r2'. update_internal s c v1 [] now ver r = Some (ver + 1, r1) \<and> get_column s c (r6_row r1) = Some v1
        \<and> update_internal s c v2 [rid] now (ver + 1) r1 = Some (ver + 2, r2) \<and> ro6_get_column s c rid now r2 = Some (v0, r2')"
    using u1 u2 x(4) by (intro exI[of _ ?r2] exI[of _ ?r3]) simp
qed

subsection \<open>Examples\<close>

definition demo_ro6 :: ro6_row where
  "demo_ro6 = \<lparr>r6_row = demo_row, r6_old = (\<lambda>_. []), r6_segment = (\<lambda>_. []), r6_tracker = tracker_new,
     r6_dep = replicate 3 None\<rparr>"

lemma demo_ro6_ok: "0 < length (col_info demo_schema)" "ci_type (col_info demo_schema ! 0) = I32" "\<not> rdonly demo_row"
  "get_column demo_schema 0 demo_row = Some (VI32 5)"
  by (simp_all add: demo_schema_def schema_new_def demo_row_def)
    (simp add: get_column_def get_column_info_def get_blob_def slice_def verify_def word_bytes_def read_binary_def Let_def; code_simp)

theorem ro6_recent_versions_kept_witness:
  "\<exists>r'. ro6_run demo_schema 0 [RUpdate 0 (VI32 6) [] 1000] (0, demo_ro6, []) = Some (1, r', [(1, VI32 5, 1000)])
    \<and> clocked 0 [RUpdate 0 (VI32 6) [] 1000] \<and> r6_old demo_ro6 0 = [] \<and> r6_segment demo_ro6 0 = []
    \<and> get_column_by_version demo_schema 0 1 r' = Some (VI32 5)"
proof -
  let ?ops = "[RUpdate 0 (VI32 6) [] 1000]"
  obtain x where x: "row_update demo_schema 0 (VI32 6) demo_row = Some x"
    using row_update_get[OF demo_schema_ok(1) demo_row_ok demo_ro6_ok(1) _ demo_ro6_ok(3), of "VI32 6"] demo_ro6_ok(2) by auto
  have "update_internal demo_schema 0 (VI32 6) [] 1000 0 demo_ro6
      = Some (1, demo_ro6\<lparr>r6_old := (r6_old demo_ro6)(0 := [(1, VI32 5)]), r6_tracker := tracker_new, r6_row := x\<rparr>)"
    using update_fresh[of demo_schema 0 demo_ro6 "VI32 5" "[]" 0 "[]" 1000 tracker_new "VI32 6" x] x demo_ro6_ok(4) by (simp add: demo_ro6_def)
  then obtain r' where run: "ro6_run demo_schema 0 ?ops (0, demo_ro6, []) = Some (1, r', [(1, VI32 5, 1000)])"
    using demo_ro6_ok(4) by (simp add: demo_ro6_def)
  have pre: "clocked 0 ?ops" "length ?ops < 2 ^ 63" "r6_old demo_ro6 0 = []" "r6_segment demo_ro6 0 = []"
    by (simp_all add: demo_ro6_def)
  have "get_column_by_version demo_schema 0 1 r' = Some (VI32 5)"
    using ro6_recent_versions_kept[OF run pre] by (simp add: VERSION_SAFE_TIME_def)
  then show ?thesis
    using run pre by blast
qed

theorem ro6_reader_misses_replaced_witness:
  "(\<exists>r1 r1'. update_internal demo_schema 0 (VI32 6) [77] 1000 0 demo_ro6 = Some (1, r1) \<and> ro6_get_column demo_schema 0 77 1000 r1 = Some (VI32 6, r1'))
    \<and> (\<exists>r1 r2 r2'. update_internal demo_schema 0 (VI32 6) [] 1000 0 demo_ro6 = Some (1, r1) \<and> get_column demo_schema 0 (r6_row r1) = Some (VI32 6)
        \<and> update_internal demo_schema 0 (VI32 7) [77] 1000 1 r1 = Some (2, r2) \<and> ro6_get_column demo_schema 0 77 1000 r2 = Some (VI32 5, r2'))"
proof -
  have r: "row_ok demo_schema (r6_row demo_ro6)" "\<not> rdonly (r6_row demo_ro6)" "r6_old demo_ro6 = (\<lambda>_. [])" "r6_tracker demo_ro6 = tracker_new"
      "get_column demo_schema 0 (r6_row demo_ro6) = Some (VI32 5)"
    using demo_row_ok demo_ro6_ok by (simp_all add: demo_ro6_def)
  have k: "get_kind (VI32 6) = ci_type (col_info demo_schema ! 0)" "get_kind (VI32 7) = ci_type (col_info demo_schema ! 0)"
    using demo_ro6_ok(2) by simp_all
  show ?thesis
    using ro6_reader_misses_replaced[OF demo_schema_ok(1) r(1) demo_ro6_ok(1) k r(2-5), of 0 77 1000] by simp
qed

end
