(* ===== verification/RCC.thy ===== *)
theory RCC
  imports SortedScc ALock MemValue
begin

text \<open>
  \<open>deptran/rcc/rcc.cpp\<close>, \<open>rcc_row.cpp\<close>, the manager of transactions of \<open>deptran/dtxn.cpp\<close> and the handlers of \<open>deptran/rcc_service.cc\<close> for
  dependency-tracking transactions: the state of a server and what it does with each message. The pieces of transactions are registered functions;
  they are a parameter. Callbacks run inside the calls that trigger them, and may trigger others and register new ones. So the
  rest of a handler is a stack of actions, and a step takes the topmost action.
\<close>

subsection \<open>Requests, pieces and transactions\<close>

record req_header =
  h_t_type :: i32
  h_p_type :: i32
  h_cid :: i32
  h_tid :: u64
  h_pid :: u64
  h_timestamp :: u64

type_synonym row_map = "(i32, nat) smap"

text \<open>What a piece does to rows besides reading and writing the database: it touches columns, and it creates rows with their number of columns.\<close>

datatype row_op = Kiss nat nat bool | NewRow nat nat

record 'db piece_result =
  pr_ops :: "row_op list"
  pr_db :: 'db
  pr_output :: "mvalue list"
  pr_rows :: row_map

text \<open>A handler has the phase of the transaction, the header, the input, whether it has to produce output, and the rows found in the first phase.\<close>

type_synonym 'db txn_handler = "nat \<Rightarrow> req_header \<Rightarrow> mvalue list \<Rightarrow> bool \<Rightarrow> row_map option \<Rightarrow> 'db \<Rightarrow> 'db piece_result option"

datatype defer_t = DF_REAL | DF_NO | DF_FAKE

record deferred_request =
  dr_header :: req_header
  dr_inputs :: "mvalue list"
  dr_row_map :: row_map

record dtxn =
  dt_tid :: u64
  dt_phase :: nat
  dt_tv :: "vid option"
  dt_dreqs :: "deferred_request list"
  dt_conflict :: "vid list"
  dt_read_only :: bool

definition dtxn_new :: "u64 \<Rightarrow> bool \<Rightarrow> dtxn" where
  "dtxn_new tid ro = \<lparr>dt_tid = tid, dt_phase = 0, dt_tv = None, dt_dreqs = [], dt_conflict = [], dt_read_only = ro\<rparr>"

text \<open>What the server is configured with: its id, the number of servers, the registered pieces, the allocator of vertexes and the order in which
  a loop over an unordered set of vertexes runs.\<close>

record 'db rcc_env =
  ev_site :: u32
  ev_sites :: nat
  ev_registry :: "i32 \<Rightarrow> i32 \<Rightarrow> ('db txn_handler \<times> defer_t) option"
  ev_alloc :: allocator
  ev_order :: "vid set \<Rightarrow> vid list"

subsection \<open>The state of a server\<close>

text \<open>The callback of a ball, with the variables it captures. A reply is named by the request it answers.\<close>

datatype wish = AncFinish vid "nat option" | SccCommit vid "nat option" | AskReply u64 nat | RoReply nat

datatype rcc_out = Executed u64 | Replied nat | Asked u32 u64 | StartReplied nat bool "mvalue list" "vid set" | AskReplied nat "vid set"

record 'db server =
  sv_gra :: graph
  sv_rows :: "nat \<Rightarrow> vid option list option"
  sv_db :: 'db
  sv_dtxns :: "u64 \<Rightarrow> dtxn option"
  sv_read_ts :: u64
  sv_balls :: "ball \<Rightarrow> (dragon_ball \<times> wish) option"
  sv_next :: ball
  sv_asked :: "vid list"
  sv_res :: "nat \<Rightarrow> (req_header \<times> mvalue list) list"
  sv_out :: "rcc_out list"

datatype action = ATrigger vid nat | ABall ball | ARegister vid i8 ball | AWaitOn vid i8 ball | AAsk vid | ADecide vid "nat option"
  | AFinish u64 u64 nat | AReply "nat option"

type_synonym 'db config = "'db server \<times> action list"

definition server_new :: "'db \<Rightarrow> (nat \<Rightarrow> vid option list option) \<Rightarrow> 'db server" where
  "server_new db rows = \<lparr>sv_gra = graph_new, sv_rows = rows, sv_db = db, sv_dtxns = (\<lambda>_. None), sv_read_ts = 0, sv_balls = (\<lambda>_. None), sv_next = 0,
     sv_asked = [], sv_res = (\<lambda>_. []), sv_out = []\<rparr>"

definition out :: "rcc_out \<Rightarrow> 'db server \<Rightarrow> 'db server" where
  "out e s = s\<lparr>sv_out := sv_out s @ [e]\<rparr>"

definition vdata :: "'db server \<Rightarrow> vid \<Rightarrow> txn_info option" where
  "vdata s v = map_option vx_data (g_vertex (sv_gra s) v)"

definition upd_txn :: "vid \<Rightarrow> (txn_info \<Rightarrow> txn_info) \<Rightarrow> 'db server \<Rightarrow> 'db server" where
  "upd_txn v f s = s\<lparr>sv_gra := upd_data v f (sv_gra s)\<rparr>"

definition new_ball :: "nat \<Rightarrow> wish \<Rightarrow> 'db server \<Rightarrow> ball \<times> 'db server" where
  "new_ball n w s = (sv_next s, s\<lparr>sv_balls := (sv_balls s)(sv_next s \<mapsto> (db_new (int n), w)), sv_next := Suc (sv_next s)\<rparr>)"

definition get_or_create :: "u64 \<Rightarrow> bool \<Rightarrow> 'db server \<Rightarrow> dtxn \<times> 'db server" where
  "get_or_create tid ro s = (case sv_dtxns s tid of
     Some t \<Rightarrow> (t, s)
   | None \<Rightarrow> (dtxn_new tid ro, s\<lparr>sv_dtxns := (sv_dtxns s)(tid \<mapsto> dtxn_new tid ro)\<rparr>))"

definition put_dtxn :: "dtxn \<Rightarrow> 'db server \<Rightarrow> 'db server" where
  "put_dtxn t s = s\<lparr>sv_dtxns := (sv_dtxns s)(dt_tid t \<mapsto> t)\<rparr>"

definition destroy :: "u64 \<Rightarrow> 'db server \<Rightarrow> 'db server option" where
  "destroy tid s = do {
     _ \<leftarrow> sv_dtxns s tid;
     Some (s\<lparr>sv_dtxns := (sv_dtxns s)(tid := None)\<rparr>)
   }"

subsection \<open>Running a piece\<close>

definition row_kiss :: "nat \<Rightarrow> nat \<Rightarrow> bool \<Rightarrow> dtxn \<Rightarrow> 'db server \<Rightarrow> (dtxn \<times> 'db server) option" where
  "row_kiss a c immediate t s = do {
     entries \<leftarrow> sv_rows s a;
     verify (c < length entries);
     if dt_read_only t then Some (t\<lparr>dt_conflict := kiss_ro (entries ! c) (dt_conflict t)\<rparr>, s)
     else do {
       tv \<leftarrow> dt_tv t;
       let (lst, g) = kiss immediate tv (entries ! c) (sv_gra s);
       Some (t, s\<lparr>sv_gra := g, sv_rows := (sv_rows s)(a \<mapsto> entries[c := lst])\<rparr>)
     }
   }"

fun row_ops :: "row_op list \<Rightarrow> dtxn \<Rightarrow> 'db server \<Rightarrow> (dtxn \<times> 'db server) option" where
  "row_ops [] t s = Some (t, s)"
| "row_ops (Kiss a c immediate # ops) t s = do {
     (t', s') \<leftarrow> row_kiss a c immediate t s;
     row_ops ops t' s'
   }"
| "row_ops (NewRow a n # ops) t s = do {
     verify (sv_rows s a = None);
     row_ops ops t (s\<lparr>sv_rows := (sv_rows s)(a \<mapsto> replicate n None)\<rparr>)
   }"

definition run_piece ::
  "'db txn_handler \<Rightarrow> req_header \<Rightarrow> mvalue list \<Rightarrow> bool \<Rightarrow> row_map option \<Rightarrow> dtxn \<Rightarrow> 'db server \<Rightarrow> (mvalue list \<times> row_map \<times> dtxn \<times> 'db server) option" where
  "run_piece h header input wanted rows t s = do {
     r \<leftarrow> h (dt_phase t) header input wanted rows (sv_db s);
     (t', s') \<leftarrow> row_ops (pr_ops r) t (s\<lparr>sv_db := pr_db r\<rparr>);
     Some (pr_output r, pr_rows r, t', s')
   }"

text \<open>\<open>start\<close>: the transaction gets a vertex, and the piece is run now, or kept for the commit, or both.\<close>

definition rcc_start :: "'db rcc_env \<Rightarrow> req_header \<Rightarrow> mvalue list \<Rightarrow> dtxn \<Rightarrow> 'db server \<Rightarrow> (bool \<times> mvalue list \<times> dtxn \<times> 'db server) option" where
  "rcc_start E header input t s = do {
     let timestamp = max (sv_read_ts s) (h_timestamp header);
     let (tv, g) = start_pie (ev_site E) (ev_alloc E (sv_gra s)) (h_tid header) timestamp (sv_gra s);
     let s1 = s\<lparr>sv_gra := g\<rparr>;
     let t1 = t\<lparr>dt_tv := Some tv\<rparr>;
     verify (dt_phase t1 \<le> 1);
     let t2 = t1\<lparr>dt_phase := 1\<rparr>;
     (h, df) \<leftarrow> ev_registry E (h_t_type header) (h_p_type header);
     (case df of
        DF_NO \<Rightarrow> do {
          (output, _, t3, s2) \<leftarrow> run_piece h header input True None t2 s1;
          Some (False, output, t3, s2)
        }
      | DF_REAL \<Rightarrow> do {
          (_, rows, t3, s2) \<leftarrow> run_piece h header input False (Some []) t2 s1;
          Some (True, [], t3\<lparr>dt_dreqs := dt_dreqs t3 @ [\<lparr>dr_header = header, dr_inputs = input, dr_row_map = rows\<rparr>]\<rparr>, s2)
        }
      | DF_FAKE \<Rightarrow> do {
          (output, rows, t3, s2) \<leftarrow> run_piece h header input True (Some []) t2 s1;
          Some (False, output, t3\<lparr>dt_dreqs := dt_dreqs t3 @ [\<lparr>dr_header = header, dr_inputs = input, dr_row_map = rows\<rparr>]\<rparr>, s2)
        })
   }"

subsection \<open>Executing a component\<close>

definition TPCC_PAYMENT :: i32 where "TPCC_PAYMENT = 20"
definition TPCC_PAYMENT_4 :: i32 where "TPCC_PAYMENT_4 = 204"

text \<open>The deferred pieces in the order in which they were started, with their outputs. The rows they note are not used again.\<close>

fun exe_requests :: "'db rcc_env \<Rightarrow> deferred_request list \<Rightarrow> dtxn \<Rightarrow> 'db server \<Rightarrow> ((req_header \<times> mvalue list) list \<times> dtxn \<times> 'db server) option" where
  "exe_requests E [] t s = Some ([], t, s)"
| "exe_requests E (r # rs) t s = do {
     let header = dr_header r;
     (h, _) \<leftarrow> ev_registry E (h_t_type header) (h_p_type header);
     verify (h_tid header = dt_tid t);
     (output, _, t1, s1) \<leftarrow> run_piece h header (dr_inputs r) True (Some (dr_row_map r)) t s;
     verify (h_p_type header = TPCC_PAYMENT_4 \<and> h_t_type header = TPCC_PAYMENT \<longrightarrow> length output = 15);
     (outputs, t2, s2) \<leftarrow> exe_requests E rs t1 s1;
     Some ((header, output) # outputs, t2, s2)
   }"

definition exe_deferred :: "'db rcc_env \<Rightarrow> nat \<Rightarrow> dtxn \<Rightarrow> 'db server \<Rightarrow> 'db server option" where
  "exe_deferred E res t s = do {
     verify (dt_phase t = 1);
     let t1 = t\<lparr>dt_phase := 2\<rparr>;
     if dt_dreqs t1 = [] then Some (put_dtxn t1 s)
     else do {
       (outputs, t2, s1) \<leftarrow> exe_requests E (dt_dreqs t1) t1 s;
       Some (put_dtxn t2 (s1\<lparr>sv_res := (sv_res s1)(res := outputs)\<rparr>))
     }
   }"

text \<open>The loop over the sorted component: a transaction that is not decided is executed if its commit has arrived here, and decided. The manager
  that the loop uses is the same for all transactions; the loop reads it from the object of a transaction that it may have destroyed.\<close>

fun commit_scc :: "'db rcc_env \<Rightarrow> vid list \<Rightarrow> 'db server \<Rightarrow> 'db server option" where
  "commit_scc E [] s = Some s"
| "commit_scc E (v # vs) s = do {
     d \<leftarrow> vdata s v;
     if is_commit d then commit_scc E vs s
     else do {
       s1 \<leftarrow> (case ti_res d of
           None \<Rightarrow> Some s
         | Some res \<Rightarrow> do {
             t \<leftarrow> sv_dtxns s (ti_id d);
             s' \<leftarrow> exe_deferred E res t (out (Executed (ti_id d)) s);
             destroy (ti_id d) s'
           });
       d1 \<leftarrow> vdata s1 v;
       verify (\<not> ti_committed d1);
       commit_scc E vs (upd_txn v (\<lambda>d. fst (union_status (ev_site E) TXN_DCD False False (d\<lparr>ti_committed := True\<rparr>))) s1)
     }
   }"

subsection \<open>Waiting\<close>

definition wait_for :: "i8 \<Rightarrow> vid list \<Rightarrow> wish \<Rightarrow> 'db server \<Rightarrow> 'db config" where
  "wait_for st vs w s = (case new_ball (length vs + 1) w s of (b, s1) \<Rightarrow> (s1, map (\<lambda>u. AWaitOn u st b) vs @ [ABall b]))"

text \<open>The callbacks: all ancestors are committing; all ancestors of the component are decided; an asked transaction is committing; all
  conflicting transactions of a read-only transaction are decided.\<close>

definition run_wish :: "'db rcc_env \<Rightarrow> wish \<Rightarrow> 'db server \<Rightarrow> 'db config option" where
  "run_wish E w s = (case w of
     AncFinish v defer \<Rightarrow> do {
       scc_anc \<leftarrow> find_txn_scc_nearest_anc v (sv_gra s);
       Some (wait_for TXN_DCD (sorted_list_of_set scc_anc) (SccCommit v defer) s)
     }
   | SccCommit v defer \<Rightarrow> do {
       d \<leftarrow> vdata s v;
       if is_commit d then Some (s, [AReply defer])
       else do {
         sscc \<leftarrow> sorted_scc v (sv_gra s);
         s1 \<leftarrow> commit_scc E sscc s;
         Some (s1, map (\<lambda>u. ATrigger u 0) sscc @ [AReply defer])
       }
     }
   | AskReply tid req \<Rightarrow> do {
       sub \<leftarrow> sub_txn_graph tid {} (sv_gra s);
       Some (out (AskReplied req sub) s, [])
     }
   | RoReply req \<Rightarrow> Some (out (Replied req) s, []))"

text \<open>\<open>trigger\<close> of a ball. The object is deleted when its wish returns; a trigger in between would fail a check, as would one after it.\<close>

definition ball_trigger :: "'db rcc_env \<Rightarrow> ball \<Rightarrow> 'db server \<Rightarrow> 'db config option" where
  "ball_trigger E b s = do {
     (bl, w) \<leftarrow> sv_balls s b;
     (ready, bl') \<leftarrow> db_trigger bl;
     if ready then run_wish E w (s\<lparr>sv_balls := (sv_balls s)(b := None)\<rparr>)
     else Some (s\<lparr>sv_balls := (sv_balls s)(b \<mapsto> (bl', w))\<rparr>, [])
   }"

text \<open>\<open>trigger\<close> of a transaction, from the position of its loop: the entry with the least key that is not below it.\<close>

definition txn_trigger :: "vid \<Rightarrow> nat \<Rightarrow> 'db server \<Rightarrow> 'db config option" where
  "txn_trigger v k s = do {
     d \<leftarrow> vdata s v;
     (case dropWhile (\<lambda>e. unat (fst e) < k) (ti_events d) of
        [] \<Rightarrow> Some (s, [])
      | (st, bs) # _ \<Rightarrow>
          if st \<le>s ti_status d \<and> bs \<noteq> []
          then Some (upd_txn v (\<lambda>d. d\<lparr>ti_events := smap_put st (butlast bs) (ti_events d)\<rparr>) s, [ABall (last bs), ATrigger v (unat st)])
          else Some (s, [ATrigger v (Suc (unat st))]))
   }"

definition txn_register :: "vid \<Rightarrow> i8 \<Rightarrow> ball \<Rightarrow> 'db server \<Rightarrow> 'db config option" where
  "txn_register v st b s = do {
     d \<leftarrow> vdata s v;
     Some (upd_txn v (\<lambda>d. fst (register_event st b d)) s, map ABall (snd (register_event st b d)))
   }"

text \<open>\<open>random_server\<close> computes a random position but returns the first server.\<close>

definition random_server :: "txn_info \<Rightarrow> u32 option" where
  "random_server d = do {
     verify (ti_servers d \<noteq> {});
     Some (Min (ti_servers d))
   }"

definition send_ask_req :: "'db rcc_env \<Rightarrow> vid \<Rightarrow> 'db server \<Rightarrow> 'db config option" where
  "send_ask_req E v s = do {
     d \<leftarrow> vdata s v;
     if is_involved (ev_site E) d then Some (s, [])
     else if is_commit d then Some (s, [])
     else if is_finish d then Some (s, [ADecide v None])
     else if ti_during_asking d then Some (s, [])
     else do {
       sid \<leftarrow> random_server d;
       verify (unat sid < ev_sites E);
       Some (out (Asked sid (ti_id d)) ((upd_txn v (\<lambda>d. d\<lparr>ti_during_asking := True\<rparr>) s)\<lparr>sv_asked := v # sv_asked s\<rparr>), [])
     }
   }"

definition to_decide :: "'db rcc_env \<Rightarrow> vid \<Rightarrow> nat option \<Rightarrow> 'db server \<Rightarrow> 'db config option" where
  "to_decide E v defer s = do {
     d \<leftarrow> vdata s v;
     if ti_during_commit d then Some (s, [])
     else do {
       let s1 = upd_txn v (\<lambda>d. d\<lparr>ti_during_commit := True\<rparr>) s;
       anc \<leftarrow> find_txn_anc_opt v {} (sv_gra s1);
       Some (wait_for TXN_CMT (ev_order E anc) (AncFinish v defer) s1)
     }
   }"

text \<open>\<open>commit\<close> after the graph of the request has been merged and the events of its transactions have been triggered.\<close>

definition finish :: "'db rcc_env \<Rightarrow> u64 \<Rightarrow> u64 \<Rightarrow> nat \<Rightarrow> 'db server \<Rightarrow> 'db config option" where
  "finish E tid timestamp req s = do {
     v \<leftarrow> graph_find tid (sv_gra s);
     let s1 = s\<lparr>sv_read_ts := max (sv_read_ts s) timestamp\<rparr>;
     let s2 = upd_txn v (\<lambda>d. fst (union_status (ev_site E) TXN_CMT False False (d\<lparr>ti_res := Some req\<rparr>))) s1;
     Some (s2, [ATrigger v 0, ADecide v (Some req)])
   }"

fun rcc_act :: "'db rcc_env \<Rightarrow> action \<Rightarrow> 'db server \<Rightarrow> 'db config option" where
  "rcc_act E (ATrigger v k) s = txn_trigger v k s"
| "rcc_act E (ABall b) s = ball_trigger E b s"
| "rcc_act E (ARegister v st b) s = txn_register v st b s"
| "rcc_act E (AWaitOn v st b) s = map_option (\<lambda>(s', as). (s', as @ [AAsk v])) (txn_register v st b s)"
| "rcc_act E (AAsk v) s = send_ask_req E v s"
| "rcc_act E (ADecide v defer) s = to_decide E v defer s"
| "rcc_act E (AFinish tid timestamp req) s = finish E tid timestamp req s"
| "rcc_act E (AReply defer) s = Some (case defer of Some req \<Rightarrow> out (Replied req) s | None \<Rightarrow> s, [])"

definition rcc_step :: "'db rcc_env \<Rightarrow> 'db config \<Rightarrow> 'db config option" where
  "rcc_step E c = (case snd c of
     [] \<Rightarrow> None
   | a # as \<Rightarrow> map_option (\<lambda>(s', new). (s', new @ as)) (rcc_act E a (fst c)))"

partial_function (option) rcc_run :: "'db rcc_env \<Rightarrow> 'db config \<Rightarrow> 'db server option" where
  "rcc_run E c = (if snd c = [] then Some (fst c) else do { c' \<leftarrow> rcc_step E c; rcc_run E c' })"

subsection \<open>Messages\<close>

text \<open>\<open>union_graph\<close>: the graph is merged, then the events of its transactions are triggered.\<close>

definition merge_graph :: "'db rcc_env \<Rightarrow> graph \<Rightarrow> 'db server \<Rightarrow> 'db config option" where
  "merge_graph E gra s = do {
     verify (graph_size gra > 0);
     (new_vs, g) \<leftarrow> union_vertexes (ev_site E) True (ev_alloc E) gra (g_vertex_index gra) {} (sv_gra s);
     Some (s\<lparr>sv_gra := g\<rparr>, map (\<lambda>v. ATrigger v 0) (sorted_list_of_set new_vs))
   }"

definition rcc_start_pie :: "'db rcc_env \<Rightarrow> nat \<Rightarrow> req_header \<Rightarrow> mvalue list \<Rightarrow> 'db server \<Rightarrow> 'db config option" where
  "rcc_start_pie E req header input s = do {
     let (t, s1) = get_or_create (h_tid header) False s;
     (deferred, output, t1, s2) \<leftarrow> rcc_start E header input t s1;
     let s3 = put_dtxn t1 s2;
     sub \<leftarrow> sub_txn_graph (h_tid header) {} (sv_gra s3);
     Some (out (StartReplied req deferred output sub) s3, [])
   }"

definition rcc_finish_txn :: "'db rcc_env \<Rightarrow> nat \<Rightarrow> u64 \<Rightarrow> u64 \<Rightarrow> graph \<Rightarrow> 'db server \<Rightarrow> 'db config option" where
  "rcc_finish_txn E req tid timestamp gra s = do {
     verify (graph_size gra > 0);
     _ \<leftarrow> sv_dtxns s tid;
     (s1, as) \<leftarrow> merge_graph E gra s;
     Some (s1, as @ [AFinish tid timestamp req])
   }"

definition rcc_ask_txn :: "'db rcc_env \<Rightarrow> nat \<Rightarrow> u64 \<Rightarrow> 'db server \<Rightarrow> 'db config option" where
  "rcc_ask_txn E req tid s = do {
     v \<leftarrow> graph_find tid (sv_gra s);
     d \<leftarrow> vdata s v;
     let (b, s1) = new_ball 2 (AskReply tid req) s;
     verify (is_involved (ev_site E) d);
     Some (s1, [ARegister v TXN_CMT b, ABall b])
   }"

text \<open>The answer to an ask request, for a transaction that was asked for.\<close>

definition ask_answer :: "'db rcc_env \<Rightarrow> vid \<Rightarrow> graph \<Rightarrow> 'db server \<Rightarrow> 'db config option" where
  "ask_answer E v gra s = do {
     verify (v \<in> set (sv_asked s));
     (s1, as) \<leftarrow> merge_graph E gra (s\<lparr>sv_asked := remove1 v (sv_asked s)\<rparr>);
     Some (s1, as @ [ADecide v None])
   }"

definition rcc_ro_start_pie :: "'db rcc_env \<Rightarrow> nat \<Rightarrow> req_header \<Rightarrow> mvalue list \<Rightarrow> 'db server \<Rightarrow> 'db config option" where
  "rcc_ro_start_pie E req header input s = do {
     let (t, s1) = get_or_create (h_tid header) True s;
     (h, _) \<leftarrow> ev_registry E (h_t_type header) (h_p_type header);
     (_, _, t1, s2) \<leftarrow> run_piece h header input True None (t\<lparr>dt_conflict := [], dt_phase := 1\<rparr>) s1;
     let (b, s3) = new_ball (length (dt_conflict t1) + 1) (RoReply req) (put_dtxn t1 s2);
     Some (s3, map (\<lambda>u. ARegister u TXN_DCD b) (dt_conflict t1) @ [ABall b])
   }"

datatype message = StartPie nat req_header "mvalue list" | FinishTxn nat u64 u64 graph | AskTxn nat u64 | AskAnswer vid graph
  | RoStartPie nat req_header "mvalue list"

fun deliver :: "'db rcc_env \<Rightarrow> message \<Rightarrow> 'db server \<Rightarrow> 'db config option" where
  "deliver E (StartPie req header input) s = rcc_start_pie E req header input s"
| "deliver E (FinishTxn req tid timestamp gra) s = rcc_finish_txn E req tid timestamp gra s"
| "deliver E (AskTxn req tid) s = rcc_ask_txn E req tid s"
| "deliver E (AskAnswer v gra) s = ask_answer E v gra s"
| "deliver E (RoStartPie req header input) s = rcc_ro_start_pie E req header input s"

definition rcc_handle :: "'db rcc_env \<Rightarrow> message \<Rightarrow> 'db server \<Rightarrow> 'db server option" where
  "rcc_handle E m s = do { c \<leftarrow> deliver E m s; rcc_run E c }"

end
