(* ===== verification/RCC_Inv.thy ===== *)
theory RCC_Inv
  imports RCC
begin

text \<open>
  The invariant of a server that runs dependency-tracking transactions (\<open>RCC\<close>): how the operations change the graph, how many triggers each ball
  still waits for, what the waiting transactions wait for, and which transactions have been executed.
\<close>

subsection \<open>How the graph may change\<close>

text \<open>The data of a transaction that is well formed; data that arrived in a message; and data after a change that leaves events and flags alone.\<close>

definition data_ok :: "txn_info \<Rightarrow> bool" where
  "data_ok d \<longleftrightarrow> ti_status d < 8 \<and> smap_inv (ti_events d) \<and> fst ` set (ti_events d) \<subseteq> {TXN_CMT, TXN_DCD}
     \<and> (ti_committed d \<longrightarrow> is_commit d) \<and> (ti_res d \<noteq> None \<longrightarrow> is_finish d)"

definition data_fresh :: "txn_info \<Rightarrow> bool" where
  "data_fresh d \<longleftrightarrow> data_ok d \<and> ti_events d = [] \<and> \<not> ti_during_commit d \<and> \<not> ti_during_asking d \<and> ti_res d = None \<and> \<not> ti_committed d"

definition data_le :: "txn_info \<Rightarrow> txn_info \<Rightarrow> bool" where
  "data_le d d' \<longleftrightarrow> ti_id d' = ti_id d \<and> ti_servers d \<subseteq> ti_servers d' \<and> ti_status d' = ti_status d OR ti_status d' \<and> ti_events d' = ti_events d
     \<and> ti_during_commit d' = ti_during_commit d \<and> ti_during_asking d' = ti_during_asking d \<and> ti_res d' = ti_res d
     \<and> (ti_committed d \<longrightarrow> ti_committed d') \<and> (data_ok d \<longrightarrow> data_ok d')"

lemma data_le_refl [simp]: "data_le d d"
  by (simp add: data_le_def)

lemma data_le_trans: "data_le d d' \<Longrightarrow> data_le d' d'' \<Longrightarrow> data_le d d''"
  unfolding data_le_def by (metis or.assoc subset_trans)

definition gdata :: "graph \<Rightarrow> vid \<Rightarrow> txn_info option" where
  "gdata g v = map_option vx_data (g_vertex g v)"

text \<open>A graph with more vertexes and edges, where only the transactions in \<open>X\<close> may have a new status.\<close>

definition gext :: "vid set \<Rightarrow> graph \<Rightarrow> graph \<Rightarrow> bool" where
  "gext X g g' \<longleftrightarrow> (\<forall>v d. gdata g v = Some d \<longrightarrow> (\<exists>d'. gdata g' v = Some d' \<and> data_le d d'
       \<and> (v \<notin> X \<longrightarrow> ti_status d' = ti_status d)))
     \<and> (\<forall>v d'. gdata g v = None \<and> gdata g' v = Some d' \<longrightarrow> data_ok d' \<and> ti_events d' = [] \<and> \<not> ti_during_commit d' \<and> \<not> ti_during_asking d'
       \<and> ti_res d' = None)
     \<and> parent_rel g \<subseteq> parent_rel g'"

lemma gext_old:
  assumes "gext X g g'" "gdata g v = Some d"
  obtains d' where "gdata g' v = Some d'" "data_le d d'" "v \<notin> X \<Longrightarrow> ti_status d' = ti_status d"
  using assms unfolding gext_def by metis

lemma gext_new:
  assumes "gext X g g'" "gdata g v = None" "gdata g' v = Some d'"
  shows "data_ok d'" "ti_events d' = []" "\<not> ti_during_commit d'" "\<not> ti_during_asking d'" "ti_res d' = None"
  using assms unfolding gext_def by metis+

lemma gext_parents: "gext X g g' \<Longrightarrow> parent_rel g \<subseteq> parent_rel g'"
  unfolding gext_def by blast

lemma gextI:
  assumes "\<And>v d. gdata g v = Some d \<Longrightarrow> \<exists>d'. gdata g' v = Some d' \<and> data_le d d' \<and> (v \<notin> X \<longrightarrow> ti_status d' = ti_status d)"
    and "\<And>v d'. gdata g v = None \<Longrightarrow> gdata g' v = Some d' \<Longrightarrow> data_ok d' \<and> ti_events d' = [] \<and> \<not> ti_during_commit d' \<and> \<not> ti_during_asking d'
       \<and> ti_res d' = None"
    and "parent_rel g \<subseteq> parent_rel g'"
  shows "gext X g g'"
  using assms unfolding gext_def by blast

lemma gext_refl [simp]: "gext X g g"
  by (rule gextI) auto

lemma gext_trans:
  assumes "gext X g1 g2" "gext Y g2 g3" "X \<union> Y \<subseteq> Z"
  shows "gext Z g1 g3"
proof (rule gextI)
  show "parent_rel g1 \<subseteq> parent_rel g3"
    using gext_parents assms by blast
next
  fix v d
  assume "gdata g1 v = Some d"
  then obtain d2 where d2: "gdata g2 v = Some d2" "data_le d d2" "v \<notin> X \<Longrightarrow> ti_status d2 = ti_status d"
    using gext_old[OF assms(1)] by blast
  obtain d3 where d3: "gdata g3 v = Some d3" "data_le d2 d3" "v \<notin> Y \<Longrightarrow> ti_status d3 = ti_status d2"
    using gext_old[OF assms(2) d2(1)] by blast
  show "\<exists>d'. gdata g3 v = Some d' \<and> data_le d d' \<and> (v \<notin> Z \<longrightarrow> ti_status d' = ti_status d)"
    using d3 d2(2,3) data_le_trans[of d d2 d3] assms(3) by (metis Un_iff subsetD)
next
  fix v d'
  assume v: "gdata g1 v = None" "gdata g3 v = Some d'"
  show "data_ok d' \<and> ti_events d' = [] \<and> \<not> ti_during_commit d' \<and> \<not> ti_during_asking d' \<and> ti_res d' = None"
  proof (cases "gdata g2 v")
    case None
    then show ?thesis
      using gext_new[OF assms(2) None v(2)] assms(3) by blast
  next
    case (Some d2)
    note n = gext_new[OF assms(1) v(1) Some]
    obtain d3 where "gdata g3 v = Some d3" "data_le d2 d3" "v \<notin> Y \<Longrightarrow> ti_status d3 = ti_status d2"
      using gext_old[OF assms(2) Some] by blast
    then show ?thesis
      using n v(2) unfolding data_le_def by (metis option.inject)
  qed
qed

lemma gdata_upd_data: "gdata (upd_data v f g) u = (if u = v then map_option f (gdata g v) else gdata g u)"
  by (simp add: gdata_def upd_data_def upd_vertex_def option.map_comp comp_def)

lemma parent_rel_upd_data [simp]: "parent_rel (upd_data v f g) = parent_rel g"
  by (simp add: parent_rel_def)

lemma gdata_dom: "v \<in> dom (g_vertex g) \<longleftrightarrow> gdata g v \<noteq> None"
  by (auto simp: gdata_def)

lemma gext_upd_data:
  assumes "\<And>d. gdata g v = Some d \<Longrightarrow> data_le d (f d) \<and> (v \<notin> X \<longrightarrow> ti_status (f d) = ti_status d)"
  shows "gext X g (upd_data v f g)"
  using assms by (intro gextI) (auto simp: gdata_upd_data split: if_splits)

lemma gdata_add_edge [simp]: "gdata (add_edge a b r g) = gdata g"
proof
  fix v
  show "gdata (add_edge a b r g) v = gdata g v"
    by (cases "g_vertex g v"; cases "v = a"; cases "v = b") (simp_all add: gdata_def add_edge_def upd_vertex_def)
qed

lemma gext_add_edge: "gext X g (add_edge a b r g)"
proof (rule gextI)
  have "fst ` set (from_edges g v) \<subseteq> fst ` set (from_edges (add_edge a b r g) v)" for v
  proof (cases "g_vertex g v")
    case (Some x)
    then show ?thesis
      by (cases "v = a"; cases "v = b") (simp_all add: from_edges_def add_edge_def upd_vertex_def or_edge_def smap_put_keys subset_insertI)
  qed (simp add: from_edges_def)
  then show "parent_rel g \<subseteq> parent_rel (add_edge a b r g)"
    unfolding parent_rel_def by blast
qed auto

lemma gext_new_vertex:
  assumes "v \<notin> dom (g_vertex g)" "data_fresh d"
  shows "gext X g (new_vertex v d g)"
proof (rule gextI)
  have "from_edges (new_vertex v d g) = from_edges g"
    using assms(1) by (auto simp: fun_eq_iff from_edges_def new_vertex_def vertex_new_def dom_def)
  then show "parent_rel g \<subseteq> parent_rel (new_vertex v d g)"
    by (simp add: parent_rel_def)
qed (use assms in \<open>auto simp: gdata_def new_vertex_def vertex_new_def data_fresh_def split: if_splits\<close>)

subsection \<open>Statuses\<close>

lemma status_cases:
  assumes "(st :: i8) < 8"
  shows "st = 0 \<or> st = 1 \<or> st = 2 \<or> st = 3 \<or> st = 4 \<or> st = 5 \<or> st = 6 \<or> st = 7"
proof -
  have "unat st < 8"
    using assms by (simp add: word_less_nat_alt)
  then consider "unat st = 0" | "unat st = 1" | "unat st = 2" | "unat st = 3" | "unat st = 4" | "unat st = 5" | "unat st = 6" | "unat st = 7"
    by linarith
  then show ?thesis
    by cases (simp_all add: word_unat_eq_iff)
qed

lemma status_or_less:
  assumes "(a :: i8) < 8" "b < 8"
  shows "a OR b < 8"
  using status_cases[OF assms(1)] status_cases[OF assms(2)] by (elim disjE) simp_all

lemma is_commit_bit: "is_commit d \<longleftrightarrow> bit (ti_status d) 2" "is_finish d \<longleftrightarrow> bit (ti_status d) 1"
  using and_exp_eq_0_iff_not_bit[of "ti_status d" 2] and_exp_eq_0_iff_not_bit[of "ti_status d" 1]
  by (simp_all add: is_commit_def is_finish_def TXN_DCD_def TXN_CMT_def)

lemma status_reached:
  assumes "ti_status d < 8"
  shows "TXN_DCD \<le>s ti_status d \<longleftrightarrow> is_commit d" "TXN_CMT \<le>s ti_status d \<longleftrightarrow> is_commit d \<or> is_finish d"
  using status_cases[OF assms] by (auto simp: TXN_DCD_def TXN_CMT_def is_commit_def is_finish_def word_sle_eq)

lemma data_le_or:
  assumes "data_le d d'"
  shows "is_commit d \<Longrightarrow> is_commit d'" "is_finish d \<Longrightarrow> is_finish d'" "is_involved site d \<Longrightarrow> is_involved site d'"
proof -
  have "bit (ti_status d') n" if "bit (ti_status d) n" for n
    using assms that bit_or_iff[of "ti_status d" "ti_status d'" n] unfolding data_le_def by metis
  then show "is_commit d \<Longrightarrow> is_commit d'" "is_finish d \<Longrightarrow> is_finish d'"
    by (simp_all add: is_commit_bit)
  show "is_involved site d \<Longrightarrow> is_involved site d'"
    using assms by (auto simp: data_le_def is_involved_def)
qed

lemma union_status_le:
  assumes "st < 8"
  shows "data_le d (fst (union_status site st False is_server d))"
proof -
  let ?d = "fst (union_status site st False is_server d)"
  have s: "ti_status ?d = ti_status d \<or> ti_status ?d = ti_status d OR st"
    by (simp add: union_status_def Let_def)
  have "bit (ti_status ?d) n" if "bit (ti_status d) n" for n
    using s that by (auto simp: bit_or_iff)
  then have mono: "is_commit d \<Longrightarrow> is_commit ?d" "is_finish d \<Longrightarrow> is_finish ?d" and "ti_status ?d < 8" if "ti_status d < 8"
    using s that assms status_or_less[of "ti_status d" st] by (auto simp: is_commit_bit)
  moreover have "ti_status d OR ti_status ?d = ti_status ?d"
    using s by (auto simp: or.assoc[symmetric])
  ultimately show ?thesis
    by (auto simp: data_le_def data_ok_def union_status_def Let_def)
qed

lemma union_data_le:
  assumes "ti_status d < 8"
  shows "data_le d0 (fst (union_data site d False is_server d0))"
proof -
  have "data_le d0 (d0\<lparr>ti_servers := ti_servers d0 \<union> ti_servers d\<rparr>)"
    by (auto simp: data_le_def data_ok_def is_commit_def is_finish_def)
  then show ?thesis
    unfolding union_data_def using union_status_le[OF assms] data_le_trans by blast
qed

subsection \<open>Merging\<close>

definition msg_graph :: "graph \<Rightarrow> bool" where
  "msg_graph gra \<longleftrightarrow> graph_inv gra \<and> (\<forall>v d. gdata gra v = Some d \<longrightarrow> data_fresh d)"

lemma msg_graph_data: "msg_graph gra \<Longrightarrow> g_vertex gra v = Some x \<Longrightarrow> data_fresh (vx_data x)"
  unfolding msg_graph_def gdata_def by (metis option.simps(9))

lemma gext_find_or_insert:
  assumes "alloc_ok alloc" "finite (dom (g_vertex g))" "data_fresh d"
  shows "gext X g (snd (find_or_insert_data (alloc g) d g))" "finite (dom (g_vertex (snd (find_or_insert_data (alloc g) d g))))"
proof -
  have "alloc g \<notin> dom (g_vertex g)"
    using assms(1,2) unfolding alloc_ok_def by blast
  then show "gext X g (snd (find_or_insert_data (alloc g) d g))"
    using gext_new_vertex[OF _ assms(3)] by (auto simp: find_or_insert_data_def split: option.splits)
  show "finite (dom (g_vertex (snd (find_or_insert_data (alloc g) d g))))"
    using assms(2) by (auto simp: find_or_insert_data_def new_vertex_def split: option.splits)
qed

lemma gext_union_edges:
  assumes "alloc_ok alloc" "msg_graph gra" "finite (dom (g_vertex g))" "union_edges alloc gra nv es g = Some g'"
  shows "gext X g g' \<and> finite (dom (g_vertex g'))"
  using assms(3,4)
proof (induction es arbitrary: g)
  case (Cons e es)
  obtain tv r where e: "e = (tv, r)"
    by (cases e)
  obtain tx where tx: "g_vertex gra tv = Some tx"
    using Cons.prems(2) e by (cases "g_vertex gra tv") auto
  obtain w g1 where g1: "find_or_insert_data (alloc g) (vx_data tx) g = (w, g1)"
    by (cases "find_or_insert_data (alloc g) (vx_data tx) g")
  have "union_edges alloc gra nv es (add_edge nv w r g1) = Some g'"
    using Cons.prems(2) e tx g1 by simp
  moreover have "gext X g g1" "finite (dom (g_vertex g1))"
    using gext_find_or_insert[OF assms(1) Cons.prems(1) msg_graph_data[OF assms(2) tx]] g1 by auto
  ultimately show ?case
    using Cons.IH[of "add_edge nv w r g1"] gext_trans[of X g g1 X "add_edge nv w r g1" X] gext_trans[of X g _ X g' X] gext_add_edge by auto
qed simp

lemma gext_union_vertexes:
  assumes "alloc_ok alloc" "msg_graph gra" "finite (dom (g_vertex g))"
    and "union_vertexes site is_server alloc gra vs new_vs g = Some (new_vs', g')"
  shows "gext new_vs' g g' \<and> new_vs \<subseteq> new_vs'"
  using assms(3,4)
proof (induction vs arbitrary: new_vs g)
  case (Cons v vs)
  obtain x where x: "g_vertex gra v = Some x"
    using Cons.prems(2) by (cases "g_vertex gra v") auto
  note d = msg_graph_data[OF assms(2) x]
  obtain nv g1 where g1: "union_vertex site is_server alloc (vx_data x) g = (nv, g1)"
    by (cases "union_vertex site is_server alloc (vx_data x) g")
  obtain g2 where g2: "union_edges alloc gra nv (vx_to x) g1 = Some g2" "union_vertexes site is_server alloc gra vs (insert nv new_vs) g2 = Some (new_vs', g')"
    using Cons.prems(2) x g1 by (auto split: Option.bind_splits)
  have "gext {nv} g g1 \<and> finite (dom (g_vertex g1))"
  proof (cases "g_id_index g (ti_id (vx_data x))")
    case None
    have "alloc g \<notin> dom (g_vertex g)"
      using assms(1) Cons.prems(1) unfolding alloc_ok_def by blast
    then show ?thesis
      using None g1 gext_new_vertex[OF _ d] Cons.prems(1) by (auto simp: union_vertex_def new_vertex_def)
  next
    case (Some w)
    then have "w = nv" "g1 = upd_data nv (\<lambda>d0. fst (union_data site (vx_data x) False is_server d0)) g"
      using g1 by (auto simp: union_vertex_def)
    then show ?thesis
      using gext_upd_data[of g nv "\<lambda>d0. fst (union_data site (vx_data x) False is_server d0)" "{nv}"] union_data_le d Cons.prems(1)
      by (simp add: data_fresh_def data_ok_def)
  qed
  moreover have "gext {} g1 g2 \<and> finite (dom (g_vertex g2))"
    using gext_union_edges[OF assms(1,2) _ g2(1)] calculation by blast
  ultimately show ?case
    using Cons.IH[OF _ g2(2)] gext_trans[of "{nv}" g g1 "{}" g2 "{nv}"] gext_trans[of "{nv}" g g2 new_vs' g' new_vs'] by auto
qed simp

subsection \<open>Running pieces\<close>

lemma vdata_gdata: "vdata s = gdata (sv_gra s)"
  by (simp add: fun_eq_iff vdata_def gdata_def)

lemma vdata_simps [simp]:
  "vdata (s\<lparr>sv_rows := x1\<rparr>) = vdata s" "vdata (s\<lparr>sv_db := x2\<rparr>) = vdata s" "vdata (s\<lparr>sv_dtxns := x3\<rparr>) = vdata s" "vdata (s\<lparr>sv_read_ts := x4\<rparr>) = vdata s"
  "vdata (s\<lparr>sv_balls := x5\<rparr>) = vdata s" "vdata (s\<lparr>sv_next := x6\<rparr>) = vdata s" "vdata (s\<lparr>sv_asked := x7\<rparr>) = vdata s" "vdata (s\<lparr>sv_res := x8\<rparr>) = vdata s"
  "vdata (s\<lparr>sv_out := x9\<rparr>) = vdata s"
  by (simp_all add: fun_eq_iff vdata_def)

definition txn_ok :: "graph \<Rightarrow> dtxn \<Rightarrow> bool" where
  "txn_ok g t \<longleftrightarrow> set_option (dt_tv t) \<subseteq> dom (g_vertex g) \<and> set (dt_conflict t) \<subseteq> dom (g_vertex g)"

definition rows_ok :: "'db server \<Rightarrow> bool" where
  "rows_ok s \<longleftrightarrow> (\<forall>a es x. sv_rows s a = Some es \<and> Some x \<in> set es \<longrightarrow> x \<in> dom (g_vertex (sv_gra s)))"

definition base_ok :: "'db server \<Rightarrow> bool" where
  "base_ok s \<longleftrightarrow> graph_inv (sv_gra s) \<and> rows_ok s \<and> (\<forall>i t. sv_dtxns s i = Some t \<longrightarrow> txn_ok (sv_gra s) t)
     \<and> (\<forall>v d. vdata s v = Some d \<longrightarrow> data_ok d)"

lemma base_okD:
  assumes "base_ok s"
  shows "graph_inv (sv_gra s)" "rows_ok s" "sv_dtxns s i = Some t \<Longrightarrow> txn_ok (sv_gra s) t" "vdata s v = Some d \<Longrightarrow> data_ok d"
  using assms unfolding base_ok_def by blast+

text \<open>A piece changes rows, the database and edges only.\<close>

definition piece_ext :: "'db server \<Rightarrow> 'db server \<Rightarrow> bool" where
  "piece_ext s s' \<longleftrightarrow> vdata s' = vdata s \<and> parent_rel (sv_gra s) \<subseteq> parent_rel (sv_gra s') \<and> g_id_index (sv_gra s') = g_id_index (sv_gra s)
     \<and> sv_balls s' = sv_balls s \<and> sv_next s' = sv_next s \<and> sv_asked s' = sv_asked s \<and> sv_out s' = sv_out s"

lemma piece_ext_refl [simp]: "piece_ext s s"
  by (simp add: piece_ext_def)

lemma piece_ext_trans: "piece_ext s1 s2 \<Longrightarrow> piece_ext s2 s3 \<Longrightarrow> piece_ext s1 s3"
  unfolding piece_ext_def by auto

lemma vdata_dom: "dom (g_vertex (sv_gra s)) = dom (vdata s)"
  by (auto simp: vdata_def)

lemma txn_ok_ext: "piece_ext s s' \<Longrightarrow> txn_ok (sv_gra s') t \<longleftrightarrow> txn_ok (sv_gra s) t"
  by (simp add: txn_ok_def vdata_dom piece_ext_def)

lemma graph_inv_kiss:
  assumes "graph_inv g" "tv \<in> dom (g_vertex g)" "set_option lst \<subseteq> dom (g_vertex g)"
  shows "graph_inv (snd (kiss immediate tv lst g))" "gdata (snd (kiss immediate tv lst g)) = gdata g"
    "parent_rel g \<subseteq> parent_rel (snd (kiss immediate tv lst g))" "g_id_index (snd (kiss immediate tv lst g)) = g_id_index g"
    "fst (kiss immediate tv lst g) \<in> Some ` dom (g_vertex g)"
  using assms graph_inv_add_edge[of g _ tv] gext_parents[OF gext_add_edge, of g] by (auto simp: kiss_def Let_def split: option.splits)

lemma row_kiss_ok:
  assumes "base_ok s" "txn_ok (sv_gra s) t" "row_kiss a c immediate t s = Some (t', s')"
  shows "base_ok s' \<and> txn_ok (sv_gra s') t' \<and> piece_ext s s' \<and> dt_tid t' = dt_tid t \<and> sv_dtxns s' = sv_dtxns s"
proof -
  note B = base_okD[OF assms(1)]
  obtain es where es: "sv_rows s a = Some es" "c < length es"
    using assms(3) by (auto simp: row_kiss_def verify_def split: option.splits Option.bind_splits if_splits)
  have in_dom: "x \<in> dom (g_vertex (sv_gra s))" if "Some x \<in> set es" for x
    using B(2) es(1) that unfolding rows_ok_def by blast
  show ?thesis
  proof (cases "dt_read_only t")
    case True
    then have "s' = s" "t' = t\<lparr>dt_conflict := kiss_ro (es ! c) (dt_conflict t)\<rparr>"
      using assms(3) es by (auto simp: row_kiss_def verify_def)
    then show ?thesis
      using assms(1,2) in_dom nth_mem[OF es(2)] by (auto simp: txn_ok_def kiss_ro_def split: option.splits)
  next
    case False
    then obtain tv where tv: "dt_tv t = Some tv"
      using assms(3) es by (cases "dt_tv t") (auto simp: row_kiss_def verify_def)
    have "set_option (es ! c) \<subseteq> dom (g_vertex (sv_gra s))"
    proof (cases "es ! c")
      case (Some x)
      then show ?thesis
        using in_dom[of x] nth_mem[OF es(2)] by simp
    qed simp
    then have d: "tv \<in> dom (g_vertex (sv_gra s))" "set_option (es ! c) \<subseteq> dom (g_vertex (sv_gra s))"
      using assms(2) tv by (simp_all add: txn_ok_def)
    note K = graph_inv_kiss[OF B(1) d, of immediate]
    obtain lst g where k: "kiss immediate tv (es ! c) (sv_gra s) = (lst, g)"
      by (cases "kiss immediate tv (es ! c) (sv_gra s)")
    then have s': "t' = t" "s' = s\<lparr>sv_gra := g, sv_rows := (sv_rows s)(a \<mapsto> es[c := lst])\<rparr>"
      using assms(3) es tv False by (auto simp: row_kiss_def verify_def)
    have e: "piece_ext s s'"
      using K k s' by (auto simp: piece_ext_def vdata_gdata)
    then have dd: "dom (g_vertex g) = dom (g_vertex (sv_gra s))"
      using s' vdata_dom[of s] vdata_dom[of s'] by (simp add: piece_ext_def)
    have "rows_ok s'"
      unfolding rows_ok_def
    proof (intro allI impI)
      fix a' es' x
      assume x: "sv_rows s' a' = Some es' \<and> Some x \<in> set es'"
      have "x \<in> dom (g_vertex (sv_gra s))"
      proof (cases "a' = a")
        case True
        then have "Some x = lst \<or> Some x \<in> set es"
          using x s' set_update_subset_insert[of es c lst] by auto
        then show ?thesis
          using in_dom[of x] K(5) k by auto
      next
        case False
        then show ?thesis
          using x s' B(2) unfolding rows_ok_def by auto
      qed
      then show "x \<in> dom (g_vertex (sv_gra s'))"
        using dd s' by simp
    qed
    moreover have "sv_dtxns s' = sv_dtxns s" "vdata s' = vdata s" "graph_inv (sv_gra s')"
      using e K(1) k s' by (auto simp: piece_ext_def)
    ultimately show ?thesis
      using B(3,4) e s'(1) assms(2) txn_ok_ext[OF e] unfolding base_ok_def by auto
  qed
qed

lemma row_ops_ok:
  assumes "base_ok s" "txn_ok (sv_gra s) t" "row_ops ops t s = Some (t', s')"
  shows "base_ok s' \<and> txn_ok (sv_gra s') t' \<and> piece_ext s s' \<and> dt_tid t' = dt_tid t \<and> sv_dtxns s' = sv_dtxns s"
  using assms
proof (induction ops t s rule: row_ops.induct)
  case (2 a c immediate ops t s)
  then obtain t1 s1 where k: "row_kiss a c immediate t s = Some (t1, s1)" "row_ops ops t1 s1 = Some (t', s')"
    by (auto split: Option.bind_splits)
  have 1: "base_ok s1" "txn_ok (sv_gra s1) t1" "piece_ext s s1" "dt_tid t1 = dt_tid t" "sv_dtxns s1 = sv_dtxns s"
    using row_kiss_ok[OF 2(2,3) k(1)] by blast+
  then show ?case
    using 2(1)[OF k(1) refl 1(1,2) k(2)] piece_ext_trans[OF 1(3)] 1(4,5) by simp
next
  case (3 a n ops t s)
  let ?s = "s\<lparr>sv_rows := (sv_rows s)(a \<mapsto> replicate n None)\<rparr>"
  have "base_ok ?s" "piece_ext s ?s" "txn_ok (sv_gra ?s) t"
    using 3(2,3) by (auto simp: base_ok_def rows_ok_def piece_ext_def)
  then show ?case
    using 3 piece_ext_trans by (fastforce simp: verify_simps split: Option.bind_splits if_splits)
qed simp

lemma run_piece_ok:
  fixes s :: "'db server"
  assumes "base_ok s" "txn_ok (sv_gra s) t" "run_piece h header input wanted rows t s = Some (output, rows', t', s')"
  shows "base_ok s' \<and> txn_ok (sv_gra s') t' \<and> piece_ext s s' \<and> dt_tid t' = dt_tid t \<and> sv_dtxns s' = sv_dtxns s"
proof -
  obtain r :: "'db piece_result" where r: "row_ops (pr_ops r) t (s\<lparr>sv_db := pr_db r\<rparr>) = Some (t', s')"
    using assms(3) by (auto simp: run_piece_def split: Option.bind_splits)
  have "base_ok (s\<lparr>sv_db := pr_db r\<rparr>)" "txn_ok (sv_gra (s\<lparr>sv_db := pr_db r\<rparr>)) t" "piece_ext s (s\<lparr>sv_db := pr_db r\<rparr>)"
    using assms(1,2) by (auto simp: base_ok_def rows_ok_def piece_ext_def)
  then show ?thesis
    using row_ops_ok[OF _ _ r] piece_ext_trans by fastforce
qed

lemma exe_requests_ok:
  assumes "base_ok s" "txn_ok (sv_gra s) t" "exe_requests E rs t s = Some (outputs, t', s')"
  shows "base_ok s' \<and> txn_ok (sv_gra s') t' \<and> piece_ext s s' \<and> dt_tid t' = dt_tid t \<and> sv_dtxns s' = sv_dtxns s"
  using assms
proof (induction rs arbitrary: t s outputs)
  case (Cons r rs)
  then obtain h outp rows t1 s1 outputs1 where r: "run_piece h (dr_header r) (dr_inputs r) True (Some (dr_row_map r)) t s = Some (outp, rows, t1, s1)"
      "exe_requests E rs t1 s1 = Some (outputs1, t', s')"
    by (auto simp: Let_def split: Option.bind_splits prod.splits)
  have 1: "base_ok s1" "txn_ok (sv_gra s1) t1" "piece_ext s s1" "dt_tid t1 = dt_tid t" "sv_dtxns s1 = sv_dtxns s"
    using run_piece_ok[OF Cons.prems(1,2) r(1)] by blast+
  show ?case
    using Cons.IH[OF 1(1,2) r(2)] piece_ext_trans[OF 1(3)] 1(4,5) by simp
qed simp

lemma base_ok_dtxns:
  assumes "base_ok s" "txn_ok (sv_gra s) t"
  shows "base_ok (put_dtxn t s)" "piece_ext s (put_dtxn t s)"
  using assms by (auto simp: base_ok_def put_dtxn_def rows_ok_def piece_ext_def)

lemma exe_deferred_ok:
  assumes "base_ok s" "txn_ok (sv_gra s) t" "exe_deferred E res t s = Some s'"
  shows "base_ok s' \<and> piece_ext s s'"
proof -
  define t1 where "t1 = t\<lparr>dt_phase := 2\<rparr>"
  have t1: "txn_ok (sv_gra s) t1" "dt_dreqs t1 = dt_dreqs t"
    using assms(2) by (simp_all add: t1_def txn_ok_def)
  show ?thesis
  proof (cases "dt_dreqs t1 = []")
    case True
    then have "s' = put_dtxn t1 s"
      using assms(3) t1(2) by (auto simp: exe_deferred_def t1_def[symmetric] verify_def Let_def split: if_splits)
    then show ?thesis
      using base_ok_dtxns[OF assms(1) t1(1)] by simp
  next
    case False
    then obtain outputs t2 s1 where r: "exe_requests E (dt_dreqs t1) t1 s = Some (outputs, t2, s1)"
        "s' = put_dtxn t2 (s1\<lparr>sv_res := (sv_res s1)(res := outputs)\<rparr>)"
      using assms(3) t1(2) by (auto simp: exe_deferred_def t1_def[symmetric] verify_def Let_def split: if_splits Option.bind_splits)
    let ?s1 = "s1\<lparr>sv_res := (sv_res s1)(res := outputs)\<rparr>"
    have "base_ok ?s1" "txn_ok (sv_gra ?s1) t2" "piece_ext s ?s1"
      using exe_requests_ok[OF assms(1) t1(1) r(1)] by (auto simp: base_ok_def rows_ok_def piece_ext_def)
    then show ?thesis
      using base_ok_dtxns[of ?s1 t2] r(2) piece_ext_trans by blast
  qed
qed

subsection \<open>Executing components\<close>

definition ext :: "vid set \<Rightarrow> 'db server \<Rightarrow> 'db server \<Rightarrow> bool" where
  "ext X s s' \<longleftrightarrow> gext X (sv_gra s) (sv_gra s') \<and> sv_balls s' = sv_balls s \<and> sv_next s' = sv_next s \<and> sv_asked s' = sv_asked s"

lemma ext_refl [simp]: "ext X s s"
  by (simp add: ext_def)

lemma ext_trans: "ext X s1 s2 \<Longrightarrow> ext Y s2 s3 \<Longrightarrow> X \<union> Y \<subseteq> Z \<Longrightarrow> ext Z s1 s3"
  unfolding ext_def using gext_trans by metis

lemma piece_ext_ext:
  assumes "piece_ext s s'"
  shows "ext X s s'"
proof -
  have "gdata (sv_gra s') = gdata (sv_gra s)"
    using assms by (simp add: piece_ext_def vdata_gdata)
  then have "gext X (sv_gra s) (sv_gra s')"
    using assms by (intro gextI) (auto simp: piece_ext_def)
  then show ?thesis
    using assms by (simp add: ext_def piece_ext_def)
qed

lemma ext_old:
  assumes "ext X s s'" "vdata s v = Some d"
  obtains d' where "vdata s' v = Some d'" "data_le d d'" "v \<notin> X \<Longrightarrow> ti_status d' = ti_status d"
  using assms gext_old[of X "sv_gra s" "sv_gra s'" v d] by (auto simp: ext_def vdata_gdata)

lemma vdata_upd_txn: "vdata (upd_txn v f s) u = (if u = v then map_option f (vdata s v) else vdata s u)"
  by (simp add: vdata_gdata upd_txn_def gdata_upd_data)

lemma upd_txn_sel [simp]: "sv_balls (upd_txn v f s) = sv_balls s" "sv_next (upd_txn v f s) = sv_next s" "sv_asked (upd_txn v f s) = sv_asked s"
  "sv_out (upd_txn v f s) = sv_out s" "sv_rows (upd_txn v f s) = sv_rows s" "sv_dtxns (upd_txn v f s) = sv_dtxns s"
  "parent_rel (sv_gra (upd_txn v f s)) = parent_rel (sv_gra s)" "dom (g_vertex (sv_gra (upd_txn v f s))) = dom (g_vertex (sv_gra s))"
  by (simp_all add: upd_txn_def)

lemma base_ok_upd_txn:
  assumes "base_ok s" "\<And>d. ti_id (f d) = ti_id d" "\<And>d. vdata s v = Some d \<Longrightarrow> data_ok (f d)"
  shows "base_ok (upd_txn v f s)"
proof -
  note B = base_okD[OF assms(1)]
  have "graph_inv (sv_gra (upd_txn v f s))"
    using graph_inv_upd_data[OF B(1), of f] assms(2) by (simp add: upd_txn_def)
  moreover have "rows_ok (upd_txn v f s)"
    using B(2) by (simp add: rows_ok_def)
  moreover have "txn_ok (sv_gra (upd_txn v f s)) t \<longleftrightarrow> txn_ok (sv_gra s) t" for t
    by (simp add: txn_ok_def)
  moreover have "data_ok d" if "vdata (upd_txn v f s) u = Some d" for u d
    using that assms(3) B(4) by (auto simp: vdata_upd_txn split: if_splits)
  ultimately show ?thesis
    using B(3) unfolding base_ok_def by simp
qed

lemma ext_upd_txn:
  assumes "\<And>d. vdata s v = Some d \<Longrightarrow> data_le d (f d) \<and> (v \<notin> X \<longrightarrow> ti_status (f d) = ti_status d)"
  shows "ext X s (upd_txn v f s)"
proof -
  have "gext X (sv_gra s) (upd_data v f (sv_gra s))"
    using assms by (intro gext_upd_data) (simp add: vdata_gdata)
  then show ?thesis
    by (simp add: ext_def upd_txn_def)
qed

lemma index_vdata:
  assumes "base_ok s"
  shows "g_id_index (sv_gra s) i = Some v \<longleftrightarrow> (\<exists>d. vdata s v = Some d \<and> ti_id d = i)"
  using graph_invD(3)[OF base_okD(1)[OF assms], of i v] by (auto simp: vdata_def vkey_def)

definition executed :: "'db server \<Rightarrow> u64 list" where
  "executed s = concat (map (\<lambda>e. case e of Executed i \<Rightarrow> [i] | _ \<Rightarrow> []) (sv_out s))"

text \<open>Transactions are executed once, and only the committed ones.\<close>

definition exec_ok :: "'db server \<Rightarrow> bool" where
  "exec_ok s \<longleftrightarrow> distinct (executed s) \<and> (\<forall>i \<in> set (executed s). \<exists>v d. vdata s v = Some d \<and> ti_id d = i \<and> ti_committed d)"

lemma exec_ok_ext:
  assumes "exec_ok s" "ext X s s'" "executed s' = executed s"
  shows "exec_ok s'"
  unfolding exec_ok_def assms(3)
proof (intro conjI ballI)
  fix i
  assume "i \<in> set (executed s)"
  then obtain v d where v: "vdata s v = Some d" "ti_id d = i" "ti_committed d"
    using assms(1) unfolding exec_ok_def by blast
  then obtain d' where "vdata s' v = Some d'" "data_le d d'"
    using ext_old[OF assms(2)] by blast
  then show "\<exists>v d. vdata s' v = Some d \<and> ti_id d = i \<and> ti_committed d"
    using v unfolding data_le_def by blast
qed (use assms(1) in \<open>simp add: exec_ok_def\<close>)

lemma executed_sel [simp]: "executed (upd_txn v f s) = executed s" "executed (s\<lparr>sv_dtxns := x\<rparr>) = executed s"
  by (simp_all add: executed_def)

lemma piece_ext_executed: "piece_ext s s' \<Longrightarrow> executed s' = executed s"
  by (simp add: piece_ext_def executed_def)

definition commit_data :: "u32 \<Rightarrow> txn_info \<Rightarrow> txn_info" where
  "commit_data site d = fst (union_status site TXN_DCD False False (d\<lparr>ti_committed := True\<rparr>))"

lemma commit_data:
  shows "ti_id (commit_data site d) = ti_id d" "is_commit (commit_data site d)" "ti_committed (commit_data site d)" "data_le d (commit_data site d)"
proof -
  show "ti_id (commit_data site d) = ti_id d" and c: "ti_committed (commit_data site d)"
    by (simp_all add: commit_data_def union_status_def Let_def)
  have s: "ti_status (commit_data site d) = ti_status d OR TXN_DCD"
    by (simp add: commit_data_def union_status_def Let_def)
  then show k: "is_commit (commit_data site d)"
    by (simp add: is_commit_bit bit_or_iff TXN_DCD_def bit_numeral_rec)
  have "is_finish d \<Longrightarrow> is_finish (commit_data site d)"
    unfolding is_commit_bit s by (simp add: bit_or_iff)
  moreover have "ti_status d < 8 \<Longrightarrow> ti_status (commit_data site d) < 8"
    unfolding s by (rule status_or_less) (simp_all add: TXN_DCD_def)
  ultimately show "data_le d (commit_data site d)"
    using s c k by (auto simp: data_le_def data_ok_def commit_data_def union_status_def Let_def or.assoc[symmetric])
qed

text \<open>One transaction of the component, with the piece of \<open>commit_scc\<close> that runs it.\<close>

lemma commit_one_ok:
  assumes "base_ok s" "exec_ok s" "vdata s v = Some d" "\<not> is_commit d"
    and "(case ti_res d of None \<Rightarrow> Some s | Some res \<Rightarrow> do {
             t \<leftarrow> sv_dtxns s (ti_id d);
             s' \<leftarrow> exe_deferred E res t (out (Executed (ti_id d)) s);
             destroy (ti_id d) s'
           }) = Some s1"
  shows "base_ok s1 \<and> exec_ok (upd_txn v (commit_data (ev_site E)) s1) \<and> ext {} s s1 \<and> vdata s1 = vdata s"
proof -
  have up: "exec_ok (upd_txn v (commit_data (ev_site E)) s')" if "exec_ok s'" "base_ok s'" for s' :: "'a server"
    using ext_upd_txn[of s' v "commit_data (ev_site E)" "{v}"] commit_data(4) exec_ok_ext[OF that(1)] by auto
  show ?thesis
  proof (cases "ti_res d")
    case None
    then show ?thesis
      using assms(1,2,5) up by simp
  next
    case (Some res)
    then obtain t s2 where t: "sv_dtxns s (ti_id d) = Some t" "exe_deferred E res t (out (Executed (ti_id d)) s) = Some s2"
        "destroy (ti_id d) s2 = Some s1"
      using assms(5) by (auto split: Option.bind_splits)
    let ?s = "out (Executed (ti_id d)) s"
    have b: "base_ok ?s" "txn_ok (sv_gra ?s) t"
      using base_okD(3)[OF assms(1) t(1)] assms(1) by (simp_all add: base_ok_def rows_ok_def out_def)
    note x = exe_deferred_ok[OF b t(2)]
    have s1: "s1 = s2\<lparr>sv_dtxns := (sv_dtxns s2)(ti_id d := None)\<rparr>"
      using t(3) by (auto simp: destroy_def split: Option.bind_splits)
    then have "base_ok s1"
      using x by (auto simp: base_ok_def rows_ok_def)
    moreover have v1: "vdata s1 = vdata s"
      using x s1 by (simp add: piece_ext_def out_def)
    moreover have "ext {} s s1"
      using piece_ext_ext[of ?s s2 "{}"] x s1 by (simp add: ext_def out_def)
    moreover have "exec_ok (upd_txn v (commit_data (ev_site E)) s1)"
    proof -
      have e: "executed s1 = executed s @ [ti_id d]"
        using piece_ext_executed[of ?s s2] x s1 by (simp add: out_def executed_def)
      have "ti_id d \<notin> set (executed s)"
      proof
        assume "ti_id d \<in> set (executed s)"
        then obtain u d' where u: "vdata s u = Some d'" "ti_id d' = ti_id d" "ti_committed d'"
          using assms(2) unfolding exec_ok_def by blast
        then have "u = v"
          using index_vdata[OF assms(1), of "ti_id d"] assms(3) by (metis option.inject)
        then show False
          using u assms(1,3,4) base_okD(4) unfolding data_ok_def by fastforce
      qed
      moreover have "\<exists>u d'. vdata (upd_txn v (commit_data (ev_site E)) s1) u = Some d' \<and> ti_id d' = i \<and> ti_committed d'" if "i \<in> set (executed s)" for i
      proof -
        obtain u d' where u: "vdata s u = Some d'" "ti_id d' = i" "ti_committed d'"
          using assms(2) \<open>i \<in> set (executed s)\<close> unfolding exec_ok_def by blast
        show ?thesis
          using u v1 commit_data(1,3) by (intro exI[of _ u]) (auto simp: vdata_upd_txn)
      qed
      moreover have "\<exists>u d'. vdata (upd_txn v (commit_data (ev_site E)) s1) u = Some d' \<and> ti_id d' = ti_id d \<and> ti_committed d'"
        using assms(3) v1 commit_data(1,3) by (intro exI[of _ v]) (simp add: vdata_upd_txn)
      ultimately show ?thesis
        using assms(2) e unfolding exec_ok_def by auto
    qed
    ultimately show ?thesis
      by blast
  qed
qed

lemma commit_scc_ok:
  assumes "base_ok s" "exec_ok s" "commit_scc E vs s = Some s'"
  shows "base_ok s' \<and> exec_ok s' \<and> ext (set vs) s s' \<and> (\<forall>v \<in> set vs. \<exists>d. vdata s' v = Some d \<and> is_commit d)
    \<and> dom (vdata s') = dom (vdata s)"
  using assms
proof (induction vs arbitrary: s)
  case (Cons v vs)
  obtain d where d: "vdata s v = Some d"
    using Cons.prems(3) by (cases "vdata s v") auto
  obtain s1 where s1: "base_ok s1" "exec_ok s1" "ext {v} s s1" "\<exists>d1. vdata s1 v = Some d1 \<and> is_commit d1" "commit_scc E vs s1 = Some s'"
      "dom (vdata s1) = dom (vdata s)"
  proof (cases "is_commit d")
    case True
    then show ?thesis
      using that[of s] Cons.prems d by simp
  next
    case False
    define r where "r = (case ti_res d of None \<Rightarrow> Some s | Some res \<Rightarrow> do {
             t \<leftarrow> sv_dtxns s (ti_id d);
             s' \<leftarrow> exe_deferred E res t (out (Executed (ti_id d)) s);
             destroy (ti_id d) s'
           })"
    have "r \<bind> (\<lambda>s2. vdata s2 v \<bind> (\<lambda>d2. verify (\<not> ti_committed d2) \<bind> (\<lambda>_. commit_scc E vs (upd_txn v (commit_data (ev_site E)) s2)))) = Some s'"
      using Cons.prems(3) d False unfolding commit_data_def r_def by simp
    then obtain s2 where s2: "r = Some s2" "commit_scc E vs (upd_txn v (commit_data (ev_site E)) s2) = Some s'"
      by (cases r) (auto simp: verify_def split: if_splits Option.bind_splits)
    have o: "base_ok s2" "exec_ok (upd_txn v (commit_data (ev_site E)) s2)" "ext {} s s2" "vdata s2 = vdata s"
      using commit_one_ok[OF Cons.prems(1,2) d False s2(1)[unfolded r_def]] by simp_all
    have ok: "data_ok (commit_data (ev_site E) d')" if "vdata s2 v = Some d'" for d'
      using base_okD(4)[OF o(1) that] commit_data(4)[of d' "ev_site E"] by (simp add: data_le_def)
    have "base_ok (upd_txn v (commit_data (ev_site E)) s2)"
      by (rule base_ok_upd_txn[OF o(1) commit_data(1) ok])
    moreover have "ext {v} s2 (upd_txn v (commit_data (ev_site E)) s2)"
      by (rule ext_upd_txn) (simp add: commit_data(4))
    then have "ext {v} s (upd_txn v (commit_data (ev_site E)) s2)"
      using ext_trans[OF o(3)] by simp
    moreover have "\<exists>d1. vdata (upd_txn v (commit_data (ev_site E)) s2) v = Some d1 \<and> is_commit d1"
      using d o(4) commit_data(2) by (simp add: vdata_upd_txn)
    moreover have "dom (vdata (upd_txn v (commit_data (ev_site E)) s2)) = dom (vdata s)"
      using o(4) by (auto simp: vdata_upd_txn dom_def)
    ultimately show ?thesis
      using that s2(2) o(2) by simp
  qed
  note I = Cons.IH[OF s1(1,2,5)]
  obtain d1 where d1: "vdata s1 v = Some d1" "is_commit d1"
    using s1(4) by blast
  have "ext (set vs) s1 s'"
    using I by blast
  then obtain d2 where "vdata s' v = Some d2" "data_le d1 d2"
    using ext_old[OF _ d1(1)] by blast
  then have "\<exists>d. vdata s' v = Some d \<and> is_commit d"
    using data_le_or(1) d1(2) by blast
  then show ?case
    using I s1(6) ext_trans[OF s1(3), of "set vs" s' "set (v # vs)"] by auto
qed simp

subsection \<open>Starting and merging\<close>

lemma data_fresh_new: "data_fresh (txn_info_new\<lparr>ti_id := i, ti_ts := ts\<rparr>)"
  by (simp add: data_fresh_def data_ok_def txn_info_new_def smap_inv_def TXN_UKN_def)

lemma base_ok_graph:
  assumes "base_ok s" "gext X (sv_gra s) g" "graph_inv g"
  shows "base_ok (s\<lparr>sv_gra := g\<rparr>)"
proof -
  note B = base_okD[OF assms(1)]
  have "dom (g_vertex (sv_gra s)) \<subseteq> dom (g_vertex g)"
  proof
    fix v
    assume "v \<in> dom (g_vertex (sv_gra s))"
    then obtain d where "gdata (sv_gra s) v = Some d"
      by (auto simp: gdata_def)
    then show "v \<in> dom (g_vertex g)"
      using gext_old[OF assms(2)] by (metis gdata_dom option.distinct(1))
  qed
  moreover have "data_ok d'" if "gdata g v = Some d'" for v d'
  proof (cases "gdata (sv_gra s) v")
    case (Some d)
    then show ?thesis
      using gext_old[OF assms(2) Some] B(4)[of v d] that unfolding data_le_def by (metis vdata_gdata option.inject)
  qed (use gext_new[OF assms(2) _ that] in blast)
  ultimately show ?thesis
    using B(2,3) assms(3) unfolding base_ok_def rows_ok_def txn_ok_def by (simp add: vdata_gdata) blast
qed

lemma start_pie_ok:
  assumes "alloc_ok alloc" "graph_inv g" "start_pie site (alloc g) tid ts g = (v, g')"
  shows "graph_inv g' \<and> gext {} g g' \<and> v \<in> dom (g_vertex g')"
proof -
  have fresh: "alloc g \<notin> dom (g_vertex g)"
    using alloc_okD[OF assms(1,2)] .
  define d where "d = txn_info_new\<lparr>ti_id := tid, ti_ts := ts\<rparr>"
  obtain w g1 where g1: "find_or_insert_data (alloc g) d g = (w, g1)"
    by (cases "find_or_insert_data (alloc g) d g")
  then have s: "v = w" "g' = upd_data w (\<lambda>d. d\<lparr>ti_servers := insert site (ti_servers d)\<rparr>) g1"
    using assms(3) unfolding start_pie_def find_or_insert_data_eq d_def[symmetric] upd_data_def by auto
  have "gext {} g g1"
    using gext_find_or_insert(1)[OF assms(1) graph_inv_finite[OF assms(2)], of d] data_fresh_new g1 unfolding d_def by auto
  moreover have "gext {} g1 g'"
    unfolding s(2) by (rule gext_upd_data) (auto simp: data_le_def data_ok_def is_commit_def is_finish_def)
  moreover have "graph_inv g1" "g_id_index g1 (ti_id d) = Some w"
    using find_or_insert_data_ok[OF assms(2) fresh, of d] g1 by auto
  ultimately show ?thesis
    using graph_inv_start_pie[OF assms(2) fresh, of site tid ts] assms(3) gext_trans[of "{}" g g1 "{}" g' "{}"] graph_invD(3)[of g1 "ti_id d" w] s by auto
qed

lemma rcc_start_ok:
  assumes "alloc_ok (ev_alloc E)" "base_ok s" "txn_ok (sv_gra s) t" "rcc_start E header input t s = Some (deferred, outp, t', s')"
  shows "base_ok s' \<and> txn_ok (sv_gra s') t' \<and> ext {} s s' \<and> executed s' = executed s \<and> sv_dtxns s' = sv_dtxns s"
proof -
  obtain tv g where p: "start_pie (ev_site E) (ev_alloc E (sv_gra s)) (h_tid header) (max (sv_read_ts s) (h_timestamp header)) (sv_gra s) = (tv, g)"
    by (cases "start_pie (ev_site E) (ev_alloc E (sv_gra s)) (h_tid header) (max (sv_read_ts s) (h_timestamp header)) (sv_gra s)")
  note P = start_pie_ok[OF assms(1) base_okD(1)[OF assms(2)] p]
  define s1 where "s1 = s\<lparr>sv_gra := g\<rparr>"
  define t2 where "t2 = t\<lparr>dt_tv := Some tv, dt_phase := 1\<rparr>"
  have b1: "base_ok s1" "ext {} s s1"
    using base_ok_graph[OF assms(2), of "{}" g] P by (simp_all add: s1_def ext_def)
  have "dom (g_vertex (sv_gra s)) \<subseteq> dom (g_vertex g)"
    using gext_old P gdata_dom by (metis option.exhaust option.distinct(1) subsetI)
  then have t2: "txn_ok (sv_gra s1) t2"
    using P assms(3) by (simp add: txn_ok_def s1_def t2_def) blast
  have ex: "executed s1 = executed s" "sv_dtxns s1 = sv_dtxns s"
    by (simp_all add: s1_def executed_def)
  obtain h df where reg: "ev_registry E (h_t_type header) (h_p_type header) = Some (h, df)" "dt_phase t \<le> 1"
    using assms(4) p by (cases "ev_registry E (h_t_type header) (h_p_type header)") (auto simp: rcc_start_def verify_def Let_def split: if_splits)
  obtain wanted rows outp' rows' t3 where r: "run_piece h header input wanted rows t2 s1 = Some (outp', rows', t3, s')"
      "dt_tv t' = dt_tv t3" "dt_conflict t' = dt_conflict t3"
    using assms(4) p reg unfolding rcc_start_def s1_def t2_def
    by (cases df) (auto simp: verify_def Let_def simp del: One_nat_def split: Option.bind_splits)
  note R = run_piece_ok[OF b1(1) t2 r(1)]
  have "txn_ok (sv_gra s') t'"
    using R r(2,3) by (simp add: txn_ok_def)
  moreover have "ext {} s s'"
    using ext_trans[OF b1(2) piece_ext_ext[of s1 s' "{}"]] R by simp
  ultimately show ?thesis
    using R ex piece_ext_executed[of s1 s'] by simp
qed

lemma node_vdata: "base_ok s \<Longrightarrow> vdata s v = Some d \<Longrightarrow> node (sv_gra s) (ti_id d) = Some d"
  using index_vdata[of s "ti_id d" v] by (auto simp: node_def vdata_def)

lemma merge_graph_ok:
  assumes "alloc_ok (ev_alloc E)" "base_ok s" "msg_graph gra" "merge_graph E gra s = Some (s', as)"
  obtains X where "base_ok s'" "ext X s s'" "executed s' = executed s" "finite X" "as = map (\<lambda>v. ATrigger v 0) (sorted_list_of_set X)"
    "\<And>v d m. vdata s v = Some d \<Longrightarrow> node gra (ti_id d) = Some m \<Longrightarrow> vdata s' v = Some (fst (union_data (ev_site E) m False True d))"
    "X \<subseteq> dom (vdata s')"
proof -
  have gi: "graph_inv gra"
    using assms(3) unfolding msg_graph_def by blast
  note B = base_okD(1)[OF assms(2)]
  obtain X g where u: "union_vertexes (ev_site E) True (ev_alloc E) gra (g_vertex_index gra) {} (sv_gra s) = Some (X, g)"
      "s' = s\<lparr>sv_gra := g\<rparr>" "as = map (\<lambda>v. ATrigger v 0) (sorted_list_of_set X)"
    using assms(4) by (auto simp: merge_graph_def verify_def split: Option.bind_splits if_splits)
  have e: "gext X (sv_gra s) g"
    using gext_union_vertexes[OF assms(1,3) graph_inv_finite[OF B] u(1)] by blast
  have "union_state (ev_site E) True gra (sv_gra s) {} {} (sv_gra s)"
    using B by (simp add: union_state_def)
  then have st: "union_state (ev_site E) True gra (sv_gra s) (vkey gra ` set (g_vertex_index gra)) X g"
    using union_vertexes_ok[OF assms(1) gi, of "g_vertex_index gra" "{}"] graph_invD(1,2)[OF gi] u(1) by force
  note U = union_stateD[OF st]
  have b': "base_ok s'"
    using base_ok_graph[OF assms(2) e U(1)] u(2) by simp
  have ex: "ext X s s'"
    using e u(2) by (simp add: ext_def)
  have "vdata s' v = Some (fst (union_data (ev_site E) m False True d))" if v: "vdata s v = Some d" "node gra (ti_id d) = Some m" for v d m
  proof -
    obtain d' where d': "vdata s' v = Some d'" "data_le d d'"
      using ext_old[OF ex v(1)] by blast
    obtain w where "g_id_index gra (ti_id d) = Some w"
      using v(2) by (cases "g_id_index gra (ti_id d)") (auto simp: node_def)
    then have "ti_id d \<in> vkey gra ` set (g_vertex_index gra)"
      using graph_invD(1)[OF gi] graph_invD(3)[OF gi, of "ti_id d" w] by (metis imageI)
    then have "node g (ti_id d) = Some (fst (union_data (ev_site E) m False True d))"
      using U(3)[of "ti_id d"] v node_vdata[OF assms(2) v(1)] by (simp add: node_union_def)
    moreover have "ti_id d' = ti_id d"
      using d'(2) by (simp add: data_le_def)
    ultimately show ?thesis
      using node_vdata[OF b' d'(1)] u(2) d'(1) by simp
  qed
  moreover have X: "X \<subseteq> dom (g_vertex g)"
    using U(2) graph_invD(3)[OF U(1)] by blast
  then have "finite X"
    using finite_subset graph_inv_finite[OF U(1)] by blast
  moreover have "X \<subseteq> dom (vdata s')"
    using X u(2) vdata_dom[of s'] by simp
  moreover have "executed s' = executed s"
    using u(2) by (simp add: executed_def)
  ultimately show ?thesis
    using that[of X] b' ex u(3) by blast
qed

end
