(* ===== verification/RCC_Wait.thy ===== *)
theory RCC_Wait
  imports RCC_Inv
begin

text \<open>
  What the transactions of a server wait for (\<open>RCC\<close>). The invariant: each ball is triggered, or will be, exactly as often as it waits for,
  balls whose status has been reached are about to be triggered, waiting for decisions is free of cycles, and what is waited for is decided
  here or asked for. This theory has its parts and the lemmas about the kinds of changes that steps make.
\<close>

subsection \<open>Counting\<close>

definition evs :: "'db server \<Rightarrow> vid \<Rightarrow> (i8 \<times> ball list) list" where
  "evs s v = (case vdata s v of Some d \<Rightarrow> ti_events d | None \<Rightarrow> [])"

definition ev_count :: "ball \<Rightarrow> (i8 \<times> ball list) list \<Rightarrow> nat" where
  "ev_count b es = sum_list (map (\<lambda>e. count_list (snd e) b) es)"

definition registered :: "'db server \<Rightarrow> ball \<Rightarrow> nat" where
  "registered s b = (\<Sum>v \<in> dom (vdata s). ev_count b (evs s v))"

fun act_ball :: "ball \<Rightarrow> action \<Rightarrow> bool" where
  "act_ball b (ABall b') = (b' = b)"
| "act_ball b (ARegister _ _ b') = (b' = b)"
| "act_ball b (AWaitOn _ _ b') = (b' = b)"
| "act_ball b _ = False"

definition pending :: "ball \<Rightarrow> action list \<Rightarrow> nat" where
  "pending b st = length (filter (act_ball b) st)"

lemma pending_simps [simp]: "pending b [] = 0" "pending b (a # st) = (if act_ball b a then Suc (pending b st) else pending b st)"
  "pending b (st @ st') = pending b st + pending b st'"
  by (simp_all add: pending_def)

lemma pending_zero: "pending b st = 0 \<longleftrightarrow> (\<forall>a \<in> set st. \<not> act_ball b a)"
  by (auto simp: pending_def filter_empty_conv)

lemma pending_map_trigger [simp]: "pending b (map (\<lambda>v. ATrigger v (f v)) vs) = 0"
  by (simp add: pending_zero)

definition ev_at :: "(i8 \<times> ball list) list \<Rightarrow> i8 \<Rightarrow> ball list" where
  "ev_at es k = (case map_of es k of Some bs \<Rightarrow> bs | None \<Rightarrow> [])"

lemma ev_count_put:
  assumes "smap_inv es"
  shows "ev_count b (smap_put k bs es) + count_list (ev_at es k) b = ev_count b es + count_list bs b"
  using assms
proof (induction es)
  case (Cons e es)
  obtain k' bs' where e: "e = (k', bs')"
    by (cases e)
  have inv: "smap_inv es" "\<And>k0. k0 \<in> fst ` set es \<Longrightarrow> k' < k0"
    using Cons.prems by (auto simp: smap_inv_def e)
  have none: "map_of es k = None" if "k \<le> k'"
    using inv(2) that by (force simp: map_of_eq_None_iff)
  consider "k < k'" | "k = k'" | "k' < k"
    by force
  then show ?case
  proof cases
    case 3
    then show ?thesis
      using Cons.IH[OF inv(1)] by (auto simp: e ev_count_def ev_at_def)
  qed (use none in \<open>auto simp: e ev_count_def ev_at_def\<close>)
qed (simp add: ev_count_def ev_at_def)

lemma ev_at_put: "smap_inv es \<Longrightarrow> ev_at (smap_put k bs es) k' = (if k' = k then bs else ev_at es k')"
  by (simp add: ev_at_def smap_lookup_put)

lemma ev_count_zero:
  assumes "smap_inv es"
  shows "ev_count b es = 0 \<longleftrightarrow> (\<forall>k. b \<notin> set (ev_at es k))"
proof -
  have "ev_count b es = 0 \<longleftrightarrow> (\<forall>e \<in> set es. b \<notin> set (snd e))"
    by (auto simp: ev_count_def count_list_0_iff)
  also have "\<dots> \<longleftrightarrow> (\<forall>k. b \<notin> set (ev_at es k))"
  proof
    assume l: "\<forall>e \<in> set es. b \<notin> set (snd e)"
    show "\<forall>k. b \<notin> set (ev_at es k)"
    proof
      fix k
      show "b \<notin> set (ev_at es k)"
      proof (cases "map_of es k")
        case (Some bs)
        then show ?thesis
          using bspec[OF l map_of_SomeD[OF Some]] by (simp add: ev_at_def)
      qed (simp add: ev_at_def)
    qed
  next
    assume r: "\<forall>k. b \<notin> set (ev_at es k)"
    show "\<forall>e \<in> set es. b \<notin> set (snd e)"
    proof
      fix e
      assume "e \<in> set es"
      then have "map_of es (fst e) = Some (snd e)"
        using map_of_eq_Some_iff[OF smap_inv_distinct[OF assms], of "fst e" "snd e"] by simp
      then show "b \<notin> set (snd e)"
        using r[rule_format, of "fst e"] by (simp add: ev_at_def)
    qed
  qed
  finally show ?thesis .
qed

lemma evs_ok: "base_ok s \<Longrightarrow> smap_inv (evs s v)" "base_ok s \<Longrightarrow> fst ` set (evs s v) \<subseteq> {TXN_CMT, TXN_DCD}"
  using base_okD(4)[of s v] by (cases "vdata s v"; simp add: evs_def data_ok_def smap_inv_def)+

lemma vdata_finite: "base_ok s \<Longrightarrow> finite (dom (vdata s))"
  using graph_inv_finite[OF base_okD(1)] by (simp add: vdata_dom)

lemma evs_outside: "v \<notin> dom (vdata s) \<Longrightarrow> ev_count b (evs s v) = 0"
  by (simp add: evs_def ev_count_def domIff)

lemma registered_zero:
  assumes "base_ok s"
  shows "registered s b = 0 \<longleftrightarrow> (\<forall>v k. b \<notin> set (ev_at (evs s v) k))"
proof -
  have "registered s b = 0 \<longleftrightarrow> (\<forall>v \<in> dom (vdata s). ev_count b (evs s v) = 0)"
    using vdata_finite[OF assms] by (simp add: registered_def)
  also have "\<dots> \<longleftrightarrow> (\<forall>v. ev_count b (evs s v) = 0)"
    using evs_outside by blast
  also have "\<dots> \<longleftrightarrow> (\<forall>v k. b \<notin> set (ev_at (evs s v) k))"
    using ev_count_zero[OF evs_ok(1)[OF assms]] by simp
  finally show ?thesis .
qed

lemma registered_put:
  assumes "base_ok s" "vdata s v = Some d" "\<And>u. evs s' u = (if u = v then es else evs s u)" "dom (vdata s') = dom (vdata s)"
  shows "registered s' b + ev_count b (evs s v) = registered s b + ev_count b es"
proof -
  have v: "v \<in> dom (vdata s)"
    using assms(2) by blast
  have "registered s' b = ev_count b es + (\<Sum>u \<in> dom (vdata s) - {v}. ev_count b (evs s u))"
    unfolding registered_def assms(4) using sum.remove[OF vdata_finite[OF assms(1)] v, of "\<lambda>u. ev_count b (evs s' u)"] assms(3) by simp
  moreover have "registered s b = ev_count b (evs s v) + (\<Sum>u \<in> dom (vdata s) - {v}. ev_count b (evs s u))"
    unfolding registered_def using sum.remove[OF vdata_finite[OF assms(1)] v, of "\<lambda>u. ev_count b (evs s u)"] by simp
  ultimately show ?thesis
    by simp
qed

lemma ext_new:
  assumes "ext X s s'" "vdata s v = None" "vdata s' v = Some d'"
  shows "data_ok d'" "ti_events d' = []" "\<not> ti_during_commit d'" "\<not> ti_during_asking d'" "ti_res d' = None"
  using gext_new[of X "sv_gra s" "sv_gra s'" v d'] assms unfolding ext_def vdata_gdata by blast+

lemma evs_ext:
  assumes "ext X s s'"
  shows "evs s' v = evs s v"
proof (cases "vdata s v")
  case None
  show ?thesis
  proof (cases "vdata s' v")
    case (Some d')
    then show ?thesis
      using ext_new(2)[OF assms None Some] None by (simp add: evs_def)
  qed (use None in \<open>simp add: evs_def\<close>)
next
  case (Some d)
  obtain d' where "vdata s' v = Some d'" "data_le d d'"
    using ext_old[OF assms Some] by blast
  then show ?thesis
    using Some by (simp add: evs_def data_le_def)
qed

lemma registered_ext:
  assumes "base_ok s" "base_ok s'" "ext X s s'"
  shows "registered s' b = registered s b"
proof -
  have sub: "dom (vdata s) \<subseteq> dom (vdata s')"
  proof
    fix v
    assume "v \<in> dom (vdata s)"
    then obtain d where "vdata s v = Some d"
      by blast
    then show "v \<in> dom (vdata s')"
      using ext_old[OF assms(3)] by blast
  qed
  have "(\<Sum>v \<in> dom (vdata s'). ev_count b (evs s v)) = (\<Sum>v \<in> dom (vdata s). ev_count b (evs s v))"
    using evs_outside by (intro sum.mono_neutral_right[OF vdata_finite[OF assms(2)] sub]) blast
  then show ?thesis
    unfolding registered_def evs_ext[OF assms(3)] .
qed

subsection \<open>The invariant\<close>

fun waiter :: "wish \<Rightarrow> vid option" where
  "waiter (AncFinish v _) = Some v"
| "waiter (SccCommit v _) = Some v"
| "waiter _ = None"

fun wish_key :: "wish \<Rightarrow> i8" where
  "wish_key (AncFinish _ _) = TXN_CMT"
| "wish_key (SccCommit _ _) = TXN_DCD"
| "wish_key (AskReply _ _) = TXN_CMT"
| "wish_key (RoReply _) = TXN_DCD"

text \<open>Every ball is triggered, or will be, exactly as often as it waits for.\<close>

definition acct :: "'db server \<Rightarrow> action list \<Rightarrow> bool" where
  "acct s st \<longleftrightarrow> (\<forall>b. case sv_balls s b of
       None \<Rightarrow> registered s b + pending b st = 0
     | Some (bl, w) \<Rightarrow> \<not> db_called bl \<and> db_n_ready bl < db_n_wait bl \<and> db_n_ready bl + int (registered s b + pending b st) = db_n_wait bl)
     \<and> (\<forall>b \<ge> sv_next s. sv_balls s b = None)"

text \<open>Balls that are registered for a status that has been reached are about to be triggered.\<close>

definition reached :: "'db server \<Rightarrow> action list \<Rightarrow> bool" where
  "reached s st \<longleftrightarrow> (\<forall>v d k. vdata s v = Some d \<and> ev_at (ti_events d) k \<noteq> [] \<and> k \<le>s ti_status d \<longrightarrow> (\<exists>n \<le> unat k. ATrigger v n \<in> set st))"

text \<open>A transaction whose decision has begun is decided or waits, apart from those in \<open>Y\<close>; decisions begin for transactions that are committing.\<close>

definition finishing :: "'db rcc_env \<Rightarrow> txn_info \<Rightarrow> bool" where
  "finishing E d \<longleftrightarrow> is_finish d \<or> is_commit d \<or> is_involved (ev_site E) d"

definition deciding :: "'db rcc_env \<Rightarrow> vid set \<Rightarrow> 'db server \<Rightarrow> action list \<Rightarrow> bool" where
  "deciding E Y s st \<longleftrightarrow>
     (\<forall>v d. vdata s v = Some d \<and> ti_during_commit d \<and> \<not> is_commit d \<and> v \<notin> Y \<longrightarrow> (\<exists>b bl w. sv_balls s b = Some (bl, w) \<and> waiter w = Some v))
     \<and> (\<forall>v d. vdata s v = Some d \<and> ti_res d \<noteq> None \<longrightarrow> ti_during_commit d \<or> (\<exists>r. ADecide v r \<in> set st))
     \<and> (\<forall>v d. vdata s v = Some d \<and> (ti_during_commit d \<or> (\<exists>r. ADecide v r \<in> set st)) \<longrightarrow> finishing E d)"

definition waits :: "'db server \<Rightarrow> action list \<Rightarrow> vid \<Rightarrow> i8 \<Rightarrow> ball \<Rightarrow> bool" where
  "waits s st v k b \<longleftrightarrow> b \<in> set (ev_at (evs s v) k) \<or> AWaitOn v k b \<in> set st \<or> ARegister v k b \<in> set st"

definition wait_rel :: "'db server \<Rightarrow> action list \<Rightarrow> (vid \<times> vid) set" where
  "wait_rel s st = {(x, v). \<exists>b bl r k. sv_balls s b = Some (bl, SccCommit x r) \<and> waits s st v k b}"

text \<open>Balls wait on ancestors, and waiting for decisions has no cycles.\<close>

definition waiting :: "'db server \<Rightarrow> action list \<Rightarrow> bool" where
  "waiting s st \<longleftrightarrow> (\<forall>b bl w v k. sv_balls s b = Some (bl, w) \<and> waits s st v k b \<longrightarrow>
       k = wish_key w \<and> (\<forall>x. waiter w = Some x \<longrightarrow> (x, v) \<in> (parent_rel (sv_gra s))\<^sup>+))
     \<and> acyclic (wait_rel s st)"

text \<open>What is waited for is this server's own, decided, being decided, or asked for.\<close>

definition minded :: "'db rcc_env \<Rightarrow> 'db server \<Rightarrow> action list \<Rightarrow> vid \<Rightarrow> bool" where
  "minded E s st v \<longleftrightarrow> (\<exists>d. vdata s v = Some d \<and>
     (is_involved (ev_site E) d \<or> is_commit d \<or> ti_during_commit d \<or> ti_during_asking d \<or> AAsk v \<in> set st \<or> ADecide v None \<in> set st))"

definition asking :: "'db rcc_env \<Rightarrow> 'db server \<Rightarrow> action list \<Rightarrow> bool" where
  "asking E s st \<longleftrightarrow>
     (\<forall>b bl w v k. sv_balls s b = Some (bl, w) \<and> waiter w \<noteq> None \<and> b \<in> set (ev_at (evs s v) k) \<longrightarrow> minded E s st v)
     \<and> (\<forall>v d. vdata s v = Some d \<and> ti_during_asking d \<longrightarrow> v \<in> set (sv_asked s) \<or> ti_during_commit d \<or> ADecide v None \<in> set st)
     \<and> (\<forall>b bl w v k. sv_balls s b = Some (bl, w) \<and> ARegister v k b \<in> set st \<longrightarrow> waiter w = None)"

definition rcc_inv :: "'db rcc_env \<Rightarrow> vid set \<Rightarrow> 'db server \<Rightarrow> action list \<Rightarrow> bool" where
  "rcc_inv E Y s st \<longleftrightarrow> base_ok s \<and> exec_ok s \<and> acct s st \<and> reached s st \<and> deciding E Y s st \<and> waiting s st \<and> asking E s st"

lemma rcc_invD:
  assumes "rcc_inv E Y s st"
  shows "base_ok s" "exec_ok s" "acct s st" "reached s st" "deciding E Y s st" "waiting s st" "asking E s st"
  using assms unfolding rcc_inv_def by blast+

lemma acctD:
  assumes "acct s st"
  shows "sv_balls s b = None \<Longrightarrow> registered s b = 0 \<and> pending b st = 0"
    "sv_balls s b = Some (bl, w) \<Longrightarrow> \<not> db_called bl \<and> db_n_ready bl < db_n_wait bl \<and> db_n_ready bl + int (registered s b + pending b st) = db_n_wait bl"
    "sv_next s \<le> b \<Longrightarrow> sv_balls s b = None"
  using assms unfolding acct_def by (auto dest: spec[of _ b])

lemma acctI:
  assumes "\<And>b. sv_balls s b = None \<Longrightarrow> registered s b = 0 \<and> pending b st = 0"
    "\<And>b bl w. sv_balls s b = Some (bl, w) \<Longrightarrow> \<not> db_called bl \<and> db_n_ready bl < db_n_wait bl \<and> db_n_ready bl + int (registered s b + pending b st) = db_n_wait bl"
    "\<And>b. sv_next s \<le> b \<Longrightarrow> sv_balls s b = None"
  shows "acct s st"
  using assms unfolding acct_def by (auto split: option.splits)

lemma askingD:
  assumes "asking E s st"
  shows "sv_balls s b = Some (bl, w) \<Longrightarrow> waiter w \<noteq> None \<Longrightarrow> b \<in> set (ev_at (evs s v) k) \<Longrightarrow> minded E s st v"
    "vdata s v = Some d \<Longrightarrow> ti_during_asking d \<Longrightarrow> v \<in> set (sv_asked s) \<or> ti_during_commit d \<or> ADecide v None \<in> set st"
    "sv_balls s b = Some (bl, w) \<Longrightarrow> ARegister v k b \<in> set st \<Longrightarrow> waiter w = None"
  using assms unfolding asking_def by blast+

lemma askingI:
  assumes "\<And>b bl w v k. sv_balls s b = Some (bl, w) \<Longrightarrow> waiter w \<noteq> None \<Longrightarrow> b \<in> set (ev_at (evs s v) k) \<Longrightarrow> minded E s st v"
    "\<And>v d. vdata s v = Some d \<Longrightarrow> ti_during_asking d \<Longrightarrow> v \<in> set (sv_asked s) \<or> ti_during_commit d \<or> ADecide v None \<in> set st"
    "\<And>b bl w v k. sv_balls s b = Some (bl, w) \<Longrightarrow> ARegister v k b \<in> set st \<Longrightarrow> waiter w = None"
  shows "asking E s st"
  using assms unfolding asking_def by blast

lemma decidingD:
  assumes "deciding E Y s st" "vdata s v = Some d"
  shows "ti_during_commit d \<Longrightarrow> \<not> is_commit d \<Longrightarrow> v \<notin> Y \<Longrightarrow> \<exists>b bl w. sv_balls s b = Some (bl, w) \<and> waiter w = Some v"
    "ti_res d \<noteq> None \<Longrightarrow> ti_during_commit d \<or> (\<exists>r. ADecide v r \<in> set st)"
    "ti_during_commit d \<Longrightarrow> finishing E d" "ADecide v r \<in> set st \<Longrightarrow> finishing E d"
  using assms unfolding deciding_def by blast+

lemma decidingI:
  assumes "\<And>v d. vdata s v = Some d \<Longrightarrow> ti_during_commit d \<Longrightarrow> \<not> is_commit d \<Longrightarrow> v \<notin> Y \<Longrightarrow> \<exists>b bl w. sv_balls s b = Some (bl, w) \<and> waiter w = Some v"
    "\<And>v d. vdata s v = Some d \<Longrightarrow> ti_res d \<noteq> None \<Longrightarrow> ti_during_commit d \<or> (\<exists>r. ADecide v r \<in> set st)"
    "\<And>v d. vdata s v = Some d \<Longrightarrow> ti_during_commit d \<Longrightarrow> finishing E d"
    "\<And>v d r. vdata s v = Some d \<Longrightarrow> ADecide v r \<in> set st \<Longrightarrow> finishing E d"
  shows "deciding E Y s st"
  using assms unfolding deciding_def by blast

lemma waitingD:
  assumes "waiting s st"
  shows "sv_balls s b = Some (bl, w) \<Longrightarrow> waits s st v k b \<Longrightarrow> k = wish_key w"
    "sv_balls s b = Some (bl, w) \<Longrightarrow> waits s st v k b \<Longrightarrow> waiter w = Some x \<Longrightarrow> (x, v) \<in> (parent_rel (sv_gra s))\<^sup>+"
    "acyclic (wait_rel s st)"
  using assms unfolding waiting_def by blast+

lemma waiting_mono:
  assumes "waiting s st" "sv_balls s' \<subseteq>\<^sub>m sv_balls s" "parent_rel (sv_gra s) \<subseteq> parent_rel (sv_gra s')"
    and "\<And>v k b. b \<in> dom (sv_balls s') \<Longrightarrow> waits s' st' v k b \<Longrightarrow> waits s st v k b"
  shows "waiting s' st'"
proof -
  have b: "sv_balls s b = Some (bl, w)" if "sv_balls s' b = Some (bl, w)" for b bl w
    using assms(2) that unfolding map_le_def by (metis domI)
  have p: "(parent_rel (sv_gra s))\<^sup>+ \<subseteq> (parent_rel (sv_gra s'))\<^sup>+"
    using trancl_mono assms(3) by blast
  have w: "waits s st v k c" if "sv_balls s' c = Some (bl, w)" "waits s' st' v k c" for c bl w v k
    using assms(4)[of c v k] that by blast
  have "wait_rel s' st' \<subseteq> wait_rel s st"
    unfolding wait_rel_def using b w by blast
  then have "acyclic (wait_rel s' st')"
    using assms(1) acyclic_subset unfolding waiting_def by blast
  moreover have "k = wish_key wi \<and> (\<forall>x. waiter wi = Some x \<longrightarrow> (x, v) \<in> (parent_rel (sv_gra s'))\<^sup>+)"
    if "sv_balls s' c = Some (bl, wi)" "waits s' st' v k c" for c bl wi v k
    using assms(1) b[OF that(1)] w[OF that] p unfolding waiting_def by blast
  ultimately show ?thesis
    unfolding waiting_def by blast
qed

subsection \<open>Steps that leave the balls alone\<close>

text \<open>The actions that the other parts of the invariant look for.\<close>

fun marks :: "action \<Rightarrow> bool" where
  "marks (ATrigger _ _) = True"
| "marks (AAsk _) = True"
| "marks (ADecide _ _) = True"
| "marks _ = False"

lemma ext_back:
  assumes "ext X s s'" "vdata s' v = Some d'"
  shows "(\<exists>d. vdata s v = Some d \<and> data_le d d' \<and> (v \<notin> X \<longrightarrow> ti_status d' = ti_status d))
    \<or> vdata s v = None \<and> ti_events d' = [] \<and> \<not> ti_during_commit d' \<and> \<not> ti_during_asking d' \<and> ti_res d' = None"
proof (cases "vdata s v")
  case None
  then show ?thesis
    using ext_new[OF assms(1) None assms(2)] by blast
next
  case (Some d)
  obtain d2 where "vdata s' v = Some d2" "data_le d d2" "v \<notin> X \<Longrightarrow> ti_status d2 = ti_status d"
    using ext_old[OF assms(1) Some] by blast
  then show ?thesis
    using assms(2) Some by simp
qed

lemma reached_ext:
  assumes "reached s st" "ext X s s'" "\<And>a. a \<in> set st \<Longrightarrow> marks a \<Longrightarrow> a \<in> set st'" "\<And>v. v \<in> X \<Longrightarrow> ATrigger v 0 \<in> set st'"
  shows "reached s' st'"
  unfolding reached_def
proof (intro allI impI)
  fix v d' k
  assume a: "vdata s' v = Some d' \<and> ev_at (ti_events d') k \<noteq> [] \<and> k \<le>s ti_status d'"
  show "\<exists>n \<le> unat k. ATrigger v n \<in> set st'"
  proof (cases "v \<in> X")
    case True
    then show ?thesis
      using assms(4) by blast
  next
    case False
    then obtain d where d: "vdata s v = Some d" "data_le d d'" "ti_status d' = ti_status d"
      using ext_back[OF assms(2), of v d'] a by (auto simp: ev_at_def)
    then have "ti_events d' = ti_events d"
      by (simp add: data_le_def)
    then obtain n where "n \<le> unat k" "ATrigger v n \<in> set st"
      using assms(1) d a unfolding reached_def by metis
    then show ?thesis
      using assms(3)[of "ATrigger v n"] by auto
  qed
qed

lemma reached_more:
  assumes "reached s st" "\<And>v n. ATrigger v n \<in> set st \<Longrightarrow> ATrigger v n \<in> set st'"
  shows "reached s st'"
  using assms unfolding reached_def by metis

lemma finishing_le: "data_le d d' \<Longrightarrow> finishing E d \<Longrightarrow> finishing E d'"
  using data_le_or unfolding finishing_def by blast

lemma deciding_ext:
  assumes "deciding E Y s st" "ext X s s'" "\<And>a. a \<in> set st \<Longrightarrow> marks a \<Longrightarrow> a \<in> set st'"
    and "\<And>v r d'. ADecide v r \<in> set st' \<Longrightarrow> vdata s' v = Some d' \<Longrightarrow> ADecide v r \<in> set st \<and> vdata s v \<noteq> None \<or> finishing E d'"
    and "\<And>v d'. v \<in> Y - Y' \<Longrightarrow> vdata s' v = Some d' \<Longrightarrow> is_commit d'"
  shows "deciding E Y' s' st'"
proof -
  have b: "sv_balls s' = sv_balls s"
    using assms(2) by (simp add: ext_def)
  have "\<exists>b bl w. sv_balls s' b = Some (bl, w) \<and> waiter w = Some v"
    if v: "vdata s' v = Some d'" "ti_during_commit d'" "\<not> is_commit d'" "v \<notin> Y'" for v d'
  proof -
    have "v \<notin> Y"
      using v assms(5) by blast
    obtain d where d: "vdata s v = Some d" "data_le d d'"
      using ext_back[OF assms(2) v(1)] v(2) by blast
    then have "ti_during_commit d" "\<not> is_commit d"
      using v data_le_or(1) by (auto simp: data_le_def)
    then show ?thesis
      using assms(1) d(1) \<open>v \<notin> Y\<close> b unfolding deciding_def by metis
  qed
  moreover have "ti_during_commit d' \<or> (\<exists>r. ADecide v r \<in> set st')" if v: "vdata s' v = Some d'" "ti_res d' \<noteq> None" for v d'
  proof -
    obtain d where d: "vdata s v = Some d" "data_le d d'"
      using ext_back[OF assms(2) v(1)] v(2) by blast
    then have "ti_during_commit d \<or> (\<exists>r. ADecide v r \<in> set st)"
      using assms(1) v(2) unfolding deciding_def data_le_def by metis
    then show ?thesis
      using d(2) assms(3) unfolding data_le_def by fastforce
  qed
  moreover have "finishing E d'" if v: "vdata s' v = Some d'" "ti_during_commit d' \<or> (\<exists>r. ADecide v r \<in> set st')" for v d'
  proof -
    consider "finishing E d'" | "ti_during_commit d'" | r where "ADecide v r \<in> set st" "vdata s v \<noteq> None"
      using v assms(4) by blast
    then show ?thesis
    proof cases
      case 2
      obtain d where d: "vdata s v = Some d" "data_le d d'"
        using ext_back[OF assms(2) v(1)] 2 by blast
      then have "ti_during_commit d"
        using 2 by (simp add: data_le_def)
      then show ?thesis
        using assms(1) d finishing_le unfolding deciding_def by blast
    next
      case 3
      obtain d where d: "vdata s v = Some d" "data_le d d'"
        using ext_back[OF assms(2) v(1)] 3(2) by blast
      then show ?thesis
        using assms(1) 3(1) finishing_le unfolding deciding_def by blast
    qed
  qed
  ultimately show ?thesis
    unfolding deciding_def by blast
qed

lemma minded_ext:
  assumes "minded E s st v" "ext X s s'" "\<And>a. a \<in> set st \<Longrightarrow> marks a \<Longrightarrow> a \<in> set st'"
  shows "minded E s' st' v"
proof -
  obtain d where d: "vdata s v = Some d" "is_involved (ev_site E) d \<or> is_commit d \<or> ti_during_commit d \<or> ti_during_asking d \<or> AAsk v \<in> set st \<or> ADecide v None \<in> set st"
    using assms(1) unfolding minded_def by blast
  obtain d' where d': "vdata s' v = Some d'" "data_le d d'"
    using ext_old[OF assms(2) d(1)] by blast
  then show ?thesis
    using d(2) data_le_or[OF d'(2)] assms(3)[of "AAsk v"] assms(3)[of "ADecide v None"] by (auto simp: minded_def data_le_def)
qed

lemma asking_ext:
  assumes "asking E s st" "ext X s s'" "\<And>a. a \<in> set st \<Longrightarrow> marks a \<Longrightarrow> a \<in> set st'"
    and "\<And>v k b. ARegister v k b \<in> set st' \<Longrightarrow> ARegister v k b \<in> set st"
  shows "asking E s' st'"
proof (rule askingI)
  have b: "sv_balls s' = sv_balls s" "sv_asked s' = sv_asked s"
    using assms(2) by (simp_all add: ext_def)
  show "minded E s' st' v" if "sv_balls s' c = Some (bl, w)" "waiter w \<noteq> None" "c \<in> set (ev_at (evs s' v) k)" for c bl w v k
    using minded_ext[OF askingD(1)[OF assms(1)] assms(2)] that assms(3) unfolding b evs_ext[OF assms(2)] by blast
  show "v \<in> set (sv_asked s') \<or> ti_during_commit d' \<or> ADecide v None \<in> set st'" if v: "vdata s' v = Some d'" "ti_during_asking d'" for v d'
  proof -
    obtain d where d: "vdata s v = Some d" "data_le d d'"
      using ext_back[OF assms(2) v(1)] v(2) by blast
    then have "v \<in> set (sv_asked s) \<or> ti_during_commit d \<or> ADecide v None \<in> set st"
      using askingD(2)[OF assms(1) d(1)] v(2) unfolding data_le_def by metis
    then show ?thesis
      using d(2) assms(3)[of "ADecide v None"] b by (auto simp: data_le_def)
  qed
  show "waiter w = None" if "sv_balls s' c = Some (bl, w)" "ARegister v k c \<in> set st'" for c bl w v k
    using askingD(3)[OF assms(1)] assms(4) that unfolding b by blast
qed

lemma rcc_inv_ext:
  assumes "rcc_inv E Y s st" "ext X s s'" "base_ok s'" "exec_ok s'"
    and "\<And>a. a \<in> set st \<Longrightarrow> marks a \<Longrightarrow> a \<in> set st'" "\<And>v. v \<in> X \<Longrightarrow> ATrigger v 0 \<in> set st'"
    and "\<And>v r d'. ADecide v r \<in> set st' \<Longrightarrow> vdata s' v = Some d' \<Longrightarrow> ADecide v r \<in> set st \<and> vdata s v \<noteq> None \<or> finishing E d'"
    and "\<And>v d'. v \<in> Y - Y' \<Longrightarrow> vdata s' v = Some d' \<Longrightarrow> is_commit d'"
    and "\<And>v k b. ARegister v k b \<in> set st' \<Longrightarrow> ARegister v k b \<in> set st" "\<And>v k b. AWaitOn v k b \<in> set st' \<Longrightarrow> AWaitOn v k b \<in> set st"
    and "\<And>b. pending b st' = pending b st"
  shows "rcc_inv E Y' s' st'"
proof -
  note I = rcc_invD[OF assms(1)]
  have b: "sv_balls s' = sv_balls s" "sv_next s' = sv_next s"
    using assms(2) by (simp_all add: ext_def)
  have "acct s' st'"
    using I(3) unfolding acct_def b registered_ext[OF I(1) assms(3,2)] assms(11) .
  moreover have "reached s' st'"
    by (rule reached_ext[OF I(4) assms(2)]) (use assms(5,6) in blast)+
  moreover have "deciding E Y' s' st'"
    by (rule deciding_ext[OF I(5) assms(2)]) (use assms(5,7,8) in blast)+
  moreover have "waiting s' st'"
  proof (rule waiting_mono[OF I(6)])
    show "parent_rel (sv_gra s) \<subseteq> parent_rel (sv_gra s')"
      using assms(2) gext_parents by (auto simp: ext_def)
    show "waits s st v k c" if "waits s' st' v k c" for v k c
      using that assms(9,10) evs_ext[OF assms(2)] unfolding waits_def by metis
  qed (simp add: b)
  moreover have "asking E s' st'"
    by (rule asking_ext[OF I(7) assms(2)]) (use assms(5,9) in blast)+
  ultimately show ?thesis
    using assms(3,4) unfolding rcc_inv_def by blast
qed

subsection \<open>Balls\<close>

lemma acyclic_wait:
  assumes "acyclic R" "R \<subseteq> P\<^sup>+" "\<And>u. u \<in> set vs \<Longrightarrow> (x, u) \<in> P\<^sup>+ \<and> (u, x) \<notin> P\<^sup>*"
  shows "acyclic (R \<union> {x} \<times> set vs)"
  using assms(3)
proof (induction vs)
  case Nil
  then show ?case
    using assms(1) by simp
next
  case (Cons u vs)
  let ?R = "R \<union> {x} \<times> set vs"
  have sub: "?R \<subseteq> P\<^sup>+"
    using assms(2) Cons.prems by auto
  have "(u, x) \<notin> ?R\<^sup>*"
  proof
    assume "(u, x) \<in> ?R\<^sup>*"
    then have "(u, x) \<in> (P\<^sup>+)\<^sup>*"
      using rtrancl_mono[OF sub] by blast
    then show False
      using Cons.prems[of u] by simp
  qed
  moreover have "R \<union> {x} \<times> set (u # vs) = insert (x, u) ?R"
    by auto
  ultimately show ?case
    using Cons.IH Cons.prems by (auto simp: acyclic_insert)
qed

lemma wait_rel_parents:
  assumes "waiting s st"
  shows "wait_rel s st \<subseteq> (parent_rel (sv_gra s))\<^sup>+"
  using assms unfolding waiting_def wait_rel_def by fastforce

lemma fresh_ball:
  assumes "rcc_inv E Y s st"
  shows "sv_balls s (sv_next s) = None" "\<not> waits s st v k (sv_next s)"
proof -
  note I = rcc_invD[OF assms]
  show n: "sv_balls s (sv_next s) = None"
    using acctD(3)[OF I(3)] by simp
  then show "\<not> waits s st v k (sv_next s)"
    using acctD(1)[OF I(3)] registered_zero[OF I(1)] unfolding waits_def pending_zero by force
qed

text \<open>A new ball, with the actions that will register it.\<close>

lemma new_ball_inv:
  assumes "rcc_inv E Y s st" "b = sv_next s" "s' = s\<lparr>sv_balls := (sv_balls s)(b \<mapsto> (db_new (int n), w)), sv_next := Suc b\<rparr>"
    and "pending b as = n" "0 < n" "\<And>c. c \<noteq> b \<Longrightarrow> pending c as = 0" "\<And>a. a \<in> set as \<Longrightarrow> \<not> marks a"
    and "\<And>v k. AWaitOn v k b \<in> set as \<Longrightarrow> k = wish_key w \<and> v \<in> set vs"
    and "\<And>v k. ARegister v k b \<in> set as \<Longrightarrow> k = wish_key w \<and> v \<in> set vs \<and> waiter w = None"
    and "\<And>x u. waiter w = Some x \<Longrightarrow> u \<in> set vs \<Longrightarrow> (x, u) \<in> (parent_rel (sv_gra s))\<^sup>+"
    and "\<And>x r u. w = SccCommit x r \<Longrightarrow> u \<in> set vs \<Longrightarrow> (u, x) \<notin> (parent_rel (sv_gra s))\<^sup>*"
  shows "rcc_inv E (Y - set_option (waiter w)) s' (as @ st)"
proof -
  note I = rcc_invD[OF assms(1)]
  note fresh = fresh_ball[OF assms(1), folded assms(2)]
  have v: "vdata s' = vdata s" "sv_gra s' = sv_gra s" "evs s' = evs s" "registered s' = registered s" "sv_asked s' = sv_asked s"
    using assms(3) by (auto simp: fun_eq_iff evs_def registered_def)
  have balls: "sv_balls s' = (sv_balls s)(b \<mapsto> (db_new (int n), w))" "sv_next s' = Suc b"
    using assms(3) by simp_all
  have "base_ok s'"
    using I(1) unfolding base_ok_def rows_ok_def v using assms(3) by auto
  moreover have "exec_ok s'"
    using I(2) assms(3) unfolding exec_ok_def v by (simp add: executed_def)
  moreover have "acct s' (as @ st)"
  proof (rule acctI)
    fix c
    assume c: "sv_balls s' c = None"
    then have "c \<noteq> b" "sv_balls s c = None"
      by (auto simp: balls split: if_splits)
    then show "registered s' c = 0 \<and> pending c (as @ st) = 0"
      using acctD(1)[OF I(3)] assms(6) v by simp
  next
    fix c bl w'
    assume c: "sv_balls s' c = Some (bl, w')"
    show "\<not> db_called bl \<and> db_n_ready bl < db_n_wait bl \<and> db_n_ready bl + int (registered s' c + pending c (as @ st)) = db_n_wait bl"
    proof (cases "c = b")
      case True
      then show ?thesis
        using c assms(4,5) acctD(1)[OF I(3) fresh(1)] v by (auto simp: balls db_new_def)
    next
      case False
      then show ?thesis
        using c acctD(2)[OF I(3), of c bl w'] assms(6) v by (simp add: balls)
    qed
  next
    fix c
    assume "sv_next s' \<le> c"
    then show "sv_balls s' c = None"
      using acctD(3)[OF I(3), of c] assms(2) by (simp add: balls)
  qed
  moreover have "reached s' (as @ st)"
    using reached_more[OF I(4), of "as @ st"] unfolding reached_def v by simp
  moreover have "deciding E (Y - set_option (waiter w)) s' (as @ st)"
  proof -
    have st: "ADecide u r \<in> set (as @ st) \<longleftrightarrow> ADecide u r \<in> set st" for u r
      using assms(7)[of "ADecide u r"] by auto
    have "\<exists>c bl w'. sv_balls s' c = Some (bl, w') \<and> waiter w' = Some u"
      if u: "vdata s u = Some d" "ti_during_commit d" "\<not> is_commit d" "u \<notin> Y - set_option (waiter w)" for u d
    proof (cases "waiter w = Some u")
      case True
      then show ?thesis
        by (auto simp: balls)
    next
      case False
      then have "u \<notin> Y"
        using u(4) by (cases "waiter w") auto
      then obtain c bl w' where c: "sv_balls s c = Some (bl, w')" "waiter w' = Some u"
        using I(5) u(1-3) unfolding deciding_def by blast
      then have "c \<noteq> b"
        using fresh by auto
      then show ?thesis
        using c by (auto simp: balls)
    qed
    then show ?thesis
      using I(5) unfolding deciding_def v st by blast
  qed
  moreover have "waiting s' (as @ st)"
  proof -
    have old: "waits s st u k c" if "waits s' (as @ st) u k c" "c \<noteq> b" for u k c
    proof -
      have "AWaitOn u k c \<notin> set as" "ARegister u k c \<notin> set as"
        using assms(6)[OF that(2)] unfolding pending_zero by force+
      then show ?thesis
        using that(1) by (auto simp: waits_def v)
    qed
    have new: "k = wish_key w \<and> u \<in> set vs" if "waits s' (as @ st) u k b" for u k
      using that fresh(2)[of u k] assms(8,9)[of u k] by (auto simp: waits_def v)
    have "acyclic (wait_rel s' (as @ st))"
    proof (cases "\<exists>x r. w = SccCommit x r")
      case True
      then obtain x r where w: "w = SccCommit x r"
        by blast
      have "wait_rel s' (as @ st) \<subseteq> wait_rel s st \<union> {x} \<times> set vs"
      proof
        fix e
        assume "e \<in> wait_rel s' (as @ st)"
        then obtain y u c bl r' k where e: "e = (y, u)" "sv_balls s' c = Some (bl, SccCommit y r')" "waits s' (as @ st) u k c"
          by (auto simp: wait_rel_def)
        show "e \<in> wait_rel s st \<union> {x} \<times> set vs"
        proof (cases "c = b")
          case True
          then show ?thesis
            using e new[of u k] w by (simp add: balls)
        next
          case False
          then show ?thesis
            using e old[OF e(3) False] by (auto simp: balls wait_rel_def)
        qed
      qed
      moreover have "acyclic (wait_rel s st \<union> {x} \<times> set vs)"
        using I(6) by (intro acyclic_wait[OF _ wait_rel_parents[OF I(6)]]) (use assms(10,11) w in \<open>auto simp: waiting_def\<close>)
      ultimately show ?thesis
        using acyclic_subset by blast
    next
      case False
      have "wait_rel s' (as @ st) \<subseteq> wait_rel s st"
      proof
        fix e
        assume "e \<in> wait_rel s' (as @ st)"
        then obtain y u c bl r' k where e: "e = (y, u)" "sv_balls s' c = Some (bl, SccCommit y r')" "waits s' (as @ st) u k c"
          by (auto simp: wait_rel_def)
        then have c: "c \<noteq> b"
          using False by (auto simp: balls)
        then show "e \<in> wait_rel s st"
          using e old[OF e(3) c] by (auto simp: balls wait_rel_def)
      qed
      then show ?thesis
        using I(6) acyclic_subset unfolding waiting_def by blast
    qed
    moreover have "k = wish_key w' \<and> (\<forall>x. waiter w' = Some x \<longrightarrow> (x, u) \<in> (parent_rel (sv_gra s'))\<^sup>+)"
      if c: "sv_balls s' c = Some (bl, w')" "waits s' (as @ st) u k c" for c bl w' u k
    proof (cases "c = b")
      case True
      then show ?thesis
        using c new[of u k] assms(10)[of _ u] by (auto simp: balls v)
    next
      case False
      then show ?thesis
        using c old[OF c(2) False] I(6) unfolding waiting_def v by (metis balls(1) fun_upd_other)
    qed
    ultimately show ?thesis
      unfolding waiting_def by blast
  qed
  moreover have "asking E s' (as @ st)"
  proof (rule askingI)
    have st: "ADecide u r \<in> set (as @ st) \<longleftrightarrow> ADecide u r \<in> set st" "AAsk u \<in> set (as @ st) \<longleftrightarrow> AAsk u \<in> set st" for u r
      using assms(7)[of "ADecide u r"] assms(7)[of "AAsk u"] by auto
    show "minded E s' (as @ st) u" if c: "sv_balls s' c = Some (bl, w')" "waiter w' \<noteq> None" "c \<in> set (ev_at (evs s' u) k)" for c bl w' u k
    proof -
      have "c \<noteq> b"
        using fresh(2)[of u k] c(3) by (auto simp: waits_def v)
      then show ?thesis
        using askingD(1)[OF I(7), of c bl w' u k] c unfolding minded_def v st by (simp add: balls)
    qed
    show "u \<in> set (sv_asked s') \<or> ti_during_commit d \<or> ADecide u None \<in> set (as @ st)" if "vdata s' u = Some d" "ti_during_asking d" for u d
      using askingD(2)[OF I(7)] that unfolding v st by blast
    show "waiter w' = None" if c: "sv_balls s' c = Some (bl, w')" "ARegister u k c \<in> set (as @ st)" for c bl w' u k
    proof (cases "c = b")
      case True
      then show ?thesis
        using c assms(9)[of u k] fresh(2)[of u k] by (auto simp: balls waits_def)
    next
      case False
      then have "ARegister u k c \<notin> set as"
        using assms(6)[OF False] unfolding pending_zero by force
      then show ?thesis
        using False c askingD(3)[OF I(7), of c bl w' u k] by (simp add: balls)
    qed
  qed
  ultimately show ?thesis
    unfolding rcc_inv_def by blast
qed

text \<open>Steps that only change the stack or the balls.\<close>

lemma same_graph:
  assumes "sv_gra s' = sv_gra s"
  shows "vdata s' = vdata s" "evs s' = evs s" "registered s' = registered s"
proof -
  show v: "vdata s' = vdata s"
    using assms by (simp add: fun_eq_iff vdata_def)
  then show e: "evs s' = evs s"
    by (simp add: fun_eq_iff evs_def)
  then show "registered s' = registered s"
    unfolding registered_def[abs_def] v by simp
qed

lemma base_ok_balls [simp]: "base_ok (s\<lparr>sv_balls := x\<rparr>) \<longleftrightarrow> base_ok s" "exec_ok (s\<lparr>sv_balls := x\<rparr>) \<longleftrightarrow> exec_ok s"
  by (simp_all add: base_ok_def rows_ok_def exec_ok_def executed_def)

lemma ball_counts:
  assumes "rcc_inv E Y s (ABall b # st)"
  obtains bl w where "sv_balls s b = Some (bl, w)" "\<not> db_called bl" "db_n_ready bl + 1 \<le> db_n_wait bl"
    "db_n_ready bl + 1 + int (registered s b + pending b st) = db_n_wait bl"
proof (cases "sv_balls s b")
  case None
  then show ?thesis
    using acctD(1)[OF rcc_invD(3)[OF assms] None] by simp
next
  case (Some bw)
  then show ?thesis
    using acctD(2)[OF rcc_invD(3)[OF assms], of b "fst bw" "snd bw"] that[of "fst bw" "snd bw"] by simp
qed

lemma asking_same:
  assumes "asking E s st" "sv_gra s' = sv_gra s" "sv_asked s' = sv_asked s"
    and "\<And>c bl w. sv_balls s' c = Some (bl, w) \<Longrightarrow> \<exists>bl'. sv_balls s c = Some (bl', w)"
    and "\<And>a. a \<in> set st \<Longrightarrow> marks a \<Longrightarrow> a \<in> set st'" "\<And>v k b. ARegister v k b \<in> set st' \<Longrightarrow> ARegister v k b \<in> set st"
  shows "asking E s' st'"
proof (rule askingI)
  note v = same_graph[OF assms(2)]
  show "minded E s' st' u" if c: "sv_balls s' c = Some (bl, w)" "waiter w \<noteq> None" "c \<in> set (ev_at (evs s' u) k)" for c bl w u k
  proof -
    obtain bl' where "sv_balls s c = Some (bl', w)"
      using assms(4)[OF c(1)] by blast
    then show ?thesis
      using askingD(1)[OF assms(1), of c bl' w u k] c(2,3) assms(5)[of "AAsk u"] assms(5)[of "ADecide u None"] unfolding minded_def v by auto
  qed
  show "u \<in> set (sv_asked s') \<or> ti_during_commit d \<or> ADecide u None \<in> set st'" if "vdata s' u = Some d" "ti_during_asking d" for u d
    using askingD(2)[OF assms(1), of u d] that assms(5)[of "ADecide u None"] assms(3) v by auto
  show "waiter w = None" if c: "sv_balls s' c = Some (bl, w)" "ARegister u k c \<in> set st'" for c bl w u k
    using assms(4)[OF c(1)] askingD(3)[OF assms(1)] assms(6)[OF c(2)] by blast
qed

lemma ball_wait_inv:
  assumes "rcc_inv E Y s (ABall b # st)" "sv_balls s b = Some (bl, w)" "db_n_ready bl + 1 < db_n_wait bl"
    and "s' = s\<lparr>sv_balls := (sv_balls s)(b \<mapsto> (bl\<lparr>db_n_ready := db_n_ready bl + 1\<rparr>, w))\<rparr>"
  shows "rcc_inv E Y s' st"
proof -
  note I = rcc_invD[OF assms(1)]
  have g: "sv_gra s' = sv_gra s" "sv_asked s' = sv_asked s" "sv_next s' = sv_next s"
    using assms(4) by simp_all
  note v = same_graph[OF g(1)]
  have balls: "sv_balls s' = (sv_balls s)(b \<mapsto> (bl\<lparr>db_n_ready := db_n_ready bl + 1\<rparr>, w))"
    using assms(4) by simp
  have w: "\<exists>bl0. sv_balls s c = Some (bl0, w')" if "sv_balls s' c = Some (bl', w')" for c bl' w'
    using that assms(2) by (auto simp: balls split: if_splits)
  have w': "\<exists>bl'. sv_balls s' c = Some (bl', w')" if "sv_balls s c = Some (bl0, w')" for c bl0 w'
    using that assms(2) by (auto simp: balls)
  have waits: "waits s' st = waits s (ABall b # st)"
    by (auto simp: fun_eq_iff waits_def v)
  have "base_ok s'" "exec_ok s'"
    using I(1,2) assms(4) by simp_all
  moreover have "acct s' st"
  proof (rule acctI)
    fix c
    assume "sv_balls s' c = None"
    then show "registered s' c = 0 \<and> pending c st = 0"
      using acctD(1)[OF I(3), of c] v by (auto simp: balls split: if_splits)
  next
    fix c bl' w'
    assume c: "sv_balls s' c = Some (bl', w')"
    show "\<not> db_called bl' \<and> db_n_ready bl' < db_n_wait bl' \<and> db_n_ready bl' + int (registered s' c + pending c st) = db_n_wait bl'"
    proof (cases "c = b")
      case True
      then show ?thesis
        using c acctD(2)[OF I(3) assms(2)] assms(3) v by (auto simp: balls)
    next
      case False
      then show ?thesis
        using c acctD(2)[OF I(3), of c bl' w'] v by (auto simp: balls)
    qed
  next
    show "sv_balls s' c = None" if "sv_next s' \<le> c" for c
      using acctD(3)[OF I(3), of c] assms(2) that by (auto simp: balls g)
  qed
  moreover have "reached s' st"
    using I(4) unfolding reached_def v by simp
  moreover have "deciding E Y s' st"
    using I(5) w' unfolding deciding_def v by simp metis
  moreover have "wait_rel s' st = wait_rel s (ABall b # st)"
    unfolding wait_rel_def waits using w w' by blast
  then have "waiting s' st"
    using I(6) w unfolding waiting_def waits g by metis
  moreover have "asking E s' st"
    by (rule asking_same[OF I(7) g(1,2)]) (use w in auto)
  ultimately show ?thesis
    unfolding rcc_inv_def by blast
qed

text \<open>The last trigger of a ball removes it; whoever waited with it does not wait now.\<close>

lemma ball_fire_inv:
  assumes "rcc_inv E Y s (ABall b # st)" "sv_balls s b = Some (bl, w)" "db_n_ready bl + 1 = db_n_wait bl"
    and "s' = s\<lparr>sv_balls := (sv_balls s)(b := None)\<rparr>"
  shows "rcc_inv E (Y \<union> set_option (waiter w)) s' st"
proof -
  note I = rcc_invD[OF assms(1)]
  have g: "sv_gra s' = sv_gra s" "sv_asked s' = sv_asked s" "sv_next s' = sv_next s"
    using assms(4) by simp_all
  note v = same_graph[OF g(1)]
  have balls: "sv_balls s' = (sv_balls s)(b := None)"
    using assms(4) by simp
  have zero: "registered s b = 0 \<and> pending b st = 0"
    using acctD(2)[OF I(3) assms(2)] assms(3) by auto
  have w: "sv_balls s c = Some (bl', w')" if "sv_balls s' c = Some (bl', w')" for c bl' w'
    using that by (auto simp: balls split: if_splits)
  have "base_ok s'" "exec_ok s'"
    using I(1,2) assms(4) by simp_all
  moreover have "acct s' st"
  proof (rule acctI)
    fix c
    assume "sv_balls s' c = None"
    then show "registered s' c = 0 \<and> pending c st = 0"
      using acctD(1)[OF I(3), of c] v zero by (auto simp: balls split: if_splits)
  next
    fix c bl' w'
    assume c: "sv_balls s' c = Some (bl', w')"
    then have "c \<noteq> b"
      by (auto simp: balls)
    then show "\<not> db_called bl' \<and> db_n_ready bl' < db_n_wait bl' \<and> db_n_ready bl' + int (registered s' c + pending c st) = db_n_wait bl'"
      using c acctD(2)[OF I(3), of c bl' w'] v by (auto simp: balls)
  next
    show "sv_balls s' c = None" if "sv_next s' \<le> c" for c
      using acctD(3)[OF I(3), of c] that by (auto simp: balls g)
  qed
  moreover have "reached s' st"
    using I(4) unfolding reached_def v by simp
  moreover have "deciding E (Y \<union> set_option (waiter w)) s' st"
  proof (rule decidingI)
    fix u d
    assume u: "vdata s' u = Some d" "ti_during_commit d" "\<not> is_commit d" "u \<notin> Y \<union> set_option (waiter w)"
    then obtain c bl' w' where c: "sv_balls s c = Some (bl', w')" "waiter w' = Some u"
      using decidingD(1)[OF I(5), of u d] v by auto
    then have "c \<noteq> b"
      using assms(2) u(4) by auto
    then show "\<exists>c bl' w'. sv_balls s' c = Some (bl', w') \<and> waiter w' = Some u"
      using c by (auto simp: balls)
  qed (use decidingD(2-4)[OF I(5)] v in auto)
  moreover have "waiting s' st"
    by (rule waiting_mono[OF I(6)]) (auto simp: balls g v map_le_def waits_def)
  moreover have "asking E s' st"
    by (rule asking_same[OF I(7) g(1,2)]) (use w in auto)
  ultimately show ?thesis
    unfolding rcc_inv_def by blast
qed

subsection \<open>Events\<close>

definition put_events :: "vid \<Rightarrow> i8 \<Rightarrow> ball list \<Rightarrow> 'db server \<Rightarrow> 'db server" where
  "put_events v k bs s = upd_txn v (\<lambda>d. d\<lparr>ti_events := smap_put k bs (ti_events d)\<rparr>) s"

lemma put_events_sel [simp]: "sv_balls (put_events v k bs s) = sv_balls s" "sv_next (put_events v k bs s) = sv_next s"
  "sv_asked (put_events v k bs s) = sv_asked s" "parent_rel (sv_gra (put_events v k bs s)) = parent_rel (sv_gra s)"
  by (simp_all add: put_events_def)

lemma vdata_put_events:
  "vdata (put_events v k bs s) u = (if u = v then map_option (\<lambda>d. d\<lparr>ti_events := smap_put k bs (ti_events d)\<rparr>) (vdata s v) else vdata s u)"
  by (simp add: put_events_def vdata_upd_txn)

lemma evs_put_events: "vdata s v = Some d \<Longrightarrow> evs (put_events v k bs s) u = (if u = v then smap_put k bs (ti_events d) else evs s u)"
  by (simp add: evs_def vdata_put_events)

lemma data_ok_put: "data_ok d \<Longrightarrow> k = TXN_CMT \<or> k = TXN_DCD \<Longrightarrow> data_ok (d\<lparr>ti_events := smap_put k bs (ti_events d)\<rparr>)"
  unfolding data_ok_def is_commit_def is_finish_def by (simp add: smap_inv_put smap_put_keys)

lemma put_events_base:
  assumes "base_ok s" "exec_ok s" "vdata s v = Some d" "k = TXN_CMT \<or> k = TXN_DCD"
  shows "base_ok (put_events v k bs s)" "exec_ok (put_events v k bs s)"
    "registered (put_events v k bs s) c + count_list (ev_at (ti_events d) k) c = registered s c + count_list bs c"
proof -
  have d: "data_ok d" "evs s v = ti_events d"
    using base_okD(4)[OF assms(1,3)] assms(3) by (simp_all add: evs_def)
  then have inv: "smap_inv (ti_events d)"
    by (simp add: data_ok_def)
  show "base_ok (put_events v k bs s)"
    unfolding put_events_def
  proof (rule base_ok_upd_txn[OF assms(1)])
    show "ti_id (d'\<lparr>ti_events := smap_put k bs (ti_events d')\<rparr>) = ti_id d'" for d' :: txn_info
      by simp
    show "data_ok (d'\<lparr>ti_events := smap_put k bs (ti_events d')\<rparr>)" if "vdata s v = Some d'" for d'
    proof -
      have "d' = d"
        using assms(3) that by (metis option.inject)
      then show ?thesis
        using data_ok_put[OF d(1) assms(4)] by blast
    qed
  qed
  have "\<exists>u d'. vdata (put_events v k bs s) u = Some d' \<and> ti_id d' = i \<and> ti_committed d'" if i: "i \<in> set (executed s)" for i
  proof -
    obtain u d' where "vdata s u = Some d'" "ti_id d' = i" "ti_committed d'"
      using assms(2) i unfolding exec_ok_def by blast
    then show ?thesis
      by (intro exI[of _ u]) (auto simp: vdata_put_events)
  qed
  then show "exec_ok (put_events v k bs s)"
    using assms(2) unfolding exec_ok_def by (simp add: put_events_def)
  have "dom (vdata (put_events v k bs s)) = dom (vdata s)"
    by (auto simp: vdata_put_events split: if_splits)
  then have "registered (put_events v k bs s) c + ev_count c (evs s v) = registered s c + ev_count c (smap_put k bs (ti_events d))"
    using registered_put[OF assms(1,3), of "put_events v k bs s" "smap_put k bs (ti_events d)"] evs_put_events[OF assms(3)] by simp
  then show "registered (put_events v k bs s) c + count_list (ev_at (ti_events d) k) c = registered s c + count_list bs c"
    using ev_count_put[OF inv, of c k bs] d(2) by simp
qed

lemma events_inv:
  assumes "rcc_inv E Y s st" "vdata s v = Some d" "k = TXN_CMT \<or> k = TXN_DCD" "reached (put_events v k bs s) st'"
    and "\<And>c. count_list bs c + pending c st' = count_list (ev_at (ti_events d) k) c + pending c st"
    and "\<And>c. c \<in> set bs \<Longrightarrow> waits s st v k c"
    and "\<And>u k c. AWaitOn u k c \<in> set st' \<Longrightarrow> AWaitOn u k c \<in> set st" "\<And>u k c. ARegister u k c \<in> set st' \<Longrightarrow> ARegister u k c \<in> set st"
    and "\<And>u r. ADecide u r \<in> set st' \<longleftrightarrow> ADecide u r \<in> set st" "\<And>u. AAsk u \<in> set st \<Longrightarrow> AAsk u \<in> set st'"
    and "\<And>c bl w. c \<in> set bs \<Longrightarrow> sv_balls s c = Some (bl, w) \<Longrightarrow> c \<in> set (ev_at (ti_events d) k) \<or> waiter w = None \<or> AAsk v \<in> set st'"
  shows "rcc_inv E Y (put_events v k bs s) st'"
proof -
  let ?s = "put_events v k bs s"
  note I = rcc_invD[OF assms(1)]
  note B = put_events_base[OF I(1,2) assms(2,3), of bs]
  have inv: "smap_inv (ti_events d)"
    using base_okD(4)[OF I(1) assms(2)] by (simp add: data_ok_def)
  have evk: "ev_at (evs ?s u) k' = (if u = v \<and> k' = k then bs else ev_at (evs s u) k')" for u k'
    using evs_put_events[OF assms(2), of k bs u] ev_at_put[OF inv, of k bs k'] assms(2) by (auto simp: evs_def)
  have bck: "\<exists>d0. vdata s u = Some d0 \<and> ti_status d' = ti_status d0 \<and> ti_during_commit d' = ti_during_commit d0 \<and> ti_during_asking d' = ti_during_asking d0
      \<and> ti_res d' = ti_res d0 \<and> ti_servers d' = ti_servers d0" if "vdata ?s u = Some d'" for u d'
    using that by (auto simp: vdata_put_events split: if_splits)
  have "acct ?s st'"
  proof (rule acctI)
    have tot: "registered ?s c + pending c st' = registered s c + pending c st" for c
      using B(3)[of c] assms(5)[of c] by linarith
    show "registered ?s c = 0 \<and> pending c st' = 0" if "sv_balls ?s c = None" for c
      using acctD(1)[OF I(3), of c] that tot[of c] by simp
    show "\<not> db_called bl \<and> db_n_ready bl < db_n_wait bl \<and> db_n_ready bl + int (registered ?s c + pending c st') = db_n_wait bl" if "sv_balls ?s c = Some (bl, w)" for c bl w
      using acctD(2)[OF I(3), of c bl w] that unfolding tot by simp
    show "sv_balls ?s c = None" if "sv_next ?s \<le> c" for c
      using acctD(3)[OF I(3), of c] that by simp
  qed
  moreover have "deciding E Y ?s st'"
  proof (rule decidingI)
    fix u d'
    assume "vdata ?s u = Some d'"
    then obtain d0 where d0: "vdata s u = Some d0" "ti_status d' = ti_status d0" "ti_during_commit d' = ti_during_commit d0" "ti_res d' = ti_res d0" "ti_servers d' = ti_servers d0"
      using bck by blast
    note D = decidingD[OF I(5) d0(1)]
    show "\<exists>b bl w. sv_balls ?s b = Some (bl, w) \<and> waiter w = Some u" if "ti_during_commit d'" "\<not> is_commit d'" "u \<notin> Y"
      using D(1) d0 that by (simp add: is_commit_def)
    show "ti_during_commit d' \<or> (\<exists>r. ADecide u r \<in> set st')" if "ti_res d' \<noteq> None"
      using D(2) d0 that assms(9) by simp
    have f: "finishing E d0 \<Longrightarrow> finishing E d'"
      using d0 by (simp add: finishing_def is_finish_def is_commit_def is_involved_def)
    show "finishing E d'" if "ti_during_commit d'"
      using D(3) d0 that f by simp
    show "finishing E d'" if "ADecide u r \<in> set st'" for r
      using D(4)[of r] that f assms(9) by simp
  qed
  moreover have "waiting ?s st'"
  proof (rule waiting_mono[OF I(6)])
    show "waits s st u k' c" if "waits ?s st' u k' c" for u k' c
    proof -
      consider "c \<in> set (ev_at (evs ?s u) k')" | "AWaitOn u k' c \<in> set st'" | "ARegister u k' c \<in> set st'"
        using \<open>waits ?s st' u k' c\<close> unfolding waits_def by blast
      then show ?thesis
      proof cases
        case 1
        then show ?thesis
          using assms(6)[of c] by (auto simp: evk waits_def split: if_splits)
      qed (use assms(7,8) in \<open>auto simp: waits_def\<close>)
    qed
  qed simp_all
  moreover have "asking E ?s st'"
  proof (rule askingI)
    have mi: "minded E ?s st' u" if "minded E s st u" for u
    proof -
      obtain d0 where d0: "vdata s u = Some d0" "is_involved (ev_site E) d0 \<or> is_commit d0 \<or> ti_during_commit d0 \<or> ti_during_asking d0 \<or> AAsk u \<in> set st \<or> ADecide u None \<in> set st"
        using \<open>minded E s st u\<close> unfolding minded_def by blast
      then show ?thesis
        using assms(9)[of u None] assms(10)[of u] unfolding minded_def by (auto simp: vdata_put_events is_involved_def is_commit_def)
    qed
    show "minded E ?s st' u" if c: "sv_balls ?s c = Some (bl, w)" "waiter w \<noteq> None" "c \<in> set (ev_at (evs ?s u) k')" for c bl w u k'
    proof (cases "c \<in> set (ev_at (evs s u) k')")
      case True
      then show ?thesis
        using mi askingD(1)[OF I(7), of c bl w u k'] c(1,2) by simp
    next
      case False
      then have "u = v" "k' = k" "c \<in> set bs"
        using c(3) by (auto simp: evk split: if_splits)
      moreover have "evs s v = ti_events d"
        using assms(2) by (simp add: evs_def)
      ultimately have "AAsk v \<in> set st'"
        using assms(11)[of c bl w] c(1,2) False by auto
      then show ?thesis
        using \<open>u = v\<close> assms(2) by (simp add: minded_def vdata_put_events)
    qed
    show "u \<in> set (sv_asked ?s) \<or> ti_during_commit d' \<or> ADecide u None \<in> set st'" if u: "vdata ?s u = Some d'" "ti_during_asking d'" for u d'
      using bck[OF u(1)] u(2) askingD(2)[OF I(7), of u] assms(9)[of u None] by auto
    show "waiter w = None" if "sv_balls ?s c = Some (bl, w)" "ARegister u k' c \<in> set st'" for c bl w u k'
      using askingD(3)[OF I(7)] assms(8) that by simp blast
  qed
  ultimately show ?thesis
    using B(1,2) assms(4) unfolding rcc_inv_def by blast
qed

subsection \<open>Flags and the stack\<close>

text \<open>A step that only changes the stack: what it drops is not needed any more.\<close>

lemma stack_inv:
  assumes "rcc_inv E Y s st" "reached s st'" "\<And>c. pending c st' = pending c st"
    and "\<And>u k c. AWaitOn u k c \<in> set st' \<Longrightarrow> AWaitOn u k c \<in> set st" "\<And>u k c. ARegister u k c \<in> set st' \<Longrightarrow> ARegister u k c \<in> set st"
    and "\<And>u r d. ADecide u r \<in> set st' \<Longrightarrow> vdata s u = Some d \<Longrightarrow> ADecide u r \<in> set st \<or> finishing E d"
    and "\<And>u r d. ADecide u r \<in> set st \<Longrightarrow> vdata s u = Some d \<Longrightarrow> ADecide u r \<in> set st' \<or> ti_during_commit d"
    and "\<And>u. AAsk u \<in> set st \<Longrightarrow> vdata s u \<noteq> None \<Longrightarrow> minded E s st' u"
  shows "rcc_inv E Y s st'"
proof -
  note I = rcc_invD[OF assms(1)]
  have "acct s st'"
    using I(3) unfolding acct_def assms(3) .
  moreover have "deciding E Y s st'"
  proof (rule decidingI)
    fix u d
    assume u: "vdata s u = Some d"
    note D = decidingD[OF I(5) u]
    show "\<exists>b bl w. sv_balls s b = Some (bl, w) \<and> waiter w = Some u" if "ti_during_commit d" "\<not> is_commit d" "u \<notin> Y"
      using D(1) that .
    show "ti_during_commit d \<or> (\<exists>r. ADecide u r \<in> set st')" if "ti_res d \<noteq> None"
      using D(2) that assms(7)[OF _ u] by blast
    show "finishing E d" if "ti_during_commit d"
      using D(3) that .
    show "finishing E d" if "ADecide u r \<in> set st'" for r
      using D(4)[of r] assms(6)[OF that u] by blast
  qed
  moreover have "waiting s st'"
    by (rule waiting_mono[OF I(6)]) (use assms(4,5) in \<open>auto simp: waits_def\<close>)
  moreover have "asking E s st'"
  proof (rule askingI)
    show "minded E s st' u" if "sv_balls s c = Some (bl, w)" "waiter w \<noteq> None" "c \<in> set (ev_at (evs s u) k)" for c bl w u k
    proof -
      have "minded E s st u"
        using askingD(1)[OF I(7) that] .
      then obtain d where d: "vdata s u = Some d" "is_involved (ev_site E) d \<or> is_commit d \<or> ti_during_commit d \<or> ti_during_asking d \<or> AAsk u \<in> set st \<or> ADecide u None \<in> set st"
        unfolding minded_def by blast
      then show ?thesis
        using assms(7)[of u None d] assms(8)[of u] unfolding minded_def by blast
    qed
    show "u \<in> set (sv_asked s) \<or> ti_during_commit d \<or> ADecide u None \<in> set st'" if "vdata s u = Some d" "ti_during_asking d" for u d
      using askingD(2)[OF I(7) that] assms(7)[OF _ that(1)] by blast
    show "waiter w = None" if "sv_balls s c = Some (bl, w)" "ARegister u k c \<in> set st'" for c bl w u k
      using askingD(3)[OF I(7) that(1)] assms(5)[OF that(2)] by blast
  qed
  ultimately show ?thesis
    using I(1,2) assms(2) unfolding rcc_inv_def by blast
qed

definition set_flags :: "vid \<Rightarrow> bool \<Rightarrow> bool \<Rightarrow> 'db server \<Rightarrow> 'db server" where
  "set_flags v x y s = upd_txn v (\<lambda>d. d\<lparr>ti_during_commit := x \<or> ti_during_commit d, ti_during_asking := y \<or> ti_during_asking d\<rparr>) s"

lemma vdata_set_flags:
  "vdata (set_flags v x y s) u = (if u = v then map_option (\<lambda>d. d\<lparr>ti_during_commit := x \<or> ti_during_commit d, ti_during_asking := y \<or> ti_during_asking d\<rparr>) (vdata s v) else vdata s u)"
  by (simp add: set_flags_def vdata_upd_txn)

lemma flags_data:
  assumes "d' = d\<lparr>ti_during_commit := x, ti_during_asking := y\<rparr>"
  shows "is_commit d' = is_commit d" "is_finish d' = is_finish d" "is_involved site d' = is_involved site d" "finishing E d' = finishing E d"
    "data_ok d' = data_ok d" "ti_events d' = ti_events d" "ti_res d' = ti_res d" "ti_id d' = ti_id d" "ti_committed d' = ti_committed d" "ti_status d' = ti_status d"
  using assms by (simp_all add: is_commit_def is_finish_def is_involved_def finishing_def data_ok_def)

lemma flags_inv:
  assumes "rcc_inv E Y s st" "x \<Longrightarrow> v \<in> Y'" "Y \<subseteq> Y'" "\<And>d. x \<Longrightarrow> vdata s v = Some d \<Longrightarrow> finishing E d" "y \<Longrightarrow> v \<in> set asked" "set (sv_asked s) \<subseteq> set asked"
    and "s' = (set_flags v x y s)\<lparr>sv_asked := asked, sv_out := outs\<rparr>" "executed s' = executed s"
  shows "rcc_inv E Y' s' st"
proof -
  note I = rcc_invD[OF assms(1)]
  have v: "vdata s' u = (if u = v then map_option (\<lambda>d. d\<lparr>ti_during_commit := x \<or> ti_during_commit d, ti_during_asking := y \<or> ti_during_asking d\<rparr>) (vdata s v) else vdata s u)" for u
    using assms(7) by (simp add: vdata_set_flags)
  have old: "\<exists>d x' y'. vdata s u = Some d \<and> d' = d\<lparr>ti_during_commit := x', ti_during_asking := y'\<rparr> \<and> (x' \<longleftrightarrow> x \<and> u = v \<or> ti_during_commit d)
      \<and> (y' \<longleftrightarrow> y \<and> u = v \<or> ti_during_asking d)" if "vdata s' u = Some d'" for u d'
    using that by (auto simp: v split: if_splits)
  have new: "\<exists>x' y'. vdata s' u = Some (d\<lparr>ti_during_commit := x', ti_during_asking := y'\<rparr>) \<and> (ti_during_commit d \<longrightarrow> x') \<and> (ti_during_asking d \<longrightarrow> y')"
    if "vdata s u = Some d" for u d
    using that
    by (intro exI[of _ "x \<and> u = v \<or> ti_during_commit d"] exI[of _ "y \<and> u = v \<or> ti_during_asking d"]) (cases "u = v"; simp add: v)
  have sel: "sv_balls s' = sv_balls s" "sv_next s' = sv_next s" "parent_rel (sv_gra s') = parent_rel (sv_gra s)" "sv_asked s' = asked"
    using assms(7) by (simp_all add: set_flags_def)
  have e: "evs s' = evs s"
    by (auto simp: fun_eq_iff evs_def v split: option.splits)
  have dv: "dom (vdata s') = dom (vdata s)"
    by (auto simp: v split: if_splits)
  have "base_ok (set_flags v x y s)"
    unfolding set_flags_def
  proof (rule base_ok_upd_txn[OF I(1)])
    show "ti_id (d\<lparr>ti_during_commit := x \<or> ti_during_commit d, ti_during_asking := y \<or> ti_during_asking d\<rparr>) = ti_id d" for d :: txn_info
      by simp
    show "data_ok (d\<lparr>ti_during_commit := x \<or> ti_during_commit d, ti_during_asking := y \<or> ti_during_asking d\<rparr>)" if "vdata s v = Some d" for d
      using base_okD(4)[OF I(1) that] flags_data(5) by blast
  qed
  then have "base_ok s'"
    using assms(7) by (simp add: base_ok_def rows_ok_def)
  moreover have "exec_ok s'"
    unfolding exec_ok_def assms(8)
  proof (intro conjI ballI)
    fix i
    assume "i \<in> set (executed s)"
    then obtain u d where "vdata s u = Some d" "ti_id d = i" "ti_committed d"
      using I(2) unfolding exec_ok_def by blast
    then show "\<exists>u d. vdata s' u = Some d \<and> ti_id d = i \<and> ti_committed d"
      using new[of u d] by fastforce
  qed (use I(2) in \<open>simp add: exec_ok_def\<close>)
  moreover have "acct s' st"
    using I(3) unfolding acct_def registered_def sel e dv .
  moreover have "reached s' st"
    unfolding reached_def
  proof (intro allI impI)
    fix u d' k
    assume "vdata s' u = Some d' \<and> ev_at (ti_events d') k \<noteq> [] \<and> k \<le>s ti_status d'"
    then obtain d where "vdata s u = Some d" "ev_at (ti_events d) k \<noteq> []" "k \<le>s ti_status d"
      using old[of u d'] by auto
    then show "\<exists>n \<le> unat k. ATrigger u n \<in> set st"
      using I(4) unfolding reached_def by blast
  qed
  moreover have "deciding E Y' s' st"
  proof (rule decidingI)
    fix u d'
    assume "vdata s' u = Some d'"
    then obtain d x' y' where d: "vdata s u = Some d" "d' = d\<lparr>ti_during_commit := x', ti_during_asking := y'\<rparr>" "x' \<longleftrightarrow> x \<and> u = v \<or> ti_during_commit d"
      using old by blast
    note D = decidingD[OF I(5) d(1)]
    note F = flags_data[OF d(2)]
    show "\<exists>b bl w. sv_balls s' b = Some (bl, w) \<and> waiter w = Some u" if "ti_during_commit d'" "\<not> is_commit d'" "u \<notin> Y'"
      using D(1) that d(2,3) assms(2,3) F(1) sel(1) by auto
    show "ti_during_commit d' \<or> (\<exists>r. ADecide u r \<in> set st)" if "ti_res d' \<noteq> None"
      using D(2) that d(2,3) by auto
    show "finishing E d'" if "ti_during_commit d'"
      using D(3) that d assms(4)[of d] F(4)[of E] by auto
    show "finishing E d'" if "ADecide u r \<in> set st" for r
      using D(4)[of r] that F(4)[of E] by simp
  qed
  moreover have "waiting s' st"
    by (rule waiting_mono[OF I(6)]) (auto simp: sel waits_def e)
  moreover have "asking E s' st"
  proof (rule askingI)
    show "minded E s' st u" if "sv_balls s' c = Some (bl, w)" "waiter w \<noteq> None" "c \<in> set (ev_at (evs s' u) k)" for c bl w u k
    proof -
      have "minded E s st u"
        using askingD(1)[OF I(7), of c bl w u k] that sel e by simp
      then obtain d where d: "vdata s u = Some d" "is_involved (ev_site E) d \<or> is_commit d \<or> ti_during_commit d \<or> ti_during_asking d \<or> AAsk u \<in> set st \<or> ADecide u None \<in> set st"
        unfolding minded_def by blast
      obtain x' y' where "vdata s' u = Some (d\<lparr>ti_during_commit := x', ti_during_asking := y'\<rparr>)" "ti_during_commit d \<longrightarrow> x'" "ti_during_asking d \<longrightarrow> y'"
        using new[OF d(1)] by blast
      then show ?thesis
        using d(2) unfolding minded_def by (auto simp: is_involved_def is_commit_def)
    qed
    show "u \<in> set (sv_asked s') \<or> ti_during_commit d' \<or> ADecide u None \<in> set st" if u: "vdata s' u = Some d'" "ti_during_asking d'" for u d'
    proof -
      obtain d x' y' where d: "vdata s u = Some d" "d' = d\<lparr>ti_during_commit := x', ti_during_asking := y'\<rparr>" "x' \<longleftrightarrow> x \<and> u = v \<or> ti_during_commit d"
          "y' \<longleftrightarrow> y \<and> u = v \<or> ti_during_asking d"
        using old[OF u(1)] by blast
      then show ?thesis
        using askingD(2)[OF I(7) d(1)] u(2) assms(5,6) sel(4) by auto
    qed
    show "waiter w = None" if "sv_balls s' c = Some (bl, w)" "ARegister u k c \<in> set st" for c bl w u k
      using askingD(3)[OF I(7)] that sel(1) by simp
  qed
  ultimately show ?thesis
    unfolding rcc_inv_def by blast
qed

end
