(* ===== verification/RCC_Steps.thy ===== *)
theory RCC_Steps
  imports RCC_Wait
begin

text \<open>
  Every step of a server keeps the invariant of \<open>RCC_Wait\<close>, and what follows for all states a server can reach.
\<close>

subsection \<open>The searches\<close>

lemma edge_rel_parent:
  assumes "graph_inv g"
  shows "edge_rel g = (parent_rel g)\<inverse>"
proof -
  have "w \<in> fst ` set (to_edges g v) \<longleftrightarrow> v \<in> fst ` set (from_edges g w)" for v w
    using graph_invD(6)[OF assms, of v w] by (metis map_of_eq_None_iff)
  then show ?thesis
    by (auto simp: edge_rel_def parent_rel_def)
qed

lemma anc_opt_parents:
  assumes "graph_inv g" "find_txn_anc_opt v {} g = Some A"
  shows "A \<subseteq> (parent_rel g)\<^sup>+ `` {v}" "finite A" "A \<subseteq> dom (g_vertex g)" "v \<notin> A"
proof -
  have A: "A = (undecided_rel g)\<^sup>+ `` {v} - {v}"
    using find_txn_anc_opt_ok[OF graph_inv_finite[OF assms(1)]] assms(2) by simp
  have "undecided_rel g \<subseteq> parent_rel g"
    by (auto simp: undecided_rel_def)
  then have "(undecided_rel g)\<^sup>+ \<subseteq> (parent_rel g)\<^sup>+"
    using trancl_mono by blast
  then show "A \<subseteq> (parent_rel g)\<^sup>+ `` {v}" "v \<notin> A"
    using A by auto
  have known: "w \<in> dom (g_vertex g)" if "(u, w) \<in> undecided_rel g" for u w
    using that by (auto simp: undecided_rel_def undecided_def split: option.splits)
  show "A \<subseteq> dom (g_vertex g)"
  proof
    fix w
    assume "w \<in> A"
    then have "(v, w) \<in> (undecided_rel g)\<^sup>+"
      using A by simp
    then show "w \<in> dom (g_vertex g)"
      by (rule tranclE) (use known in blast)+
  qed
  then show "finite A"
    using finite_subset[OF _ graph_inv_finite[OF assms(1)]] by blast
qed

lemma scc_anc_parents:
  assumes "graph_inv g" "find_txn_scc_nearest_anc v g = Some A"
  shows "u \<in> A \<Longrightarrow> (v, u) \<in> (parent_rel g)\<^sup>+" "u \<in> A \<Longrightarrow> (u, v) \<notin> (parent_rel g)\<^sup>*" "finite A" "A \<subseteq> dom (g_vertex g)"
proof -
  obtain scc where scc: "find_scc v g = Some scc" "set scc = scc_of g v"
    using find_scc_ok[OF graph_inv_finite[OF assms(1)]] by blast
  have fold: "fold (\<lambda>u ret. find_txn_nearest_anc u ret g) us ret = ret \<union> (\<Union>u \<in> set us. fst ` set (from_edges g u))" for us ret
    by (induction us arbitrary: ret) (auto simp: find_txn_nearest_anc_def)
  have A: "A = (\<Union>u \<in> scc_of g v. fst ` set (from_edges g u)) - scc_of g v"
    using assms(2) scc by (simp add: find_txn_scc_nearest_anc_def fold)
  have mem: "c \<in> scc_of g v \<longleftrightarrow> (v, c) \<in> (parent_rel g)\<^sup>* \<and> (c, v) \<in> (parent_rel g)\<^sup>*" for c
    unfolding scc_of_def edge_rel_parent[OF assms(1)] by (auto simp: rtrancl_converse)
  show par: "(v, u) \<in> (parent_rel g)\<^sup>+" if u: "u \<in> A" for u
  proof -
    obtain c where c: "c \<in> scc_of g v" "u \<in> fst ` set (from_edges g c)"
      using u unfolding A by blast
    then have "(c, u) \<in> parent_rel g"
      by (simp add: parent_rel_def)
    then show ?thesis
      using rtrancl_into_trancl1[of v c "parent_rel g" u] mem[of c] c(1) by blast
  qed
  show "(u, v) \<notin> (parent_rel g)\<^sup>*" if u: "u \<in> A"
  proof -
    have "u \<notin> scc_of g v"
      using u unfolding A by blast
    then show ?thesis
      using mem[of u] trancl_into_rtrancl[OF par[OF u]] by blast
  qed
  have known: "w \<in> dom (g_vertex g)" if w: "w \<in> fst ` set (from_edges g c)" for c w
  proof -
    obtain r where "map_of (from_edges g c) w = Some r"
      using w by (metis map_of_eq_None_iff not_Some_eq)
    then show ?thesis
      using graph_inv_edge_dom(1)[OF assms(1), of w c r] graph_invD(6)[OF assms(1), of w c] by simp
  qed
  show "A \<subseteq> dom (g_vertex g)"
    unfolding A using known by blast
  then show "finite A"
    using finite_subset[OF _ graph_inv_finite[OF assms(1)]] by blast
qed

subsection \<open>Triggering and registering\<close>

lemma upd_txn_cong:
  assumes "vdata s v = Some d" "f d = f' d"
  shows "upd_txn v f s = upd_txn v f' s"
proof -
  obtain x where x: "g_vertex (sv_gra s) v = Some x" "vx_data x = d"
    using assms(1) by (auto simp: vdata_def)
  then show ?thesis
    using assms(2) by (simp add: upd_txn_def upd_data_def upd_vertex_def)
qed

lemma upd_txn_id: "vdata s v = Some d \<Longrightarrow> f d = d \<Longrightarrow> upd_txn v f s = s"
proof -
  assume a: "vdata s v = Some d" "f d = d"
  obtain x where x: "g_vertex (sv_gra s) v = Some x" "vx_data x = d"
    using a(1) by (auto simp: vdata_def)
  then have "x\<lparr>vx_data := f (vx_data x)\<rparr> = x" "(g_vertex (sv_gra s))(v := Some x) = g_vertex (sv_gra s)"
    using a(2) by (auto simp: fun_eq_iff)
  then show ?thesis
    using x by (simp add: upd_txn_def upd_data_def upd_vertex_def)
qed

lemma ev_at_key: "ev_at es k \<noteq> [] \<Longrightarrow> k \<in> fst ` set es"
  by (auto simp: ev_at_def split: option.splits dest!: map_of_SomeD intro!: image_eqI)

lemma dropWhile_first:
  assumes "smap_inv es" "dropWhile (\<lambda>e. unat (fst e) < n) es = (k, bs) # rest"
  shows "ev_at es k = bs" "k \<in> fst ` set es" "n \<le> unat k" "\<And>k'. k' \<in> fst ` set es \<Longrightarrow> n \<le> unat k' \<Longrightarrow> unat k \<le> unat k'"
proof -
  have mem: "(k, bs) \<in> set es"
    using assms(2) set_dropWhileD[of "(k, bs)"] by (metis list.set_intros(1))
  then show "k \<in> fst ` set es"
    by force
  show "ev_at es k = bs"
    using map_of_eq_Some_iff[OF smap_inv_distinct[OF assms(1)], of k bs] mem by (simp add: ev_at_def)
  show "n \<le> unat k"
    using hd_dropWhile[of "\<lambda>e. unat (fst e) < n" es] assms(2) by simp
  fix k'
  assume k': "k' \<in> fst ` set es" "n \<le> unat k'"
  have es: "es = takeWhile (\<lambda>e. unat (fst e) < n) es @ (k, bs) # rest"
    using takeWhile_dropWhile_id[of "\<lambda>e. unat (fst e) < n" es] assms(2) by simp
  have "k' \<notin> fst ` set (takeWhile (\<lambda>e. unat (fst e) < n) es)"
    using k'(2) set_takeWhileD by fastforce
  then have "k' = k \<or> k' \<in> fst ` set rest"
    using k'(1) by (subst (asm) es) auto
  moreover have "k < k''" if "k'' \<in> fst ` set rest" for k''
  proof -
    have "smap_inv (takeWhile (\<lambda>e. unat (fst e) < n) es @ (k, bs) # rest)"
      using assms(1) es by simp
    then show ?thesis
      using that by (auto simp: smap_inv_def sorted_wrt_append)
  qed
  ultimately show "unat k \<le> unat k'"
    by (auto simp: word_less_nat_alt intro: less_imp_le)
qed

lemma reached_cover:
  assumes "reached s (ATrigger v n # st)" "vdata s v = Some d" "\<And>u m. ATrigger u m \<in> set st \<Longrightarrow> ATrigger u m \<in> set st'"
    and "\<And>k. ev_at (ti_events d) k \<noteq> [] \<Longrightarrow> k \<le>s ti_status d \<Longrightarrow> n \<le> unat k \<Longrightarrow> \<exists>m \<le> unat k. ATrigger v m \<in> set st'"
  shows "reached s st'"
  unfolding reached_def
proof (intro allI impI)
  fix u d' k
  assume u: "vdata s u = Some d' \<and> ev_at (ti_events d') k \<noteq> [] \<and> k \<le>s ti_status d'"
  then obtain m where m: "m \<le> unat k" "ATrigger u m \<in> set (ATrigger v n # st)"
    using assms(1) unfolding reached_def by blast
  show "\<exists>m \<le> unat k. ATrigger u m \<in> set st'"
  proof (cases "ATrigger u m \<in> set st")
    case True
    then show ?thesis
      using m(1) assms(3) by blast
  next
    case False
    then have "u = v" "m = n"
      using m(2) by auto
    then show ?thesis
      using assms(2,4) u m(1) by auto
  qed
qed

lemma trigger_step:
  assumes "rcc_inv E {} s (ATrigger v n # st)" "txn_trigger v n s = Some (s', new)"
  shows "rcc_inv E {} s' (new @ st)"
proof -
  note I = rcc_invD[OF assms(1)]
  obtain d where d: "vdata s v = Some d"
    using assms(2) by (cases "vdata s v") (auto simp: txn_trigger_def)
  have dok: "smap_inv (ti_events d)" "fst ` set (ti_events d) \<subseteq> {TXN_CMT, TXN_DCD}"
    using base_okD(4)[OF I(1) d] by (simp_all add: data_ok_def)
  show ?thesis
  proof (cases "dropWhile (\<lambda>e. unat (fst e) < n) (ti_events d)")
    case Nil
    then have s': "s' = s" "new = []"
      using assms(2) d by (simp_all add: txn_trigger_def del: dropWhile_eq_Nil_conv)
    have "unat k < n" if "ev_at (ti_events d) k \<noteq> []" for k
      using ev_at_key[OF that] Nil by (auto simp: dropWhile_eq_Nil_conv)
    then have "reached s st"
      by (intro reached_cover[OF I(4) d]) force+
    then show ?thesis
      unfolding s' append_Nil by (rule stack_inv[OF assms(1)]) (auto simp: minded_def)
  next
    case (Cons e rest)
    obtain k bs where e: "e = (k, bs)"
      by (cases e)
    note F = dropWhile_first[OF dok(1), of n k bs rest, OF Cons[unfolded e]]
    have key: "k = TXN_CMT \<or> k = TXN_DCD"
      using F(2) dok(2) by blast
    show ?thesis
    proof (cases "k \<le>s ti_status d \<and> bs \<noteq> []")
      case True
      then have s': "s' = put_events v k (butlast bs) s" "new = [ABall (last bs), ATrigger v (unat k)]"
        using assms(2) d Cons e by (simp_all add: txn_trigger_def put_events_def)
      have bs: "bs = butlast bs @ [last bs]"
        using True by simp
      have cnt: "count_list bs c = count_list (butlast bs) c + (if last bs = c then 1 else 0)" for c
        by (subst bs) (simp only: count_list_append count_list.simps, simp)
      have r0: "reached s (new @ st)"
      proof (rule reached_cover[OF I(4) d])
        show "\<exists>m \<le> unat k'. ATrigger v m \<in> set (new @ st)" if "ev_at (ti_events d) k' \<noteq> []" "n \<le> unat k'" for k'
          using F(4)[OF ev_at_key[OF that(1)] that(2)] s'(2) by auto
      qed auto
      have r: "reached (put_events v k (butlast bs) s) (new @ st)"
        unfolding reached_def
      proof (intro allI impI)
        fix u d' k'
        assume u: "vdata (put_events v k (butlast bs) s) u = Some d' \<and> ev_at (ti_events d') k' \<noteq> [] \<and> k' \<le>s ti_status d'"
        show "\<exists>m \<le> unat k'. ATrigger u m \<in> set (new @ st)"
        proof (cases "u = v")
          case True
          then have "d' = d\<lparr>ti_events := smap_put k (butlast bs) (ti_events d)\<rparr>"
            using u d by (simp add: vdata_put_events)
          then have "ev_at (ti_events d) k' \<noteq> []" "k' \<le>s ti_status d"
            using u ev_at_put[OF dok(1), of k "butlast bs" k'] F(1) by (auto split: if_splits)
          then show ?thesis
            using r0 d True unfolding reached_def by blast
        next
          case False
          then have "vdata s u = Some d'"
            using u by (simp add: vdata_put_events)
          then show ?thesis
            using r0[unfolded reached_def, rule_format, of u d' k'] u by blast
        qed
      qed
      show ?thesis
        unfolding s'(1)
      proof (rule events_inv[OF assms(1) d key r])
        show "count_list (butlast bs) c + pending c (new @ st) = count_list (ev_at (ti_events d) k) c + pending c (ATrigger v n # st)" for c
          using cnt[of c] F(1) s'(2) by auto
        show "waits s (ATrigger v n # st) v k c" if "c \<in> set (butlast bs)" for c
          using in_set_butlastD[OF that] F(1) d by (simp add: waits_def evs_def)
        show "c \<in> set (ev_at (ti_events d) k) \<or> waiter w = None \<or> AAsk v \<in> set (new @ st)" if "c \<in> set (butlast bs)" for c w
          using in_set_butlastD[OF that] F(1) by simp
      qed (auto simp: s'(2))
    next
      case False
      then have s': "s' = s" "new = [ATrigger v (Suc (unat k))]"
        using assms(2) d Cons e by (auto simp: txn_trigger_def)
      have "reached s (new @ st)"
      proof (rule reached_cover[OF I(4) d])
        fix k'
        assume k': "ev_at (ti_events d) k' \<noteq> []" "k' \<le>s ti_status d" "n \<le> unat k'"
        then have "unat k \<le> unat k'"
          using F(4)[OF ev_at_key[OF k'(1)] k'(3)] by simp
        moreover have "k' \<noteq> k"
          using k' False F(1) by auto
        ultimately have "Suc (unat k) \<le> unat k'"
          by (metis Suc_leI le_neq_implies_less word_unat_eq_iff)
        then show "\<exists>m \<le> unat k'. ATrigger v m \<in> set (new @ st)"
          using s'(2) by auto
      qed auto
      then show ?thesis
        unfolding s'(1) by (rule stack_inv[OF assms(1)]) (auto simp: s'(2) minded_def)
    qed
  qed
qed

lemma wish_key_cases: "wish_key w = TXN_CMT \<or> wish_key w = TXN_DCD"
  by (cases w) simp_all

lemma register_step:
  assumes "rcc_inv E {} s (a # st)" "txn_register v k b s = Some (s', new)"
    and "a = ARegister v k b \<and> st' = st \<or> a = AWaitOn v k b \<and> st' = AAsk v # st"
  shows "rcc_inv E {} s' (new @ st')"
proof -
  note I = rcc_invD[OF assms(1)]
  obtain d where d: "vdata s v = Some d"
      and s': "s' = upd_txn v (\<lambda>d. fst (register_event k b d)) s" "new = map ABall (snd (register_event k b d))"
    using assms(2) by (cases "vdata s v") (auto simp: txn_register_def)
  have w: "waits s (a # st) v k b"
    using assms(3) by (auto simp: waits_def)
  have "pending b (a # st) \<noteq> 0"
    using assms(3) by auto
  then obtain bl wi where b: "sv_balls s b = Some (bl, wi)"
    using acctD(1)[OF I(3), of b] by (cases "sv_balls s b") auto
  have k: "k = TXN_CMT \<or> k = TXN_DCD"
    using waitingD(1)[OF I(6) b w] wish_key_cases by simp
  have pend: "pending c (a # st) = (if b = c then 1 else 0) + pending c st" "pending c st' = pending c st" for c
    using assms(3) by auto
  have r: "reached s (new @ st')"
    using assms(3) by (intro reached_more[OF I(4)]) auto
  have sub: "x \<in> set st' \<Longrightarrow> x = AAsk v \<or> x \<in> set st" "x \<in> set st \<Longrightarrow> x \<in> set st'" for x
    using assms(3) by auto
  show ?thesis
  proof (cases "k \<le>s ti_status d")
    case True
    then have s2: "s' = s" "new = [ABall b]"
      using upd_txn_id[OF d, of "\<lambda>d. fst (register_event k b d)"] s' by (simp_all add: register_event_def)
    show ?thesis
      unfolding s2(1)
    proof (rule stack_inv[OF assms(1) r])
      show "pending c (new @ st') = pending c (a # st)" for c
        using pend[of c] s2(2) by simp
      show "minded E s (new @ st') u" if "AAsk u \<in> set (a # st)" "vdata s u \<noteq> None" for u
        using that assms(3) by (auto simp: minded_def)
    qed (use assms(3) s2(2) in auto)
  next
    case False
    define bs where "bs = ev_at (ti_events d) k @ [b]"
    have ev: "fst (register_event k b d) = d\<lparr>ti_events := smap_put k bs (ti_events d)\<rparr>" and new: "new = []"
      using False s'(2) by (auto simp: register_event_def bs_def ev_at_def split: option.splits)
    have s2: "s' = put_events v k bs s"
      unfolding s'(1) put_events_def using ev by (rule upd_txn_cong[OF d])
    have dok: "smap_inv (ti_events d)"
      using base_okD(4)[OF I(1) d] by (simp add: data_ok_def)
    have r': "reached (put_events v k bs s) (new @ st')"
      unfolding reached_def
    proof (intro allI impI)
      fix u d' k'
      assume u: "vdata (put_events v k bs s) u = Some d' \<and> ev_at (ti_events d') k' \<noteq> [] \<and> k' \<le>s ti_status d'"
      have "\<exists>d0. vdata s u = Some d0 \<and> ev_at (ti_events d0) k' \<noteq> [] \<and> k' \<le>s ti_status d0"
      proof (cases "u = v")
        case True
        then have d': "d' = d\<lparr>ti_events := smap_put k bs (ti_events d)\<rparr>"
          using u d by (simp add: vdata_put_events)
        then have "k' \<noteq> k"
          using u False by auto
        then show ?thesis
          using u d d' True ev_at_put[OF dok, of k bs k'] by simp
      next
        case False
        then show ?thesis
          using u by (simp add: vdata_put_events)
      qed
      then show "\<exists>n \<le> unat k'. ATrigger u n \<in> set (new @ st')"
        using r unfolding reached_def by blast
    qed
    show ?thesis
      unfolding s2
    proof (rule events_inv[OF assms(1) d k r'])
      show "count_list bs c + pending c (new @ st') = count_list (ev_at (ti_events d) k) c + pending c (a # st)" for c
        using pend[of c] new by (simp add: bs_def)
      show "waits s (a # st) v k c" if "c \<in> set bs" for c
        using that w d by (auto simp: bs_def waits_def evs_def)
      show "c \<in> set (ev_at (ti_events d) k) \<or> waiter w' = None \<or> AAsk v \<in> set (new @ st')"
        if "c \<in> set bs" "sv_balls s c = Some (bl', w')" for c bl' w'
      proof (cases "c = b \<and> a = ARegister v k b")
        case True
        then show ?thesis
          using askingD(3)[OF I(7) that(2), of v k] by auto
      qed (use that assms(3) in \<open>auto simp: bs_def\<close>)
    qed (use assms(3) new in auto)
  qed
qed

subsection \<open>Asking and deciding\<close>

lemma upd_txn_vertex:
  assumes "base_ok s" "graph_find tid (sv_gra s) = Some v"
  obtains d where "vdata s v = Some d" "ti_id d = tid"
  using assms index_vdata[OF assms(1), of tid v] by (auto simp: graph_find_def)

lemma upd_txn_twice: "upd_txn v g (upd_txn v f s) = upd_txn v (\<lambda>d. g (f d)) s"
  by (cases "g_vertex (sv_gra s) v") (simp_all add: upd_txn_def upd_data_def upd_vertex_def)

lemma pop_ask:
  assumes "rcc_inv E Y s (AAsk v # st)" "minded E s st v"
  shows "rcc_inv E Y s st"
proof (rule stack_inv[OF assms(1)])
  show "reached s st"
    by (rule reached_more[OF rcc_invD(4)[OF assms(1)]]) auto
  show "minded E s st u" if "AAsk u \<in> set (AAsk v # st)" "vdata s u \<noteq> None" for u
    using that assms(2) by (auto simp: minded_def)
qed auto

lemma ask_step:
  assumes "rcc_inv E {} s (AAsk v # st)" "send_ask_req E v s = Some (s', new)"
  shows "rcc_inv E {} s' (new @ st)"
proof -
  note I = rcc_invD[OF assms(1)]
  obtain d where d: "vdata s v = Some d"
    using assms(2) by (cases "vdata s v") (auto simp: send_ask_req_def)
  consider "is_involved (ev_site E) d \<or> is_commit d" "s' = s" "new = []"
    | "is_finish d" "s' = s" "new = [ADecide v None]" | "ti_during_asking d" "s' = s" "new = []"
    | sid where "\<not> ti_during_asking d" "new = []"
        "s' = out (Asked sid (ti_id d)) ((upd_txn v (\<lambda>d. d\<lparr>ti_during_asking := True\<rparr>) s)\<lparr>sv_asked := v # sv_asked s\<rparr>)"
    using assms(2) d by (auto simp: send_ask_req_def split: if_splits Option.bind_splits)
  then show ?thesis
  proof cases
    case 2
    have "rcc_inv E {} s (AAsk v # ADecide v None # st)"
    proof (rule stack_inv[OF assms(1)])
      show "reached s (AAsk v # ADecide v None # st)"
        by (rule reached_more[OF I(4)]) auto
      show "ADecide u r \<in> set (AAsk v # st) \<or> finishing E d'" if "ADecide u r \<in> set (AAsk v # ADecide v None # st)" "vdata s u = Some d'" for u r d'
        using that d 2(1) by (auto simp: finishing_def)
    qed (auto simp: minded_def)
    then show ?thesis
      using 2 pop_ask d by (fastforce simp: minded_def)
  next
    case 4
    have eq: "upd_txn v (\<lambda>d. d\<lparr>ti_during_asking := True\<rparr>) s = set_flags v False True s"
      unfolding set_flags_def by (rule upd_txn_cong[OF d]) simp
    define s1 where "s1 = (set_flags v False True s)\<lparr>sv_asked := v # sv_asked s, sv_out := sv_out s'\<rparr>"
    have s1: "s' = s1"
      unfolding s1_def 4(3) eq out_def by simp
    have "executed s1 = executed s"
      using 4(3) by (simp add: s1_def executed_def out_def set_flags_def)
    then have "rcc_inv E {} s1 (AAsk v # st)"
      by (intro flags_inv[OF assms(1), of False v "{}" True "v # sv_asked s" s1 "sv_out s'"]) (auto simp: s1_def)
    moreover have "minded E s1 st v"
      using d by (simp add: minded_def s1_def vdata_set_flags)
    ultimately show ?thesis
      using pop_ask s1 4(2) by fastforce
  qed (use pop_ask[OF assms(1)] d in \<open>auto simp: minded_def\<close>)
qed

definition env_ok :: "'db rcc_env \<Rightarrow> bool" where
  "env_ok E \<longleftrightarrow> alloc_ok (ev_alloc E) \<and> (\<forall>A. finite A \<longrightarrow> set (ev_order E A) = A \<and> distinct (ev_order E A))"

lemma pending_waits [simp]: "pending c (map (\<lambda>u. AWaitOn u k b) vs) = (if c = b then length vs else 0)"
  "pending c (map (\<lambda>u. ARegister u k b) vs) = (if c = b then length vs else 0)"
  by (induction vs) auto

lemma wait_for_inv:
  assumes "rcc_inv E Y s st" "wait_for (wish_key w) vs w s = (s', as)"
    and "\<And>x u. waiter w = Some x \<Longrightarrow> u \<in> set vs \<Longrightarrow> (x, u) \<in> (parent_rel (sv_gra s))\<^sup>+"
    and "\<And>x r u. w = SccCommit x r \<Longrightarrow> u \<in> set vs \<Longrightarrow> (u, x) \<notin> (parent_rel (sv_gra s))\<^sup>*"
  shows "rcc_inv E (Y - set_option (waiter w)) s' (as @ st)"
  using assms(2) by (intro new_ball_inv[where b = "sv_next s" and n = "length vs + 1" and vs = vs, OF assms(1)])
    (auto simp: wait_for_def new_ball_def assms(3,4))

lemma decide_step:
  assumes "env_ok E" "rcc_inv E {} s (ADecide v r # st)" "to_decide E v r s = Some (s', new)"
  shows "rcc_inv E {} s' (new @ st)"
proof -
  note I = rcc_invD[OF assms(2)]
  obtain d where d: "vdata s v = Some d"
    using assms(3) by (cases "vdata s v") (auto simp: to_decide_def)
  have pop: "rcc_inv E Y s1 st" if "rcc_inv E Y s1 (ADecide v r # st)" "\<exists>d. vdata s1 v = Some d \<and> ti_during_commit d" for Y s1
  proof (rule stack_inv[OF that(1)])
    show "reached s1 st"
      by (rule reached_more[OF rcc_invD(4)[OF that(1)]]) auto
    show "ADecide u r' \<in> set st \<or> ti_during_commit d'" if "ADecide u r' \<in> set (ADecide v r # st)" "vdata s1 u = Some d'" for u r' d'
      using that \<open>\<exists>d. vdata s1 v = Some d \<and> ti_during_commit d\<close> by auto
  qed (auto simp: minded_def)
  show ?thesis
  proof (cases "ti_during_commit d")
    case True
    then show ?thesis
      using pop[OF assms(2)] assms(3) d by (simp add: to_decide_def)
  next
    case False
    define s1 where "s1 = (set_flags v True False s)\<lparr>sv_asked := sv_asked s, sv_out := sv_out s\<rparr>"
    have "upd_txn v (\<lambda>d. d\<lparr>ti_during_commit := True\<rparr>) s = set_flags v True False s"
      unfolding set_flags_def by (rule upd_txn_cong[OF d]) simp
    also have "\<dots> = s1"
      by (simp add: s1_def set_flags_def upd_txn_def)
    finally have eq: "upd_txn v (\<lambda>d. d\<lparr>ti_during_commit := True\<rparr>) s = s1" .
    obtain A where A: "find_txn_anc_opt v {} (sv_gra s1) = Some A" "wait_for TXN_CMT (ev_order E A) (AncFinish v r) s1 = (s', new)"
      using assms(3) d False eq by (auto simp: to_decide_def Let_def split: Option.bind_splits)
    have "finishing E d'" if "vdata s v = Some d'" for d'
      using decidingD(4)[OF I(5) that, of r] by simp
    moreover have "executed s1 = executed s"
      by (simp add: s1_def executed_def set_flags_def)
    ultimately have "rcc_inv E {v} s1 (ADecide v r # st)"
      by (intro flags_inv[OF assms(2), of True v "{v}" False "sv_asked s" s1 "sv_out s"]) (auto simp: s1_def)
    then have i1: "rcc_inv E {v} s1 st"
      using d by (intro pop) (auto simp: s1_def vdata_set_flags)
    note P = anc_opt_parents[OF base_okD(1)[OF rcc_invD(1)[OF i1]] A(1)]
    have "set (ev_order E A) = A"
      using assms(1) P(2) by (simp add: env_ok_def)
    then have "rcc_inv E ({v} - set_option (waiter (AncFinish v r))) s' (new @ st)"
      using P(1) A(2) by (intro wait_for_inv[OF i1]) auto
    then show ?thesis
      by simp
  qed
qed

lemma out_inv:
  assumes "rcc_inv E Y s st" "\<And>i. e \<noteq> Executed i"
  shows "rcc_inv E Y (out e s) st"
proof -
  note I = rcc_invD[OF assms(1)]
  have x: "ext {} s (out e s)" "executed (out e s) = executed s"
    using assms(2) by (auto simp: ext_def out_def executed_def split: rcc_out.splits)
  have "base_ok (out e s)"
    using I(1) by (simp add: base_ok_def rows_ok_def out_def)
  then show ?thesis
    using x exec_ok_ext[OF I(2) x] by (intro rcc_inv_ext[OF assms(1)]) (auto simp: out_def)
qed

lemma pop_reply:
  assumes "rcc_inv E Y s (AReply r # st)"
  shows "rcc_inv E Y s st"
proof (rule stack_inv[OF assms])
  show "reached s st"
    by (rule reached_more[OF rcc_invD(4)[OF assms]]) auto
qed (auto simp: minded_def)

lemma reply_step:
  assumes "rcc_inv E {} s (AReply r # st)" "rcc_act E (AReply r) s = Some (s', new)"
  shows "rcc_inv E {} s' (new @ st)"
  using pop_reply[OF assms(1)] out_inv[OF pop_reply[OF assms(1)]] assms(2) by (auto split: option.splits)

lemma res_inv:
  assumes "rcc_inv E Y s st" "ADecide v r \<in> set st" "\<And>d. vdata s v = Some d \<Longrightarrow> is_finish d"
  shows "rcc_inv E Y (upd_txn v (\<lambda>d. d\<lparr>ti_res := x\<rparr>) s) st"
proof -
  let ?s = "upd_txn v (\<lambda>d. d\<lparr>ti_res := x\<rparr>) s"
  note I = rcc_invD[OF assms(1)]
  have same: "is_commit (d\<lparr>ti_res := y\<rparr>) = is_commit d" "is_finish (d\<lparr>ti_res := y\<rparr>) = is_finish d"
    "is_involved (ev_site E) (d\<lparr>ti_res := y\<rparr>) = is_involved (ev_site E) d" "finishing E (d\<lparr>ti_res := y\<rparr>) = finishing E d" for d y
    by (simp_all add: is_commit_def is_finish_def is_involved_def finishing_def)
  have dat: "data_ok (d\<lparr>ti_res := x\<rparr>)" if "vdata s v = Some d" for d
    using assms(3)[OF that] base_okD(4)[OF I(1) that] by (simp add: data_ok_def same)
  have vd: "vdata ?s u = (if u = v then map_option (\<lambda>d. d\<lparr>ti_res := x\<rparr>) (vdata s v) else vdata s u)" for u
    by (simp add: vdata_upd_txn)
  have old: "\<exists>d y. vdata s u = Some d \<and> d' = d\<lparr>ti_res := y\<rparr> \<and> (u \<noteq> v \<longrightarrow> d' = d)" if "vdata ?s u = Some d'" for u d'
  proof (cases "u = v")
    case False
    then show ?thesis
      using that by (intro exI[of _ d'] exI[of _ "ti_res d'"]) (simp add: vd)
  qed (use that in \<open>auto simp: vd\<close>)
  have new: "\<exists>y. vdata ?s u = Some (d\<lparr>ti_res := y\<rparr>)" if "vdata s u = Some d" for u d
    using that by (cases "u = v") (auto simp: vd intro: exI[of _ "ti_res d"])
  have evs: "evs ?s = evs s"
    by (rule ext) (simp add: evs_def vd split: option.splits)
  have dom: "dom (vdata ?s) = dom (vdata s)"
    by (auto simp: vd dom_def)
  have reg: "registered ?s = registered s"
    unfolding registered_def[abs_def] dom evs ..
  have b: "base_ok ?s"
    using dat by (intro base_ok_upd_txn[OF I(1)]) auto
  have "exec_ok ?s"
    unfolding exec_ok_def
  proof (intro conjI ballI)
    have ex: "executed ?s = executed s"
      by (simp add: executed_def)
    then show "distinct (executed ?s)"
      using I(2) by (simp add: exec_ok_def)
    fix i
    assume "i \<in> set (executed ?s)"
    then obtain u d where u: "vdata s u = Some d" "ti_id d = i" "ti_committed d"
      using I(2) ex unfolding exec_ok_def by auto
    then show "\<exists>u d. vdata ?s u = Some d \<and> ti_id d = i \<and> ti_committed d"
      using new[OF u(1)] by force
  qed
  moreover have "acct ?s st"
    using I(3) unfolding acct_def reg by simp
  moreover have "reached ?s st"
    unfolding reached_def
  proof (intro allI impI)
    fix u d' k
    assume u: "vdata ?s u = Some d' \<and> ev_at (ti_events d') k \<noteq> [] \<and> k \<le>s ti_status d'"
    then obtain d y where "vdata s u = Some d" "d' = d\<lparr>ti_res := y\<rparr>"
      using old[of u d'] by blast
    then show "\<exists>n \<le> unat k. ATrigger u n \<in> set st"
      using I(4)[unfolded reached_def, rule_format, of u d k] u by simp
  qed
  moreover have "deciding E Y ?s st"
  proof (rule decidingI)
    fix u d'
    assume u: "vdata ?s u = Some d'"
    obtain d y where d: "vdata s u = Some d" "d' = d\<lparr>ti_res := y\<rparr>" "u \<noteq> v \<longrightarrow> d' = d"
      using old[OF u] by blast
    note D = decidingD[OF I(5) d(1)]
    show "\<exists>b bl w. sv_balls ?s b = Some (bl, w) \<and> waiter w = Some u" if "ti_during_commit d'" "\<not> is_commit d'" "u \<notin> Y"
      using D(1) that d(2) by (simp add: same)
    show "ti_during_commit d' \<or> (\<exists>r. ADecide u r \<in> set st)" if "ti_res d' \<noteq> None"
      using D(2) that d(3) assms(2) by (cases "u = v") blast+
    show "finishing E d'" if "ti_during_commit d'"
      using D(3) that d(2) by (simp add: same)
    show "finishing E d'" if "ADecide u r' \<in> set st" for r'
      using D(4) that d(2) by (simp add: same)
  qed
  moreover have "waiting ?s st"
    by (rule waiting_mono[OF I(6)]) (auto simp: waits_def evs)
  moreover have "asking E ?s st"
  proof (rule askingI)
    show "minded E ?s st u" if c: "sv_balls ?s c = Some (bl, w)" "waiter w \<noteq> None" "c \<in> set (ev_at (evs ?s u) k)" for c bl w u k
    proof -
      obtain d where d: "vdata s u = Some d" "is_involved (ev_site E) d \<or> is_commit d \<or> ti_during_commit d \<or> ti_during_asking d \<or> AAsk u \<in> set st \<or> ADecide u None \<in> set st"
        using askingD(1)[OF I(7), of c bl w u k] c by (auto simp: minded_def evs)
      then show ?thesis
        using new[OF d(1)] unfolding minded_def by (force simp: same)
    qed
    show "u \<in> set (sv_asked ?s) \<or> ti_during_commit d' \<or> ADecide u None \<in> set st" if "vdata ?s u = Some d'" "ti_during_asking d'" for u d'
      using old[OF that(1)] askingD(2)[OF I(7), of u] that(2) by auto
    show "waiter w = None" if "sv_balls ?s c = Some (bl, w)" "ARegister u k c \<in> set st" for c bl w u k
      using askingD(3)[OF I(7)] that by simp
  qed
  ultimately show ?thesis
    using b unfolding rcc_inv_def by blast
qed

lemma finish_step:
  assumes "rcc_inv E {} s (AFinish tid timestamp req # st)" "finish E tid timestamp req s = Some (s', new)"
  shows "rcc_inv E {} s' (new @ st)"
proof -
  note I = rcc_invD[OF assms(1)]
  obtain v where v: "graph_find tid (sv_gra s) = Some v" and new: "new = [ATrigger v 0, ADecide v (Some req)]"
      and s': "s' = upd_txn v (\<lambda>d. fst (union_status (ev_site E) TXN_CMT False False (d\<lparr>ti_res := Some req\<rparr>))) (s\<lparr>sv_read_ts := max (sv_read_ts s) timestamp\<rparr>)"
    using assms(2) by (auto simp: finish_def Let_def split: Option.bind_splits)
  define f where "f d = fst (union_status (ev_site E) TXN_CMT False False d)" for d
  define s0 where "s0 = s\<lparr>sv_read_ts := max (sv_read_ts s) timestamp\<rparr>"
  obtain d where d: "vdata s v = Some d"
    using upd_txn_vertex[OF I(1) v] by blast
  have le: "data_le d (f d)" for d
    unfolding f_def by (rule union_status_le) (simp add: TXN_CMT_def)
  have fin: "is_finish (f d)" for d
    unfolding f_def by (simp add: is_commit_bit union_status_def bit_or_iff TXN_CMT_def)
  have b0: "base_ok s0" "ext {v} s s0" "exec_ok s0"
    using I(1,2) by (simp_all add: s0_def base_ok_def rows_ok_def ext_def exec_ok_def executed_def)
  let ?s = "upd_txn v f s0"
  have "ti_id (f d) = ti_id d" for d
    using le by (simp add: data_le_def)
  then have b: "base_ok ?s"
    using le base_okD(4)[OF b0(1)] by (intro base_ok_upd_txn[OF b0(1)]) (auto simp: data_le_def)
  have e: "ext {v} s0 ?s"
    using le by (intro ext_upd_txn) simp
  have es: "ext {v} s ?s"
    using ext_trans[OF b0(2) e] by simp
  have "exec_ok ?s"
    by (rule exec_ok_ext[OF b0(3) e]) (simp add: executed_def)
  then have "rcc_inv E {} ?s (new @ st)"
  proof (rule rcc_inv_ext[OF assms(1) es b])
    show "ADecide u r \<in> set (AFinish tid timestamp req # st) \<and> vdata s u \<noteq> None \<or> finishing E d'"
      if "ADecide u r \<in> set (new @ st)" "vdata ?s u = Some d'" for u r d'
      using that fin new by (cases "u = v") (auto simp: vdata_upd_txn finishing_def s0_def)
  qed (auto simp: new)
  moreover have "is_finish d'" if "vdata ?s v = Some d'" for d'
    using that fin by (auto simp: vdata_upd_txn)
  ultimately have "rcc_inv E {} (upd_txn v (\<lambda>d. d\<lparr>ti_res := Some req\<rparr>) ?s) (new @ st)"
    using new by (intro res_inv[where r = "Some req"]) auto
  moreover have "(f d)\<lparr>ti_res := Some req\<rparr> = f (d\<lparr>ti_res := Some req\<rparr>)" for d
    by (simp add: f_def union_status_def)
  ultimately show ?thesis
    unfolding s' upd_txn_twice f_def s0_def by simp
qed

subsection \<open>Balls\<close>

lemma wish_step:
  assumes "rcc_inv E (set_option (waiter w)) s st" "run_wish E w s = Some (s', new)"
  shows "rcc_inv E {} s' (new @ st)"
proof (cases w)
  case (AncFinish v r)
  note I = rcc_invD[OF assms(1)]
  obtain A where A: "find_txn_scc_nearest_anc v (sv_gra s) = Some A" "wait_for TXN_DCD (sorted_list_of_set A) (SccCommit v r) s = (s', new)"
    using assms(2) AncFinish by (auto simp: run_wish_def split: Option.bind_splits)
  note P = scc_anc_parents[OF base_okD(1)[OF I(1)] A(1)]
  have "rcc_inv E (set_option (waiter w) - set_option (waiter (SccCommit v r))) s' (new @ st)"
    using P A(2) by (intro wait_for_inv[OF assms(1)]) auto
  then show ?thesis
    using AncFinish by simp
next
  case (SccCommit v r)
  note I = rcc_invD[OF assms(1)]
  obtain d where d: "vdata s v = Some d"
    using assms(2) SccCommit by (cases "vdata s v") (auto simp: run_wish_def)
  have r: "reached s (AReply r # st)"
    by (rule reached_more[OF I(4)]) auto
  show ?thesis
  proof (cases "is_commit d")
    case True
    then have s': "s' = s" "new = [AReply r]"
      using assms(2) SccCommit d by (auto simp: run_wish_def)
    have "rcc_inv E {} s (new @ st)"
      by (rule rcc_inv_ext[OF assms(1) ext_refl[of "{}"] I(1,2)]) (use True d SccCommit s' in auto)
    then show ?thesis
      using s' by simp
  next
    case False
    then obtain vs where vs: "sorted_scc v (sv_gra s) = Some vs" "commit_scc E vs s = Some s'" "new = map (\<lambda>u. ATrigger u 0) vs @ [AReply r]"
      using assms(2) SccCommit d by (auto simp: run_wish_def split: Option.bind_splits)
    have v: "v \<in> set vs"
      using sorted_scc_order(2)[OF graph_inv_ok[OF base_okD(1)[OF I(1)]] vs(1)] by (simp add: scc_of_def)
    have ok: "base_ok s'" "exec_ok s'" "ext (set vs) s s'" "\<forall>v \<in> set vs. \<exists>d. vdata s' v = Some d \<and> is_commit d"
        "dom (vdata s') = dom (vdata s)"
      using commit_scc_ok[OF I(1,2) vs(2)] by blast+
    show ?thesis
    proof (rule rcc_inv_ext[OF assms(1) ok(3,1,2)])
      show "ADecide u q \<in> set st \<and> vdata s u \<noteq> None \<or> finishing E d'" if "ADecide u q \<in> set (new @ st)" "vdata s' u = Some d'" for u q d'
        using that vs(3) ok(5) by auto
    qed (use v ok(4) vs(3) SccCommit in auto)
  qed
next
  case (AskReply tid req)
  then show ?thesis
    using assms out_inv[of E "{}" s st "AskReplied req x" for x] by (auto simp: run_wish_def split: Option.bind_splits)
next
  case (RoReply req)
  then show ?thesis
    using assms out_inv[of E "{}" s st "Replied req"] by (simp add: run_wish_def)
qed

lemma ball_step:
  assumes "rcc_inv E {} s (ABall b # st)" "ball_trigger E b s = Some (s', new)"
  shows "rcc_inv E {} s' (new @ st)"
proof -
  obtain bl w where b: "sv_balls s b = Some (bl, w)" "\<not> db_called bl" "db_n_ready bl + 1 \<le> db_n_wait bl"
    using ball_counts[OF assms(1)] by metis
  show ?thesis
  proof (cases "db_n_ready bl + 1 = db_n_wait bl")
    case True
    then have r: "run_wish E w (s\<lparr>sv_balls := (sv_balls s)(b := None)\<rparr>) = Some (s', new)"
      using assms(2) b by (simp add: ball_trigger_def db_trigger_def)
    have "rcc_inv E (set_option (waiter w)) (s\<lparr>sv_balls := (sv_balls s)(b := None)\<rparr>) st"
      using ball_fire_inv[OF assms(1) b(1) True refl] by simp
    then show ?thesis
      using wish_step r by blast
  next
    case False
    then have "s' = s\<lparr>sv_balls := (sv_balls s)(b \<mapsto> (bl\<lparr>db_n_ready := db_n_ready bl + 1\<rparr>, w))\<rparr>" "new = []"
      using assms(2) b by (auto simp: ball_trigger_def db_trigger_def)
    then show ?thesis
      using ball_wait_inv[OF assms(1) b(1)] False b(3) by simp
  qed
qed

lemma act_step:
  assumes "env_ok E" "rcc_inv E {} s (a # st)" "rcc_act E a s = Some (s', new)"
  shows "rcc_inv E {} s' (new @ st)"
proof (cases a)
  case (AWaitOn v k b)
  then obtain new' where "txn_register v k b s = Some (s', new')" "new = new' @ [AAsk v]"
    using assms(3) by auto
  then show ?thesis
    using register_step[OF assms(2), of v k b s' new' "AAsk v # st"] AWaitOn by simp
next
  case (ARegister v k b)
  then show ?thesis
    using register_step[OF assms(2), of v k b s' new st] assms(3) by simp
qed (use assms trigger_step ball_step ask_step decide_step finish_step reply_step in \<open>auto simp del: rcc_act.simps(8)\<close>)

end
