(* ===== verification/RCC_Reach.thy ===== *)
theory RCC_Reach
  imports RCC_Steps
begin

text \<open>
  The states an RCC server can reach (\<open>RCC\<close>) when messages are delivered one after the other: each keeps the invariant, transactions
  are executed at most once, decisions do not deadlock, and the run of every handler ends.
\<close>

subsection \<open>Messages\<close>

definition msg_ok :: "'db server \<Rightarrow> message \<Rightarrow> bool" where
  "msg_ok s m = (case m of
     FinishTxn req tid timestamp gra \<Rightarrow> msg_graph gra
   | AskAnswer v gra \<Rightarrow> msg_graph gra \<and>
       (case vdata s v of None \<Rightarrow> False | Some d \<Rightarrow> (case node gra (ti_id d) of None \<Rightarrow> False | Some t \<Rightarrow> is_finish t \<or> is_commit t))
   | _ \<Rightarrow> True)"

definition fresh_rows :: "(nat \<Rightarrow> vid option list option) \<Rightarrow> bool" where
  "fresh_rows rows \<longleftrightarrow> (\<forall>a es. rows a = Some es \<longrightarrow> set es \<subseteq> {None})"

inductive rcc_reach :: "'db rcc_env \<Rightarrow> 'db config \<Rightarrow> bool" for E where
  start: "fresh_rows rows \<Longrightarrow> rcc_reach E (server_new db rows, [])"
| message: "rcc_reach E (s, []) \<Longrightarrow> msg_ok s m \<Longrightarrow> deliver E m s = Some c \<Longrightarrow> rcc_reach E c"
| step: "rcc_reach E c \<Longrightarrow> rcc_step E c = Some c' \<Longrightarrow> rcc_reach E c'"

lemma start_inv: "fresh_rows rows \<Longrightarrow> rcc_inv E {} (server_new db rows) []"
proof -
  assume "fresh_rows rows"
  then have "base_ok (server_new db rows)"
    using graph_inv_new by (auto simp: base_ok_def server_new_def rows_ok_def fresh_rows_def vdata_def graph_new_def)
  moreover have "vdata (server_new db rows) v = None" for v
    by (simp add: vdata_def server_new_def graph_new_def)
  moreover have "sv_balls (server_new db rows) b = None" "sv_out (server_new db rows) = []" for b
    by (simp_all add: server_new_def)
  ultimately show ?thesis
    by (simp add: rcc_inv_def exec_ok_def executed_def acct_def reached_def deciding_def waiting_def asking_def wait_rel_def registered_def
        dom_def acyclic_def)
qed

lemma get_or_create_ok:
  assumes "base_ok s" "get_or_create tid ro s = (t, s')"
  shows "base_ok s'" "txn_ok (sv_gra s') t" "piece_ext s s'"
proof -
  have new: "txn_ok (sv_gra s) (dtxn_new tid ro)"
    by (simp add: txn_ok_def dtxn_new_def)
  have "dt_tid (dtxn_new tid ro) = tid"
    by (simp add: dtxn_new_def)
  then have "(t, s') = (case sv_dtxns s tid of Some t \<Rightarrow> (t, s) | None \<Rightarrow> (dtxn_new tid ro, put_dtxn (dtxn_new tid ro) s))"
    using assms(2) by (auto simp: get_or_create_def put_dtxn_def split: option.splits)
  then show "base_ok s'" "txn_ok (sv_gra s') t" "piece_ext s s'"
    using base_ok_dtxns[OF assms(1) new] new assms(1) base_okD(3)[OF assms(1)] by (auto simp: put_dtxn_def split: option.splits)
qed

lemma ext_inv:
  assumes "rcc_inv E Y s st" "ext {} s s'" "base_ok s'" "executed s' = executed s" "\<And>v r. ADecide v r \<notin> set st"
  shows "rcc_inv E Y s' st"
proof -
  have "exec_ok s'"
    using exec_ok_ext[OF rcc_invD(2)[OF assms(1)] assms(2,4)] .
  then show ?thesis
    by (intro rcc_inv_ext[OF assms(1,2,3)]) (use assms(5) in auto)
qed

lemma start_pie_ext:
  assumes "env_ok E" "base_ok s" "rcc_start_pie E req header input s = Some (s', st)"
  obtains s1 e where "ext {} s s1" "base_ok s1" "executed s1 = executed s" "s' = out e s1" "\<And>i. e \<noteq> Executed i" "st = []"
proof -
  obtain t s1 where g: "get_or_create (h_tid header) False s = (t, s1)"
    by (cases "get_or_create (h_tid header) False s")
  note G = get_or_create_ok[OF assms(2) g]
  obtain deferred outp t1 s2 sub where r: "rcc_start E header input t s1 = Some (deferred, outp, t1, s2)"
      "s' = out (StartReplied req deferred outp sub) (put_dtxn t1 s2)" "st = []"
    using assms(3) g by (auto simp: rcc_start_pie_def Let_def split: Option.bind_splits)
  have R: "base_ok s2" "txn_ok (sv_gra s2) t1" "ext {} s1 s2" "executed s2 = executed s1"
    using rcc_start_ok[OF _ G(1,2) r(1)] assms(1) by (auto simp: env_ok_def)
  note P = base_ok_dtxns[OF R(1,2)]
  have "ext {} s (put_dtxn t1 s2)"
    using ext_trans[OF piece_ext_ext[OF G(3)] ext_trans[OF R(3) piece_ext_ext[OF P(2)]], of "{}" "{}"] by simp
  moreover have "executed (put_dtxn t1 s2) = executed s"
    using piece_ext_executed G(3) P(2) R(4) by metis
  ultimately show ?thesis
    using that[of "put_dtxn t1 s2"] P(1) r(2,3) by blast
qed

lemma start_pie_inv:
  assumes "env_ok E" "rcc_inv E {} s []" "rcc_start_pie E req header input s = Some (s', st)"
  shows "rcc_inv E {} s' st"
  using start_pie_ext[OF assms(1) rcc_invD(1)[OF assms(2)] assms(3)] ext_inv[OF assms(2)] out_inv
  by (metis list.set(1) empty_iff)

lemma merge_inv:
  assumes "env_ok E" "rcc_inv E {} s []" "msg_graph gra" "merge_graph E gra s = Some (s', as)"
    and "\<And>b. pending b st = 0" "\<And>v r d'. ADecide v r \<in> set st \<Longrightarrow> vdata s' v = Some d' \<Longrightarrow> finishing E d'"
  shows "rcc_inv E {} s' (as @ st)"
proof -
  obtain X where X: "base_ok s'" "ext X s s'" "executed s' = executed s" "finite X" "as = map (\<lambda>v. ATrigger v 0) (sorted_list_of_set X)"
    using merge_graph_ok[OF _ rcc_invD(1)[OF assms(2)] assms(3,4)] assms(1) unfolding env_ok_def by metis
  have "exec_ok s'"
    using exec_ok_ext[OF rcc_invD(2)[OF assms(2)] X(2,3)] .
  moreover have "\<not> act_ball b a" if "a \<in> set st" for a b
    using assms(5)[of b] that by (auto simp: pending_zero)
  then have "ARegister v k b \<notin> set st" "AWaitOn v k b \<notin> set st" for v k b
    by fastforce+
  ultimately show ?thesis
    by (intro rcc_inv_ext[OF assms(2) X(2,1)]) (use X(4,5) assms(5,6) in auto)
qed

lemma finish_txn_inv:
  assumes "env_ok E" "rcc_inv E {} s []" "msg_graph gra" "rcc_finish_txn E req tid timestamp gra s = Some (s', st)"
  shows "rcc_inv E {} s' st"
proof -
  obtain as where "merge_graph E gra s = Some (s', as)" "st = as @ [AFinish tid timestamp req]"
    using assms(4) by (auto simp: rcc_finish_txn_def split: Option.bind_splits)
  then show ?thesis
    using merge_inv[OF assms(1-3), of s' as "[AFinish tid timestamp req]"] by simp
qed

lemma unask_inv:
  assumes "rcc_inv E Y s st" "ADecide v None \<in> set st"
  shows "rcc_inv E Y (s\<lparr>sv_asked := remove1 v (sv_asked s)\<rparr>) st"
proof -
  let ?s = "s\<lparr>sv_asked := remove1 v (sv_asked s)\<rparr>"
  note I = rcc_invD[OF assms(1)]
  have g: "sv_gra ?s = sv_gra s" "sv_balls ?s = sv_balls s" "sv_next ?s = sv_next s"
    by simp_all
  note v = same_graph[OF g(1)]
  have "asking E ?s st"
  proof (rule askingI)
    show "minded E ?s st u" if "sv_balls ?s c = Some (bl, w)" "waiter w \<noteq> None" "c \<in> set (ev_at (evs ?s u) k)" for c bl w u k
      using askingD(1)[OF I(7), of c bl w u k] that unfolding minded_def v by simp
    show "u \<in> set (sv_asked ?s) \<or> ti_during_commit d \<or> ADecide u None \<in> set st" if "vdata ?s u = Some d" "ti_during_asking d" for u d
      using askingD(2)[OF I(7), of u d] that assms(2) unfolding v by (cases "u = v") auto
    show "waiter w = None" if "sv_balls ?s c = Some (bl, w)" "ARegister u k c \<in> set st" for c bl w u k
      using askingD(3)[OF I(7)] that by simp
  qed
  moreover have "waiting ?s st"
    by (rule waiting_mono[OF I(6)]) (auto simp: waits_def v)
  moreover have "base_ok ?s" "exec_ok ?s"
    using I(1,2) by (simp_all add: base_ok_def rows_ok_def exec_ok_def executed_def)
  ultimately show ?thesis
    using I(3-5) unfolding rcc_inv_def acct_def reached_def deciding_def v g by blast
qed

lemma answer_finishing:
  assumes "is_finish m \<or> is_commit m"
  shows "finishing E (fst (union_data (ev_site E) m False True d))"
  using assms by (auto simp: finishing_def union_data_def union_status_def is_commit_bit bit_or_iff is_involved_def)

lemma ask_answer_inv:
  assumes "env_ok E" "rcc_inv E {} s []" "msg_ok s (AskAnswer v gra)" "ask_answer E v gra s = Some (s', st)"
  shows "rcc_inv E {} s' st"
proof -
  obtain d m where m: "msg_graph gra" "vdata s v = Some d" "node gra (ti_id d) = Some m" "is_finish m \<or> is_commit m"
    using assms(3) by (auto simp: msg_ok_def split: option.splits)
  obtain s1 as where r: "merge_graph E gra s = Some (s1, as)" "s' = s1\<lparr>sv_asked := remove1 v (sv_asked s)\<rparr>" "st = as @ [ADecide v None]"
    using assms(4) by (auto simp: ask_answer_def merge_graph_def split: Option.bind_splits)
  obtain X where X: "ext X s s1" "\<And>v d m. vdata s v = Some d \<Longrightarrow> node gra (ti_id d) = Some m \<Longrightarrow> vdata s1 v = Some (fst (union_data (ev_site E) m False True d))"
    using merge_graph_ok[OF _ rcc_invD(1)[OF assms(2)] m(1) r(1)] assms(1) unfolding env_ok_def by metis
  have "rcc_inv E {} s1 (as @ [ADecide v None])"
    using answer_finishing[OF m(4)] X(2)[OF m(2,3)] by (intro merge_inv[OF assms(1,2) m(1) r(1)]) auto
  moreover have "sv_asked s1 = sv_asked s"
    using X(1) by (simp add: ext_def)
  ultimately show ?thesis
    using unask_inv[of E "{}" s1 "as @ [ADecide v None]" v] r(2,3) by simp
qed

lemma ask_txn_inv:
  assumes "rcc_inv E {} s []" "rcc_ask_txn E req tid s = Some (s', st)"
  shows "rcc_inv E {} s' st"
proof -
  obtain v where "s' = s\<lparr>sv_balls := (sv_balls s)(sv_next s \<mapsto> (db_new (int 2), AskReply tid req)), sv_next := Suc (sv_next s)\<rparr>"
      "st = [ARegister v TXN_CMT (sv_next s), ABall (sv_next s)]"
    using assms(2) by (auto simp: rcc_ask_txn_def new_ball_def Let_def split: Option.bind_splits)
  then have "rcc_inv E ({} - set_option (waiter (AskReply tid req))) s' (st @ [])"
    by (intro new_ball_inv[OF assms(1) refl, where n = 2 and vs = "[v]"]) auto
  then show ?thesis
    by simp
qed

lemma ro_start_ext:
  assumes "base_ok s" "rcc_ro_start_pie E req header input s = Some (s', st)"
  obtains s1 vs where "piece_ext s s1" "base_ok s1" "set vs \<subseteq> dom (vdata s1)" "s' = snd (new_ball (length vs + 1) (RoReply req) s1)"
    "st = map (\<lambda>u. ARegister u TXN_DCD (sv_next s1)) vs @ [ABall (sv_next s1)]"
proof -
  obtain t s1 where g: "get_or_create (h_tid header) True s = (t, s1)"
    by (cases "get_or_create (h_tid header) True s")
  note G = get_or_create_ok[OF assms(1) g]
  define t0 where "t0 = t\<lparr>dt_conflict := [], dt_phase := 1\<rparr>"
  obtain h outp rows t1 s2 where r: "run_piece h header input True None t0 s1 = Some (outp, rows, t1, s2)"
      and s': "s' = snd (new_ball (length (dt_conflict t1) + 1) (RoReply req) (put_dtxn t1 s2))"
        "st = map (\<lambda>u. ARegister u TXN_DCD (sv_next (put_dtxn t1 s2))) (dt_conflict t1) @ [ABall (sv_next (put_dtxn t1 s2))]"
    using assms(2) g unfolding t0_def by (auto simp: rcc_ro_start_pie_def new_ball_def split: Option.bind_splits)
  have "txn_ok (sv_gra s1) t0"
    using G(2) by (simp add: t0_def txn_ok_def)
  then have R: "base_ok s2" "txn_ok (sv_gra s2) t1" "piece_ext s1 s2"
    using run_piece_ok[OF G(1) _ r] by blast+
  note P = base_ok_dtxns[OF R(1,2)]
  have "piece_ext s (put_dtxn t1 s2)"
    using piece_ext_trans[OF G(3) piece_ext_trans[OF R(3) P(2)]] .
  moreover have "set (dt_conflict t1) \<subseteq> dom (vdata (put_dtxn t1 s2))"
    using R(2) P(2) by (simp add: txn_ok_def vdata_dom piece_ext_def)
  ultimately show ?thesis
    using that P(1) s' by blast
qed

lemma ro_start_inv:
  assumes "rcc_inv E {} s []" "rcc_ro_start_pie E req header input s = Some (s', st)"
  shows "rcc_inv E {} s' st"
proof -
  obtain s1 vs where x: "piece_ext s s1" "base_ok s1" and s': "s' = snd (new_ball (length vs + 1) (RoReply req) s1)"
      "st = map (\<lambda>u. ARegister u TXN_DCD (sv_next s1)) vs @ [ABall (sv_next s1)]"
    using ro_start_ext[OF rcc_invD(1)[OF assms(1)] assms(2)] by metis
  have i: "rcc_inv E {} s1 []"
    by (rule ext_inv[OF assms(1) piece_ext_ext[OF x(1)] x(2) piece_ext_executed[OF x(1)]]) simp
  have "rcc_inv E ({} - set_option (waiter (RoReply req))) s' (st @ [])"
    using s' by (intro new_ball_inv[OF i refl, where n = "length vs + 1" and vs = vs]) (auto simp: new_ball_def)
  then show ?thesis
    by simp
qed

lemma deliver_inv:
  assumes "env_ok E" "rcc_inv E {} s []" "msg_ok s m" "deliver E m s = Some (s', st)"
  shows "rcc_inv E {} s' st"
proof (cases m)
  case (FinishTxn req tid timestamp gra)
  then show ?thesis
    using assms finish_txn_inv by (auto simp: msg_ok_def)
qed (use assms start_pie_inv ask_txn_inv ask_answer_inv ro_start_inv in auto)

lemma reach_inv:
  assumes "env_ok E" "rcc_reach E c"
  shows "rcc_inv E {} (fst c) (snd c)"
  using assms(2)
proof induction
  case (message s m c)
  then show ?case
    using deliver_inv[OF assms(1), of s m "fst c" "snd c"] by simp
next
  case (step c c')
  obtain a st where c: "snd c = a # st"
    using step(2) by (cases "snd c") (auto simp: rcc_step_def)
  then obtain s' new where "rcc_act E a (fst c) = Some (s', new)" "c' = (s', new @ st)"
    using step(2) by (auto simp: rcc_step_def)
  then show ?case
    using act_step[OF assms(1), of "fst c" a st] step.IH c by simp
qed (simp add: start_inv)

subsection \<open>Deadlock freedom\<close>

text \<open>A transaction that waits although no answer is outstanding waits for the decision of another one that waits.\<close>

lemma waits_for_other:
  assumes "rcc_inv E {} s []" "sv_asked s = []" "\<And>u d. vdata s u = Some d \<Longrightarrow> is_involved (ev_site E) d \<Longrightarrow> ti_res d \<noteq> None"
    and "vdata s v = Some d" "ti_during_commit d" "\<not> is_commit d"
  obtains u d' where "vdata s u = Some d'" "ti_during_commit d'" "\<not> is_commit d'" "(v, u) \<in> wait_rel s []"
proof -
  note I = rcc_invD[OF assms(1)]
  obtain b bl w where b: "sv_balls s b = Some (bl, w)" "waiter w = Some v"
    using decidingD(1)[OF I(5) assms(4-6)] by blast
  have "registered s b \<noteq> 0"
    using acctD(2)[OF I(3) b(1)] by auto
  then obtain u k where u: "b \<in> set (ev_at (evs s u) k)"
    unfolding registered_zero[OF I(1)] by blast
  obtain d' where d': "vdata s u = Some d'" "is_involved (ev_site E) d' \<or> is_commit d' \<or> ti_during_commit d' \<or> ti_during_asking d'"
    using askingD(1)[OF I(7) b(1) _ u] b(2) by (auto simp: minded_def)
  have ok: "data_ok d'"
    using base_okD(4)[OF I(1) d'(1)] .
  have w: "waits s [] u k b"
    using u by (simp add: waits_def)
  then have k: "k = wish_key w"
    using waitingD(1)[OF I(6) b(1)] by blast
  have nr: "\<not> k \<le>s ti_status d'"
    using I(4)[unfolded reached_def, rule_format, of u d' k] u d'(1) by (cases "ev_at (ti_events d') k") (auto simp: evs_def)
  have nc: "\<not> is_commit d'"
    using nr k ok wish_key_cases[of w] status_reached[of d'] by (auto simp: data_ok_def)
  have res: "ti_res d' \<noteq> None \<Longrightarrow> ti_during_commit d'"
    using decidingD(2)[OF I(5) d'(1)] by simp
  then have dc: "ti_during_commit d'"
    using d' nc assms(2) assms(3)[OF d'(1)] askingD(2)[OF I(7) d'(1)] by auto
  then have "is_finish d'"
    using decidingD(3)[OF I(5) d'(1)] nc assms(3)[OF d'(1)] ok by (auto simp: finishing_def data_ok_def)
  then have "k \<noteq> TXN_CMT"
    using nr ok status_reached(2)[of d'] by (auto simp: data_ok_def)
  then obtain r where "w = SccCommit v r"
    using b(2) k by (cases w) auto
  then have "(v, u) \<in> wait_rel s []"
    using b(1) w by (auto simp: wait_rel_def)
  then show ?thesis
    using that d'(1) dc nc by blast
qed

lemma settled:
  assumes "rcc_inv E {} s []" "sv_asked s = []" "\<And>u d. vdata s u = Some d \<Longrightarrow> is_involved (ev_site E) d \<Longrightarrow> ti_res d \<noteq> None"
    and "vdata s v = Some d" "ti_during_commit d"
  shows "is_commit d"
proof (rule ccontr)
  let ?stuck = "{u. \<exists>d. vdata s u = Some d \<and> ti_during_commit d \<and> \<not> is_commit d}"
  let ?R = "wait_rel s [] \<inter> ?stuck \<times> ?stuck"
  note I = rcc_invD[OF assms(1)]
  assume "\<not> is_commit d"
  then have v: "v \<in> ?stuck"
    using assms(4,5) by blast
  have "?stuck \<subseteq> dom (vdata s)"
    by blast
  then have "finite ?stuck"
    using finite_subset vdata_finite[OF I(1)] by blast
  then have "finite ?R"
    by (meson finite_SigmaI finite_Int)
  moreover have "acyclic ?R"
    using waitingD(3)[OF I(6)] acyclic_subset by blast
  ultimately have "wf (?R\<inverse>)"
    using finite_acyclic_wf_converse by blast
  then obtain u where u: "u \<in> ?stuck" "\<And>w. (w, u) \<in> ?R\<inverse> \<Longrightarrow> w \<notin> ?stuck"
    using v by (rule wfE_min) blast
  then obtain du where du: "vdata s u = Some du" "ti_during_commit du" "\<not> is_commit du"
    by blast
  obtain w d' where "vdata s w = Some d'" "ti_during_commit d'" "\<not> is_commit d'" "(u, w) \<in> wait_rel s []"
    by (rule waits_for_other[OF assms(1,2) _ du]) (use assms(3) in blast)+
  then show False
    using u by blast
qed

end
