(* ===== verification/RCC_Term.thy ===== *)
theory RCC_Term
  imports RCC_Reach
begin

text \<open>
  The run of every handler of an RCC server ends. A step decides a transaction, begins a decision, uses up a ball that waits for
  committing ancestors, or makes the remaining work smaller: the actions and the registered balls, weighted by what they can still cause.
\<close>

subsection \<open>The measure\<close>

definition undecided_txns :: "'db server \<Rightarrow> vid set" where
  "undecided_txns s = {v. \<exists>d. vdata s v = Some d \<and> \<not> is_commit d}"

definition idle_txns :: "'db server \<Rightarrow> vid set" where
  "idle_txns s = {v. \<exists>d. vdata s v = Some d \<and> \<not> ti_during_commit d}"

definition anc_balls :: "'db server \<Rightarrow> ball set" where
  "anc_balls s = {b. \<exists>bl v r. sv_balls s b = Some (bl, AncFinish v r)}"

definition ev_len :: "(i8 \<times> ball list) list \<Rightarrow> nat" where
  "ev_len es = sum_list (map (\<lambda>e. length (snd e)) es)"

definition event_balls :: "'db server \<Rightarrow> nat" where
  "event_balls s = (\<Sum>v \<in> dom (vdata s). ev_len (evs s v))"

fun act_weight :: "action \<Rightarrow> nat" where
  "act_weight (ATrigger _ k) = Suc (257 - k)"
| "act_weight (ABall _) = 2"
| "act_weight (ARegister _ _ _) = 4"
| "act_weight (AWaitOn _ _ _) = 6"
| "act_weight (AAsk _) = 2"
| "act_weight (ADecide _ _) = 1"
| "act_weight (AFinish _ _ _) = 260"
| "act_weight (AReply _) = 1"

definition work :: "'db server \<Rightarrow> action list \<Rightarrow> nat" where
  "work s st = 3 * event_balls s + sum_list (map act_weight st)"

definition run_order :: "('db config \<times> 'db config) set" where
  "run_order = measures [\<lambda>c. card (undecided_txns (fst c)), \<lambda>c. card (idle_txns (fst c)), \<lambda>c. card (anc_balls (fst c)), \<lambda>c. work (fst c) (snd c)]"

lemma run_order_wf: "wf run_order"
  by (simp add: run_order_def)

lemma finite_sets:
  assumes "rcc_inv E Y s st"
  shows "finite (undecided_txns s)" "finite (idle_txns s)" "finite (anc_balls s)"
proof -
  note I = rcc_invD[OF assms]
  have "undecided_txns s \<subseteq> dom (vdata s)" "idle_txns s \<subseteq> dom (vdata s)"
    by (auto simp: undecided_txns_def idle_txns_def)
  then show "finite (undecided_txns s)" "finite (idle_txns s)"
    using finite_subset vdata_finite[OF I(1)] by blast+
  have "anc_balls s \<subseteq> {..<sv_next s}"
  proof
    fix b
    assume "b \<in> anc_balls s"
    then have "sv_balls s b \<noteq> None"
      by (auto simp: anc_balls_def)
    then show "b \<in> {..<sv_next s}"
      using acctD(3)[OF I(3), of b] by (meson lessThan_iff not_le)
  qed
  then show "finite (anc_balls s)"
    using finite_subset by blast
qed

lemma run_orderI:
  assumes "rcc_inv E Y s (a # st)" "undecided_txns s' \<subseteq> undecided_txns s"
    and "undecided_txns s' \<noteq> undecided_txns s \<or> idle_txns s' \<subseteq> idle_txns s \<and> (idle_txns s' \<noteq> idle_txns s \<or>
       anc_balls s' \<subseteq> anc_balls s \<and> (anc_balls s' \<noteq> anc_balls s \<or> work s' st' < work s (a # st)))"
  shows "((s', st'), (s, a # st)) \<in> run_order"
proof -
  note F = finite_sets[OF assms(1)]
  have le: "card A < card B \<or> A = B" if "finite B" "A \<subseteq> B" for A B :: "'x set"
    using psubset_card_mono[OF that(1)] that(2) by blast
  show ?thesis
    unfolding run_order_def using le[OF F(1) assms(2)] assms(3) le[OF F(2), of "idle_txns s'"] le[OF F(3), of "anc_balls s'"] by auto
qed

lemma same_graph_sets:
  assumes "vdata s' = vdata s"
  shows "undecided_txns s' = undecided_txns s" "idle_txns s' = idle_txns s" "event_balls s' = event_balls s"
  using assms by (simp_all add: undecided_txns_def idle_txns_def event_balls_def evs_def)

lemma ev_len_put:
  assumes "smap_inv es"
  shows "ev_len (smap_put k bs es) + length (ev_at es k) = ev_len es + length bs"
  using assms
proof (induction es)
  case (Cons e es)
  obtain k' bs' where e: "e = (k', bs')"
    by (cases e)
  have inv: "smap_inv es" "\<And>k0. k0 \<in> fst ` set es \<Longrightarrow> k' < k0"
    using Cons.prems by (auto simp: smap_inv_def e)
  have none: "map_of es k = None" if "k \<le> k'"
    using inv(2) that by (force simp: map_of_eq_None_iff)
  consider "k < k'" | "k = k'" | "k' < k"
    by force
  then show ?case
  proof cases
    case 3
    then show ?thesis
      using Cons.IH[OF inv(1)] by (auto simp: e ev_len_def ev_at_def)
  qed (use none in \<open>auto simp: e ev_len_def ev_at_def\<close>)
qed (simp add: ev_len_def ev_at_def)

lemma event_balls_put:
  assumes "base_ok s" "vdata s v = Some d"
  shows "event_balls (put_events v k bs s) + length (ev_at (ti_events d) k) = event_balls s + length bs"
proof -
  let ?s = "put_events v k bs s"
  have v: "v \<in> dom (vdata s)" and fin: "finite (dom (vdata s))"
    using assms vdata_finite by blast+
  have dom: "dom (vdata ?s) = dom (vdata s)"
    using assms(2) by (auto simp: vdata_put_events dom_def)
  have e: "evs ?s u = (if u = v then smap_put k bs (ti_events d) else evs s u)" "evs s v = ti_events d" for u
    using assms(2) by (simp_all add: evs_def vdata_put_events)
  have "event_balls ?s = ev_len (smap_put k bs (ti_events d)) + (\<Sum>u \<in> dom (vdata s) - {v}. ev_len (evs s u))"
    unfolding event_balls_def dom using sum.remove[OF fin v, of "\<lambda>u. ev_len (evs ?s u)"] e(1) by simp
  moreover have "event_balls s = ev_len (ti_events d) + (\<Sum>u \<in> dom (vdata s) - {v}. ev_len (evs s u))"
    unfolding event_balls_def using sum.remove[OF fin v, of "\<lambda>u. ev_len (evs s u)"] e(2) by simp
  moreover have "smap_inv (ti_events d)"
    using base_okD(4)[OF assms] by (simp add: data_ok_def)
  ultimately show ?thesis
    using ev_len_put[of "ti_events d" k bs] by simp
qed

lemma upd_txn_sets:
  shows "(\<And>d. is_commit (f d) = is_commit d) \<Longrightarrow> undecided_txns (upd_txn v f s) = undecided_txns s"
    "(\<And>d. ti_during_commit (f d) = ti_during_commit d) \<Longrightarrow> idle_txns (upd_txn v f s) = idle_txns s"
    "anc_balls (upd_txn v f s) = anc_balls s"
    "(\<And>d. ti_events (f d) = ti_events d) \<Longrightarrow> event_balls (upd_txn v f s) = event_balls s"
proof -
  show "undecided_txns (upd_txn v f s) = undecided_txns s" if "\<And>d. is_commit (f d) = is_commit d"
    using that by (auto simp: undecided_txns_def vdata_upd_txn split: if_splits)
  show "idle_txns (upd_txn v f s) = idle_txns s" if "\<And>d. ti_during_commit (f d) = ti_during_commit d"
    using that by (auto simp: idle_txns_def vdata_upd_txn split: if_splits)
  show "anc_balls (upd_txn v f s) = anc_balls s"
    by (simp add: anc_balls_def)
  show "event_balls (upd_txn v f s) = event_balls s" if "\<And>d. ti_events (f d) = ti_events d"
  proof -
    have "evs (upd_txn v f s) u = evs s u" for u
      using that by (auto simp: evs_def vdata_upd_txn split: option.splits)
    moreover have "dom (vdata (upd_txn v f s)) = dom (vdata s)"
      by (auto simp: vdata_upd_txn dom_def)
    ultimately show ?thesis
      by (simp add: event_balls_def)
  qed
qed

lemma put_events_sets:
  "undecided_txns (put_events v k bs s) = undecided_txns s" "idle_txns (put_events v k bs s) = idle_txns s" "anc_balls (put_events v k bs s) = anc_balls s"
  by (simp_all add: put_events_def upd_txn_sets is_commit_def)

subsection \<open>Each step\<close>

lemma trigger_less:
  assumes "rcc_inv E {} s (ATrigger v n # st)" "txn_trigger v n s = Some (s', new)"
  shows "((s', new @ st), (s, ATrigger v n # st)) \<in> run_order"
proof -
  note I = rcc_invD[OF assms(1)]
  obtain d where d: "vdata s v = Some d"
    using assms(2) by (cases "vdata s v") (auto simp: txn_trigger_def)
  have dok: "smap_inv (ti_events d)"
    using base_okD(4)[OF I(1) d] by (simp add: data_ok_def)
  show ?thesis
  proof (cases "dropWhile (\<lambda>e. unat (fst e) < n) (ti_events d)")
    case Nil
    then show ?thesis
      using assms(2) d by (intro run_orderI[OF assms(1)]) (simp_all add: txn_trigger_def work_def del: dropWhile_eq_Nil_conv)
  next
    case (Cons e rest)
    obtain k bs where e: "e = (k, bs)"
      by (cases e)
    note F = dropWhile_first[OF dok, of n k bs rest, OF Cons[unfolded e]]
    have k: "unat k < 256"
      by (rule order_less_le_trans[OF unsigned_less]) simp
    show ?thesis
    proof (cases "k \<le>s ti_status d \<and> bs \<noteq> []")
      case True
      then have s': "s' = put_events v k (butlast bs) s" "new = [ABall (last bs), ATrigger v (unat k)]"
        using assms(2) d Cons e by (simp_all add: txn_trigger_def put_events_def)
      have "event_balls s' + length bs = event_balls s + (length bs - 1)"
        using event_balls_put[OF I(1) d, of k "butlast bs"] F(1) s'(1) by simp
      moreover have "length bs > 0"
        using True by simp
      ultimately have "event_balls s' + 1 = event_balls s"
        by linarith
      then show ?thesis
        using F(3) s'(2) by (intro run_orderI[OF assms(1)]) (auto simp: s'(1) put_events_sets work_def)
    next
      case False
      then have "s' = s" "new = [ATrigger v (Suc (unat k))]"
        using assms(2) d Cons e by (auto simp: txn_trigger_def)
      then show ?thesis
        using F(3) k by (intro run_orderI[OF assms(1)]) (auto simp: work_def)
    qed
  qed
qed

lemma register_less:
  assumes "rcc_inv E {} s (a # st)" "txn_register v k b s = Some (s', new)"
    and "sum_list (map act_weight st') + 4 \<le> act_weight a + sum_list (map act_weight st)"
  shows "((s', new @ st'), (s, a # st)) \<in> run_order"
proof -
  note I = rcc_invD[OF assms(1)]
  obtain d where d: "vdata s v = Some d"
      and s': "s' = upd_txn v (\<lambda>d. fst (register_event k b d)) s" "new = map ABall (snd (register_event k b d))"
    using assms(2) by (cases "vdata s v") (auto simp: txn_register_def)
  show ?thesis
  proof (cases "k \<le>s ti_status d")
    case True
    then have "s' = s" "new = [ABall b]"
      using upd_txn_id[OF d, of "\<lambda>d. fst (register_event k b d)"] s' by (simp_all add: register_event_def)
    then show ?thesis
      using assms(3) by (intro run_orderI[OF assms(1)]) (auto simp: work_def)
  next
    case False
    define bs where "bs = ev_at (ti_events d) k @ [b]"
    have ev: "fst (register_event k b d) = d\<lparr>ti_events := smap_put k bs (ti_events d)\<rparr>" and new: "new = []"
      using False s'(2) by (auto simp: register_event_def bs_def ev_at_def split: option.splits)
    have s2: "s' = put_events v k bs s"
      unfolding s'(1) put_events_def using ev by (rule upd_txn_cong[OF d])
    have "event_balls s' = event_balls s + 1"
      using event_balls_put[OF I(1) d, of k bs] s2 by (simp add: bs_def)
    then show ?thesis
      using assms(3) new by (intro run_orderI[OF assms(1)]) (auto simp: s2 put_events_sets work_def)
  qed
qed

lemma ask_less:
  assumes "rcc_inv E {} s (AAsk v # st)" "send_ask_req E v s = Some (s', new)"
  shows "((s', new @ st), (s, AAsk v # st)) \<in> run_order"
proof -
  obtain d where d: "vdata s v = Some d"
    using assms(2) by (cases "vdata s v") (auto simp: send_ask_req_def)
  consider "s' = s" "new = [] \<or> new = [ADecide v None]"
    | sid where "new = []" "s' = out (Asked sid (ti_id d)) ((upd_txn v (\<lambda>d. d\<lparr>ti_during_asking := True\<rparr>) s)\<lparr>sv_asked := v # sv_asked s\<rparr>)"
    using assms(2) d by (auto simp: send_ask_req_def split: if_splits Option.bind_splits)
  then show ?thesis
  proof cases
    case 1
    then show ?thesis
      by (intro run_orderI[OF assms(1)]) (auto simp: work_def)
  next
    case 2
    let ?s = "upd_txn v (\<lambda>d. d\<lparr>ti_during_asking := True\<rparr>) s"
    have "vdata s' = vdata ?s" "anc_balls s' = anc_balls ?s"
      by (simp_all add: 2(2) out_def anc_balls_def)
    note S = same_graph_sets[OF this(1)] this(2)
    have "undecided_txns s' = undecided_txns s" "idle_txns s' = idle_txns s" "anc_balls s' = anc_balls s" "event_balls s' = event_balls s"
      unfolding S by (simp_all add: upd_txn_sets is_commit_def)
    then show ?thesis
      using 2(1) by (intro run_orderI[OF assms(1)]) (auto simp: work_def)
  qed
qed

lemma decide_less:
  assumes "rcc_inv E {} s (ADecide v r # st)" "to_decide E v r s = Some (s', new)"
  shows "((s', new @ st), (s, ADecide v r # st)) \<in> run_order"
proof -
  obtain d where d: "vdata s v = Some d"
    using assms(2) by (cases "vdata s v") (auto simp: to_decide_def)
  show ?thesis
  proof (cases "ti_during_commit d")
    case True
    then have "s' = s" "new = []"
      using assms(2) d by (auto simp: to_decide_def)
    then show ?thesis
      by (intro run_orderI[OF assms(1)]) (auto simp: work_def)
  next
    case False
    let ?s = "upd_txn v (\<lambda>d. d\<lparr>ti_during_commit := True\<rparr>) s"
    have "vdata s' = vdata ?s"
      using assms(2) d False by (auto simp: to_decide_def wait_for_def new_ball_def Let_def split: Option.bind_splits)
    note S = same_graph_sets[OF this]
    have "v \<in> idle_txns s" "idle_txns ?s = idle_txns s - {v}"
      using d False by (auto simp: idle_txns_def vdata_upd_txn split: if_splits)
    then show ?thesis
      by (intro run_orderI[OF assms(1)]) (auto simp: S upd_txn_sets is_commit_def)
  qed
qed

lemma finish_less:
  assumes "rcc_inv E {} s (AFinish tid timestamp req # st)" "finish E tid timestamp req s = Some (s', new)"
  shows "((s', new @ st), (s, AFinish tid timestamp req # st)) \<in> run_order"
proof -
  define f where "f d = fst (union_status (ev_site E) TXN_CMT False False (d\<lparr>ti_res := Some req\<rparr>))" for d
  obtain v where new: "new = [ATrigger v 0, ADecide v (Some req)]" and s': "s' = upd_txn v f (s\<lparr>sv_read_ts := max (sv_read_ts s) timestamp\<rparr>)"
    using assms(2) unfolding f_def by (auto simp: finish_def Let_def split: Option.bind_splits)
  let ?s = "s\<lparr>sv_read_ts := max (sv_read_ts s) timestamp\<rparr>"
  have f: "is_commit (f d) = is_commit d" "ti_during_commit (f d) = ti_during_commit d" "ti_events (f d) = ti_events d" for d
    by (simp_all add: f_def union_status_def is_commit_bit bit_or_iff TXN_CMT_def bit_numeral_rec)
  note S = same_graph_sets[of ?s s]
  have "undecided_txns s' = undecided_txns s" "idle_txns s' = idle_txns s" "anc_balls s' = anc_balls s" "event_balls s' = event_balls s"
    using S by (simp_all add: s' upd_txn_sets f, simp add: anc_balls_def)
  then show ?thesis
    using new by (intro run_orderI[OF assms(1)]) (auto simp: work_def)
qed

lemma wish_less:
  assumes "rcc_inv E {} s (ABall b # st)" "sv_balls s b = Some (bl, w)" "rcc_inv E (set_option (waiter w)) s0 st"
    and "s0 = s\<lparr>sv_balls := (sv_balls s)(b := None)\<rparr>" "run_wish E w s0 = Some (s', new)"
  shows "((s', new @ st), (s, ABall b # st)) \<in> run_order"
proof -
  note I = rcc_invD[OF assms(3)]
  have v0: "vdata s0 = vdata s" and a0: "anc_balls s0 = anc_balls s - {b}"
    using assms(4) by (auto simp: anc_balls_def)
  note S = same_graph_sets[OF v0]
  show ?thesis
  proof (cases w)
    case (AncFinish v r)
    then obtain A where "wait_for TXN_DCD (sorted_list_of_set A) (SccCommit v r) s0 = (s', new)"
      using assms(5) by (auto simp: run_wish_def split: Option.bind_splits)
    then have s': "s' = s0\<lparr>sv_balls := (sv_balls s0)(sv_next s0 \<mapsto> (db_new (int (length (sorted_list_of_set A) + 1)), SccCommit v r)), sv_next := Suc (sv_next s0)\<rparr>"
      by (auto simp: wait_for_def new_ball_def)
    then have "vdata s' = vdata s"
      using v0 by simp
    note S' = same_graph_sets[OF this]
    have "b \<in> anc_balls s" "anc_balls s' \<subseteq> anc_balls s - {b}"
      using AncFinish assms(2,4) by (auto simp: s' anc_balls_def split: if_splits)
    then show ?thesis
      using S' by (intro run_orderI[OF assms(1)]) auto
  next
    case (SccCommit v r)
    obtain d where d: "vdata s0 v = Some d"
      using assms(5) SccCommit by (cases "vdata s0 v") (auto simp: run_wish_def)
    show ?thesis
    proof (cases "is_commit d")
      case True
      then have "s' = s0" "new = [AReply r]"
        using assms(5) SccCommit d by (auto simp: run_wish_def)
      then show ?thesis
        using S a0 by (intro run_orderI[OF assms(1)]) (auto simp: work_def)
    next
      case False
      then obtain vs where vs: "sorted_scc v (sv_gra s0) = Some vs" "commit_scc E vs s0 = Some s'"
        using assms(5) SccCommit d by (auto simp: run_wish_def split: Option.bind_splits)
      have v: "v \<in> set vs"
        using sorted_scc_order(2)[OF graph_inv_ok[OF base_okD(1)[OF I(1)]] vs(1)] by (simp add: scc_of_def)
      have ok: "ext (set vs) s0 s'" "\<forall>v \<in> set vs. \<exists>d. vdata s' v = Some d \<and> is_commit d" "dom (vdata s') = dom (vdata s0)"
        using commit_scc_ok[OF I(1,2) vs(2)] by blast+
      have "undecided_txns s' \<subseteq> undecided_txns s0"
      proof
        fix u
        assume "u \<in> undecided_txns s'"
        then obtain d' where d': "vdata s' u = Some d'" "\<not> is_commit d'"
          by (auto simp: undecided_txns_def)
        then obtain d0 where d0: "vdata s0 u = Some d0"
          using ok(3) by blast
        obtain d1 where "vdata s' u = Some d1" "data_le d0 d1"
          using ext_old[OF ok(1) d0] by blast
        then show "u \<in> undecided_txns s0"
          using d0 d' data_le_or(1) by (auto simp: undecided_txns_def)
      qed
      moreover have "v \<in> undecided_txns s0" "v \<notin> undecided_txns s'"
        using d False ok(2) v by (auto simp: undecided_txns_def)
      ultimately show ?thesis
        using S by (intro run_orderI[OF assms(1)]) auto
    qed
  next
    case (AskReply tid req)
    then obtain sub where "s' = out (AskReplied req sub) s0" "new = []"
      using assms(5) by (auto simp: run_wish_def split: Option.bind_splits)
    then show ?thesis
      using S a0 same_graph_sets[of s' s0] by (intro run_orderI[OF assms(1)]) (auto simp: work_def out_def anc_balls_def)
  next
    case (RoReply req)
    then have "s' = out (Replied req) s0" "new = []"
      using assms(5) by (auto simp: run_wish_def)
    then show ?thesis
      using S a0 same_graph_sets[of s' s0] by (intro run_orderI[OF assms(1)]) (auto simp: work_def out_def anc_balls_def)
  qed
qed

lemma ball_less:
  assumes "rcc_inv E {} s (ABall b # st)" "ball_trigger E b s = Some (s', new)"
  shows "((s', new @ st), (s, ABall b # st)) \<in> run_order"
proof -
  obtain bl w where b: "sv_balls s b = Some (bl, w)" "\<not> db_called bl" "db_n_ready bl + 1 \<le> db_n_wait bl"
    using ball_counts[OF assms(1)] by metis
  show ?thesis
  proof (cases "db_n_ready bl + 1 = db_n_wait bl")
    case True
    then have "run_wish E w (s\<lparr>sv_balls := (sv_balls s)(b := None)\<rparr>) = Some (s', new)"
      using assms(2) b by (simp add: ball_trigger_def db_trigger_def)
    moreover have "rcc_inv E (set_option (waiter w)) (s\<lparr>sv_balls := (sv_balls s)(b := None)\<rparr>) st"
      using ball_fire_inv[OF assms(1) b(1) True refl] by simp
    ultimately show ?thesis
      using wish_less[OF assms(1) b(1) _ refl] by blast
  next
    case False
    then have s': "s' = s\<lparr>sv_balls := (sv_balls s)(b \<mapsto> (bl\<lparr>db_n_ready := db_n_ready bl + 1\<rparr>, w))\<rparr>" "new = []"
      using assms(2) b by (auto simp: ball_trigger_def db_trigger_def)
    then have "anc_balls s' = anc_balls s"
      using b(1) by (auto simp: anc_balls_def)
    then show ?thesis
      using same_graph_sets[of s' s] s' by (intro run_orderI[OF assms(1)]) (auto simp: work_def)
  qed
qed

lemma act_less:
  assumes "rcc_inv E {} s (a # st)" "rcc_act E a s = Some (s', new)"
  shows "((s', new @ st), (s, a # st)) \<in> run_order"
proof (cases a)
  case (AWaitOn v k b)
  then obtain new' where "txn_register v k b s = Some (s', new')" "new = new' @ [AAsk v]"
    using assms(2) by auto
  then show ?thesis
    using register_less[OF assms(1), of v k b s' new' "AAsk v # st"] AWaitOn by simp
next
  case (ARegister v k b)
  then show ?thesis
    using register_less[OF assms(1), of v k b s' new st] assms(2) by simp
next
  case (AReply r)
  then have "s' = s \<and> new = [] \<or> (\<exists>req. s' = out (Replied req) s \<and> new = [])"
    using assms(2) by (cases r) auto
  then show ?thesis
    using AReply same_graph_sets[of s' s] by (intro run_orderI[OF assms(1)]) (auto simp: work_def out_def anc_balls_def)
qed (use assms trigger_less ball_less ask_less decide_less finish_less in auto)

subsection \<open>Runs\<close>

definition rcc_steps :: "'db rcc_env \<Rightarrow> 'db config \<Rightarrow> 'db config \<Rightarrow> bool" where
  "rcc_steps E = (\<lambda>c c'. rcc_step E c = Some c')\<^sup>*\<^sup>*"

lemma run_ends:
  assumes "env_ok E" "rcc_inv E {} (fst c) (snd c)"
  shows "(\<exists>s'. rcc_run E c = Some s' \<and> rcc_steps E c (s', [])) \<or> (\<exists>s' a st. rcc_steps E c (s', a # st) \<and> rcc_act E a s' = None)"
  using run_order_wf assms(2)
proof (induction c rule: wf_induct_rule)
  case (less c)
  show ?case
  proof (cases "snd c")
    case Nil
    then have "rcc_run E c = Some (fst c)" "rcc_steps E c (fst c, [])"
      by (simp_all add: rcc_run.simps rcc_steps_def) (metis prod.collapse rtranclp.rtrancl_refl)
    then show ?thesis
      by blast
  next
    case (Cons a st)
    show ?thesis
    proof (cases "rcc_act E a (fst c)")
      case None
      moreover have "rcc_steps E c (fst c, a # st)"
        using Cons by (simp add: rcc_steps_def) (metis prod.collapse rtranclp.rtrancl_refl)
      ultimately show ?thesis
        by blast
    next
      case (Some r)
      then obtain s' new where r: "rcc_act E a (fst c) = Some (s', new)"
        by (cases r) simp
      define c' where "c' = (s', new @ st)"
      have step: "rcc_step E c = Some c'"
        using r Cons by (simp add: rcc_step_def c'_def)
      have i: "rcc_inv E {} (fst c') (snd c')" "(c', c) \<in> run_order"
        using act_step[OF assms(1) _ r, of st] act_less[OF _ r, of st] less.prems Cons unfolding c'_def by (metis fst_conv snd_conv prod.collapse)+
      have "rcc_run E c = rcc_run E c'"
        using step Cons by (subst rcc_run.simps) simp
      moreover have "rcc_steps E c x" if "rcc_steps E c' x" for x
        using step that converse_rtranclp_into_rtranclp[of "\<lambda>c c'. rcc_step E c = Some c'" c c' x] by (simp add: rcc_steps_def)
      ultimately show ?thesis
        using less.IH[OF i(2,1)] by metis
    qed
  qed
qed

end
