(* ===== verification/RCC_Progress.thy ===== *)
theory RCC_Progress
  imports RCC_Term
begin

text \<open>
  Where the run of a handler of an RCC server can stop: the vertices that pending actions and waiting balls name are in the graph, so that
  the checks of balls, events and searches never fail. What can fail is named by \<open>stop_cause\<close>.
\<close>

subsection \<open>Vertices that are named are there\<close>

fun act_vertex :: "action \<Rightarrow> vid set" where
  "act_vertex (ATrigger v _) = {v}"
| "act_vertex (ARegister v _ _) = {v}"
| "act_vertex (AWaitOn v _ _) = {v}"
| "act_vertex (AAsk v) = {v}"
| "act_vertex (ADecide v _) = {v}"
| "act_vertex _ = {}"

fun wish_ok :: "'db server \<Rightarrow> wish \<Rightarrow> bool" where
  "wish_ok s (AncFinish v _) = (vdata s v \<noteq> None)"
| "wish_ok s (SccCommit v _) = (vdata s v \<noteq> None)"
| "wish_ok s (AskReply tid _) = (\<exists>v d. vdata s v = Some d \<and> ti_id d = tid)"
| "wish_ok s (RoReply _) = True"

definition places_ok :: "'db server \<Rightarrow> action list \<Rightarrow> bool" where
  "places_ok s st \<longleftrightarrow> (\<forall>a \<in> set st. act_vertex a \<subseteq> dom (vdata s)) \<and> (\<forall>b bl w. sv_balls s b = Some (bl, w) \<longrightarrow> wish_ok s w)"

definition vmono :: "'db server \<Rightarrow> 'db server \<Rightarrow> bool" where
  "vmono s s' \<longleftrightarrow> (\<forall>v d. vdata s v = Some d \<longrightarrow> (\<exists>d'. vdata s' v = Some d' \<and> ti_id d' = ti_id d))"

lemma vmono_same: "vdata s' = vdata s \<Longrightarrow> vmono s s'"
  by (simp add: vmono_def)

lemma vmono_trans: "vmono s s' \<Longrightarrow> vmono s' s'' \<Longrightarrow> vmono s s''"
  unfolding vmono_def by metis

lemma vmono_upd_txn: "(\<And>d. ti_id (f d) = ti_id d) \<Longrightarrow> vmono s (upd_txn v f s)"
  by (auto simp: vmono_def vdata_upd_txn)

lemma vmono_ext:
  assumes "ext X s s'"
  shows "vmono s s'"
  unfolding vmono_def
proof (intro allI impI)
  fix v d
  assume "vdata s v = Some d"
  then obtain d' where "vdata s' v = Some d'" "data_le d d'"
    using ext_old[OF assms] by blast
  then show "\<exists>d'. vdata s' v = Some d' \<and> ti_id d' = ti_id d"
    by (simp add: data_le_def)
qed

lemma vmono_dom: "vmono s s' \<Longrightarrow> dom (vdata s) \<subseteq> dom (vdata s')"
  unfolding vmono_def by blast

lemma wish_ok_mono: "vmono s s' \<Longrightarrow> wish_ok s w \<Longrightarrow> wish_ok s' w"
  by (cases w) (auto simp: vmono_def, metis)

lemma places_mono:
  assumes "places_ok s st" "vmono s s'" "\<And>b bl w. sv_balls s' b = Some (bl, w) \<Longrightarrow> (\<exists>bl'. sv_balls s b = Some (bl', w)) \<or> wish_ok s' w"
    and "\<And>a. a \<in> set st' \<Longrightarrow> a \<in> set st \<or> act_vertex a \<subseteq> dom (vdata s')"
  shows "places_ok s' st'"
proof -
  have "act_vertex a \<subseteq> dom (vdata s')" if "a \<in> set st'" for a
    using assms(4)[OF that] assms(1) vmono_dom[OF assms(2)] unfolding places_ok_def by blast
  moreover have "wish_ok s' w" if "sv_balls s' b = Some (bl, w)" for b bl w
    using assms(3)[OF that] assms(1) wish_ok_mono[OF assms(2)] unfolding places_ok_def by blast
  ultimately show ?thesis
    unfolding places_ok_def by blast
qed

lemma wait_for_places:
  assumes "places_ok s st" "wait_for k vs w s = (s', as)" "set vs \<subseteq> dom (vdata s)" "wish_ok s w"
  shows "places_ok s' (as @ st)"
proof -
  have s': "vdata s' = vdata s" "sv_balls s' = (sv_balls s)(sv_next s \<mapsto> (db_new (int (length vs + 1)), w))"
      "as = map (\<lambda>u. AWaitOn u k (sv_next s)) vs @ [ABall (sv_next s)]"
    using assms(2) by (auto simp: wait_for_def new_ball_def)
  have "wish_ok s' w"
    using wish_ok_mono[OF vmono_same[OF s'(1)] assms(4)] .
  then show ?thesis
    using assms(3) by (intro places_mono[OF assms(1) vmono_same[OF s'(1)]]) (auto simp: s' split: if_splits)
qed

lemma wish_places:
  assumes "rcc_inv E (set_option (waiter w)) s st" "places_ok s st" "wish_ok s w" "run_wish E w s = Some (s', new)"
  shows "places_ok s' (new @ st)"
proof -
  note I = rcc_invD[OF assms(1)]
  have plain: "places_ok s' (new @ st)" if "new = [] \<or> (\<exists>r. new = [AReply r])" "vdata s' = vdata s" "sv_balls s' = sv_balls s"
    using that by (intro places_mono[OF assms(2) vmono_same]) auto
  show ?thesis
  proof (cases w)
    case (AncFinish v r)
    obtain A where A: "find_txn_scc_nearest_anc v (sv_gra s) = Some A" "wait_for TXN_DCD (sorted_list_of_set A) (SccCommit v r) s = (s', new)"
      using assms(4) AncFinish by (auto simp: run_wish_def split: Option.bind_splits)
    note P = scc_anc_parents[OF base_okD(1)[OF I(1)] A(1)]
    show ?thesis
      using wait_for_places[OF assms(2) A(2)] P(3,4) assms(3) AncFinish by (simp add: vdata_dom)
  next
    case (SccCommit v r)
    obtain d where d: "vdata s v = Some d"
      using assms(4) SccCommit by (cases "vdata s v") (auto simp: run_wish_def)
    show ?thesis
    proof (cases "is_commit d")
      case True
      then show ?thesis
        using assms(4) SccCommit d plain by (auto simp: run_wish_def)
    next
      case False
      then obtain vs where vs: "commit_scc E vs s = Some s'" "new = map (\<lambda>u. ATrigger u 0) vs @ [AReply r]"
        using assms(4) SccCommit d by (auto simp: run_wish_def split: Option.bind_splits)
      have ok: "ext (set vs) s s'" "\<forall>v \<in> set vs. \<exists>d. vdata s' v = Some d \<and> is_commit d"
        using commit_scc_ok[OF I(1,2) vs(1)] by blast+
      have "sv_balls s' = sv_balls s"
        using ok(1) by (simp add: ext_def)
      then show ?thesis
        using ok(2) vs(2) by (intro places_mono[OF assms(2) vmono_ext[OF ok(1)]]) auto
    qed
  qed (use assms(4) plain in \<open>auto simp: run_wish_def out_def split: Option.bind_splits\<close>)
qed

lemma places_pop: "places_ok s (a # st) \<Longrightarrow> places_ok s st"
  by (simp add: places_ok_def)

lemma ball_places:
  assumes "rcc_inv E {} s (ABall b # st)" "places_ok s (ABall b # st)" "ball_trigger E b s = Some (s', new)"
  shows "places_ok s' (new @ st)"
proof -
  obtain bl w where b: "sv_balls s b = Some (bl, w)" "\<not> db_called bl" "db_n_ready bl + 1 \<le> db_n_wait bl"
    using ball_counts[OF assms(1)] by metis
  have w: "wish_ok s w"
    using assms(2) b(1) unfolding places_ok_def by blast
  show ?thesis
  proof (cases "db_n_ready bl + 1 = db_n_wait bl")
    case True
    let ?s = "s\<lparr>sv_balls := (sv_balls s)(b := None)\<rparr>"
    have v: "vdata ?s = vdata s"
      by simp
    have r: "run_wish E w ?s = Some (s', new)"
      using assms(3) b True by (simp add: ball_trigger_def db_trigger_def)
    have i: "rcc_inv E (set_option (waiter w)) ?s st"
      using ball_fire_inv[OF assms(1) b(1) True refl] by simp
    have p: "places_ok ?s st"
      by (rule places_mono[OF places_pop[OF assms(2)] vmono_same[OF v]]) (auto split: if_splits)
    show ?thesis
      using wish_places[OF i p wish_ok_mono[OF vmono_same[OF v] w] r] .
  next
    case False
    then have s': "s' = s\<lparr>sv_balls := (sv_balls s)(b \<mapsto> (bl\<lparr>db_n_ready := db_n_ready bl + 1\<rparr>, w))\<rparr>" "new = []"
      using assms(3) b by (auto simp: ball_trigger_def db_trigger_def)
    then show ?thesis
      using b(1) by (intro places_mono[OF places_pop[OF assms(2)] vmono_same]) (auto split: if_splits)
  qed
qed

lemma decide_places:
  assumes "rcc_inv E {} s (ADecide v r # st)" "env_ok E" "places_ok s (ADecide v r # st)" "to_decide E v r s = Some (s', new)"
  shows "places_ok s' (new @ st)"
proof -
  obtain d where d: "vdata s v = Some d"
    using assms(4) by (cases "vdata s v") (auto simp: to_decide_def)
  show ?thesis
  proof (cases "ti_during_commit d")
    case True
    then show ?thesis
      using assms(4) d places_pop[OF assms(3)] by (simp add: to_decide_def)
  next
    case False
    let ?s = "upd_txn v (\<lambda>d. d\<lparr>ti_during_commit := True\<rparr>) s"
    obtain A where A: "find_txn_anc_opt v {} (sv_gra ?s) = Some A" "wait_for TXN_CMT (ev_order E A) (AncFinish v r) ?s = (s', new)"
      using assms(4) d False by (auto simp: to_decide_def Let_def split: Option.bind_splits)
    have "graph_inv (sv_gra ?s)"
      using graph_inv_upd_data[OF base_okD(1)[OF rcc_invD(1)[OF assms(1)]]] by (simp add: upd_txn_def)
    note P = anc_opt_parents[OF this A(1)]
    have "set (ev_order E A) \<subseteq> dom (vdata ?s)"
      using assms(2) P(2,3) unfolding env_ok_def vdata_dom by blast
    moreover have "places_ok ?s st"
      by (rule places_mono[OF places_pop[OF assms(3)] vmono_upd_txn]) auto
    moreover have "wish_ok ?s (AncFinish v r)"
      using d by (simp add: vdata_upd_txn)
    ultimately show ?thesis
      using wait_for_places[OF _ A(2)] by blast
  qed
qed

lemma act_places:
  assumes "env_ok E" "rcc_inv E {} s (a # st)" "places_ok s (a # st)" "rcc_act E a s = Some (s', new)"
  shows "places_ok s' (new @ st)"
proof -
  have known: "act_vertex a \<subseteq> dom (vdata s)"
    using assms(3) by (simp add: places_ok_def)
  have simple: "places_ok s' (new @ st)" if "vmono s s'" "sv_balls s' = sv_balls s" "\<And>x. x \<in> set new \<Longrightarrow> act_vertex x \<subseteq> act_vertex a"
  proof (rule places_mono[OF places_pop[OF assms(3)] that(1)])
    show "x \<in> set st \<or> act_vertex x \<subseteq> dom (vdata s')" if "x \<in> set (new @ st)" for x
      using that \<open>\<And>x. x \<in> set new \<Longrightarrow> act_vertex x \<subseteq> act_vertex a\<close> vmono_dom[OF \<open>vmono s s'\<close>] known by (simp only: set_append) blast
  qed (simp add: that(2))
  have register: "vmono s s'' \<and> sv_balls s'' = sv_balls s \<and> (\<forall>x \<in> set new'. act_vertex x = {})" if "txn_register v k b s = Some (s'', new')" for v k b s'' new'
    using that vmono_upd_txn[of "\<lambda>d. fst (register_event k b d)" s v] by (auto simp: txn_register_def register_event_def split: Option.bind_splits)
  show ?thesis
  proof (cases a)
    case (ATrigger v k)
    have "vmono s (upd_txn v (\<lambda>d. d\<lparr>ti_events := smap_put st (butlast bs) (ti_events d)\<rparr>) s)" for st bs
      by (rule vmono_upd_txn) simp
    then show ?thesis
      using assms(4) ATrigger by (intro simple) (auto simp: txn_trigger_def vmono_same split: Option.bind_splits list.splits if_splits)
  next
    case (AAsk v)
    have "vmono s (upd_txn v (\<lambda>d. d\<lparr>ti_during_asking := True\<rparr>) s)"
      by (rule vmono_upd_txn) simp
    then have "vmono s s'"
      using assms(4) AAsk by (auto simp: send_ask_req_def out_def vmono_def split: Option.bind_splits if_splits)
    then show ?thesis
      using assms(4) AAsk by (intro simple) (auto simp: send_ask_req_def out_def split: Option.bind_splits if_splits)
  next
    case (AFinish tid timestamp req)
    define f where "f d = fst (union_status (ev_site E) TXN_CMT False False (d\<lparr>ti_res := Some req\<rparr>))" for d
    obtain v where v: "graph_find tid (sv_gra s) = Some v" and new: "new = [ATrigger v 0, ADecide v (Some req)]"
        and s': "s' = upd_txn v f (s\<lparr>sv_read_ts := max (sv_read_ts s) timestamp\<rparr>)"
      using assms(4) AFinish unfolding f_def by (auto simp: finish_def Let_def split: Option.bind_splits)
    have m: "vmono s s'"
      unfolding s' by (rule vmono_trans[OF vmono_same vmono_upd_txn]) (simp_all add: f_def union_status_def)
    moreover have "v \<in> dom (vdata s)"
      using upd_txn_vertex[OF rcc_invD(1)[OF assms(2)] v] by blast
    ultimately show ?thesis
      using vmono_dom[OF m] new by (intro places_mono[OF places_pop[OF assms(3)] m]) (auto simp: s')
  next
    case (AReply r)
    then show ?thesis
      using assms(4) by (intro simple) (auto simp: out_def vmono_same split: option.splits)
  next
    case (ARegister v k b)
    then show ?thesis
      using register[of v k b] assms(4) by (intro simple) auto
  next
    case (AWaitOn v k b)
    then show ?thesis
      using register[of v k b] assms(4) by (intro simple) auto
  qed (use assms ball_places decide_places in auto)
qed

lemma merge_places:
  assumes "env_ok E" "base_ok s" "places_ok s []" "msg_graph gra" "merge_graph E gra s = Some (s', as)"
  shows "places_ok s' as" "vmono s s'"
proof -
  obtain X where X: "ext X s s'" "as = map (\<lambda>v. ATrigger v 0) (sorted_list_of_set X)" "X \<subseteq> dom (vdata s')" "finite X"
    using merge_graph_ok[OF _ assms(2,4,5)] assms(1) unfolding env_ok_def by metis
  then show m: "vmono s s'"
    using vmono_ext by blast
  show "places_ok s' as"
    using X by (intro places_mono[OF assms(3) m]) (auto simp: ext_def)
qed

lemma deliver_places:
  assumes "env_ok E" "rcc_inv E {} s []" "places_ok s []" "msg_ok s m" "deliver E m s = Some (s', st)"
  shows "places_ok s' st"
proof (cases m)
  note I = rcc_invD[OF assms(2)]
  case (StartPie req header input)
  then obtain s1 e where s1: "ext {} s s1" "s' = out e s1" "st = []"
    using start_pie_ext[OF assms(1) I(1)] assms(5) by (metis deliver.simps(1))
  moreover have "vmono s s'"
    using vmono_trans[OF vmono_ext[OF s1(1)] vmono_same[of s' s1]] s1(2) by (simp add: out_def)
  ultimately show ?thesis
    by (intro places_mono[OF assms(3)]) (auto simp: out_def ext_def)
next
  note I = rcc_invD[OF assms(2)]
  case (FinishTxn req tid timestamp gra)
  then obtain as where as: "merge_graph E gra s = Some (s', as)" "st = as @ [AFinish tid timestamp req]"
    using assms(5) by (auto simp: rcc_finish_txn_def split: Option.bind_splits)
  have "places_ok s' as"
    using merge_places[OF assms(1) I(1) assms(3) _ as(1)] assms(4) FinishTxn by (simp add: msg_ok_def)
  then show ?thesis
    by (auto simp: places_ok_def as(2))
next
  note I = rcc_invD[OF assms(2)]
  case (AskAnswer v gra)
  then obtain s1 as where r: "merge_graph E gra s = Some (s1, as)" "s' = s1\<lparr>sv_asked := remove1 v (sv_asked s)\<rparr>" "st = as @ [ADecide v None]"
    using assms(5) by (auto simp: ask_answer_def merge_graph_def split: Option.bind_splits)
  have v: "v \<in> dom (vdata s)" "msg_graph gra"
    using assms(4) AskAnswer by (auto simp: msg_ok_def split: option.splits)
  note M = merge_places[OF assms(1) I(1) assms(3) v(2) r(1)]
  have "v \<in> dom (vdata s1)"
    using vmono_dom[OF M(2)] v(1) by blast
  then show ?thesis
    using r(2,3) by (intro places_mono[OF M(1) vmono_same]) auto
next
  note I = rcc_invD[OF assms(2)]
  case (AskTxn req tid)
  then obtain v where v: "graph_find tid (sv_gra s) = Some v" "s' = snd (new_ball 2 (AskReply tid req) s)" "st = [ARegister v TXN_CMT (sv_next s), ABall (sv_next s)]"
    using assms(5) by (auto simp: rcc_ask_txn_def new_ball_def Let_def split: Option.bind_splits)
  obtain d where "vdata s v = Some d" "ti_id d = tid"
    using upd_txn_vertex[OF I(1) v(1)] by blast
  then show ?thesis
    using v(2,3) by (intro places_mono[OF assms(3) vmono_same]) (auto simp: new_ball_def split: if_splits)
next
  note I = rcc_invD[OF assms(2)]
  case (RoStartPie req header input)
  then obtain s1 vs where x: "piece_ext s s1" "set vs \<subseteq> dom (vdata s1)" and s': "s' = snd (new_ball (length vs + 1) (RoReply req) s1)"
      "st = map (\<lambda>u. ARegister u TXN_DCD (sv_next s1)) vs @ [ABall (sv_next s1)]"
    using ro_start_ext[OF I(1)] assms(5) by (metis deliver.simps(5))
  then show ?thesis
    by (intro places_mono[OF assms(3) vmono_same]) (auto simp: new_ball_def piece_ext_def split: if_splits)
qed

lemma reach_places:
  assumes "env_ok E" "rcc_reach E c"
  shows "places_ok (fst c) (snd c)"
  using assms(2)
proof induction
  case (start rows db)
  then show ?case
    by (simp add: places_ok_def server_new_def)
next
  case (message s m c)
  then show ?case
    using deliver_places[OF assms(1), of s m "fst c" "snd c"] reach_inv[OF assms(1) message(1)] by simp
next
  case (step c c')
  obtain a st where c: "snd c = a # st"
    using step(2) by (cases "snd c") (auto simp: rcc_step_def)
  then obtain s' new where "rcc_act E a (fst c) = Some (s', new)" "c' = (s', new @ st)"
    using step(2) by (auto simp: rcc_step_def)
  then show ?case
    using act_places[OF assms(1), of "fst c" a st] step.IH reach_inv[OF assms(1) step(1)] c by simp
qed

subsection \<open>Where a run can stop\<close>

fun stop_cause :: "'db rcc_env \<Rightarrow> 'db server \<Rightarrow> action \<Rightarrow> bool" where
  "stop_cause E s (AAsk v) = (case vdata s v of
     None \<Rightarrow> False
   | Some d \<Rightarrow> (case random_server d of None \<Rightarrow> True | Some sid \<Rightarrow> ev_sites E \<le> unat sid))"
| "stop_cause E s (AFinish tid _ _) = (graph_find tid (sv_gra s) = None)"
| "stop_cause E s (ABall b) = (case sv_balls s b of
     Some (_, SccCommit v _) \<Rightarrow> (case sorted_scc v (sv_gra s) of
        None \<Rightarrow> True
      | Some vs \<Rightarrow> (case commit_scc E vs (s\<lparr>sv_balls := (sv_balls s)(b := None)\<rparr>) of None \<Rightarrow> True | Some _ \<Rightarrow> False))
   | _ \<Rightarrow> False)"
| "stop_cause E s _ = False"

lemma scc_anc_total: "graph_inv g \<Longrightarrow> \<exists>A. find_txn_scc_nearest_anc v g = Some A"
  using find_scc_ok[OF graph_inv_finite, of g v] by (auto simp: find_txn_scc_nearest_anc_def)

lemma anc_opt_total: "graph_inv g \<Longrightarrow> \<exists>A. find_txn_anc_opt v {} g = Some A"
  using find_txn_anc_opt_ok[OF graph_inv_finite, of g v] by blast

lemma ball_stops:
  assumes "rcc_inv E {} s (ABall b # st)" "places_ok s (ABall b # st)" "ball_trigger E b s = None"
  shows "stop_cause E s (ABall b)"
proof -
  note I = rcc_invD[OF assms(1)]
  note G = base_okD(1)[OF I(1)]
  obtain bl w where b: "sv_balls s b = Some (bl, w)" "\<not> db_called bl" "db_n_ready bl + 1 \<le> db_n_wait bl"
    using ball_counts[OF assms(1)] by metis
  have w: "wish_ok s w"
    using assms(2) b(1) unfolding places_ok_def by blast
  let ?s = "s\<lparr>sv_balls := (sv_balls s)(b := None)\<rparr>"
  have "run_wish E w ?s = None"
    using assms(3) b by (cases "db_n_ready bl + 1 = db_n_wait bl") (simp_all add: ball_trigger_def db_trigger_def)
  then show ?thesis
  proof (cases w)
    case (AskReply tid req)
    then obtain v where "graph_find tid (sv_gra s) = Some v"
      using w index_vdata[OF I(1), of tid] by (auto simp: graph_find_def)
    then show ?thesis
      using \<open>run_wish E w ?s = None\<close> AskReply anc_opt_total[OF G, of v] by (auto simp: run_wish_def sub_txn_graph_def)
  next
    case (AncFinish v r)
    then show ?thesis
      using \<open>run_wish E w ?s = None\<close> scc_anc_total[OF G, of v] by (auto simp: run_wish_def)
  qed (use w b(1) in \<open>auto simp: run_wish_def split: Option.bind_splits option.splits if_splits\<close>)
qed

lemma act_stops:
  assumes "rcc_inv E {} s (a # st)" "places_ok s (a # st)" "rcc_act E a s = None"
  shows "stop_cause E s a"
proof -
  note G = base_okD(1)[OF rcc_invD(1)[OF assms(1)]]
  have known: "act_vertex a \<subseteq> dom (vdata s)"
    using assms(2) by (simp add: places_ok_def)
  show ?thesis
  proof (cases a)
    case (ADecide v r)
    have "graph_inv (sv_gra (upd_txn v (\<lambda>d. d\<lparr>ti_during_commit := True\<rparr>) s))"
      using graph_inv_upd_data[OF G] by (simp add: upd_txn_def)
    then obtain A where "find_txn_anc_opt v {} (sv_gra (upd_txn v (\<lambda>d. d\<lparr>ti_during_commit := True\<rparr>) s)) = Some A"
      using anc_opt_total by blast
    then show ?thesis
      using known assms(3) ADecide by (auto simp: to_decide_def Let_def split: if_splits)
  next
    case (ABall b)
    then show ?thesis
      using ball_stops assms by simp
  qed (use known assms(3) in \<open>auto simp: txn_trigger_def txn_register_def send_ask_req_def finish_def Let_def verify_def
      split: Option.bind_splits option.splits list.splits if_splits\<close>)
qed

end
