(* ===== verification/RCC_Barrier.thy ===== *)
theory RCC_Barrier
  imports RCC_Progress
begin

text \<open>
  A ball of an RCC server fires only after every transaction that it was set up to wait for has reached the status that it waits for,
  whatever messages arrive in between.
\<close>

inductive rcc_next :: "'db rcc_env \<Rightarrow> 'db config \<Rightarrow> 'db config \<Rightarrow> bool" for E where
  next_step: "rcc_step E c = Some c' \<Longrightarrow> rcc_next E c c'"
| next_message: "msg_ok s m \<Longrightarrow> deliver E m s = Some c \<Longrightarrow> rcc_next E (s, []) c"

lemma next_reach: "rcc_reach E c \<Longrightarrow> rcc_next E c c' \<Longrightarrow> rcc_reach E c'"
  by (auto elim!: rcc_next.cases intro: rcc_reach.step rcc_reach.message)

definition past :: "i8 \<Rightarrow> 'db server \<Rightarrow> vid \<Rightarrow> bool" where
  "past k s u \<longleftrightarrow> (\<exists>d. vdata s u = Some d \<and> (is_commit d \<or> k = TXN_CMT \<and> is_finish d))"

definition barrier :: "ball \<Rightarrow> i8 \<Rightarrow> vid set \<Rightarrow> 'db server \<Rightarrow> action list \<Rightarrow> bool" where
  "barrier b k U s st \<longleftrightarrow> (\<forall>u \<in> U. past k s u \<or> waits s st u k b)"

definition smono :: "'db server \<Rightarrow> 'db server \<Rightarrow> bool" where
  "smono s s' \<longleftrightarrow> (\<forall>u d. vdata s u = Some d \<longrightarrow> (\<exists>d'. vdata s' u = Some d' \<and> (is_commit d \<longrightarrow> is_commit d') \<and> (is_finish d \<longrightarrow> is_finish d')))"

lemma past_mono: "smono s s' \<Longrightarrow> past k s u \<Longrightarrow> past k s' u"
  unfolding smono_def past_def by metis

lemma smono_same: "vdata s' = vdata s \<Longrightarrow> smono s s'"
  by (simp add: smono_def)

lemma smono_trans: "smono s s' \<Longrightarrow> smono s' s'' \<Longrightarrow> smono s s''"
  unfolding smono_def by metis

lemma smono_ext:
  assumes "ext X s s'"
  shows "smono s s'"
  unfolding smono_def
proof (intro allI impI)
  fix u d
  assume "vdata s u = Some d"
  then obtain d' where "vdata s' u = Some d'" "data_le d d'"
    using ext_old[OF assms] by blast
  then show "\<exists>d'. vdata s' u = Some d' \<and> (is_commit d \<longrightarrow> is_commit d') \<and> (is_finish d \<longrightarrow> is_finish d')"
    using data_le_or by blast
qed

lemma smono_upd_txn: "(\<And>d. is_commit d \<Longrightarrow> is_commit (f d)) \<Longrightarrow> (\<And>d. is_finish d \<Longrightarrow> is_finish (f d)) \<Longrightarrow> smono s (upd_txn v f s)"
  by (auto simp: smono_def vdata_upd_txn)

lemma barrier_mono:
  assumes "barrier b k U s st" "smono s s'" "\<And>u. waits s st u k b \<Longrightarrow> waits s' st' u k b \<or> past k s' u"
  shows "barrier b k U s' st'"
  using assms past_mono unfolding barrier_def by blast

lemma barrier_same:
  assumes "barrier b k U s st" "smono s s'" "evs s' = evs s"
    and "\<And>u. AWaitOn u k b \<in> set st \<or> ARegister u k b \<in> set st \<Longrightarrow> AWaitOn u k b \<in> set st' \<or> ARegister u k b \<in> set st'"
  shows "barrier b k U s' st'"
  using assms(3,4) by (intro barrier_mono[OF assms(1,2)]) (auto simp: waits_def)

lemma evs_upd_txn: "(\<And>d. ti_events (f d) = ti_events d) \<Longrightarrow> evs (upd_txn v f s) = evs s"
  by (auto simp: fun_eq_iff evs_def vdata_upd_txn split: option.splits)

lemma evs_same: "vdata s' = vdata s \<Longrightarrow> evs s' = evs s"
  by (simp add: fun_eq_iff evs_def)

lemma reached_past: "data_ok d \<Longrightarrow> vdata s u = Some d \<Longrightarrow> k = TXN_CMT \<or> k = TXN_DCD \<Longrightarrow> k \<le>s ti_status d \<Longrightarrow> past k s u"
  using status_reached[of d] by (auto simp: data_ok_def past_def)

lemma trigger_barrier:
  assumes "rcc_inv E {} s (ATrigger v n # st)" "txn_trigger v n s = Some (s', new)" "barrier b k U s (ATrigger v n # st)" "k = TXN_CMT \<or> k = TXN_DCD"
  shows "barrier b k U s' (new @ st)"
proof -
  note I = rcc_invD[OF assms(1)]
  obtain d where d: "vdata s v = Some d"
    using assms(2) by (cases "vdata s v") (auto simp: txn_trigger_def)
  have dok: "data_ok d" "smap_inv (ti_events d)"
    using base_okD(4)[OF I(1) d] by (simp_all add: data_ok_def)
  have skip: "barrier b k U s (new @ st)"
    by (rule barrier_same[OF assms(3) smono_same]) auto
  show ?thesis
  proof (cases "dropWhile (\<lambda>e. unat (fst e) < n) (ti_events d)")
    case Nil
    then show ?thesis
      using assms(2) d skip by (simp add: txn_trigger_def del: dropWhile_eq_Nil_conv)
  next
    case (Cons e rest)
    obtain k0 bs where e: "e = (k0, bs)"
      by (cases e)
    note F = dropWhile_first[OF dok(2), of n k0 bs rest, OF Cons[unfolded e]]
    show ?thesis
    proof (cases "k0 \<le>s ti_status d \<and> bs \<noteq> []")
      case True
      then have s': "s' = put_events v k0 (butlast bs) s" "new = [ABall (last bs), ATrigger v (unat k0)]"
        using assms(2) d Cons e by (simp_all add: txn_trigger_def put_events_def)
      have m: "smono s s'"
        unfolding s'(1) put_events_def by (rule smono_upd_txn) (simp_all add: is_commit_def is_finish_def)
      have reached: "past k s' v" if "k0 = k"
        using past_mono[OF m reached_past[OF dok(1) d assms(4)]] True that by simp
      have ev: "ev_at (evs s' u) k = (if u = v \<and> k = k0 then butlast bs else ev_at (evs s u) k)" for u
        using d ev_at_put[OF dok(2), of k0 "butlast bs" k] by (cases "k = k0") (simp_all add: s'(1) evs_def vdata_put_events)
      have "waits s' (new @ st) u k b \<or> past k s' u" if "waits s (ATrigger v n # st) u k b" for u
        using that reached unfolding waits_def ev by (cases "u = v \<and> k = k0") auto
      then show ?thesis
        using barrier_mono[OF assms(3) m] by blast
    next
      case False
      then show ?thesis
        using assms(2) d Cons e skip by (auto simp: txn_trigger_def)
    qed
  qed
qed

lemma register_barrier:
  assumes "rcc_inv E {} s (a # st)" "txn_register v k0 c s = Some (s', new)" "barrier b k U s (a # st)" "k = TXN_CMT \<or> k = TXN_DCD"
    and "a = ARegister v k0 c \<or> a = AWaitOn v k0 c" "set st \<subseteq> set st'"
  shows "barrier b k U s' (new @ st')"
proof -
  note I = rcc_invD[OF assms(1)]
  obtain d where d: "vdata s v = Some d"
      and s': "s' = upd_txn v (\<lambda>d. fst (register_event k0 c d)) s" "new = map ABall (snd (register_event k0 c d))"
    using assms(2) by (cases "vdata s v") (auto simp: txn_register_def)
  have dok: "data_ok d" "smap_inv (ti_events d)"
    using base_okD(4)[OF I(1) d] by (simp_all add: data_ok_def)
  have m: "smono s s'"
    unfolding s'(1) by (rule smono_upd_txn) (simp_all add: register_event_def is_commit_def is_finish_def)
  show ?thesis
  proof (cases "k0 \<le>s ti_status d")
    case True
    then have "s' = s"
      using upd_txn_id[OF d, of "\<lambda>d. fst (register_event k0 c d)"] s' by (simp add: register_event_def)
    moreover have "past k s v" if "k0 = k"
      using reached_past[OF dok(1) d assms(4)] True that by simp
    ultimately have "waits s' (new @ st') u k b \<or> past k s' u" if "waits s (a # st) u k b" for u
      using that assms(5,6) by (auto simp: waits_def)
    then show ?thesis
      using barrier_mono[OF assms(3) m] by blast
  next
    case False
    define bs where "bs = ev_at (ti_events d) k0 @ [c]"
    have "fst (register_event k0 c d) = d\<lparr>ti_events := smap_put k0 bs (ti_events d)\<rparr>"
      using False by (auto simp: register_event_def bs_def ev_at_def split: option.splits)
    then have "s' = put_events v k0 bs s"
      unfolding s'(1) put_events_def by (rule upd_txn_cong[OF d])
    then have ev: "ev_at (evs s' u) k = (if u = v \<and> k = k0 then bs else ev_at (evs s u) k)" for u
      using d ev_at_put[OF dok(2), of k0 bs k] by (cases "k = k0") (simp_all add: evs_def vdata_put_events)
    have "waits s' (new @ st') u k b" if "waits s (a # st) u k b" for u
      using that assms(5,6) d unfolding waits_def ev by (auto simp: bs_def evs_def)
    then show ?thesis
      using barrier_mono[OF assms(3) m] by blast
  qed
qed

lemma wish_barrier:
  assumes "rcc_inv E (set_option (waiter w)) s st" "run_wish E w s = Some (s', new)"
  shows "smono s s' \<and> evs s' = evs s"
proof (cases "\<exists>v r. w = SccCommit v r")
  case False
  then have "vdata s' = vdata s"
    using assms(2) by (cases w) (auto simp: run_wish_def wait_for_def new_ball_def out_def split: Option.bind_splits)
  then show ?thesis
    using smono_same evs_same by blast
next
  note I = rcc_invD[OF assms(1)]
  case True
  then obtain v r where SccCommit: "w = SccCommit v r"
    by blast
  obtain d where d: "vdata s v = Some d"
    using assms(2) SccCommit by (cases "vdata s v") (auto simp: run_wish_def)
  show ?thesis
  proof (cases "is_commit d")
    case True
    then show ?thesis
      using assms(2) SccCommit d smono_same[of s s] by (simp add: run_wish_def)
  next
    case False
    then obtain vs where "commit_scc E vs s = Some s'"
      using assms(2) SccCommit d by (auto simp: run_wish_def split: Option.bind_splits)
    then have x: "ext (set vs) s s'"
      using commit_scc_ok[OF I(1,2)] by blast
    show ?thesis
      using smono_ext[OF x] evs_ext[OF x] by (simp add: fun_eq_iff)
  qed
qed

lemma ball_barrier:
  assumes "rcc_inv E {} s (ABall c # st)" "ball_trigger E c s = Some (s', new)"
  shows "smono s s' \<and> evs s' = evs s"
proof -
  obtain bl w where b: "sv_balls s c = Some (bl, w)" "\<not> db_called bl" "db_n_ready bl + 1 \<le> db_n_wait bl"
    using ball_counts[OF assms(1)] by metis
  show ?thesis
  proof (cases "db_n_ready bl + 1 = db_n_wait bl")
    case True
    let ?s = "s\<lparr>sv_balls := (sv_balls s)(c := None)\<rparr>"
    have "run_wish E w ?s = Some (s', new)"
      using assms(2) b True by (simp add: ball_trigger_def db_trigger_def)
    moreover have "rcc_inv E (set_option (waiter w)) ?s st"
      using ball_fire_inv[OF assms(1) b(1) True refl] by simp
    ultimately have "smono ?s s' \<and> evs s' = evs ?s"
      using wish_barrier by blast
    then show ?thesis
      using smono_trans[of s ?s s'] smono_same[of ?s s] evs_same[of ?s s] by simp
  next
    case False
    then have "vdata s' = vdata s"
      using assms(2) b by (auto simp: ball_trigger_def db_trigger_def)
    then show ?thesis
      using smono_same evs_same by blast
  qed
qed

lemma act_barrier:
  assumes "rcc_inv E {} s (a # st)" "rcc_act E a s = Some (s', new)" "barrier b k U s (a # st)" "k = TXN_CMT \<or> k = TXN_DCD"
  shows "barrier b k U s' (new @ st)"
proof -
  have same: "barrier b k U s' (new @ st)" if "smono s s' \<and> evs s' = evs s" "\<And>u k c. a \<noteq> AWaitOn u k c \<and> a \<noteq> ARegister u k c"
  proof (rule barrier_same[OF assms(3)])
    show "AWaitOn u k b \<in> set (new @ st) \<or> ARegister u k b \<in> set (new @ st)" if "AWaitOn u k b \<in> set (a # st) \<or> ARegister u k b \<in> set (a # st)" for u
      using that \<open>\<And>u k c. a \<noteq> AWaitOn u k c \<and> a \<noteq> ARegister u k c\<close>[of u k b] by auto
  qed (use that(1) in blast)+
  have upd: "smono s (upd_txn v f s0) \<and> evs (upd_txn v f s0) = evs s"
    if "vdata s0 = vdata s" "\<And>d. is_commit d \<Longrightarrow> is_commit (f d)" "\<And>d. is_finish d \<Longrightarrow> is_finish (f d)" "\<And>d. ti_events (f d) = ti_events d" for v f s0
  proof
    show "smono s (upd_txn v f s0)"
      by (rule smono_trans[OF smono_same[OF that(1)] smono_upd_txn[OF that(2,3)]])
    show "evs (upd_txn v f s0) = evs s"
      by (rule trans[OF evs_upd_txn[OF that(4)] evs_same[OF that(1)]])
  qed
  show ?thesis
  proof (cases a)
    case (AAsk v)
    have "smono s (upd_txn v (\<lambda>d. d\<lparr>ti_during_asking := True\<rparr>) s) \<and> evs (upd_txn v (\<lambda>d. d\<lparr>ti_during_asking := True\<rparr>) s) = evs s"
      by (rule upd) (simp_all add: is_commit_def is_finish_def)
    then have "smono s s' \<and> evs s' = evs s"
      using assms(2) AAsk by (auto simp: send_ask_req_def out_def smono_def evs_def fun_eq_iff split: Option.bind_splits if_splits)
    then show ?thesis
      using AAsk same by blast
  next
    case (ADecide v r)
    have "smono s (upd_txn v (\<lambda>d. d\<lparr>ti_during_commit := True\<rparr>) s) \<and> evs (upd_txn v (\<lambda>d. d\<lparr>ti_during_commit := True\<rparr>) s) = evs s"
      by (rule upd) (simp_all add: is_commit_def is_finish_def)
    then have "smono s s' \<and> evs s' = evs s"
      using assms(2) ADecide by (auto simp: to_decide_def wait_for_def new_ball_def Let_def smono_def evs_def fun_eq_iff split: Option.bind_splits if_splits)
    then show ?thesis
      using ADecide same by blast
  next
    case (AFinish tid timestamp req)
    define f where "f d = fst (union_status (ev_site E) TXN_CMT False False (d\<lparr>ti_res := Some req\<rparr>))" for d
    obtain v where "s' = upd_txn v f (s\<lparr>sv_read_ts := max (sv_read_ts s) timestamp\<rparr>)"
      using assms(2) AFinish unfolding f_def by (auto simp: finish_def Let_def split: Option.bind_splits)
    moreover have "is_commit d \<Longrightarrow> is_commit (f d)" "is_finish d \<Longrightarrow> is_finish (f d)" "ti_events (f d) = ti_events d" for d
      by (simp_all add: f_def union_status_def is_commit_bit bit_or_iff)
    ultimately have "smono s s' \<and> evs s' = evs s"
      using upd[of "s\<lparr>sv_read_ts := max (sv_read_ts s) timestamp\<rparr>" f v] by simp
    then show ?thesis
      using AFinish same by blast
  next
    case (AReply r)
    then have "vdata s' = vdata s"
      using assms(2) by (auto simp: out_def split: option.splits)
    then show ?thesis
      using AReply same smono_same evs_same by blast
  next
    case (ARegister v k0 c)
    then show ?thesis
      using register_barrier[OF assms(1) _ assms(3,4), of v k0 c s' new st] assms(2) by simp
  next
    case (AWaitOn v k0 c)
    then obtain new' where n: "txn_register v k0 c s = Some (s', new')" "new = new' @ [AAsk v]"
      using assms(2) by auto
    have "set st \<subseteq> set (AAsk v # st)"
      by auto
    then have "barrier b k U s' (new' @ (AAsk v # st))"
      using register_barrier[OF assms(1) n(1) assms(3,4)] AWaitOn by blast
    then show ?thesis
      using n(2) by simp
  next
    case (ATrigger v n)
    then show ?thesis
      using trigger_barrier assms by simp
  next
    case (ABall c)
    then show ?thesis
      using ball_barrier[of E s c st s' new] assms(1,2) same by simp
  qed
qed

lemma same_after_ext:
  assumes "ext X s s1" "vdata s' = vdata s1"
  shows "smono s s' \<and> evs s' = evs s"
  using smono_trans[OF smono_ext[OF assms(1)] smono_same[OF assms(2)]] evs_same[OF assms(2)] evs_ext[OF assms(1)] by (simp add: fun_eq_iff)

lemma deliver_barrier:
  assumes "env_ok E" "rcc_inv E {} s []" "msg_ok s m" "deliver E m s = Some (s', st)"
  shows "smono s s' \<and> evs s' = evs s"
proof -
  note I = rcc_invD[OF assms(2)]
  have merge: "\<exists>X. ext X s s1" if "msg_graph gra" "merge_graph E gra s = Some (s1, as)" for gra s1 as
    using merge_graph_ok[OF _ I(1) that] assms(1) unfolding env_ok_def by metis
  show ?thesis
  proof (cases m)
    case (StartPie req header input)
    then have r: "rcc_start_pie E req header input s = Some (s', st)"
      using assms(4) by simp
    obtain s1 e where "ext {} s s1" "s' = out e s1"
      by (rule start_pie_ext[OF assms(1) I(1) r]) blast
    then show ?thesis
      using same_after_ext[of "{}" s s1 s'] by (simp add: out_def)
  next
    case (FinishTxn req tid timestamp gra)
    then obtain as where "merge_graph E gra s = Some (s', as)"
      using assms(4) by (auto simp: rcc_finish_txn_def split: Option.bind_splits)
    then show ?thesis
      using merge[of gra s' as] assms(3) FinishTxn same_after_ext[of _ s s' s'] by (auto simp: msg_ok_def)
  next
    case (AskAnswer v gra)
    then obtain s1 as where r: "merge_graph E gra s = Some (s1, as)" "s' = s1\<lparr>sv_asked := remove1 v (sv_asked s)\<rparr>"
      using assms(4) by (auto simp: ask_answer_def merge_graph_def split: Option.bind_splits)
    moreover have "msg_graph gra"
      using assms(3) AskAnswer by (simp add: msg_ok_def)
    ultimately obtain X where "ext X s s1"
      using merge by blast
    then show ?thesis
      using same_after_ext[of X s s1 s'] r(2) by simp
  next
    case (AskTxn req tid)
    then have "vdata s' = vdata s"
      using assms(4) by (auto simp: rcc_ask_txn_def new_ball_def Let_def split: Option.bind_splits)
    then show ?thesis
      using same_after_ext[of "{}" s s s'] by simp
  next
    case (RoStartPie req header input)
    then have r: "rcc_ro_start_pie E req header input s = Some (s', st)"
      using assms(4) by simp
    obtain s1 and vs :: "vid list" where x: "piece_ext s s1" "s' = snd (new_ball (length vs + 1) (RoReply req) s1)"
      by (rule ro_start_ext[OF I(1) r]) blast
    then show ?thesis
      using same_after_ext[OF piece_ext_ext[OF x(1)], of s'] by (simp add: new_ball_def)
  qed
qed

lemma next_barrier:
  assumes "env_ok E" "rcc_reach E c" "rcc_next E c c'" "barrier b k U (fst c) (snd c)" "k = TXN_CMT \<or> k = TXN_DCD"
  shows "barrier b k U (fst c') (snd c')"
  using assms(3)
proof cases
  case next_step
  obtain a st where c: "snd c = a # st"
    using next_step by (cases "snd c") (auto simp: rcc_step_def)
  then obtain s' new where "rcc_act E a (fst c) = Some (s', new)" "c' = (s', new @ st)"
    using next_step by (auto simp: rcc_step_def)
  then show ?thesis
    using act_barrier[of E "fst c" a st s' new] reach_inv[OF assms(1,2)] assms(4,5) c by simp
next
  case (next_message s m)
  have "smono s (fst c') \<and> evs (fst c') = evs s"
    using deliver_barrier[OF assms(1), of s m "fst c'" "snd c'"] reach_inv[OF assms(1,2)] next_message by simp
  then show ?thesis
    using barrier_same[OF assms(4)] next_message(1) by simp
qed

lemma nexts_barrier:
  assumes "env_ok E" "rcc_reach E c" "(rcc_next E)\<^sup>*\<^sup>* c c'" "barrier b k U (fst c) (snd c)" "k = TXN_CMT \<or> k = TXN_DCD"
  shows "rcc_reach E c' \<and> barrier b k U (fst c') (snd c')"
  using assms(3)
proof induction
  case (step c1 c2)
  then show ?case
    using next_reach next_barrier[OF assms(1)] assms(5) by blast
qed (use assms in blast)

lemma fires_after:
  assumes "rcc_inv E {} s (ABall b # st)" "barrier b k U s (ABall b # st)" "sv_balls s b = Some (bl, w)" "db_trigger bl = Some (True, bl')"
  shows "\<forall>u \<in> U. past k s u"
proof
  fix u
  assume u: "u \<in> U"
  obtain bl0 w0 where b: "sv_balls s b = Some (bl0, w0)" "db_n_ready bl0 + 1 + int (registered s b + pending b st) = db_n_wait bl0"
    using ball_counts[OF assms(1)] by metis
  have "db_n_ready bl + 1 = db_n_wait bl"
    using assms(4) by (auto simp: db_trigger_def Let_def verify_def split: if_splits)
  then have zero: "registered s b = 0" "pending b st = 0"
    using b assms(3) by auto
  have "\<not> waits s (ABall b # st) u k b"
    using zero registered_zero[OF rcc_invD(1)[OF assms(1)], of b] by (auto simp: waits_def pending_zero)
  then show "past k s u"
    using assms(2) u unfolding barrier_def by blast
qed

end
