(* ===== verification/RCC_Props.thy ===== *)
theory RCC_Props
  imports RCC_Barrier
begin

text \<open>
  What a server of the dependency-tracking protocol guarantees in every state it can reach, and a run in which a transaction is decided
  but never executed.
\<close>

subsection \<open>Runs with a bound\<close>

text \<open>The run of a handler with bounds that can be computed: on the number of steps, and on the depth of the search for components. A run
  within the bounds is a run of the handler.\<close>

definition scc_n :: "vid \<Rightarrow> graph \<Rightarrow> vid list option" where
  "scc_n v g = map_option fst (strong_connect (Suc (length (g_vertex_index g))) g v sc_init)"

definition sorted_from :: "graph \<Rightarrow> vid list \<Rightarrow> vid list option" where
  "sorted_from g ret = do {
     verify (length ret > 0);
     let scc_set = set ret;
     verify (card scc_set = length ret);
     let start_vv = filter (no_type2 g scc_set) (sorted_list_of_set scc_set);
     verify (length start_vv > 0);
     let start_vv' = sort_vv (vkey g) True start_vv;
     ret2 \<leftarrow> sscc_loop g scc_set (length ret) (rev start_vv') {} [];
     verify (length ret2 = length ret);
     Some ret2
   }"

definition wish_n :: "'db rcc_env \<Rightarrow> wish \<Rightarrow> 'db server \<Rightarrow> 'db config option" where
  "wish_n E w s = (case w of
     AncFinish v defer \<Rightarrow> do {
       scc \<leftarrow> scc_n v (sv_gra s);
       Some (wait_for TXN_DCD (sorted_list_of_set (fold (\<lambda>u ret. find_txn_nearest_anc u ret (sv_gra s)) scc {} - set scc)) (SccCommit v defer) s)
     }
   | SccCommit v defer \<Rightarrow> do {
       d \<leftarrow> vdata s v;
       if is_commit d then Some (s, [AReply defer])
       else do {
         ret \<leftarrow> scc_n v (sv_gra s);
         sscc \<leftarrow> sorted_from (sv_gra s) ret;
         s1 \<leftarrow> commit_scc E sscc s;
         Some (s1, map (\<lambda>u. ATrigger u 0) sscc @ [AReply defer])
       }
     }
   | AskReply tid req \<Rightarrow> do {
       sub \<leftarrow> sub_txn_graph tid {} (sv_gra s);
       Some (out (AskReplied req sub) s, [])
     }
   | RoReply req \<Rightarrow> Some (out (Replied req) s, []))"

definition ball_n :: "'db rcc_env \<Rightarrow> ball \<Rightarrow> 'db server \<Rightarrow> 'db config option" where
  "ball_n E b s = do {
     (bl, w) \<leftarrow> sv_balls s b;
     (ready, bl') \<leftarrow> db_trigger bl;
     if ready then wish_n E w (s\<lparr>sv_balls := (sv_balls s)(b := None)\<rparr>)
     else Some (s\<lparr>sv_balls := (sv_balls s)(b \<mapsto> (bl', w))\<rparr>, [])
   }"

fun act_n :: "'db rcc_env \<Rightarrow> action \<Rightarrow> 'db server \<Rightarrow> 'db config option" where
  "act_n E (ATrigger v k) s = txn_trigger v k s"
| "act_n E (ABall b) s = ball_n E b s"
| "act_n E (ARegister v st b) s = txn_register v st b s"
| "act_n E (AWaitOn v st b) s = map_option (\<lambda>(s', as). (s', as @ [AAsk v])) (txn_register v st b s)"
| "act_n E (AAsk v) s = send_ask_req E v s"
| "act_n E (ADecide v defer) s = to_decide E v defer s"
| "act_n E (AFinish tid timestamp req) s = finish E tid timestamp req s"
| "act_n E (AReply defer) s = Some (case defer of Some req \<Rightarrow> out (Replied req) s | None \<Rightarrow> s, [])"

fun run_n :: "'db rcc_env \<Rightarrow> nat \<Rightarrow> 'db config \<Rightarrow> 'db server option" where
  "run_n E n (s, []) = Some s"
| "run_n E 0 (s, a # st) = None"
| "run_n E (Suc n) (s, a # st) = do { (s', new) \<leftarrow> act_n E a s; run_n E n (s', new @ st) }"

fun steps_n :: "'db rcc_env \<Rightarrow> nat \<Rightarrow> 'db config \<Rightarrow> 'db config option" where
  "steps_n E 0 c = Some c"
| "steps_n E (Suc n) (s, []) = None"
| "steps_n E (Suc n) (s, a # st) = do { (s', new) \<leftarrow> act_n E a s; steps_n E n (s', new @ st) }"

definition handle_n :: "'db rcc_env \<Rightarrow> nat \<Rightarrow> message \<Rightarrow> 'db server \<Rightarrow> 'db server option" where
  "handle_n E n m s = do { c \<leftarrow> deliver E m s; run_n E n c }"

lemma strong_connect_more:
  shows "strong_connect n g v st = Some r \<Longrightarrow> strong_connect (Suc n) g v st = Some r"
    and "sc_children n g v ws st = Some st' \<Longrightarrow> sc_children (Suc n) g v ws st = Some st'"
proof (induction n g v st and n g v ws st arbitrary: r and st' rule: strong_connect_sc_children.induct)
  case (2 n g v st)
  then obtain st1 where st1: "sc_children n g v (map fst (to_edges g v)) (sc_enter v st) = Some st1" "sc_finish v st1 = Some r"
    by (auto split: Option.bind_splits)
  then show ?case
    using 2(1)[OF st1(1)] by (simp only: strong_connect.simps) simp
next
  case (4 n g v w ws st)
  show ?case
  proof (cases "sc_idx st w")
    case None
    then obtain x st1 where st1: "strong_connect n g w st = Some (x, st1)" "sc_children n g v ws (sc_min v (sc_low st1 w) st1) = Some st'"
      using 4(4) by (auto split: Option.bind_splits)
    then show ?thesis
      using 4(1)[OF None st1(1)] 4(2)[OF None st1(1) refl st1(2)] None by simp
  next
    case (Some i)
    then show ?thesis
      using 4 by simp
  qed
qed simp_all

lemma strong_connect_le: "strong_connect n g v st = Some r \<Longrightarrow> n \<le> m \<Longrightarrow> strong_connect m g v st = Some r"
  by (induction m) (use strong_connect_more(1) le_Suc_eq in blast)+

lemma scc_n_ok:
  assumes "graph_inv g" "scc_n v g = Some ret"
  shows "find_scc v g = Some ret"
proof -
  obtain r where r: "strong_connect (Suc (card (all_vids g))) g v sc_init = Some r"
    using find_scc_ok[OF graph_inv_finite[OF assms(1)], of v] by (auto simp: find_scc_def)
  obtain r' where r': "strong_connect (Suc (length (g_vertex_index g))) g v sc_init = Some r'" "ret = fst r'"
    using assms(2) by (auto simp: scc_n_def)
  have "r = r'"
    using strong_connect_le[OF r, of "Suc (length (g_vertex_index g))"] strong_connect_le[OF r'(1), of "Suc (card (all_vids g))"] r r'(1)
    by (metis nat_le_linear option.inject)
  then show ?thesis
    using r r'(2) by (simp add: find_scc_def)
qed

lemma wish_n_ok:
  assumes "graph_inv (sv_gra s)" "wish_n E w s = Some c"
  shows "run_wish E w s = Some c"
  using assms(2) scc_n_ok[OF assms(1)]
  by (cases w) (auto simp: wish_n_def run_wish_def find_txn_scc_nearest_anc_def sorted_scc_def sorted_from_def Let_def split: Option.bind_splits if_splits)

lemma act_n_ok:
  assumes "graph_inv (sv_gra s)" "act_n E a s = Some c"
  shows "rcc_act E a s = Some c"
proof (cases a)
  case (ABall b)
  then show ?thesis
    using assms wish_n_ok[of "s\<lparr>sv_balls := (sv_balls s)(b := None)\<rparr>" E _ c] by (auto simp: ball_n_def ball_trigger_def split: Option.bind_splits if_splits)
qed (use assms(2) in auto)

lemma run_n_ok: "env_ok E \<Longrightarrow> rcc_reach E c \<Longrightarrow> run_n E n c = Some r \<Longrightarrow> rcc_reach E (r, []) \<and> rcc_run E c = Some r"
proof (induction E n c rule: run_n.induct)
  case (1 E n s)
  then show ?case
    by (simp add: rcc_run.simps)
next
  case (3 E n s a st)
  then obtain s' new where a: "act_n E a s = Some (s', new)" "run_n E n (s', new @ st) = Some r"
    by (auto split: Option.bind_splits)
  have "graph_inv (sv_gra s)"
    using base_okD(1)[OF rcc_invD(1)[OF reach_inv[OF 3(2,3)]]] by simp
  then have step: "rcc_step E (s, a # st) = Some (s', new @ st)"
    using act_n_ok[OF _ a(1)] by (simp add: rcc_step_def)
  have "rcc_run E (s, a # st) = rcc_run E (s', new @ st)"
    using rcc_run.simps[of E "(s, a # st)"] step by simp
  then show ?case
    using 3(1)[OF a(1) refl 3(2) rcc_reach.step[OF 3(3) step] a(2)] by simp
qed simp

lemma steps_n_ok: "env_ok E \<Longrightarrow> rcc_reach E c \<Longrightarrow> steps_n E n c = Some c' \<Longrightarrow> (rcc_next E)\<^sup>*\<^sup>* c c'"
proof (induction E n c rule: steps_n.induct)
  case (3 E n s a st)
  then obtain s' new where a: "act_n E a s = Some (s', new)" "steps_n E n (s', new @ st) = Some c'"
    by (auto split: Option.bind_splits)
  have "graph_inv (sv_gra s)"
    using base_okD(1)[OF rcc_invD(1)[OF reach_inv[OF 3(2,3)]]] by simp
  then have step: "rcc_step E (s, a # st) = Some (s', new @ st)"
    using act_n_ok[OF _ a(1)] by (simp add: rcc_step_def)
  show ?case
    using converse_rtranclp_into_rtranclp[OF rcc_next.next_step[OF step] 3(1)[OF a(1) refl 3(2) rcc_reach.step[OF 3(3) step] a(2)]] .
qed simp_all

lemma handle_n_ok:
  assumes "env_ok E" "rcc_reach E (s, [])" "msg_ok s m" "handle_n E n m s = Some s'"
  shows "rcc_reach E (s', [])" "rcc_handle E m s = Some s'"
proof -
  obtain c where c: "deliver E m s = Some c" "run_n E n c = Some s'"
    using assms(4) by (auto simp: handle_n_def split: Option.bind_splits)
  show "rcc_reach E (s', [])" "rcc_handle E m s = Some s'"
    using run_n_ok[OF assms(1) rcc_reach.message[OF assms(2,3) c(1)] c(2)] c(1) by (simp_all add: rcc_handle_def)
qed

subsection \<open>An example\<close>

text \<open>Two servers; this is server 0. All pieces are deferred, touch the column of the only row and add to a counter when they are executed.\<close>

partial_function (option) first_free :: "graph \<Rightarrow> vid \<Rightarrow> vid option" where
  "first_free g n = (if g_vertex g n = None then Some n else first_free g (Suc n))"

definition free_alloc :: allocator where
  "free_alloc g = (case first_free g 0 of Some v \<Rightarrow> v | None \<Rightarrow> 0)"

lemma first_free_found: "n \<le> m \<Longrightarrow> g_vertex g m = None \<Longrightarrow> \<exists>v. first_free g n = Some v \<and> g_vertex g v = None"
proof (induction "m - n" arbitrary: n)
  case 0
  then show ?case
    by (simp add: first_free.simps)
next
  case (Suc k)
  show ?case
    using Suc(1)[of "Suc n"] Suc(2-) by (cases "g_vertex g n") (simp_all add: first_free.simps[of g n])
qed

lemma free_alloc_ok: "alloc_ok free_alloc"
  unfolding alloc_ok_def
proof (intro allI impI)
  fix g :: graph
  assume "finite (dom (g_vertex g))"
  then obtain m where "m \<notin> dom (g_vertex g)"
    using ex_new_if_finite infinite_UNIV_nat by blast
  then obtain v where "first_free g 0 = Some v" "g_vertex g v = None"
    using first_free_found[of 0 m g] by blast
  then show "free_alloc g \<notin> dom (g_vertex g)"
    by (auto simp: free_alloc_def)
qed

declare first_free.simps [code]

declare anc_opt_loop.simps [code]

definition ex_handler :: "nat txn_handler" where
  "ex_handler phase header input wanted rows db =
     Some \<lparr>pr_ops = (if phase = 1 then [Kiss 0 0 False] else []), pr_db = (if phase = 1 then db else Suc db), pr_output = [], pr_rows = []\<rparr>"

definition ex_env :: "nat rcc_env" where
  "ex_env = \<lparr>ev_site = 0, ev_sites = 2, ev_registry = (\<lambda>_ _. Some (ex_handler, DF_REAL)), ev_alloc = free_alloc, ev_order = sorted_list_of_set\<rparr>"

definition ex_server :: "nat server" where
  "ex_server = server_new 0 [0 \<mapsto> [None]]"

definition ex_header :: "u64 \<Rightarrow> req_header" where
  "ex_header tid = \<lparr>h_t_type = 1, h_p_type = 1, h_cid = 0, h_tid = tid, h_pid = tid, h_timestamp = 1\<rparr>"

text \<open>The graph with which transaction 10 finishes: it follows transaction 20, which so far has a piece at server 1 only. Then the graphs of
  server 1's answer and of the finish of transaction 20, where it is committing.\<close>

definition asked_graph :: graph where
  "asked_graph = snd (start_pie 1 0 20 1 graph_new)"

definition gra10 :: graph where
  "gra10 = add_edge 0 1 EDGE_D (snd (start_pie 0 1 10 1 asked_graph))"

definition gra20 :: graph where
  "gra20 = upd_data 0 (\<lambda>d. d\<lparr>ti_status := TXN_CMT\<rparr>) asked_graph"

definition race_start :: "nat server option" where
  "race_start = do {
     s1 \<leftarrow> handle_n ex_env 100 (StartPie 1 (ex_header 10) []) ex_server;
     s2 \<leftarrow> handle_n ex_env 100 (FinishTxn 2 10 1 gra10) s1;
     handle_n ex_env 100 (StartPie 3 (ex_header 20) []) s2
   }"

definition race_end :: "nat server \<Rightarrow> nat server option" where
  "race_end s = do {
     s1 \<leftarrow> handle_n ex_env 100 (AskAnswer (hd (sv_asked s)) gra20) s;
     handle_n ex_env 100 (FinishTxn 4 20 1 gra20) s1
   }"

lemma ex_env_ok: "env_ok ex_env"
  using free_alloc_ok by (simp add: env_ok_def ex_env_def)

lemma ex_server_reach: "rcc_reach ex_env (ex_server, [])"
  unfolding ex_server_def by (rule rcc_reach.start) (simp add: fresh_rows_def)

lemma asked_graph_inv: "graph_inv asked_graph"
  unfolding asked_graph_def by (rule graph_inv_start_pie[OF graph_inv_new]) (simp add: graph_new_def)

lemma gra_inv: "graph_inv gra10" "graph_inv gra20"
proof -
  have "1 \<notin> dom (g_vertex asked_graph)"
    by (simp add: asked_graph_def graph_eval start_pie_def)
  then have "graph_inv (snd (start_pie 0 1 10 1 asked_graph))"
    using graph_inv_start_pie[OF asked_graph_inv] by blast
  then show "graph_inv gra10"
    unfolding gra10_def by (rule graph_inv_add_edge) (simp_all add: asked_graph_def graph_eval start_pie_def)
  show "graph_inv gra20"
    unfolding gra20_def by (rule graph_inv_upd_data[OF asked_graph_inv]) simp
qed

lemma gra_msg: "msg_graph gra10" "msg_graph gra20"
proof -
  have "data_fresh d" if "gdata gra10 v = Some d" for v d
    using that by (auto simp: gra10_def asked_graph_def graph_eval start_pie_def gdata_def data_fresh_def data_ok_def txn_info_new_def smap_inv_def TXN_UKN_def
        split: if_splits)
  moreover have "data_fresh d" if "gdata gra20 v = Some d" for v d
    using that by (auto simp: gra20_def asked_graph_def graph_eval start_pie_def gdata_def data_fresh_def data_ok_def txn_info_new_def smap_inv_def TXN_CMT_def
        upd_data_def split: if_splits)
  ultimately show "msg_graph gra10" "msg_graph gra20"
    using gra_inv by (simp_all add: msg_graph_def)
qed

lemma race_start_eval:
  "case race_start of None \<Rightarrow> False
   | Some s \<Rightarrow> (case vdata s (hd (sv_asked s)) of None \<Rightarrow> False | Some d \<Rightarrow> (case node gra20 (ti_id d) of None \<Rightarrow> False | Some t \<Rightarrow> is_finish t))"
  by code_simp

lemma race_end_eval:
  "case race_start \<bind> race_end of None \<Rightarrow> False
   | Some s \<Rightarrow> executed s = [10] \<and> Replied 4 \<notin> set (sv_out s) \<and> sv_asked s = [] \<and> sv_db s = 1
      \<and> list_all (\<lambda>b. Option.is_none (sv_balls s b)) [0..<sv_next s]
      \<and> list_all (\<lambda>v. case vdata s v of None \<Rightarrow> False | Some d \<Rightarrow> ti_res d \<noteq> None) (g_vertex_index (sv_gra s))
      \<and> (case vdata s 1 of None \<Rightarrow> False | Some d \<Rightarrow> ti_id d = 20 \<and> is_commit d \<and> is_involved 0 d \<and> ti_res d = Some 4)
      \<and> (case sv_dtxns s 20 of None \<Rightarrow> False | Some t \<Rightarrow> length (dt_dreqs t) = 1)"
  by code_simp

lemma race_fire_eval:
  "case race_start of None \<Rightarrow> False
   | Some s0 \<Rightarrow> hd (sv_asked s0) = 1 \<and> 0 \<in> set (ev_at (evs s0 1) TXN_CMT)
      \<and> (case deliver ex_env (AskAnswer 1 gra20) s0 \<bind> steps_n ex_env 10 of None \<Rightarrow> False
         | Some (s, st) \<Rightarrow> take 1 st = [ABall 0] \<and> (case sv_balls s 0 of None \<Rightarrow> False | Some (bl, w) \<Rightarrow> map_option fst (db_trigger bl) = Some True))"
  by code_simp

lemma race_run:
  obtains s0 s where "race_start = Some s0" "race_end s0 = Some s" "rcc_reach ex_env (s0, [])" "rcc_reach ex_env (s, [])"
    "msg_ok s0 (AskAnswer (hd (sv_asked s0)) gra20)"
proof -
  obtain s1 s2 s0 where h: "handle_n ex_env 100 (StartPie 1 (ex_header 10) []) ex_server = Some s1"
      "handle_n ex_env 100 (FinishTxn 2 10 1 gra10) s1 = Some s2" "handle_n ex_env 100 (StartPie 3 (ex_header 20) []) s2 = Some s0"
      "race_start = Some s0"
    using race_start_eval by (cases race_start) (auto simp: race_start_def split: Option.bind_splits)
  have r1: "rcc_reach ex_env (s1, [])"
    using handle_n_ok(1)[OF ex_env_ok ex_server_reach _ h(1)] by (simp add: msg_ok_def)
  have r2: "rcc_reach ex_env (s2, [])"
    using handle_n_ok(1)[OF ex_env_ok r1 _ h(2)] gra_msg by (simp add: msg_ok_def)
  have r0: "rcc_reach ex_env (s0, [])"
    using handle_n_ok(1)[OF ex_env_ok r2 _ h(3)] by (simp add: msg_ok_def)
  have ok: "msg_ok s0 (AskAnswer (hd (sv_asked s0)) gra20)"
    using race_start_eval[unfolded h(4)] gra_msg(2) by (auto simp: msg_ok_def split: option.splits)
  obtain s3 s where e: "handle_n ex_env 100 (AskAnswer (hd (sv_asked s0)) gra20) s0 = Some s3" "handle_n ex_env 100 (FinishTxn 4 20 1 gra20) s3 = Some s"
      "race_end s0 = Some s"
    using race_end_eval[unfolded h(4)] by (cases "race_end s0") (auto simp: race_end_def split: Option.bind_splits)
  have r3: "rcc_reach ex_env (s3, [])"
    using handle_n_ok(1)[OF ex_env_ok r0 ok e(1)] .
  have "rcc_reach ex_env (s, [])"
    using handle_n_ok(1)[OF ex_env_ok r3 _ e(2)] gra_msg by (simp add: msg_ok_def)
  then show ?thesis
    using that h(4) e(3) r0 ok by blast
qed

subsection \<open>The guarantees\<close>

text \<open>C4: In every state that a server can reach, with messages of any number of transactions in any order, a transaction has been executed at most
  once, and only transactions that are decided have been executed.\<close>

theorem rcc_executes_once:
  assumes "env_ok E" "rcc_reach E (s, st)"
  shows "distinct (executed s) \<and> (\<forall>i \<in> set (executed s). \<exists>v d. vdata s v = Some d \<and> ti_id d = i \<and> is_commit d)"
proof -
  have i: "base_ok s" "exec_ok s"
    using rcc_invD(1,2)[OF reach_inv[OF assms]] by simp_all
  have "distinct (executed s)"
    using i(2) unfolding exec_ok_def by blast
  moreover have "\<exists>v d. vdata s v = Some d \<and> ti_id d = i \<and> is_commit d" if x: "i \<in> set (executed s)" for i
  proof -
    obtain v d where v: "vdata s v = Some d" "ti_id d = i" "ti_committed d"
      using i(2) x unfolding exec_ok_def by blast
    then show ?thesis
      using base_okD(4)[OF i(1) v(1)] by (auto simp: data_ok_def)
  qed
  ultimately show ?thesis
    by blast
qed

text \<open>C3: Decisions do not deadlock and no wakeup is lost. When a server has finished its handlers, every answer that it asked for has arrived, and
  the finish request of every transaction with pieces here has arrived, then every transaction with pieces here and every transaction whose decision
  has begun is decided.\<close>

theorem rcc_no_deadlock:
  assumes "env_ok E" "rcc_reach E (s, [])" "sv_asked s = []"
    and "\<forall>v d. vdata s v = Some d \<and> is_involved (ev_site E) d \<longrightarrow> ti_res d \<noteq> None"
    and "vdata s v = Some d" "is_involved (ev_site E) d \<or> ti_during_commit d"
  shows "is_commit d"
proof -
  have i: "rcc_inv E {} s []"
    using reach_inv[OF assms(1,2)] by simp
  have "ti_during_commit d"
    using assms(4-6) decidingD(2)[OF rcc_invD(5)[OF i] assms(5)] by auto
  then show ?thesis
    using settled[OF i assms(3) _ assms(5)] assms(4) by blast
qed


text \<open>C6: A ball fires only after every transaction that it waits for has reached the status it waits for, whatever steps and messages come in between:
  the ancestors of a transaction are committing before its component is looked for, the ancestors of the component are decided before it is executed, an asked transaction is committing before its graph is sent, and the transactions
  that conflict with a read are decided before it is answered.\<close>

theorem rcc_fires_after_waits:
  assumes "env_ok E" "rcc_reach E (s0, st0)" "k = TXN_CMT \<or> k = TXN_DCD" "\<forall>u \<in> U. waits s0 st0 u k b"
    and "(rcc_next E)\<^sup>*\<^sup>* (s0, st0) (s, ABall b # st)" "sv_balls s b = Some (bl, w)" "db_trigger bl = Some (True, bl')"
  shows "\<forall>u \<in> U. \<exists>d. vdata s u = Some d \<and> (is_commit d \<or> k = TXN_CMT \<and> is_finish d)"
proof -
  have "barrier b k U (fst (s0, st0)) (snd (s0, st0))"
    using assms(4) by (simp add: barrier_def)
  then have n: "rcc_reach E (s, ABall b # st)" "barrier b k U s (ABall b # st)"
    using nexts_barrier[OF assms(1,2,5) _ assms(3)] by auto
  have "rcc_inv E {} s (ABall b # st)"
    using reach_inv[OF assms(1) n(1)] by simp
  then show ?thesis
    using fires_after[OF _ n(2) assms(6,7)] by (simp add: past_def)
qed


subsection \<open>Witnesses\<close>

lemma race_state:
  obtains s d where "rcc_reach ex_env (s, [])" "executed s = [10]" "sv_asked s = []" "vdata s 1 = Some d" "is_involved (ev_site ex_env) d"
    "\<And>v d. vdata s v = Some d \<Longrightarrow> ti_res d \<noteq> None"
proof -
  obtain s0 s where s: "race_start = Some s0" "race_end s0 = Some s" "rcc_reach ex_env (s, [])"
    using race_run by metis
  have e: "executed s = [10]" "sv_asked s = []" "list_all (\<lambda>v. case vdata s v of None \<Rightarrow> False | Some d \<Rightarrow> ti_res d \<noteq> None) (g_vertex_index (sv_gra s))"
      "\<exists>d. vdata s 1 = Some d \<and> is_involved 0 d"
    using race_end_eval[unfolded s(1)] s(2) by (auto split: option.splits)
  have "ti_res d \<noteq> None" if "vdata s v = Some d" for v d
  proof -
    have "graph_inv (sv_gra s)"
      using base_okD(1)[OF rcc_invD(1)[OF reach_inv[OF ex_env_ok s(3)]]] by simp
    then have "v \<in> set (g_vertex_index (sv_gra s))"
      using graph_invD(1) vdata_dom[of s] that by (metis domI)
    then show ?thesis
      using e(3) that by (auto simp: list_all_iff split: option.splits)
  qed
  moreover have "ev_site ex_env = 0"
    by (simp add: ex_env_def)
  ultimately show ?thesis
    using that s(3) e(1,2,4) by metis
qed

theorem rcc_executes_once_witness:
  "env_ok ex_env \<and> (\<exists>s. rcc_reach ex_env (s, []) \<and> executed s = [10] \<and> (\<exists>v d. vdata s v = Some d \<and> ti_id d = 10 \<and> is_commit d))"
proof -
  obtain s where s: "rcc_reach ex_env (s, [])" "executed s = [10]"
    using race_state by metis
  show ?thesis
    using rcc_executes_once[OF ex_env_ok s(1)] ex_env_ok s by auto
qed

theorem rcc_no_deadlock_witness:
  "env_ok ex_env \<and> (\<exists>s d. rcc_reach ex_env (s, []) \<and> sv_asked s = [] \<and> vdata s 1 = Some d \<and> is_involved (ev_site ex_env) d \<and> is_commit d)"
proof -
  obtain s d where s: "rcc_reach ex_env (s, [])" "sv_asked s = []" "vdata s 1 = Some d" "is_involved (ev_site ex_env) d"
      "\<And>v d. vdata s v = Some d \<Longrightarrow> ti_res d \<noteq> None"
    using race_state by metis
  have "is_commit d"
    using s(4,5) by (intro rcc_no_deadlock[OF ex_env_ok s(1,2) _ s(3)]) auto
  then show ?thesis
    using ex_env_ok s by blast
qed


theorem rcc_fires_after_waits_witness:
  "\<exists>s0 s st bl w bl' d. rcc_reach ex_env (s0, []) \<and> waits s0 [] 1 TXN_CMT 0 \<and> (rcc_next ex_env)\<^sup>*\<^sup>* (s0, []) (s, ABall 0 # st)
     \<and> sv_balls s 0 = Some (bl, w) \<and> db_trigger bl = Some (True, bl') \<and> vdata s 1 = Some d \<and> (is_commit d \<or> is_finish d)"
proof -
  obtain s0 where s: "race_start = Some s0" "rcc_reach ex_env (s0, [])" "msg_ok s0 (AskAnswer (hd (sv_asked s0)) gra20)"
    using race_run by metis
  obtain c s st where c: "hd (sv_asked s0) = 1" "0 \<in> set (ev_at (evs s0 1) TXN_CMT)" "deliver ex_env (AskAnswer 1 gra20) s0 = Some c"
      "steps_n ex_env 10 c = Some (s, st)" "take 1 st = [ABall 0]"
      "case sv_balls s 0 of None \<Rightarrow> False | Some (bl, w) \<Rightarrow> map_option fst (db_trigger bl) = Some True"
    using race_fire_eval[unfolded s(1)] by (auto split: Option.bind_splits option.splits)
  obtain st' where st: "st = ABall 0 # st'"
    using c(5) by (cases st) auto
  obtain bl w bl' where b: "sv_balls s 0 = Some (bl, w)" "db_trigger bl = Some (True, bl')"
    using c(6) by (auto split: option.splits)
  have "rcc_next ex_env (s0, []) c"
    using rcc_next.next_message s(3) c(1,3) by metis
  moreover have "rcc_reach ex_env c"
    using next_reach[OF s(2)] calculation by blast
  ultimately have n: "(rcc_next ex_env)\<^sup>*\<^sup>* (s0, []) (s, ABall 0 # st')"
    using steps_n_ok[OF ex_env_ok _ c(4)] st converse_rtranclp_into_rtranclp by metis
  have w: "waits s0 [] 1 TXN_CMT 0"
    using c(2) by (simp add: waits_def)
  then show ?thesis
    using rcc_fires_after_waits[OF ex_env_ok s(2) _ _ n b, of TXN_CMT "{1}"] s(2) n b by auto
qed

end
